(* ===== verification/Prelude.thy ===== *)
theory Prelude
  imports Main "HOL-Library.Word"
begin

unbundle bit_operations_syntax

text \<open>
  Shared vocabulary of the development: names for the machine integer types of
  \<^verbatim>\<open>include/fxe/types.hpp\<close>, wrap-around arithmetic on naturals that stand for 32-bit and
  64-bit unsigned values, the half-interval search that several C++ loops and
  \<^verbatim>\<open>std::lower_bound\<close> implement, and generic facts on lists.
\<close>

named_theorems wrap_simps \<open>wrap-around arithmetic that does not wrap\<close>
named_theorems codec_simps \<open>decoders applied to encoded input\<close>

section \<open>Machine integers\<close>

type_synonym u8 = "8 word"
type_synonym u16 = "16 word"
type_synonym u32 = "32 word"
type_synonym u64 = "64 word"
type_synonym bytes = "u8 list"

definition wrap32 :: "nat \<Rightarrow> nat" where
  "wrap32 n = n mod 2 ^ 32"

definition wrap64 :: "nat \<Rightarrow> nat" where
  "wrap64 n = n mod 2 ^ 64"

definition sub32 :: "nat \<Rightarrow> nat \<Rightarrow> nat" where
  "sub32 a b = (a + (2 ^ 32 - b)) mod 2 ^ 32"

definition sub64 :: "nat \<Rightarrow> nat \<Rightarrow> nat" where
  "sub64 a b = (a + (2 ^ 64 - b)) mod 2 ^ 64"

lemma wrap32_id [wrap_simps]: "n < 2 ^ 32 \<Longrightarrow> wrap32 n = n"
  by (simp add: wrap32_def)

lemma wrap64_id [wrap_simps]: "n < 2 ^ 64 \<Longrightarrow> wrap64 n = n"
  by (simp add: wrap64_def)

lemma wrap32_bound: "wrap32 n < 2 ^ 32"
  by (simp add: wrap32_def)

lemma sub32_id [wrap_simps]:
  assumes "b \<le> a" and "a < 2 ^ 32"
  shows "sub32 a b = a - b"
proof -
  have "a + (2 ^ 32 - b) = (a - b) + 2 ^ 32"
    using assms by simp
  then show ?thesis
    using assms by (simp only: sub32_def mod_add_self2) simp
qed

lemma sub64_id [wrap_simps]:
  assumes "b \<le> a" and "a < 2 ^ 64"
  shows "sub64 a b = a - b"
proof -
  have "a + (2 ^ 64 - b) = (a - b) + 2 ^ 64"
    using assms by simp
  then show ?thesis
    using assms by (simp only: sub64_def mod_add_self2) simp
qed

lemma wrap32_0 [simp]: "wrap32 0 = 0"
  by (simp add: wrap32_def)

section \<open>Little-endian integers\<close>

definition le_bytes :: "nat \<Rightarrow> 'a::len word \<Rightarrow> bytes" where
  "le_bytes k n = map (\<lambda>i. ucast (drop_bit (8 * i) n)) [0..<k]"

primrec le_word :: "bytes \<Rightarrow> 'a::len word" where
  "le_word [] = 0"
| "le_word (b # bs) = ucast b OR push_bit 8 (le_word bs)"

lemma length_le_bytes [simp]: "length (le_bytes k n) = k"
  by (simp add: le_bytes_def)

lemma le_bytes_Suc: "le_bytes (Suc k) n = ucast n # le_bytes k (drop_bit 8 n)"
proof -
  have "[0..<Suc k] = 0 # map Suc [0..<k]" by (simp add: upt_conv_Cons map_Suc_upt del: upt_Suc)
  then show ?thesis by (simp add: le_bytes_def add.commute drop_bit_drop_bit del: upt_Suc)
qed

lemma le_word_le_bytes: "le_word (le_bytes k n) = take_bit (8 * k) n"
proof (induction k arbitrary: n)
  case (Suc k)
  have "(ucast (ucast n :: u8) :: 'a word) OR push_bit 8 (take_bit (8 * k) (drop_bit 8 n)) = take_bit (8 * Suc k) n"
    by (rule bit_word_eqI) (auto simp: bit_simps not_less)
  then show ?case by (simp add: le_bytes_Suc Suc)
qed (simp add: le_bytes_def)

lemma le_word_le_bytes_id [codec_simps]:
  "LENGTH('a) \<le> 8 * k \<Longrightarrow> le_word (le_bytes k n) = n" for n :: "'a::len word"
  by (simp add: le_word_le_bytes take_bit_word_eq_self)

lemma bit_le_word_above: "8 * length bs \<le> n \<Longrightarrow> \<not> bit (le_word bs :: 'a::len word) n"
proof (induction bs arbitrary: n)
  case (Cons b bs)
  have "\<not> bit (le_word bs :: 'a word) (n - 8)" using Cons.prems by (intro Cons.IH) simp
  then show ?case
    using Cons.prems by (auto simp: bit_simps dest: bit_imp_le_length)
qed simp

lemma le_bytes_le_word [codec_simps]:
  "8 * length bs \<le> LENGTH('a) \<Longrightarrow> le_bytes (length bs) (le_word bs :: 'a::len word) = bs"
proof (induction bs)
  case (Cons b bs)
  have "(ucast (le_word (b # bs) :: 'a word) :: u8) = b"
    using Cons.prems by (intro bit_word_eqI) (auto simp: bit_simps)
  moreover have "drop_bit 8 (le_word (b # bs) :: 'a word) = le_word bs"
  proof (rule bit_word_eqI)
    fix n assume "n < LENGTH('a)"
    have "bit (le_word bs :: 'a word) n \<Longrightarrow> 8 + n < LENGTH('a)"
      using bit_le_word_above[of bs n, where 'a = 'a] Cons.prems by (fastforce simp: not_le)
    then show "bit (drop_bit 8 (le_word (b # bs) :: 'a word)) n = bit (le_word bs :: 'a word) n"
      by (auto simp: bit_simps dest: bit_imp_le_length)
  qed
  ultimately show ?case using Cons by (simp add: le_bytes_Suc)
qed (simp add: le_bytes_def)

text \<open>The two ways the sources read such an integer.\<close>

lemma foldl_rev_le_word: "foldl (\<lambda>out b. push_bit 8 out OR ucast b) 0 (rev bs) = le_word bs"
  by (induction bs) (simp_all add: or.commute)

lemma foldl_shifts_le_word:
  "foldl (\<lambda>v i. v OR push_bit (8 * i) (ucast (p ! i))) 0 [0..<k] = le_word (take k p)"
  if "k \<le> length p"
proof -
  have gen: "foldl (\<lambda>v i. v OR push_bit (8 * i) (ucast (p ! i))) a [j..<j + k] =
      a OR push_bit (8 * j) (le_word (take k (drop j p)))" if "j + k \<le> length p" for a j
    using that
  proof (induction k arbitrary: a j)
    case (Suc k)
    have "[j..<j + Suc k] = j # [Suc j..<Suc j + k]"
      by (simp add: upt_conv_Cons del: upt_Suc)
    moreover have "take (Suc k) (drop j p) = p ! j # take k (drop (Suc j) p)"
      using Suc.prems by (metis Cons_nth_drop_Suc add_lessD1 add_Suc_right less_add_Suc1 order_less_le_trans take_Suc_Cons)
    ultimately show ?case
      using Suc.IH[of "Suc j"] Suc.prems by (simp add: push_bit_or or.assoc push_bit_push_bit add.commute del: upt_Suc)
  qed simp
  from gen[of 0 0] that show ?thesis by simp
qed

section \<open>Half-interval search\<close>

text \<open>
  The loop \<^verbatim>\<open>while (lo < hi) { mid = (lo + hi) >> 1; if (p(mid)) hi = mid; else lo = mid + 1; }\<close>,
  returning \<^verbatim>\<open>lo\<close>. The sum is not wrapped: the callers search index ranges far below
  \<^verbatim>\<open>2^31\<close>.
\<close>

function bsearch :: "(nat \<Rightarrow> bool) \<Rightarrow> nat \<Rightarrow> nat \<Rightarrow> nat" where
  "bsearch p lo hi =
     (if lo < hi
      then let mid = (lo + hi) div 2
           in if p mid then bsearch p lo mid else bsearch p (mid + 1) hi
      else lo)"
  by pat_completeness auto
termination
  by (relation "measure (\<lambda>(p, lo, hi). hi - lo)") auto

declare bsearch.simps [simp del]

lemma bsearch_stop: "\<not> lo < hi \<Longrightarrow> bsearch p lo hi = lo"
  by (simp add: bsearch.simps [of p lo hi])

lemma bsearch_left:
  "lo < hi \<Longrightarrow> p ((lo + hi) div 2) \<Longrightarrow> bsearch p lo hi = bsearch p lo ((lo + hi) div 2)"
  by (simp add: bsearch.simps [of p lo hi])

lemma bsearch_right:
  "lo < hi \<Longrightarrow> \<not> p ((lo + hi) div 2) \<Longrightarrow> bsearch p lo hi = bsearch p ((lo + hi) div 2 + 1) hi"
  by (simp add: bsearch.simps [of p lo hi])

lemmas bsearch_unfold = bsearch_stop bsearch_left bsearch_right

text \<open>On a predicate that is false below \<open>k\<close> and true from \<open>k\<close> on, the search finds \<open>k\<close>.\<close>

lemma bsearch_eqI:
  assumes "lo \<le> k" "k \<le> hi" and "\<And>i. lo \<le> i \<Longrightarrow> i < k \<Longrightarrow> \<not> p i"
    and "\<And>i. k \<le> i \<Longrightarrow> i < hi \<Longrightarrow> p i"
  shows "bsearch p lo hi = k"
  using assms
proof (induction p lo hi rule: bsearch.induct)
  case (1 p lo hi)
  let ?mid = "(lo + hi) div 2"
  show ?case
  proof (cases "lo < hi")
    case lt: True
    then have mid: "lo \<le> ?mid" "?mid < hi" by auto
    show ?thesis
    proof (cases "p ?mid")
      case True
      then have "k \<le> ?mid" using "1.prems"(3)[OF mid(1)] by (meson not_le)
      moreover have "bsearch p lo ?mid = k"
        using "1.IH"(1)[OF lt refl True "1.prems"(1) \<open>k \<le> ?mid\<close>] "1.prems"(3,4) mid by auto
      ultimately show ?thesis using lt True by (simp add: bsearch_left)
    next
      case False
      then have k: "?mid + 1 \<le> k" using "1.prems"(4)[OF _ mid(2)] by (metis Suc_leI Suc_eq_plus1 not_le)
      have "bsearch p (?mid + 1) hi = k"
        using "1.IH"(2)[OF lt refl False k "1.prems"(2)] "1.prems"(3,4) mid by auto
      then show ?thesis using lt False by (simp add: bsearch_right)
    qed
  next
    case False
    then show ?thesis using "1.prems" by (simp add: bsearch_stop)
  qed
qed

section \<open>Lists\<close>

lemma last_nth: "length xs = Suc n \<Longrightarrow> last xs = xs ! n"
  by (cases xs rule: rev_cases) auto

lemma length_concat_take_mono: "i \<le> j \<Longrightarrow> length (concat (take i xs)) \<le> length (concat (take j xs))"
  by (metis append_take_drop_id concat_append le_add1 length_append min.absorb1 take_take)

lemma concat_take_drop_Suc:
  "i < length xs \<Longrightarrow> concat (take i xs) @ xs ! i @ concat (drop (Suc i) xs) = concat xs"
  by (metis Cons_nth_drop_Suc append_take_drop_id concat.simps(2) concat_append)

lemma insort_key_map: "insort_key f (g x) (map g xs) = map g (insort_key (\<lambda>y. f (g y)) x xs)"
  by (induction xs) simp_all

lemma sort_key_map: "sort_key f (map g xs) = map g (sort_key (\<lambda>x. f (g x)) xs)"
  by (induction xs) (simp_all add: insort_key_map [of f g])

section \<open>Guards\<close>

lemma guard_Some: "(if c then None else x) = Some y \<longleftrightarrow> \<not> c \<and> x = Some y"
  by simp

section \<open>Codecs\<close>

text \<open>
  The contract between a writer and a reader that share a byte stream: reading what was written
  gives the value back and leaves the rest of the stream.
\<close>

locale prefix_codec =
  fixes enc :: "'a \<Rightarrow> 'b list"
    and dec :: "'b list \<Rightarrow> ('a \<times> 'b list) option"
    and wf :: "'a \<Rightarrow> bool"
  assumes dec_enc: "wf x \<Longrightarrow> dec (enc x @ rest) = Some (x, rest)"
begin

lemma enc_prefix_free:
  assumes "wf x" and "wf y" and "enc x @ r = enc y @ s"
  shows "x = y" and "r = s"
proof -
  have "Some (x, r) = Some (y, s)"
    using dec_enc[OF assms(1), of r] dec_enc[OF assms(2), of s] by (simp only: assms(3))
  then show "x = y" "r = s" by simp_all
qed

lemma enc_eq_iff: "wf x \<Longrightarrow> wf y \<Longrightarrow> enc x = enc y \<longleftrightarrow> x = y"
  by (metis enc_prefix_free(1))

lemma enc_inj_on: "inj_on enc {x. wf x}"
  by (auto simp: inj_on_def enc_eq_iff)

text \<open>Several values written one after the other are read back one after the other.\<close>

lemma dec_enc_list:
  assumes "list_all wf xs"
  shows "concat (map enc xs) @ rest = concat (map enc ys) @ s \<Longrightarrow> list_all wf ys \<Longrightarrow>
    length xs = length ys \<Longrightarrow> xs = ys \<and> rest = s"
  using assms
proof (induction xs arbitrary: ys)
  case (Cons x xs)
  then obtain y zs where ys: "ys = y # zs" by (cases ys) auto
  have "enc x @ (concat (map enc xs) @ rest) = enc y @ (concat (map enc zs) @ s)"
    using Cons.prems(1) ys by simp
  moreover have "wf x" "wf y" using Cons.prems ys by simp_all
  ultimately have "x = y" "concat (map enc xs) @ rest = concat (map enc zs) @ s"
    using enc_prefix_free by blast+
  then show ?case using Cons.IH[of zs] Cons.prems(2-4) ys by simp
qed simp

end

end
