(* ===== verification/Utf.thy ===== *)
theory Utf
  imports Prelude
begin

text \<open>
  The UTF-8 and UTF-16 conversions at the V8 boundary of \<^verbatim>\<open>src/core/text_document.cpp\<close>
  (\<^verbatim>\<open>utf8_to_utf16\<close>, \<^verbatim>\<open>emit_utf8\<close>, \<^verbatim>\<open>utf16_to_utf8\<close>, \<^verbatim>\<open>fold_ascii\<close>).
  Bytes are 8-bit words, UTF-16 code units 16-bit words and code points 32-bit words, as
  \<^verbatim>\<open>u8\<close>, \<^verbatim>\<open>char16_t\<close> and \<^verbatim>\<open>char32_t\<close> in the source. The theorems show that converting any
  sequence of code units to UTF-8 and back is the identity, unpaired surrogates included, and
  that decoding is total and never yields more units than bytes.
\<close>

section \<open>Definitions\<close>

text \<open>One iteration of the loop of \<^verbatim>\<open>utf8_to_utf16\<close>: the code point that starts at byte \<open>c\<close>,
  with the bytes \<open>p\<close> after it, and the number of bytes it takes.\<close>

definition utf8_next :: "u8 \<Rightarrow> bytes \<Rightarrow> u32 \<times> nat" where
  "utf8_next c p =
     (if c < 0x80 then (ucast c, 1)
      else if c AND 0xE0 = 0xC0 \<and> length p \<ge> 1 \<and> p ! 0 AND 0xC0 = 0x80
      then (push_bit 6 (ucast c AND 0x1F) OR (ucast (p ! 0) AND 0x3F), 2)
      else if c AND 0xF0 = 0xE0 \<and> length p \<ge> 2 \<and> p ! 0 AND 0xC0 = 0x80 \<and> p ! 1 AND 0xC0 = 0x80
      then (push_bit 12 (ucast c AND 0x0F) OR push_bit 6 (ucast (p ! 0) AND 0x3F) OR
            (ucast (p ! 1) AND 0x3F), 3)
      else if c AND 0xF8 = 0xF0 \<and> length p \<ge> 3 \<and> p ! 0 AND 0xC0 = 0x80 \<and>
              p ! 1 AND 0xC0 = 0x80 \<and> p ! 2 AND 0xC0 = 0x80
      then (push_bit 18 (ucast c AND 0x07) OR push_bit 12 (ucast (p ! 0) AND 0x3F) OR
            push_bit 6 (ucast (p ! 1) AND 0x3F) OR (ucast (p ! 2) AND 0x3F), 4)
      else (0xFFFD, 1))"

definition utf16_units :: "u32 \<Rightarrow> u16 list" where
  "utf16_units cp =
     (if cp \<le> 0xFFFF then [ucast cp]
      else let cp = cp - 0x10000
           in [ucast (0xD800 OR (drop_bit 10 cp AND 0x3FF)), ucast (0xDC00 OR (cp AND 0x3FF))])"

fun utf8_to_utf16 :: "bytes \<Rightarrow> u16 list" where
  "utf8_to_utf16 [] = []"
| "utf8_to_utf16 (c # p) =
     (let (cp, n) = utf8_next c p in utf16_units cp @ utf8_to_utf16 (drop (n - 1) p))"

definition emit_utf8 :: "u32 \<Rightarrow> bytes" where
  "emit_utf8 cp =
     (if cp \<le> 0x7F then [ucast cp]
      else if cp \<le> 0x7FF
      then [ucast (0xC0 OR drop_bit 6 cp), ucast (0x80 OR (cp AND 0x3F))]
      else if cp \<le> 0xFFFF
      then [ucast (0xE0 OR drop_bit 12 cp), ucast (0x80 OR (drop_bit 6 cp AND 0x3F)),
            ucast (0x80 OR (cp AND 0x3F))]
      else [ucast (0xF0 OR drop_bit 18 cp), ucast (0x80 OR (drop_bit 12 cp AND 0x3F)),
            ucast (0x80 OR (drop_bit 6 cp AND 0x3F)), ucast (0x80 OR (cp AND 0x3F))])"

definition surrogate_pair :: "u16 \<Rightarrow> u16 \<Rightarrow> bool" where
  "surrogate_pair c lo \<longleftrightarrow> 0xD800 \<le> c \<and> c \<le> 0xDBFF \<and> 0xDC00 \<le> lo \<and> lo \<le> 0xDFFF"

definition combine_surrogates :: "u16 \<Rightarrow> u16 \<Rightarrow> u32" where
  "combine_surrogates c lo =
     0x10000 + (push_bit 10 (ucast (c - 0xD800)) OR ucast (lo - 0xDC00))"

fun utf16_to_utf8 :: "u16 list \<Rightarrow> bytes" where
  "utf16_to_utf8 [] = []"
| "utf16_to_utf8 [c] = emit_utf8 (ucast c)"
| "utf16_to_utf8 (c # lo # rest) =
     (if surrogate_pair c lo
      then emit_utf8 (combine_surrogates c lo) @ utf16_to_utf8 rest
      else emit_utf8 (ucast c) @ utf16_to_utf8 (lo # rest))"

definition fold_ascii :: "u16 \<Rightarrow> u16" where
  "fold_ascii c = (if 0x41 \<le> c \<and> c \<le> 0x5A then c + 0x20 else c)"

section \<open>Bitwise reasoning by enumeration of bit positions\<close>

lemma all_less_8: "(\<forall>n<(8::nat). P n) \<longleftrightarrow> P 0 \<and> P 1 \<and> P 2 \<and> P 3 \<and> P 4 \<and> P 5 \<and> P 6 \<and> P 7"
  by (simp add: All_less_Suc numeral_eq_Suc) blast

lemma all_less_16: "(\<forall>n<(16::nat). P n) \<longleftrightarrow> P 0 \<and> P 1 \<and> P 2 \<and> P 3 \<and> P 4 \<and> P 5 \<and> P 6 \<and> P 7 \<and>
    P 8 \<and> P 9 \<and> P 10 \<and> P 11 \<and> P 12 \<and> P 13 \<and> P 14 \<and> P 15"
  by (simp add: All_less_Suc numeral_eq_Suc) blast

lemma all_less_32: "(\<forall>n<(32::nat). P n) \<longleftrightarrow> P 0 \<and> P 1 \<and> P 2 \<and> P 3 \<and> P 4 \<and> P 5 \<and> P 6 \<and> P 7 \<and>
    P 8 \<and> P 9 \<and> P 10 \<and> P 11 \<and> P 12 \<and> P 13 \<and> P 14 \<and> P 15 \<and> P 16 \<and> P 17 \<and> P 18 \<and> P 19 \<and>
    P 20 \<and> P 21 \<and> P 22 \<and> P 23 \<and> P 24 \<and> P 25 \<and> P 26 \<and> P 27 \<and> P 28 \<and> P 29 \<and> P 30 \<and> P 31"
  by (simp add: All_less_Suc numeral_eq_Suc) blast

lemma word8_eq_iff: "(x :: u8) = y \<longleftrightarrow> (\<forall>n<8. bit x n = bit y n)"
  by (auto intro: bit_word_eqI)

lemma word16_eq_iff: "(x :: u16) = y \<longleftrightarrow> (\<forall>n<16. bit x n = bit y n)"
  by (auto intro: bit_word_eqI)

lemma word32_eq_iff: "(x :: u32) = y \<longleftrightarrow> (\<forall>n<32. bit x n = bit y n)"
  by (auto intro: bit_word_eqI)

lemma small_bits:
  assumes "unat x < 2 ^ k" and "k \<le> n"
  shows "\<not> bit (x :: 'a::len word) n"
proof -
  have "unat x < 2 ^ n"
    using assms by (meson less_le_trans one_le_numeral power_increasing)
  then have "\<not> bit (unat x) n"
    by (simp add: bit_iff_odd)
  then show ?thesis
    by (simp add: bit_unsigned_iff)
qed

lemma unat_less_of_take_bit:
  assumes "take_bit k x = x"
  shows "unat x < 2 ^ k"
proof -
  have "unat x = take_bit k (unat x)"
    using assms by (metis unsigned_take_bit_eq)
  then show ?thesis
    by (metis take_bit_nat_less_exp)
qed

lemmas bitwise8 = word8_eq_iff all_less_8 bit_simps
lemmas bitwise16 = word16_eq_iff all_less_16 bit_simps
lemmas bitwise32 = word32_eq_iff all_less_32 bit_simps

section \<open>Decoding what was emitted\<close>

text \<open>The prefix test of each branch reads the lead byte that \<open>emit_utf8\<close> writes.\<close>

lemma continuation_byte: "(ucast (0x80 OR (x AND 0x3F)) :: u8) AND 0xC0 = 0x80" for x :: u32
  by (simp add: bitwise8)

lemma lead2: "unat cp < 2 ^ 11 \<Longrightarrow> (ucast (0xC0 OR drop_bit 6 cp) :: u8) AND 0xE0 = 0xC0" for cp :: u32
  using small_bits[of cp 11] by (simp add: bitwise8)

lemma lead3:
  fixes cp :: u32
  assumes "unat cp < 2 ^ 16"
  shows "(ucast (0xE0 OR drop_bit 12 cp) :: u8) AND 0xF0 = 0xE0"
    and "(ucast (0xE0 OR drop_bit 12 cp) :: u8) AND 0xE0 \<noteq> 0xC0"
  using small_bits[OF assms] by (simp_all add: bitwise8)

lemma lead4:
  fixes cp :: u32
  assumes "unat cp < 2 ^ 21"
  shows "(ucast (0xF0 OR drop_bit 18 cp) :: u8) AND 0xF8 = 0xF0"
    and "(ucast (0xF0 OR drop_bit 18 cp) :: u8) AND 0xE0 \<noteq> 0xC0"
    and "(ucast (0xF0 OR drop_bit 18 cp) :: u8) AND 0xF0 \<noteq> 0xE0"
  using small_bits[OF assms] by (simp_all add: bitwise8)

lemma not_ascii:
  fixes x :: u32
  shows "\<not> (ucast (0xC0 OR x) :: u8) < 0x80" and "\<not> (ucast (0xE0 OR x) :: u8) < 0x80"
    and "\<not> (ucast (0xF0 OR x) :: u8) < 0x80"
proof -
  have "\<not> y < 0x80" if "bit y 7" for y :: u8
    using small_bits[of y 7 7] that by (auto simp: word_less_nat_alt)
  then show "\<not> (ucast (0xC0 OR x) :: u8) < 0x80" "\<not> (ucast (0xE0 OR x) :: u8) < 0x80"
      "\<not> (ucast (0xF0 OR x) :: u8) < 0x80"
    by (simp_all add: bit_simps)
qed

lemma join2:
  fixes cp :: u32
  assumes "unat cp < 2 ^ 11"
  shows "push_bit 6 (ucast (ucast (0xC0 OR drop_bit 6 cp) :: u8) AND 0x1F) OR
      (ucast (ucast (0x80 OR (cp AND 0x3F)) :: u8) AND 0x3F) = cp"
  using small_bits[OF assms] by (simp add: bitwise32)

lemma join3:
  fixes cp :: u32
  assumes "unat cp < 2 ^ 16"
  shows "push_bit 12 (ucast (ucast (0xE0 OR drop_bit 12 cp) :: u8) AND 0x0F) OR
      push_bit 6 (ucast (ucast (0x80 OR (drop_bit 6 cp AND 0x3F)) :: u8) AND 0x3F) OR
      (ucast (ucast (0x80 OR (cp AND 0x3F)) :: u8) AND 0x3F) = cp"
  using small_bits[OF assms] by (simp add: bitwise32)

lemma join4:
  fixes cp :: u32
  assumes "unat cp < 2 ^ 21"
  shows "push_bit 18 (ucast (ucast (0xF0 OR drop_bit 18 cp) :: u8) AND 0x07) OR
      push_bit 12 (ucast (ucast (0x80 OR (drop_bit 12 cp AND 0x3F)) :: u8) AND 0x3F) OR
      push_bit 6 (ucast (ucast (0x80 OR (drop_bit 6 cp AND 0x3F)) :: u8) AND 0x3F) OR
      (ucast (ucast (0x80 OR (cp AND 0x3F)) :: u8) AND 0x3F) = cp"
  using small_bits[OF assms] by (simp add: bitwise32)

lemma join1: "unat cp < 2 ^ 7 \<Longrightarrow> ucast (ucast cp :: u8) = cp" for cp :: u32
  using small_bits[of cp 7] by (simp add: bitwise32)

lemma utf8_to_utf16_emit [codec_simps]:
  assumes "unat cp < 2 ^ 21"
  shows "utf8_to_utf16 (emit_utf8 cp @ rest) = utf16_units cp @ utf8_to_utf16 rest"
proof -
  consider (1) "unat cp < 2 ^ 7" | (2) "2 ^ 7 \<le> unat cp" "unat cp < 2 ^ 11"
    | (3) "2 ^ 11 \<le> unat cp" "unat cp < 2 ^ 16" | (4) "2 ^ 16 \<le> unat cp"
    by linarith
  then show ?thesis
  proof cases
    case 1
    moreover have "(ucast cp :: u8) < 0x80"
      using 1 le_less_trans[OF take_bit_nat_less_eq_self, of "unat cp" 128 8]
      by (simp add: word_less_nat_alt unsigned_ucast_eq)
    ultimately show ?thesis
      by (simp add: emit_utf8_def word_le_nat_alt utf8_next_def join1)
  next
    case 2
    then show ?thesis
      using join2[of cp]
      by (simp add: emit_utf8_def word_le_nat_alt utf8_next_def not_ascii lead2 continuation_byte)
  next
    case 3
    then show ?thesis
      using join3[of cp]
      by (simp add: emit_utf8_def word_le_nat_alt utf8_next_def not_ascii lead3 continuation_byte)
  next
    case 4
    then show ?thesis
      using assms join4[of cp]
      by (simp add: emit_utf8_def word_le_nat_alt utf8_next_def not_ascii lead4 continuation_byte)
  qed
qed

lemma unat_ucast_16_32 [simp]: "unat (ucast c :: u32) = unat c" for c :: u16
  by (simp add: unsigned_ucast_eq take_bit_nat_eq_self_iff less_trans [OF unsigned_less])

lemma unat_u16_bound: "unat c < 65536" for c :: u16
  using unsigned_less[of c] by simp

lemma ucast_16_32_16: "ucast (ucast c :: u32) = c" for c :: u16
  by (simp add: bitwise16)

lemma utf16_units_bmp [codec_simps]: "utf16_units (ucast c) = [c]" for c :: u16
  using unat_u16_bound[of c] by (simp add: utf16_units_def word_le_nat_alt ucast_16_32_16)

text \<open>A surrogate is its tag plus ten payload bits.\<close>

lemma surrogate_pairE:
  assumes "surrogate_pair c lo"
  obtains m n :: u16 where "c = 0xD800 + m" "lo = 0xDC00 + n" "unat m < 2 ^ 10" "unat n < 2 ^ 10"
proof
  show "c = 0xD800 + (c - 0xD800)" "lo = 0xDC00 + (lo - 0xDC00)" by simp_all
  show "unat (c - 0xD800) < 2 ^ 10" "unat (lo - 0xDC00) < 2 ^ 10"
    using assms by (auto simp: surrogate_pair_def unat_sub word_le_nat_alt)
qed

lemma tag_or:
  fixes m :: u16
  assumes "unat m < 2 ^ 10"
  shows "0xD800 + m = 0xD800 OR m" and "0xDC00 + m = 0xDC00 OR m"
  using small_bits[OF assms]
  by (rule_tac disjunctive_add_eq_or, simp add: bitwise16)+

definition join20 :: "u16 \<Rightarrow> u16 \<Rightarrow> u32" where
  "join20 m n = push_bit 10 (ucast m) OR ucast n"

lemma join20_bound:
  assumes "unat m < 2 ^ 10" and "unat n < 2 ^ 10"
  shows "unat (join20 m n) < 2 ^ 20"
proof -
  have "take_bit 20 (join20 m n) = join20 m n"
    using small_bits[OF assms(1)] small_bits[OF assms(2)] by (simp add: join20_def bitwise32)
  then show ?thesis
    by (rule unat_less_of_take_bit)
qed

lemma join20_split:
  assumes "unat m < 2 ^ 10" and "unat n < 2 ^ 10"
  shows "(ucast (0xD800 OR (drop_bit 10 (join20 m n) AND 0x3FF)) :: u16) = 0xD800 OR m"
    and "(ucast (0xDC00 OR (join20 m n AND 0x3FF)) :: u16) = 0xDC00 OR n"
  using small_bits[OF assms(1)] small_bits[OF assms(2)] by (simp_all add: join20_def bitwise16)

lemma surrogate_pair_units [codec_simps]:
  assumes "surrogate_pair c lo"
  shows "utf16_units (combine_surrogates c lo) = [c, lo]"
    and "unat (combine_surrogates c lo) < 2 ^ 21"
proof -
  obtain m n where mn: "c = 0xD800 + m" "lo = 0xDC00 + n" "unat m < 2 ^ 10" "unat n < 2 ^ 10"
    using assms by (rule surrogate_pairE)
  have cp: "combine_surrogates c lo = 0x10000 + join20 m n"
    by (simp add: combine_surrogates_def join20_def mn)
  have un: "unat (0x10000 + join20 m n) = 0x10000 + unat (join20 m n)"
    using join20_bound[OF mn(3,4)] by (subst unat_add_lem [THEN iffD1]) simp_all
  then show "unat (combine_surrogates c lo) < 2 ^ 21"
    using join20_bound[OF mn(3,4)] by (simp add: cp)
  have "\<not> combine_surrogates c lo \<le> 0xFFFF"
    by (simp add: cp word_le_nat_alt un)
  moreover have "combine_surrogates c lo - 0x10000 = join20 m n"
    by (simp add: cp)
  moreover have "c = 0xD800 OR m" "lo = 0xDC00 OR n"
    by (simp_all add: mn(1,2) tag_or[OF mn(3)] tag_or[OF mn(4)])
  ultimately show "utf16_units (combine_surrogates c lo) = [c, lo]"
    using join20_split[OF mn(3,4)] by (simp only: utf16_units_def Let_def if_False)
qed

lemma emit_bmp_bound: "unat (ucast c :: u32) < 2 ^ 21" for c :: u16
  using unat_u16_bound[of c] by simp

section \<open>Properties\<close>

text \<open>
  UTF-16 to UTF-8 and back is the identity on every sequence of code units, unpaired
  surrogates included.\<close>

theorem utf_round_trip: "utf8_to_utf16 (utf16_to_utf8 s) = s"
proof (induction s rule: utf16_to_utf8.induct)
  case (2 c)
  show ?case
    using utf8_to_utf16_emit[OF emit_bmp_bound, of c "[]"] by (simp add: utf16_units_bmp)
next
  case (3 c lo rest)
  then show ?case
    by (cases "surrogate_pair c lo")
      (simp_all add: utf8_to_utf16_emit[OF surrogate_pair_units(2)] surrogate_pair_units(1)
        utf8_to_utf16_emit[OF emit_bmp_bound] utf16_units_bmp)
qed simp

lemma utf8_next_progress: "1 \<le> snd (utf8_next c p) \<and> snd (utf8_next c p) \<le> Suc (length p)"
  by (simp add: utf8_next_def)

lemma utf8_next_units: "length (utf16_units (fst (utf8_next c p))) \<le> snd (utf8_next c p)"
proof -
  have bmp: "length (utf16_units x) = 1" if "take_bit 16 x = x" for x :: u32
  proof -
    have "unat x < 2 ^ 16" using that by (rule unat_less_of_take_bit)
    then show ?thesis by (simp add: utf16_units_def word_le_nat_alt)
  qed
  have le2: "length (utf16_units x) \<le> 2" for x
    by (simp add: utf16_units_def Let_def)
  have no: "\<not> bit x n" if "8 \<le> n" for x :: u8 and n
    using that bit_imp_le_length[of x n] by auto
  have "length (utf16_units (ucast c)) = 1"
    "length (utf16_units (push_bit 6 (ucast c AND 0x1F) OR (ucast x AND 0x3F))) = 1"
    "length (utf16_units (push_bit 12 (ucast c AND 0x0F) OR push_bit 6 (ucast x AND 0x3F) OR
      (ucast y AND 0x3F))) = 1" "length (utf16_units 0xFFFD) = 1" for x y :: u8
    by (rule bmp, simp add: bitwise32 no)+
  then have "length (utf16_units (fst (utf8_next c p))) = 1 \<or> snd (utf8_next c p) = 4"
    unfolding utf8_next_def by (simp only: fst_conv snd_conv simp_thms if_True split: if_split)
  then show ?thesis
    using le2[of "fst (utf8_next c p)"] utf8_next_progress[of c p] by auto
qed

text \<open>
  Decoding is total, and its result never has more code units than the input has bytes,
  so the capacity reserved up front suffices.\<close>

theorem utf8_to_utf16_length: "length (utf8_to_utf16 bs) \<le> length bs"
proof (induction bs rule: utf8_to_utf16.induct)
  case (2 c p)
  obtain cp n where step: "utf8_next c p = (cp, n)" by fastforce
  have "length (utf8_to_utf16 (drop (n - 1) p)) \<le> length (drop (n - 1) p)"
    using 2 step by simp
  then show ?case
    using utf8_next_units[of c p] utf8_next_progress[of c p] step by simp linarith
qed simp

end
