(* ===== verification/Text_Document.thy ===== *)
theory Text_Document
  imports Utf
begin

text \<open>
  The editor buffer \<^verbatim>\<open>fxe::text_document\<close> (\<^verbatim>\<open>include/fxe/text_document.hpp\<close>,
  \<^verbatim>\<open>src/core/text_document.cpp\<close>): a piece array over an immutable original buffer and an
  append-only add buffer, with prefix sums of lengths and of newline counts. Offsets are
  naturals that stand for \<^verbatim>\<open>u32\<close> values; every addition, subtraction and narrowing cast of the
  source that can wrap is written with \<open>wrap32\<close> or \<open>sub32\<close>. A listener is an opaque value
  of type \<open>'fn\<close>; an edit returns the calls it makes, in order. Reads of a buffer outside its
  bounds, undefined in C++, are unspecified here; the invariant \<open>doc_inv\<close> shows they do not
  occur. The abstraction \<open>doc_text\<close> is the text the pieces spell; the theorems refine every
  operation to the plain list operation on it.
\<close>

section \<open>Data\<close>

record text_document_edit =
  e_start :: nat
  e_removed :: nat
  e_deleted :: "u16 list"
  e_inserted :: "u16 list"

record text_line_range =
  r_start :: nat
  r_end :: nat

datatype buf = Original | Add

record piece =
  p_source :: buf
  p_start :: nat
  p_length :: nat
  p_line_starts :: "nat list"

record 'fn text_document =
  original :: "u16 list"
  add_buffer :: "u16 list"
  pieces :: "piece list"
  cum_len :: "nat list"
  cum_lines :: "nat list"
  revision :: nat
  next_listener_id :: nat
  listeners :: "(nat \<times> 'fn) list"

section \<open>Operations\<close>

abbreviation newline :: u16 where
  "newline \<equiv> 10"

definition buf_for :: "'fn text_document \<Rightarrow> buf \<Rightarrow> u16 list" where
  "buf_for d b = (if b = Original then original d else add_buffer d)"

definition make_piece :: "'fn text_document \<Rightarrow> buf \<Rightarrow> nat \<Rightarrow> nat \<Rightarrow> piece" where
  "make_piece d source start len =
     (let src = buf_for d source; end = wrap32 (start + len)
      in \<lparr>p_source = source, p_start = start, p_length = len,
          p_line_starts = map (\<lambda>i. sub32 i start) (filter (\<lambda>i. src ! i = newline) [start..<end])\<rparr>)"

fun cum_from :: "nat \<Rightarrow> nat list \<Rightarrow> nat list" where
  "cum_from a [] = [a]"
| "cum_from a (n # ns) = a # cum_from (wrap32 (a + n)) ns"

definition rebuild_cum :: "'fn text_document \<Rightarrow> 'fn text_document" where
  "rebuild_cum d = d\<lparr>
     cum_len := cum_from 0 (map p_length (pieces d)),
     cum_lines := cum_from 0 (map (\<lambda>p. wrap32 (length (p_line_starts p))) (pieces d))\<rparr>"

definition empty_document :: "'fn text_document" where
  "empty_document = \<lparr>original = [], add_buffer = [], pieces = [], cum_len = [], cum_lines = [],
     revision = 0, next_listener_id = 1, listeners = []\<rparr>"

definition new_document :: "u16 list \<Rightarrow> 'fn text_document" where
  "new_document initial =
     (let d = empty_document\<lparr>original := initial\<rparr>
      in rebuild_cum
           (if original d \<noteq> []
            then d\<lparr>pieces := [make_piece d Original 0 (wrap32 (length (original d)))]\<rparr>
            else d))"

definition new_document_utf8 :: "bytes \<Rightarrow> 'fn text_document" where
  "new_document_utf8 initial_utf8 = new_document (utf8_to_utf16 initial_utf8)"

definition doc_length :: "'fn text_document \<Rightarrow> nat" where
  "doc_length d = (if cum_len d = [] then 0 else last (cum_len d))"

definition line_count :: "'fn text_document \<Rightarrow> nat" where
  "line_count d = wrap32 ((if cum_lines d = [] then 0 else last (cum_lines d)) + 1)"

definition piece_count :: "'fn text_document \<Rightarrow> nat" where
  "piece_count d = wrap32 (length (pieces d))"

definition piece_at :: "'fn text_document \<Rightarrow> nat \<Rightarrow> nat \<times> nat" where
  "piece_at d offset =
     (if pieces d = [] then (0, 0)
      else let n = length (pieces d);
               lo = bsearch (\<lambda>mid. \<not> cum_len d ! (mid + 1) \<le> offset) 0 n;
               idx = min lo (n - 1)
           in (idx, sub32 offset (cum_len d ! idx)))"

fun slice_loop :: "'fn text_document \<Rightarrow> piece list \<Rightarrow> nat \<Rightarrow> nat \<Rightarrow> u16 list" where
  "slice_loop d [] inner remaining = []"
| "slice_loop d (p # ps) inner remaining =
     (if remaining > 0
      then let n = min remaining (sub32 (p_length p) inner)
           in take n (drop (p_start p + inner) (buf_for d (p_source p)))
              @ slice_loop d ps 0 (remaining - n)
      else [])"

definition slice :: "'fn text_document \<Rightarrow> nat \<Rightarrow> nat \<Rightarrow> u16 list" where
  "slice d start end =
     (let len = doc_length d;
          start = (if start > len then len else start);
          end = (if end > len then len else end)
      in if start \<ge> end then []
         else let (idx, inner) = piece_at d start
              in slice_loop d (drop idx (pieces d)) inner (end - start))"

definition slice_utf8 :: "'fn text_document \<Rightarrow> nat \<Rightarrow> nat \<Rightarrow> bytes" where
  "slice_utf8 d start end = utf16_to_utf8 (slice d start end)"

definition text_utf8 :: "'fn text_document \<Rightarrow> bytes" where
  "text_utf8 d = slice_utf8 d 0 (doc_length d)"

definition code_unit_at :: "'fn text_document \<Rightarrow> nat \<Rightarrow> u16" where
  "code_unit_at d offset =
     (if offset \<ge> doc_length d then 0
      else let (idx, inner) = piece_at d offset; p = pieces d ! idx
           in buf_for d (p_source p) ! wrap32 (p_start p + inner))"

definition line_to_offset :: "'fn text_document \<Rightarrow> nat \<Rightarrow> nat" where
  "line_to_offset d line =
     (if line = 0 then 0
      else if line \<ge> line_count d then doc_length d
      else let idx = bsearch (\<lambda>mid. cum_lines d ! (mid + 1) \<ge> line) 0 (length (pieces d))
           in if idx \<ge> length (pieces d) then doc_length d
              else let p = pieces d ! idx;
                       lines_before = cum_lines d ! idx;
                       wanted_within = sub32 (sub32 line lines_before) 1
                   in if wanted_within \<ge> length (p_line_starts p) then cum_len d ! idx
                      else wrap32 (cum_len d ! idx + wrap32 (p_line_starts p ! wanted_within + 1)))"

definition lower_bound :: "nat list \<Rightarrow> nat \<Rightarrow> nat" where
  "lower_bound xs v = bsearch (\<lambda>mid. \<not> xs ! mid < v) 0 (length xs)"

definition offset_to_line :: "'fn text_document \<Rightarrow> nat \<Rightarrow> nat" where
  "offset_to_line d offset =
     (if offset = 0 then 0
      else if offset \<ge> doc_length d then sub32 (line_count d) 1
      else let (idx, inner) = piece_at d offset; p = pieces d ! idx
           in wrap32 (cum_lines d ! idx + wrap32 (lower_bound (p_line_starts p) inner)))"

definition line_range :: "'fn text_document \<Rightarrow> nat \<Rightarrow> text_line_range" where
  "line_range d line =
     (let total = line_count d
      in if line \<ge> total then \<lparr>r_start = doc_length d, r_end = doc_length d\<rparr>
         else let start = line_to_offset d line;
                  next = (if wrap32 (line + 1) \<ge> total then doc_length d
                          else line_to_offset d (wrap32 (line + 1)));
                  end = (if next > start \<and> code_unit_at d (sub32 next 1) = newline
                         then sub32 next 1 else next)
              in \<lparr>r_start = start, r_end = end\<rparr>)"

definition line_text :: "'fn text_document \<Rightarrow> nat \<Rightarrow> u16 list" where
  "line_text d line = (let r = line_range d line in slice d (r_start r) (r_end r))"

definition split_at :: "'fn text_document \<Rightarrow> nat \<Rightarrow> 'fn text_document" where
  "split_at d offset =
     (if pieces d = [] then d
      else if offset = 0 \<or> offset \<ge> doc_length d then d
      else let (idx, inner) = piece_at d offset
           in if inner = 0 then d
              else let p = pieces d ! idx;
                       left = make_piece d (p_source p) (p_start p) inner;
                       right = make_piece d (p_source p) (wrap32 (p_start p + inner))
                                 (sub32 (p_length p) inner)
                   in rebuild_cum (d\<lparr>pieces :=
                        take (idx + 1) ((pieces d)[idx := left]) @ right #
                        drop (idx + 1) ((pieces d)[idx := left])\<rparr>))"

definition piece_starting_at :: "'fn text_document \<Rightarrow> nat \<Rightarrow> nat" where
  "piece_starting_at d offset =
     (if offset \<ge> doc_length d then length (pieces d)
      else bsearch (\<lambda>mid. \<not> cum_len d ! mid < offset) 0 (length (pieces d)))"

text \<open>The clamping and swapping at the start of \<^verbatim>\<open>replace_internal\<close>, the splice of the piece
  array at its end, and the whole function.\<close>

definition clamp_offsets :: "'fn text_document \<Rightarrow> nat \<Rightarrow> nat \<Rightarrow> nat \<times> nat" where
  "clamp_offsets d start end =
     (let len = doc_length d;
          start = (if start > len then len else start);
          end = (if end > len then len else end)
      in if start > end then (end, start) else (start, end))"

definition splice_pieces ::
    "'fn text_document \<Rightarrow> nat \<Rightarrow> nat \<Rightarrow> u16 list \<Rightarrow> 'fn text_document" where
  "splice_pieces d first final text =
     (let add_start = wrap32 (length (add_buffer d));
          d = (if text \<noteq> [] then d\<lparr>add_buffer := add_buffer d @ text\<rparr> else d);
          replacement =
            (if text \<noteq> [] then [make_piece d Add add_start (wrap32 (length text))] else []);
          ps = take first (pieces d) @ drop final (pieces d)
      in rebuild_cum (d\<lparr>pieces := take first ps @ replacement @ drop first ps\<rparr>))"

definition replace_internal ::
    "'fn text_document \<Rightarrow> nat \<Rightarrow> nat \<Rightarrow> u16 list \<Rightarrow> 'fn text_document \<times> text_document_edit" where
  "replace_internal d start end text =
     (let (start, end) = clamp_offsets d start end;
          removed = sub32 end start;
          edit = \<lparr>e_start = start, e_removed = removed,
                  e_deleted = (if removed > 0 then slice d start end else []),
                  e_inserted = text\<rparr>
      in if removed = 0 \<and> text = [] then (d, edit)
         else let d = split_at (split_at d end) start
              in (splice_pieces d (piece_starting_at d start) (piece_starting_at d end) text, edit))"

text \<open>The edits delivered to one listener, as the source passes them to \<^verbatim>\<open>fn(edits)\<close>.\<close>

type_synonym 'fn calls = "('fn \<times> text_document_edit list) list"

definition notify :: "'fn text_document \<Rightarrow> text_document_edit list \<Rightarrow> 'fn calls" where
  "notify d edits = map (\<lambda>(_, fn). (fn, edits)) (listeners d)"

definition replace ::
    "'fn text_document \<Rightarrow> nat \<Rightarrow> nat \<Rightarrow> u16 list \<Rightarrow>
     'fn text_document \<times> text_document_edit \<times> 'fn calls" where
  "replace d start end text =
     (let (d, edit) = replace_internal d start end text;
          d = d\<lparr>revision := wrap32 (revision d + 1)\<rparr>
      in (d, edit, notify d [edit]))"

definition replace_utf8 ::
    "'fn text_document \<Rightarrow> nat \<Rightarrow> nat \<Rightarrow> bytes \<Rightarrow>
     'fn text_document \<times> text_document_edit \<times> 'fn calls" where
  "replace_utf8 d start end t = replace d start end (utf8_to_utf16 t)"

datatype doc_error = Invalid_argument

fun batch_ordered :: "text_document_edit list \<Rightarrow> bool" where
  "batch_ordered (a # b # es) \<longleftrightarrow>
     \<not> e_start b < wrap32 (e_start a + e_removed a) \<and> batch_ordered (b # es)"
| "batch_ordered _ \<longleftrightarrow> True"

text \<open>The loop of \<^verbatim>\<open>apply_batch\<close> runs from the last edit to the first.\<close>

fun apply_right_to_left ::
    "'fn text_document \<Rightarrow> text_document_edit list \<Rightarrow> 'fn text_document \<times> text_document_edit list" where
  "apply_right_to_left d [] = (d, [])"
| "apply_right_to_left d (e # es) =
     (let (d, applied) = apply_right_to_left d es;
          (d, a) = replace_internal d (e_start e) (wrap32 (e_start e + e_removed e)) (e_inserted e)
      in (d, a # applied))"

definition apply_batch ::
    "'fn text_document \<Rightarrow> text_document_edit list \<Rightarrow>
     doc_error + 'fn text_document \<times> text_document_edit list \<times> 'fn calls" where
  "apply_batch d edits =
     (if edits = [] then Inr (d, [], [])
      else if \<not> batch_ordered edits then Inl Invalid_argument
      else let (d, applied) = apply_right_to_left d edits;
               d = d\<lparr>revision := wrap32 (revision d + 1)\<rparr>
           in Inr (d, applied, notify d applied))"

definition subscribe :: "'fn text_document \<Rightarrow> 'fn \<Rightarrow> 'fn text_document \<times> nat" where
  "subscribe d fn =
     (let lid = next_listener_id d
      in (d\<lparr>next_listener_id := wrap64 (lid + 1), listeners := listeners d @ [(lid, fn)]\<rparr>, lid))"

definition unsubscribe :: "'fn text_document \<Rightarrow> nat \<Rightarrow> 'fn text_document" where
  "unsubscribe d lid = d\<lparr>listeners := filter (\<lambda>kv. fst kv \<noteq> lid) (listeners d)\<rparr>"

definition unit_eq :: "bool \<Rightarrow> u16 \<Rightarrow> u16 \<Rightarrow> bool" where
  "unit_eq case_insensitive a b =
     (if case_insensitive then fold_ascii a = fold_ascii b else a = b)"

definition matches_at :: "bool \<Rightarrow> u16 list \<Rightarrow> u16 list \<Rightarrow> nat \<Rightarrow> bool" where
  "matches_at ci hay needle i \<longleftrightarrow>
     list_all (\<lambda>k. unit_eq ci (hay ! (i + k)) (needle ! k)) [0..<length needle]"

function search_loop ::
    "bool \<Rightarrow> u16 list \<Rightarrow> u16 list \<Rightarrow> nat \<Rightarrow> nat \<Rightarrow> nat \<Rightarrow> nat \<Rightarrow> (nat \<times> nat) list" where
  "search_loop ci hay needle from limit found i =
     (if needle \<noteq> [] \<and> i + length needle \<le> length hay \<and> found < limit
      then if matches_at ci hay needle i
           then (wrap32 (from + i), wrap32 (from + i + length needle)) #
                search_loop ci hay needle from limit (found + 1) (i + length needle)
           else search_loop ci hay needle from limit found (i + 1)
      else [])"
  by pat_completeness auto
termination
proof (relation "measure (\<lambda>(ci, hay, needle, frm, limit, found, i). length hay - i)")
  fix ci and hay needle :: "u16 list" and frm limit found i :: nat
  assume a: "needle \<noteq> [] \<and> i + length needle \<le> length hay \<and> found < limit"
  then have "0 < length needle" by simp
  with a show "((ci, hay, needle, frm, limit, found + 1, i + length needle),
      (ci, hay, needle, frm, limit, found, i))
      \<in> measure (\<lambda>(ci, hay, needle, frm, limit, found, i). length hay - i)"
    unfolding in_measure prod.case by linarith
  show "((ci, hay, needle, frm, limit, found, i + 1), (ci, hay, needle, frm, limit, found, i))
      \<in> measure (\<lambda>(ci, hay, needle, frm, limit, found, i). length hay - i)"
    using a \<open>0 < length needle\<close> unfolding in_measure prod.case by linarith
qed simp

definition search_literal ::
    "'fn text_document \<Rightarrow> u16 list \<Rightarrow> nat \<Rightarrow> nat \<Rightarrow> bool \<Rightarrow> (nat \<times> nat) list" where
  "search_literal d needle from limit case_insensitive =
     (if needle = [] then []
      else let len = doc_length d
           in if from \<ge> len then []
              else let hay = slice d from len
                   in if length needle > length hay then []
                      else search_loop case_insensitive hay needle from limit 0 0)"

definition search_literal_utf8 ::
    "'fn text_document \<Rightarrow> bytes \<Rightarrow> nat \<Rightarrow> nat \<Rightarrow> bool \<Rightarrow> (nat \<times> nat) list" where
  "search_literal_utf8 d needle from limit case_insensitive =
     search_literal d (utf8_to_utf16 needle) from limit case_insensitive"

section \<open>Abstraction and invariant\<close>

definition newline_offsets :: "u16 list \<Rightarrow> nat list" where
  "newline_offsets xs = filter (\<lambda>i. xs ! i = newline) [0..<length xs]"

definition piece_text :: "'fn text_document \<Rightarrow> piece \<Rightarrow> u16 list" where
  "piece_text d p = take (p_length p) (drop (p_start p) (buf_for d (p_source p)))"

definition texts :: "'fn text_document \<Rightarrow> u16 list list" where
  "texts d = map (piece_text d) (pieces d)"

definition doc_text :: "'fn text_document \<Rightarrow> u16 list" where
  "doc_text d = concat (texts d)"

definition piece_ok :: "'fn text_document \<Rightarrow> piece \<Rightarrow> bool" where
  "piece_ok d p \<longleftrightarrow> 0 < p_length p \<and>
     p_start p + p_length p \<le> length (buf_for d (p_source p)) \<and>
     p_line_starts p = newline_offsets (piece_text d p)"

definition cum_ok :: "'fn text_document \<Rightarrow> bool" where
  "cum_ok d \<longleftrightarrow>
     (pieces d = [] \<and> cum_len d = [] \<and> cum_lines d = []) \<or>
     (cum_len d = cum_from 0 (map p_length (pieces d)) \<and>
      cum_lines d = cum_from 0 (map (\<lambda>p. wrap32 (length (p_line_starts p))) (pieces d)))"

definition doc_inv :: "'fn text_document \<Rightarrow> bool" where
  "doc_inv d \<longleftrightarrow>
     (\<forall>p \<in> set (pieces d). piece_ok d p) \<and> cum_ok d \<and>
     length (original d) < 2 ^ 32 \<and> length (add_buffer d) < 2 ^ 32 \<and>
     Suc (length (doc_text d)) < 2 ^ 32"

definition newlines :: "u16 list \<Rightarrow> nat" where
  "newlines xs = length (filter (\<lambda>c. c = newline) xs)"

subsection \<open>Prefix sums\<close>

lemma length_cum_from [simp]: "length (cum_from a ns) = Suc (length ns)"
  by (induction ns arbitrary: a) simp_all

lemma cum_from_nth:
  "a + sum_list ns < 2 ^ 32 \<Longrightarrow> i \<le> length ns \<Longrightarrow> cum_from a ns ! i = a + sum_list (take i ns)"
proof (induction ns arbitrary: a i)
  case (Cons n ns)
  then show ?case
    by (cases i) (simp_all add: wrap32_id)
qed simp

lemma cum_from_last: "a + sum_list ns < 2 ^ 32 \<Longrightarrow> last (cum_from a ns) = a + sum_list ns"
  using cum_from_nth[of a ns "length ns"] by (simp add: last_conv_nth flip: length_0_conv)

lemma newlines_append [simp]: "newlines (xs @ ys) = newlines xs + newlines ys"
  by (simp add: newlines_def)

lemma newlines_le: "newlines xs \<le> length xs"
  by (simp add: newlines_def)

lemma newlines_concat: "newlines (concat xss) = sum_list (map newlines xss)"
  by (induction xss) (simp_all add: newlines_def)

lemma length_newline_offsets [simp]: "length (newline_offsets xs) = newlines xs"
proof -
  have "filter (\<lambda>c. c = newline) (map ((!) xs) [0..<length xs]) =
      map ((!) xs) (newline_offsets xs)"
    by (simp add: newline_offsets_def filter_map o_def)
  then show ?thesis
    by (metis length_map map_nth newlines_def)
qed

subsection \<open>Pieces\<close>

lemma length_piece_text: "piece_ok d p \<Longrightarrow> length (piece_text d p) = p_length p"
  by (auto simp: piece_ok_def piece_text_def)

lemma length_texts [simp]: "length (texts d) = length (pieces d)"
  by (simp add: texts_def)

lemma doc_inv_piece_ok: "doc_inv d \<Longrightarrow> i < length (pieces d) \<Longrightarrow> piece_ok d (pieces d ! i)"
  by (simp add: doc_inv_def)

lemma map_p_length:
  "\<forall>p \<in> set ps. piece_ok d p \<Longrightarrow> map p_length ps = map length (map (piece_text d) ps)"
  by (simp add: length_piece_text)

lemma map_line_lengths:
  assumes "\<forall>p \<in> set ps. piece_ok d p" and "length (concat (map (piece_text d) ps)) < 2 ^ 32"
  shows "map (\<lambda>p. wrap32 (length (p_line_starts p))) ps = map newlines (map (piece_text d) ps)"
proof -
  have "wrap32 (newlines (piece_text d p)) = newlines (piece_text d p)" if "p \<in> set ps" for p
  proof -
    have "newlines (piece_text d p) \<le> newlines (concat (map (piece_text d) ps))"
      using that by (auto simp: newlines_concat o_def intro!: member_le_sum_list)
    then show ?thesis
      using assms(2) newlines_le by (meson le_less_trans wrap32_id)
  qed
  then show ?thesis
    using assms(1) by (simp add: piece_ok_def)
qed

lemma sum_list_take_length: "sum_list (take i (map length xss)) = length (concat (take i xss))"
  by (simp add: length_concat take_map)

lemma sum_list_take_newlines: "sum_list (take i (map newlines xss)) = newlines (concat (take i xss))"
  by (simp add: newlines_concat take_map)

text \<open>What the prefix-sum arrays hold, in terms of the text.\<close>

definition off :: "'fn text_document \<Rightarrow> nat \<Rightarrow> nat" where
  "off d i = length (concat (take i (texts d)))"

lemma doc_inv_cum:
  assumes "doc_inv d" and "pieces d \<noteq> []" and "i \<le> length (pieces d)"
  shows "cum_len d ! i = off d i"
    and "cum_lines d ! i = newlines (concat (take i (texts d)))"
proof -
  have ok: "\<forall>p \<in> set (pieces d). piece_ok d p" and len: "length (doc_text d) < 2 ^ 32"
    using assms(1) by (auto simp: doc_inv_def)
  have maps: "map p_length (pieces d) = map length (texts d)"
      "map (\<lambda>p. wrap32 (length (p_line_starts p))) (pieces d) = map newlines (texts d)"
    using map_p_length[OF ok] map_line_lengths[OF ok] len by (simp_all add: doc_text_def texts_def)
  have cum: "cum_len d = cum_from 0 (map length (texts d))"
      "cum_lines d = cum_from 0 (map newlines (texts d))"
    using assms unfolding doc_inv_def cum_ok_def maps by auto
  have sums: "sum_list (map length (texts d)) < 2 ^ 32" "sum_list (map newlines (texts d)) < 2 ^ 32"
    using len newlines_le[of "doc_text d"]
    by (simp_all add: doc_text_def length_concat newlines_concat)
  show "cum_len d ! i = off d i"
    using cum_from_nth[of 0 "map length (texts d)" i] sums assms(3)
    by (simp add: cum off_def sum_list_take_length)
  show "cum_lines d ! i = newlines (concat (take i (texts d)))"
    using cum_from_nth[of 0 "map newlines (texts d)" i] sums assms(3)
    by (simp add: cum sum_list_take_newlines)
qed

lemma off_0 [simp]: "off d 0 = 0"
  by (simp add: off_def)

lemma off_length: "off d (length (pieces d)) = length (doc_text d)"
  by (simp add: off_def doc_text_def)

lemma off_Suc: "i < length (pieces d) \<Longrightarrow> off d (Suc i) = off d i + length (texts d ! i)"
  by (simp add: off_def take_Suc_conv_app_nth)

lemma off_mono: "i \<le> j \<Longrightarrow> off d i \<le> off d j"
  by (simp add: off_def length_concat_take_mono)

lemma doc_inv_no_pieces:
  assumes "doc_inv d" and "pieces d = []"
  shows "doc_text d = []" and "doc_length d = 0" and "line_count d = 1"
  using assms by (auto simp: doc_inv_def cum_ok_def doc_text_def texts_def doc_length_def
      line_count_def wrap32_def)

lemma doc_inv_cum_length:
  "doc_inv d \<Longrightarrow> pieces d \<noteq> [] \<Longrightarrow>
     length (cum_len d) = Suc (length (pieces d)) \<and> length (cum_lines d) = Suc (length (pieces d))"
  by (auto simp: doc_inv_def cum_ok_def)

lemma doc_length_eq [simp]: "doc_inv d \<Longrightarrow> doc_length d = length (doc_text d)"
proof (cases "pieces d = []")
  case False
  assume "doc_inv d"
  then show ?thesis
    using False doc_inv_cum(1)[of d "length (pieces d)"] doc_inv_cum_length[of d]
    by (auto simp: doc_length_def last_nth off_length)
qed (simp add: doc_inv_no_pieces)

lemma line_count_eq [simp]:
  assumes "doc_inv d"
  shows "line_count d = newlines (doc_text d) + 1"
proof (cases "pieces d = []")
  case False
  have "newlines (doc_text d) + 1 < 2 ^ 32"
    using assms newlines_le[of "doc_text d"] by (simp add: doc_inv_def)
  moreover have "last (cum_lines d) = newlines (doc_text d)" "cum_lines d \<noteq> []"
    using assms False doc_inv_cum(2)[of d "length (pieces d)"] doc_inv_cum_length[of d]
    by (auto simp: last_nth doc_text_def)
  ultimately show ?thesis
    by (simp add: line_count_def wrap32_id)
qed (simp add: doc_inv_no_pieces assms newlines_def)

section \<open>Reading\<close>

lemma texts_nonempty:
  assumes "doc_inv d" and "i < length (pieces d)"
  shows "0 < length (texts d ! i)"
  using doc_inv_piece_ok[OF assms] assms(2) length_piece_text
  by (fastforce simp: texts_def piece_ok_def)

lemma off_less_length:
  assumes "doc_inv d" and "i < length (pieces d)"
  shows "off d i < off d (Suc i)" and "off d (Suc i) \<le> length (doc_text d)"
  using texts_nonempty[OF assms] off_Suc[OF assms(2)] off_mono[of "Suc i" "length (pieces d)" d]
    off_length[of d] assms(2) by auto

lemma off_bound: "doc_inv d \<Longrightarrow> off d i < 2 ^ 32"
  using off_mono[of i "length (pieces d)" d] off_length[of d] off_def[of d i]
  by (cases "i \<le> length (pieces d)") (auto simp: doc_inv_def doc_text_def)

text \<open>Every offset inside the text lies in exactly one piece.\<close>

lemma piece_index_exists:
  assumes "doc_inv d" and "x < length (doc_text d)"
  obtains i where "i < length (pieces d)" "off d i \<le> x" "x < off d (Suc i)"
proof -
  have ex: "\<exists>i. i < length (pieces d) \<and> x < off d (Suc i)"
  proof -
    have "pieces d \<noteq> []" using assms doc_inv_no_pieces by fastforce
    then have "length (pieces d) - 1 < length (pieces d)" "x < off d (Suc (length (pieces d) - 1))"
      using assms(2) off_length[of d] by auto
    then show ?thesis by blast
  qed
  define i where "i = (LEAST i. i < length (pieces d) \<and> x < off d (Suc i))"
  have i: "i < length (pieces d)" "x < off d (Suc i)"
    using LeastI_ex[OF ex] by (auto simp: i_def)
  have "off d i \<le> x"
  proof (cases i)
    case (Suc j)
    then have "\<not> (j < length (pieces d) \<and> x < off d (Suc j))"
      using not_less_Least[of j] i_def by (metis lessI)
    then show ?thesis using Suc i by auto
  qed simp
  then show thesis using i that by blast
qed

lemma piece_at_eq:
  assumes inv: "doc_inv d" and i: "i < length (pieces d)" "off d i \<le> x" "x < off d (Suc i)"
  shows "piece_at d x = (i, x - off d i)"
proof -
  have ne: "pieces d \<noteq> []" using i by auto
  have "bsearch (\<lambda>mid. \<not> cum_len d ! (mid + 1) \<le> x) 0 (length (pieces d)) = i"
  proof (rule bsearch_eqI)
    fix j assume "j < i"
    then show "\<not> \<not> cum_len d ! (j + 1) \<le> x"
      using doc_inv_cum(1)[OF inv ne, of "Suc j"] off_mono[of "Suc j" i d] i by simp
  next
    fix j assume "i \<le> j" "j < length (pieces d)"
    then show "\<not> cum_len d ! (j + 1) \<le> x"
      using doc_inv_cum(1)[OF inv ne, of "Suc j"] off_mono[of "Suc i" "Suc j" d] i by simp
  qed (use i in auto)
  moreover have "sub32 x (cum_len d ! i) = x - off d i"
    using doc_inv_cum(1)[OF inv ne, of i] i off_bound[OF inv, of "Suc i"] by (simp add: sub32_id)
  moreover have "min i (length (pieces d) - 1) = i" using i by simp
  ultimately show ?thesis
    using ne by (simp add: piece_at_def Let_def)
qed

lemma slice_loop_eq:
  assumes "\<forall>p \<in> set ps. piece_ok d p \<and> p_length p < 2 ^ 32" and "ps \<noteq> [] \<Longrightarrow> inner \<le> p_length (hd ps)"
  shows "slice_loop d ps inner n = take n (drop inner (concat (map (piece_text d) ps)))"
  using assms
proof (induction ps arbitrary: inner n)
  case (Cons p ps)
  have p: "piece_ok d p" "inner \<le> p_length p" "p_length p < 2 ^ 32" using Cons.prems by auto
  then have sub: "sub32 (p_length p) inner = p_length p - inner" by (simp add: sub32_id)
  have "slice_loop d ps 0 (n - min n (p_length p - inner)) =
      take (n - min n (p_length p - inner)) (concat (map (piece_text d) ps))"
    using Cons by simp
  moreover have "take (min n (p_length p - inner)) (drop (p_start p + inner) (buf_for d (p_source p)))
      = take n (drop inner (piece_text d p))"
    by (simp add: piece_text_def drop_take add.commute)
  moreover have "length (piece_text d p) = p_length p"
    by (rule length_piece_text[OF p(1)])
  ultimately show ?case
    using p by (cases "n > 0") (simp_all add: sub Let_def min_def)
qed simp

lemma p_length_bound: "doc_inv d \<Longrightarrow> p \<in> set (pieces d) \<Longrightarrow> p_length p < 2 ^ 32"
  by (auto simp: doc_inv_def piece_ok_def buf_for_def split: if_splits)

lemma concat_drop_texts: "off d i \<le> x \<Longrightarrow>
    drop (x - off d i) (concat (drop i (texts d))) = drop x (doc_text d)"
proof -
  assume "off d i \<le> x"
  moreover have "doc_text d = concat (take i (texts d)) @ concat (drop i (texts d))"
    by (metis append_take_drop_id concat_append doc_text_def)
  ultimately show ?thesis
    by (simp add: off_def)
qed

lemma slice_eq:
  assumes inv: "doc_inv d"
  shows "slice d s e = take (e - s) (drop s (doc_text d))"
proof -
  let ?n = "length (doc_text d)"
  let ?s = "min s ?n" and ?e = "min e ?n"
  have clamp: "take (?e - ?s) (drop ?s (doc_text d)) = take (e - s) (drop s (doc_text d))"
    by (cases "s \<le> ?n") (auto simp: min_def)
  show ?thesis
  proof (cases "?s < ?e")
    case True
    obtain i where i: "i < length (pieces d)" "off d i \<le> ?s" "?s < off d (Suc i)"
      by (rule piece_index_exists[OF inv, of ?s]) (use True in simp)
    have "\<forall>p \<in> set (drop i (pieces d)). piece_ok d p \<and> p_length p < 2 ^ 32"
      using inv p_length_bound[OF inv] by (auto simp: doc_inv_def dest: in_set_dropD)
    moreover have "?s - off d i \<le> p_length (hd (drop i (pieces d)))"
      using i off_Suc[OF i(1)] length_piece_text[OF doc_inv_piece_ok[OF inv i(1)]]
      by (simp add: hd_drop_conv_nth texts_def)
    ultimately have "slice_loop d (drop i (pieces d)) (?s - off d i) (?e - ?s)
        = take (?e - ?s) (drop (?s - off d i) (concat (drop i (texts d))))"
      by (simp add: slice_loop_eq texts_def drop_map)
    then have "slice d s e = take (?e - ?s) (drop ?s (doc_text d))"
      using True inv piece_at_eq[OF inv i] concat_drop_texts[OF i(2)]
      by (auto simp: slice_def Let_def min_def split: if_splits)
    then show ?thesis using clamp by simp
  next
    case False
    then show ?thesis
      using inv clamp by (auto simp: slice_def Let_def min_def split: if_splits)
  qed
qed

lemma code_unit_at_eq:
  assumes "doc_inv d"
  shows "code_unit_at d x = (if x < length (doc_text d) then doc_text d ! x else 0)"
proof (cases "x < length (doc_text d)")
  case True
  then obtain i where i: "i < length (pieces d)" "off d i \<le> x" "x < off d (Suc i)"
    using piece_index_exists[OF assms] by blast
  let ?p = "pieces d ! i" and ?n = "x - off d i"
  have ok: "piece_ok d ?p" by (rule doc_inv_piece_ok[OF assms i(1)])
  have n: "?n < p_length ?p"
    using i off_Suc[OF i(1)] length_piece_text[OF ok] by (simp add: texts_def)
  have "wrap32 (p_start ?p + ?n) = p_start ?p + ?n"
    using ok n assms by (auto simp: piece_ok_def doc_inv_def buf_for_def intro!: wrap32_id
        split: if_splits)
  moreover have "doc_text d ! x = buf_for d (p_source ?p) ! (p_start ?p + ?n)"
  proof -
    have seg: "concat (drop i (texts d)) = texts d ! i @ concat (drop (Suc i) (texts d))"
      using i(1) by (simp flip: Cons_nth_drop_Suc)
    have ln: "?n < length (texts d ! i)"
      using n i(1) length_piece_text[OF ok] by (simp add: texts_def)
    have "doc_text d ! x = drop x (doc_text d) ! 0" using True by simp
    also have "\<dots> = drop ?n (concat (drop i (texts d))) ! 0"
      by (simp add: concat_drop_texts[OF i(2)])
    also have "\<dots> = (texts d ! i) ! ?n"
      using ln by (simp add: seg nth_append)
    also have "\<dots> = buf_for d (p_source ?p) ! (p_start ?p + ?n)"
      using n i(1) ok by (simp add: texts_def piece_text_def piece_ok_def)
    finally show ?thesis .
  qed
  ultimately show ?thesis
    using True assms piece_at_eq[OF assms i] by (simp add: code_unit_at_def Let_def)
qed (simp add: code_unit_at_def assms)

section \<open>Editing\<close>

lemma make_piece_simps [simp]:
  "p_source (make_piece d b start len) = b" "p_start (make_piece d b start len) = start"
  "p_length (make_piece d b start len) = len"
  by (simp_all add: make_piece_def Let_def)

lemma piece_text_make_piece [simp]:
  "piece_text d (make_piece d' b start len) = take len (drop start (buf_for d b))"
  by (simp add: piece_text_def)

lemma make_piece_ok:
  assumes "0 < len" and "start + len \<le> length (buf_for d b)" and "length (buf_for d b) < 2 ^ 32"
  shows "piece_ok d (make_piece d b start len)"
proof -
  let ?src = "buf_for d b"
  have wrap: "wrap32 (start + len) = start + len"
    using assms by (simp add: wrap32_id)
  have "map (\<lambda>i. sub32 i start) (filter (\<lambda>i. ?src ! i = newline) [start..<start + len]) =
      map (\<lambda>i. i - start) (filter (\<lambda>i. ?src ! i = newline) [start..<start + len])"
    using assms by (auto intro!: map_cong sub32_id)
  also have "\<dots> = filter (\<lambda>i. ?src ! (i + start) = newline) [0..<len]"
  proof -
    have "[start..<start + len] = map (\<lambda>i. i + start) [0..<len]"
      by (simp add: map_add_upt add.commute)
    then show ?thesis
      by (simp add: filter_map o_def)
  qed
  also have "\<dots> = newline_offsets (take len (drop start ?src))"
  proof -
    have "length (take len (drop start ?src)) = len" using assms by simp
    then show ?thesis
      unfolding newline_offsets_def
      by (intro filter_cong) (use assms in \<open>auto simp: add.commute\<close>)
  qed
  finally show ?thesis
    using assms by (simp add: piece_ok_def piece_text_def make_piece_def Let_def wrap)
qed

lemma rebuild_cum_simps [simp]:
  "pieces (rebuild_cum d) = pieces d" "original (rebuild_cum d) = original d"
  "add_buffer (rebuild_cum d) = add_buffer d" "revision (rebuild_cum d) = revision d"
  "listeners (rebuild_cum d) = listeners d" "next_listener_id (rebuild_cum d) = next_listener_id d"
  by (simp_all add: rebuild_cum_def)

text \<open>Everything observed of a piece depends on the two buffers only.\<close>

lemma buf_for_cong: "original d = original d' \<Longrightarrow> add_buffer d = add_buffer d' \<Longrightarrow> buf_for d b = buf_for d' b"
  by (simp add: buf_for_def)

lemma same_buffers:
  assumes "original d = original d'" and "add_buffer d = add_buffer d'"
  shows "piece_text d = piece_text d'" and "piece_ok d = piece_ok d'"
  using buf_for_cong[OF assms] by (auto simp: piece_text_def piece_ok_def fun_eq_iff)

lemma cum_ok_rebuild: "cum_ok (rebuild_cum d)"
  by (simp add: cum_ok_def rebuild_cum_def)

lemma rebuild_cum_inv:
  assumes "\<forall>p \<in> set (pieces d). piece_ok d p" "length (original d) < 2 ^ 32"
    "length (add_buffer d) < 2 ^ 32" "Suc (length (doc_text d)) < 2 ^ 32"
  shows "doc_inv (rebuild_cum d)" and "doc_text (rebuild_cum d) = doc_text d"
proof -
  have eq: "piece_text (rebuild_cum d) = piece_text d" "piece_ok (rebuild_cum d) = piece_ok d"
    by (rule same_buffers; simp)+
  then show t: "doc_text (rebuild_cum d) = doc_text d"
    by (simp add: doc_text_def texts_def)
  show "doc_inv (rebuild_cum d)"
    using assms by (simp add: doc_inv_def eq t cum_ok_rebuild)
qed

definition boundary :: "'fn text_document \<Rightarrow> nat \<Rightarrow> bool" where
  "boundary d x \<longleftrightarrow> (\<exists>k \<le> length (pieces d). off d k = x)"

lemma boundary_iff: "boundary d x \<longleftrightarrow> (\<exists>k. off d k = x)"
proof -
  have "off d k = off d (min k (length (pieces d)))" for k
    by (simp add: off_def min_def)
  then show ?thesis
    by (metis boundary_def min.cobounded2)
qed

text \<open>Splitting one segment of a list in two keeps the text and all old boundaries.\<close>

lemma split_segment:
  assumes "i < length xss" and "xss ! i = u @ v"
  defines "yss \<equiv> take i xss @ u # v # drop (Suc i) xss"
  shows "concat yss = concat xss"
    and "k \<le> i \<Longrightarrow> concat (take k yss) = concat (take k xss)"
    and "i < k \<Longrightarrow> concat (take (Suc k) yss) = concat (take k xss)"
    and "concat (take (Suc i) yss) = concat (take i xss) @ u"
proof -
  have len: "length (take i xss) = i" using assms(1) by simp
  have xss: "xss = take i xss @ (u @ v) # drop (Suc i) xss"
    using id_take_nth_drop[OF assms(1)] assms(2) by simp
  have "concat yss = concat (take i xss @ (u @ v) # drop (Suc i) xss)"
    by (simp add: yss_def)
  then show "concat yss = concat xss"
    using xss by simp
  show "concat (take k yss) = concat (take k xss)" if "k \<le> i"
    using that len by (simp add: yss_def)
  show "concat (take (Suc i) yss) = concat (take i xss) @ u"
    using len by (simp add: yss_def)
  show "concat (take (Suc k) yss) = concat (take k xss)" if "i < k"
  proof -
    have "concat (take k xss) = concat (take k (take i xss @ (u @ v) # drop (Suc i) xss))"
      using xss by simp
    also have "\<dots> = concat (take i xss) @ (u @ v) @ concat (take (k - Suc i) (drop (Suc i) xss))"
      using that len by (simp add: take_Cons' Suc_diff_Suc)
    also have "\<dots> = concat (take (Suc k) yss)"
      using that len by (simp add: yss_def take_Cons' Suc_diff_Suc)
    finally show ?thesis by simp
  qed
qed

lemma split_at_text:
  assumes inv: "doc_inv d" and i: "i < length (pieces d)" "off d i \<le> x" "x < off d (Suc i)"
    and inner: "x \<noteq> off d i"
  defines "u \<equiv> take (x - off d i) (texts d ! i)" and "v \<equiv> drop (x - off d i) (texts d ! i)"
  shows "texts (split_at d x) = take i (texts d) @ u # v # drop (Suc i) (texts d)"
    and "\<forall>p \<in> set (pieces (split_at d x)). piece_ok d p"
    and "\<exists>ps. split_at d x = rebuild_cum (d\<lparr>pieces := ps\<rparr>)"
proof -
  let ?p = "pieces d ! i" and ?n = "x - off d i"
  have ok: "piece_ok d ?p" by (rule doc_inv_piece_ok[OF inv i(1)])
  have len: "length (texts d ! i) = p_length ?p"
    using length_piece_text[OF ok] i(1) by (simp add: texts_def)
  then have n: "0 < ?n" "?n < p_length ?p"
    using i inner off_Suc[OF i(1)] by auto
  have pl: "p_length ?p < 2 ^ 32" using p_length_bound[OF inv] i(1) by simp
  have bl: "length (buf_for d (p_source ?p)) < 2 ^ 32"
    using inv by (simp add: doc_inv_def buf_for_def)
  have ps: "p_start ?p + p_length ?p \<le> length (buf_for d (p_source ?p))"
    using ok by (simp add: piece_ok_def)
  let ?l = "make_piece d (p_source ?p) (p_start ?p) ?n"
  let ?r = "make_piece d (p_source ?p) (p_start ?p + ?n) (p_length ?p - ?n)"
  let ?ps = "take i (pieces d) @ ?l # ?r # drop (Suc i) (pieces d)"
  have "wrap32 (p_start ?p + ?n) = p_start ?p + ?n" "sub32 (p_length ?p) ?n = p_length ?p - ?n"
    using ps bl pl n by (simp_all add: wrap32_id sub32_id)
  moreover have "pieces d \<noteq> []" "x \<noteq> 0" "x < length (doc_text d)"
    using i inner off_less_length(2)[OF inv i(1)] by auto
  moreover have "take (i + 1) ((pieces d)[i := ?l]) @ ?r # drop (i + 1) ((pieces d)[i := ?l]) = ?ps"
    using i(1) by (simp add: take_Suc_conv_app_nth)
  ultimately have eq: "split_at d x = rebuild_cum (d\<lparr>pieces := ?ps\<rparr>)"
    using inv n piece_at_eq[OF inv i] by (simp add: split_at_def Let_def)
  then show "\<exists>ps. split_at d x = rebuild_cum (d\<lparr>pieces := ps\<rparr>)" by blast
  have lr: "piece_ok d ?l" "piece_ok d ?r"
    using n ps bl by (auto intro!: make_piece_ok)
  then show "\<forall>p \<in> set (pieces (split_at d x)). piece_ok d p"
    using inv by (auto simp: eq doc_inv_def dest: in_set_takeD in_set_dropD)
  have "piece_text (split_at d x) = piece_text d"
    by (rule same_buffers; simp add: eq)
  moreover have "piece_text d ?l = u" "piece_text d ?r = v"
    using n i(1) by (simp_all add: u_def v_def texts_def piece_text_def[of d ?p] drop_take
        add.commute min.absorb1 less_imp_le)
  ultimately show "texts (split_at d x) = take i (texts d) @ u # v # drop (Suc i) (texts d)"
    by (simp add: texts_def eq take_map drop_map)
qed

lemma split_at_noop:
  assumes "doc_inv d" and "boundary d x \<or> length (doc_text d) \<le> x"
  shows "split_at d x = d"
proof (cases "x < length (doc_text d)")
  case True
  then obtain k where k: "k \<le> length (pieces d)" "off d k = x"
    using assms by (auto simp: boundary_def)
  then have "k < length (pieces d)"
    using True off_length[of d] by (metis le_neq_implies_less less_irrefl)
  then have "piece_at d x = (k, 0)"
    using piece_at_eq[OF assms(1), of k x] k off_less_length(1)[OF assms(1)] by auto
  then show ?thesis
    by (simp add: split_at_def)
next
  case False
  then show ?thesis using assms by (simp add: split_at_def)
qed

lemma split_at_correct:
  assumes inv: "doc_inv d"
  shows "doc_inv (split_at d x)" and "doc_text (split_at d x) = doc_text d"
    and "boundary d y \<Longrightarrow> boundary (split_at d x) y"
    and "x \<le> length (doc_text d) \<Longrightarrow> boundary (split_at d x) x"
    and "add_buffer (split_at d x) = add_buffer d" "original (split_at d x) = original d"
    and "revision (split_at d x) = revision d" "listeners (split_at d x) = listeners d"
    and "next_listener_id (split_at d x) = next_listener_id d"
proof -
  have "doc_inv (split_at d x) \<and> doc_text (split_at d x) = doc_text d \<and>
      (\<forall>y. boundary d y \<longrightarrow> boundary (split_at d x) y) \<and>
      (x \<le> length (doc_text d) \<longrightarrow> boundary (split_at d x) x) \<and>
      (\<exists>ps. split_at d x = d \<or> split_at d x = rebuild_cum (d\<lparr>pieces := ps\<rparr>))"
  proof (cases "boundary d x \<or> length (doc_text d) \<le> x")
    case True
    moreover have "boundary d (length (doc_text d))"
      using off_length[of d] by (auto simp: boundary_def)
    ultimately show ?thesis
      using inv split_at_noop[OF inv True] by auto
  next
    case False
    then obtain i where i: "i < length (pieces d)" "off d i \<le> x" "x < off d (Suc i)"
      using piece_index_exists[OF inv, of x] by auto
    have inner: "x \<noteq> off d i"
      using False i by (auto simp: boundary_iff)
    let ?u = "take (x - off d i) (texts d ! i)" and ?v = "drop (x - off d i) (texts d ! i)"
    note st = split_at_text[OF inv i inner]
    have seg: "i < length (texts d)" "texts d ! i = ?u @ ?v"
      using i(1) by simp_all
    note sp = split_segment[OF seg]
    obtain ps where eq: "split_at d x = rebuild_cum (d\<lparr>pieces := ps\<rparr>)"
      using st(3) by blast
    have text_eq: "doc_text (split_at d x) = doc_text d"
      using sp(1) by (simp add: doc_text_def st(1))
    have bufs: "piece_ok (split_at d x) = piece_ok d"
      by (rule same_buffers; simp add: eq)
    have "cum_ok (split_at d x)" "original (split_at d x) = original d"
        "add_buffer (split_at d x) = add_buffer d"
      by (simp_all add: eq cum_ok_rebuild)
    then have "doc_inv (split_at d x)"
      using inv st(2) text_eq by (simp add: doc_inv_def bufs)
    moreover have "boundary (split_at d x) y" if b: "boundary d y" for y
    proof -
      obtain k where k: "y = length (concat (take k (texts d)))"
        using b by (auto simp: boundary_iff off_def)
      have "\<exists>k'. y = length (concat (take k' (texts (split_at d x))))"
        using sp(2)[of k] sp(3)[of k] k unfolding st(1) by (metis not_less)
      then show ?thesis by (auto simp: boundary_iff off_def)
    qed
    moreover have "boundary (split_at d x) x"
    proof -
      have "length ?u = x - off d i"
        using i off_Suc[OF i(1)] by simp
      then have "off (split_at d x) (Suc i) = x"
        using sp(4) i(2) by (simp add: off_def st(1))
      then show ?thesis by (auto simp: boundary_iff)
    qed
    ultimately show ?thesis
      using text_eq eq by blast
  qed
  then show "doc_inv (split_at d x)" "doc_text (split_at d x) = doc_text d"
    "boundary d y \<Longrightarrow> boundary (split_at d x) y"
    "x \<le> length (doc_text d) \<Longrightarrow> boundary (split_at d x) x"
    "add_buffer (split_at d x) = add_buffer d" "original (split_at d x) = original d"
    "revision (split_at d x) = revision d" "listeners (split_at d x) = listeners d"
    "next_listener_id (split_at d x) = next_listener_id d"
    by auto
qed

lemma piece_starting_at_eq:
  assumes inv: "doc_inv d" and b: "boundary d x"
  shows "piece_starting_at d x \<le> length (pieces d)" and "off d (piece_starting_at d x) = x"
proof -
  obtain k where k: "k \<le> length (pieces d)" "off d k = x"
    using b by (auto simp: boundary_def)
  have "piece_starting_at d x = k"
  proof (cases "x < length (doc_text d)")
    case True
    then have kl: "k < length (pieces d)"
      using k off_length[of d] by (metis le_neq_implies_less less_irrefl)
    then have ne: "pieces d \<noteq> []" by auto
    have "bsearch (\<lambda>mid. \<not> cum_len d ! mid < x) 0 (length (pieces d)) = k"
    proof (rule bsearch_eqI)
      fix j assume "j < k"
      then show "\<not> \<not> cum_len d ! j < x"
        using doc_inv_cum(1)[OF inv ne, of j] off_less_length(1)[OF inv, of j]
          off_mono[of "Suc j" k d] k kl by simp
    next
      fix j assume "k \<le> j" "j < length (pieces d)"
      then show "\<not> cum_len d ! j < x"
        using doc_inv_cum(1)[OF inv ne, of j] off_mono[of k j d] k by simp
    qed (use k in auto)
    then show ?thesis using True inv by (simp add: piece_starting_at_def)
  next
    case False
    then have "k = length (pieces d)"
      using k off_less_length[OF inv, of k] by (metis le_neq_implies_less less_le_trans)
    then show ?thesis using False inv by (simp add: piece_starting_at_def)
  qed
  then show "piece_starting_at d x \<le> length (pieces d)" "off d (piece_starting_at d x) = x"
    using k by auto
qed

text \<open>The specification of an edit: replace the part of the text between the two offsets, clamped
  to the text and put in order.\<close>

definition clamp_range :: "'a list \<Rightarrow> nat \<Rightarrow> nat \<Rightarrow> nat \<times> nat" where
  "clamp_range t s e =
     (let s = min s (length t); e = min e (length t) in (min s e, max s e))"

definition splice :: "'a list \<Rightarrow> nat \<Rightarrow> nat \<Rightarrow> 'a list \<Rightarrow> 'a list" where
  "splice t s e new = (let (a, b) = clamp_range t s e in take a t @ new @ drop b t)"

lemma clamp_range_props:
  "clamp_range t s e = (a, b) \<Longrightarrow> a \<le> b \<and> b \<le> length t"
  by (auto simp: clamp_range_def Let_def min_def max_def split: if_splits)

lemma extend_add_buffer:
  assumes "piece_ok d p" and "d' = d\<lparr>add_buffer := add_buffer d @ t\<rparr>"
  shows "piece_ok d' p" and "piece_text d' p = piece_text d p"
proof -
  have "take (p_length p) (drop (p_start p) (buf_for d' (p_source p))) =
      take (p_length p) (drop (p_start p) (buf_for d (p_source p)))"
    using assms by (auto simp: buf_for_def piece_ok_def)
  then show pt: "piece_text d' p = piece_text d p"
    by (simp add: piece_text_def)
  have "length (buf_for d (p_source p)) \<le> length (buf_for d' (p_source p))"
    by (simp add: assms(2) buf_for_def)
  then show "piece_ok d' p"
    using assms(1) by (simp add: piece_ok_def pt)
qed

lemma concat_texts_off:
  assumes "off d k = x"
  shows "concat (take k (texts d)) = take x (doc_text d)"
    and "concat (drop k (texts d)) = drop x (doc_text d)"
proof -
  have "doc_text d = concat (take k (texts d)) @ concat (drop k (texts d))"
    by (metis append_take_drop_id concat_append doc_text_def)
  then show "concat (take k (texts d)) = take x (doc_text d)"
      "concat (drop k (texts d)) = drop x (doc_text d)"
    using assms by (simp_all add: off_def)
qed

text \<open>The last step of an edit: put a piece for the new text between two boundaries.\<close>

lemma splice_pieces_correct:
  assumes inv: "doc_inv d" and a: "first \<le> length (pieces d)" "off d first = a"
    and b: "final \<le> length (pieces d)" "off d final = b"
    and add: "length (add_buffer d) + length new < 2 ^ 32"
    and total: "Suc (length (take a (doc_text d) @ new @ drop b (doc_text d))) < 2 ^ 32"
  shows "doc_inv (splice_pieces d first final new)"
    and "doc_text (splice_pieces d first final new) =
      take a (doc_text d) @ new @ drop b (doc_text d)"
    and "add_buffer (splice_pieces d first final new) = add_buffer d @ new"
    and "revision (splice_pieces d first final new) = revision d"
    and "listeners (splice_pieces d first final new) = listeners d"
    and "next_listener_id (splice_pieces d first final new) = next_listener_id d"
proof -
  define d1 where "d1 = d\<lparr>add_buffer := add_buffer d @ new\<rparr>"
  define repl where "repl = (if new \<noteq> [] then [make_piece d1 Add (wrap32 (length (add_buffer d)))
      (wrap32 (length new))] else [])"
  let ?d = "d1\<lparr>pieces := take first (pieces d) @ repl @ drop final (pieces d)\<rparr>"
  have d1: "pieces d1 = pieces d" "original d1 = original d" "add_buffer d1 = add_buffer d @ new"
    by (simp_all add: d1_def)
  have d2: "splice_pieces d first final new = rebuild_cum ?d"
    using a(1) by (simp add: splice_pieces_def Let_def repl_def d1_def)
  have eq: "piece_text ?d = piece_text d1" "piece_ok ?d = piece_ok d1"
    by (rule same_buffers; simp)+
  have old: "piece_ok d1 p" "piece_text d1 p = piece_text d p" if "p \<in> set (pieces d)" for p
    using extend_add_buffer[OF _ d1_def] that inv by (auto simp: doc_inv_def)
  have buf: "buf_for d1 Add = add_buffer d @ new"
    by (simp add: buf_for_def d1)
  have repl: "(\<forall>p \<in> set repl. piece_ok d1 p) \<and> concat (map (piece_text d1) repl) = new"
    using add by (auto simp: repl_def wrap32_id buf intro!: make_piece_ok)
  have "map (piece_text d1) (take first (pieces d)) = take first (texts d)"
      "map (piece_text d1) (drop final (pieces d)) = drop final (texts d)"
    using old(2) by (auto simp: texts_def take_map drop_map dest: in_set_takeD in_set_dropD)
  then have text_eq: "doc_text ?d = take a (doc_text d) @ new @ drop b (doc_text d)"
    using repl concat_texts_off[OF a(2)] concat_texts_off[OF b(2)]
    by (simp add: doc_text_def texts_def eq)
  have ok: "\<forall>p \<in> set (pieces ?d). piece_ok ?d p"
    using old(1) repl by (auto simp: eq dest: in_set_takeD in_set_dropD)
  have "length (original ?d) < 2 ^ 32" "length (add_buffer ?d) < 2 ^ 32"
    using inv add by (simp_all add: doc_inv_def d1)
  from rebuild_cum_inv[OF ok this] show "doc_inv (splice_pieces d first final new)"
      "doc_text (splice_pieces d first final new) = take a (doc_text d) @ new @ drop b (doc_text d)"
    using total by (simp_all add: d2 text_eq)
  show "add_buffer (splice_pieces d first final new) = add_buffer d @ new"
    "revision (splice_pieces d first final new) = revision d"
    "listeners (splice_pieces d first final new) = listeners d"
    "next_listener_id (splice_pieces d first final new) = next_listener_id d"
    by (simp_all add: d2 d1_def)
qed

lemma clamp_offsets_eq: "doc_inv d \<Longrightarrow> clamp_offsets d s e = clamp_range (doc_text d) s e"
  by (auto simp: clamp_offsets_def clamp_range_def Let_def min_def max_def)

lemma split_both:
  assumes inv: "doc_inv d" and le: "a \<le> b" "b \<le> length (doc_text d)"
  defines "d1 \<equiv> split_at (split_at d b) a"
  shows "doc_inv d1" and "doc_text d1 = doc_text d" and "boundary d1 a" and "boundary d1 b"
    and "add_buffer d1 = add_buffer d" "revision d1 = revision d" "listeners d1 = listeners d"
    and "next_listener_id d1 = next_listener_id d"
proof -
  note s1 = split_at_correct[OF inv, where x = b]
  note s2 = split_at_correct[OF s1(1), where x = a]
  show "boundary d1 a" "boundary d1 b"
    using s2(4) s2(3)[OF s1(4)] s1(2) le by (simp_all add: d1_def)
  show "doc_inv d1" "doc_text d1 = doc_text d" "add_buffer d1 = add_buffer d"
    "revision d1 = revision d" "listeners d1 = listeners d" "next_listener_id d1 = next_listener_id d"
    using s1 s2 by (simp_all add: d1_def)
qed

definition edit_record :: "u16 list \<Rightarrow> nat \<Rightarrow> nat \<Rightarrow> u16 list \<Rightarrow> text_document_edit" where
  "edit_record t s e new =
     (let (a, b) = clamp_range t s e
      in \<lparr>e_start = a, e_removed = b - a, e_deleted = take (b - a) (drop a t), e_inserted = new\<rparr>)"

text \<open>Enough room for an edit: the add buffer and the new text stay below the 32-bit limit.\<close>

definition edit_fits :: "'fn text_document \<Rightarrow> nat \<Rightarrow> nat \<Rightarrow> u16 list \<Rightarrow> bool" where
  "edit_fits d s e new \<longleftrightarrow> length (add_buffer d) + length new < 2 ^ 32 \<and>
     Suc (length (splice (doc_text d) s e new)) < 2 ^ 32"

lemma replace_internal_correct:
  assumes inv: "doc_inv d" and fits: "edit_fits d s e new"
    and call: "replace_internal d s e new = (d', edit)"
  shows "doc_inv d'" and "doc_text d' = splice (doc_text d) s e new"
    and "edit = edit_record (doc_text d) s e new"
    and "add_buffer d' = add_buffer d @ new" and "revision d' = revision d"
    and "listeners d' = listeners d" and "next_listener_id d' = next_listener_id d"
proof -
  let ?t = "doc_text d"
  obtain a b where ab: "clamp_range ?t s e = (a, b)" by fastforce
  have le: "a \<le> b" "b \<le> length ?t"
    using clamp_range_props[OF ab] by auto
  have sub: "sub32 b a = b - a"
    using le inv by (simp add: sub32_id doc_inv_def)
  have spl: "splice ?t s e new = take a ?t @ new @ drop b ?t"
    by (simp add: splice_def ab)
  let ?d1 = "split_at (split_at d b) a"
  note d1 = split_both[OF inv le]
  have edit: "edit = edit_record ?t s e new"
    using call by (auto simp: replace_internal_def clamp_offsets_eq[OF inv] ab Let_def sub
        edit_record_def slice_eq[OF inv] split: if_splits)
  have res: "d' = (if b - a = 0 \<and> new = [] then d else
      splice_pieces ?d1 (piece_starting_at ?d1 a) (piece_starting_at ?d1 b) new)"
    using call by (auto simp: replace_internal_def clamp_offsets_eq[OF inv] ab Let_def sub
        split: if_splits)
  have room: "length (add_buffer ?d1) + length new < 2 ^ 32"
      "Suc (length (take a (doc_text ?d1) @ new @ drop b (doc_text ?d1))) < 2 ^ 32"
    using fits by (simp_all add: edit_fits_def d1 spl)
  note sp = splice_pieces_correct[OF d1(1) piece_starting_at_eq[OF d1(1,3)]
      piece_starting_at_eq[OF d1(1,4)] room]
  show "doc_inv d'" "doc_text d' = splice ?t s e new" "edit = edit_record ?t s e new"
    "add_buffer d' = add_buffer d @ new" "revision d' = revision d" "listeners d' = listeners d"
    "next_listener_id d' = next_listener_id d"
    using inv le sp edit by (auto simp: res spl d1)
qed

section \<open>Construction\<close>

lemma new_document_correct:
  assumes "Suc (length t) < 2 ^ 32"
  shows "doc_inv (new_document t)" and "doc_text (new_document t) = t"
    and "add_buffer (new_document t) = []"
proof -
  define d where "d = (empty_document :: 'fn text_document)\<lparr>original := t\<rparr>"
  define d' where
    "d' = (if t \<noteq> [] then d\<lparr>pieces := [make_piece d Original 0 (length t)]\<rparr> else d)"
  have new: "(new_document t :: 'fn text_document) = rebuild_cum d'"
    using assms by (simp add: new_document_def Let_def d'_def d_def wrap32_id)
  have buf: "buf_for d Original = t" "buf_for d' Original = t"
    by (simp_all add: buf_for_def d_def d'_def)
  have bufs: "piece_ok d' = piece_ok d" "piece_text d' = piece_text d"
    by (rule same_buffers; simp add: d'_def)+
  have pd: "pieces d = []"
    by (simp add: d_def empty_document_def)
  have ok: "\<forall>p \<in> set (pieces d'). piece_ok d' p"
    using assms unfolding bufs
    by (auto simp: d'_def buf pd intro!: make_piece_ok)
  have text_eq: "doc_text d' = t"
    unfolding doc_text_def texts_def bufs by (simp add: d'_def buf pd)
  have "length (original d') < 2 ^ 32" "length (add_buffer d') < 2 ^ 32"
    using assms by (simp_all add: d'_def d_def empty_document_def)
  from rebuild_cum_inv[OF ok this] show "doc_inv (new_document t :: 'fn text_document)"
      "doc_text (new_document t :: 'fn text_document) = t"
    using assms by (simp_all add: new text_eq)
  show "add_buffer (new_document t :: 'fn text_document) = []"
    by (simp add: new d'_def d_def empty_document_def)
qed

lemma empty_document_inv: "doc_inv empty_document" and doc_text_empty: "doc_text empty_document = []"
  by (simp_all add: doc_inv_def empty_document_def cum_ok_def doc_text_def texts_def)

section \<open>The interface of an editable text\<close>

text \<open>
  What the undo stack and the event stream of an editor rely on: a text, an edit operation that
  splices it, and a record of what the edit removed.
\<close>

locale editable_text =
  fixes inv :: "'d \<Rightarrow> bool"
    and text_of :: "'d \<Rightarrow> u16 list"
    and fits :: "'d \<Rightarrow> nat \<Rightarrow> nat \<Rightarrow> u16 list \<Rightarrow> bool"
    and edit :: "'d \<Rightarrow> nat \<Rightarrow> nat \<Rightarrow> u16 list \<Rightarrow> 'd \<times> text_document_edit"
  assumes edit_inv: "inv d \<Longrightarrow> fits d s e new \<Longrightarrow> inv (fst (edit d s e new))"
    and edit_text: "inv d \<Longrightarrow> fits d s e new \<Longrightarrow>
      text_of (fst (edit d s e new)) = splice (text_of d) s e new"
    and edit_rec: "inv d \<Longrightarrow> fits d s e new \<Longrightarrow>
      snd (edit d s e new) = edit_record (text_of d) s e new"
begin

lemma splice_edit_record:
  assumes "r = edit_record t s e new"
  shows "splice (splice t s e new) (e_start r) (e_start r + length new) (e_deleted r) = t"
proof -
  obtain a b where ab: "clamp_range t s e = (a, b)" by fastforce
  then have le: "a \<le> b" "b \<le> length t" using clamp_range_props by blast+
  let ?t = "take a t @ new @ drop b t"
  have "clamp_range ?t a (a + length new) = (a, a + length new)"
    using le by (simp add: clamp_range_def Let_def)
  moreover have "drop (a + length new) ?t = drop b t"
    using le by simp
  moreover have "take (b - a) (drop a t) @ drop b t = drop a t"
    using le by (metis append_take_drop_id drop_drop le_add_diff_inverse2)
  ultimately show ?thesis
    using le by (simp add: assms splice_def ab edit_record_def)
qed

text \<open>Applying the inverse of an edit restores the text.\<close>

lemma undo:
  assumes "inv d" and "fits d s e new" and "edit d s e new = (d', r)"
    and "fits d' (e_start r) (e_start r + length new) (e_deleted r)"
  shows "text_of (fst (edit d' (e_start r) (e_start r + length new) (e_deleted r))) = text_of d"
  using assms edit_inv[of d s e new] edit_text[of d s e new] edit_rec[of d s e new]
    edit_text[of d'] splice_edit_record[of r "text_of d" s e new] by simp

text \<open>Listeners that replay the recorded edits on their own copy stay in step with the text.\<close>

lemma replay:
  assumes "inv d" and "fits d s e new" and "edit d s e new = (d', r)"
  shows "take (e_start r) (text_of d) @ e_inserted r @ drop (e_start r + e_removed r) (text_of d)
    = text_of d'"
proof -
  obtain a b where ab: "clamp_range (text_of d) s e = (a, b)" by fastforce
  then have "a \<le> b" using clamp_range_props by blast
  then show ?thesis
    using assms ab edit_text[of d s e new] edit_rec[of d s e new]
    by (simp add: splice_def edit_record_def)
qed

end

interpretation td: editable_text doc_inv doc_text edit_fits replace_internal
proof unfold_locales
  fix d :: "'a text_document" and s e new
  assume a: "doc_inv d" "edit_fits d s e new"
  obtain d' r where "replace_internal d s e new = (d', r)" by fastforce
  with a show "doc_inv (fst (replace_internal d s e new))"
    "doc_text (fst (replace_internal d s e new)) = splice (doc_text d) s e new"
    "snd (replace_internal d s e new) = edit_record (doc_text d) s e new"
    by (auto dest: replace_internal_correct)
qed

section \<open>Batches\<close>

text \<open>The text a batch of edits is meant to produce: all ranges are offsets into the text before
  the batch.\<close>

fun batch_text :: "nat \<Rightarrow> u16 list \<Rightarrow> text_document_edit list \<Rightarrow> u16 list" where
  "batch_text pos t [] = drop pos t"
| "batch_text pos t (e # es) =
     take (e_start e - pos) (drop pos t) @ e_inserted e @ batch_text (e_start e + e_removed e) t es"

fun batch_within :: "nat \<Rightarrow> nat \<Rightarrow> text_document_edit list \<Rightarrow> bool" where
  "batch_within pos n [] \<longleftrightarrow> pos \<le> n"
| "batch_within pos n (e # es) \<longleftrightarrow>
     pos \<le> e_start e \<and> batch_within (e_start e + e_removed e) n es"

definition inserted_total :: "text_document_edit list \<Rightarrow> nat" where
  "inserted_total es = sum_list (map (\<lambda>e. length (e_inserted e)) es)"

definition captured :: "u16 list \<Rightarrow> text_document_edit \<Rightarrow> text_document_edit" where
  "captured t e = e\<lparr>e_deleted := take (e_removed e) (drop (e_start e) t)\<rparr>"

lemma batch_within_le: "batch_within pos n es \<Longrightarrow> pos \<le> n"
  by (induction pos n es rule: batch_within.induct) auto

lemma batch_text_prefix:
  "batch_within pos (length t) es \<Longrightarrow> pos' \<le> pos \<Longrightarrow>
     take (pos - pos') (drop pos' t) @ batch_text pos t es = batch_text pos' t es"
proof (cases es)
  case Nil
  moreover assume "pos' \<le> pos"
  ultimately show ?thesis
    by (simp, metis append_take_drop_id drop_drop le_add_diff_inverse2)
next
  case (Cons e es')
  moreover assume "pos' \<le> pos" "batch_within pos (length t) es"
  moreover have "take (e_start e - pos') (drop pos' t) =
      take (pos - pos') (drop pos' t) @ take (e_start e - pos) (drop pos t)"
    if "pos' \<le> pos" "pos \<le> e_start e"
    using that take_add[of "pos - pos'" "e_start e - pos" "drop pos' t"] by simp
  ultimately show ?thesis by simp
qed

lemma length_batch_text:
  "batch_within pos (length t) es \<Longrightarrow>
     length (batch_text pos t es) \<le> length t - pos + inserted_total es"
proof (induction pos t es rule: batch_text.induct)
  case (2 pos t e es)
  then have w: "pos \<le> e_start e" "batch_within (e_start e + e_removed e) (length t) es" by auto
  then have "e_start e + e_removed e \<le> length t" by (simp add: batch_within_le)
  with 2 w show ?case by (simp add: inserted_total_def)
qed simp

lemma batch_text_0: "batch_within pos (length t) es \<Longrightarrow> batch_text 0 t es = take pos t @ batch_text pos t es"
  using batch_text_prefix[of pos t es 0] by simp

text \<open>One step of the right-to-left loop: the edit's range still lies in the untouched prefix.\<close>

lemma splice_prefix:
  assumes "u = take q t @ rest" and "a \<le> q" and "q \<le> length t"
  shows "splice u a q new = take a t @ new @ rest"
    and "edit_record u a q new = \<lparr>e_start = a, e_removed = q - a,
      e_deleted = take (q - a) (drop a t), e_inserted = new\<rparr>"
proof -
  have "clamp_range u a q = (a, q)"
    using assms by (simp add: clamp_range_def Let_def)
  moreover have "take (q - a) (drop a u) = take (q - a) (drop a t)"
    using assms by (simp add: drop_take)
  ultimately show "splice u a q new = take a t @ new @ rest"
    "edit_record u a q new = \<lparr>e_start = a, e_removed = q - a,
      e_deleted = take (q - a) (drop a t), e_inserted = new\<rparr>"
    using assms by (simp_all add: splice_def edit_record_def min_def)
qed

lemma apply_right_to_left_correct:
  assumes "doc_inv d" and "doc_text d = t" and "batch_within pos (length t) es"
    and "length (add_buffer d) + inserted_total es < 2 ^ 32"
    and "Suc (length t + inserted_total es) < 2 ^ 32"
    and "apply_right_to_left d es = (d', applied)"
  shows "doc_inv d' \<and> doc_text d' = batch_text 0 t es \<and> applied = map (captured t) es \<and>
    length (add_buffer d') = length (add_buffer d) + inserted_total es \<and>
    revision d' = revision d \<and> listeners d' = listeners d \<and>
    next_listener_id d' = next_listener_id d"
  using assms(3-)
proof (induction es arbitrary: pos d' applied)
  case Nil
  then show ?case using assms(1,2) by (simp add: inserted_total_def)
next
  case (Cons e es)
  let ?q = "e_start e + e_removed e"
  have w: "batch_within ?q (length t) es" "pos \<le> e_start e" using Cons.prems by auto
  then have q: "?q \<le> length t" by (simp add: batch_within_le)
  obtain d1 ap a where step: "apply_right_to_left d es = (d1, ap)"
      "replace_internal d1 (e_start e) (wrap32 ?q) (e_inserted e) = (d', a)" "applied = a # ap"
    using Cons.prems(4) by (auto simp: Let_def split: prod.splits)
  have tot: "inserted_total (e # es) = length (e_inserted e) + inserted_total es"
    by (simp add: inserted_total_def)
  have ih: "doc_inv d1" "doc_text d1 = batch_text 0 t es" "ap = map (captured t) es"
      "length (add_buffer d1) = length (add_buffer d) + inserted_total es"
      "revision d1 = revision d" "listeners d1 = listeners d" "next_listener_id d1 = next_listener_id d"
    using Cons.IH[OF w(1) _ _ step(1)] Cons.prems(2,3) by (simp_all add: tot)
  have wq: "wrap32 ?q = ?q" using q Cons.prems(3) by (simp add: wrap32_id)
  note sp = splice_prefix[OF batch_text_0[OF w(1)], of "e_start e" "e_inserted e"]
  have new: "splice (doc_text d1) (e_start e) ?q (e_inserted e) = batch_text 0 t (e # es)"
      "edit_record (doc_text d1) (e_start e) ?q (e_inserted e) = captured t e"
    using sp q by (simp_all add: ih(2) captured_def)
  have "batch_within 0 (length t) (e # es)" using w by simp
  from length_batch_text[OF this] have fits: "edit_fits d1 (e_start e) ?q (e_inserted e)"
    using Cons.prems(2,3) by (simp add: edit_fits_def new ih(4) tot del: batch_text.simps)
  from replace_internal_correct[OF ih(1) fits step(2)[unfolded wq]] show ?case
    using ih new[unfolded ih(2)] by (simp add: step(3) tot del: batch_text.simps)
qed

lemma batch_ordered_within:
  assumes "batch_ordered es" and "\<forall>e \<in> set es. e_start e + e_removed e \<le> n" and "n < 2 ^ 32"
  shows "es \<noteq> [] \<Longrightarrow> batch_within (e_start (hd es)) n es"
  using assms
proof (induction es rule: batch_ordered.induct)
  case (1 a b es)
  then show ?case by (simp add: wrap32_id)
qed auto

section \<open>Properties\<close>

lemma doc_inv_revision [simp]: "doc_inv (d\<lparr>revision := r\<rparr>) = doc_inv d"
  and doc_text_revision [simp]: "doc_text (d\<lparr>revision := r\<rparr>) = doc_text d"
proof -
  have "piece_ok (d\<lparr>revision := r\<rparr>) = piece_ok d" "piece_text (d\<lparr>revision := r\<rparr>) = piece_text d"
    by (rule same_buffers; simp)+
  then show "doc_text (d\<lparr>revision := r\<rparr>) = doc_text d" "doc_inv (d\<lparr>revision := r\<rparr>) = doc_inv d"
    by (simp_all add: doc_inv_def doc_text_def texts_def cum_ok_def)
qed

text \<open>C1: \<^verbatim>\<open>replace\<close> refines splicing the text: on a well-formed document, with room below the 32-bit
  limit, the new document is well-formed, spells the old text with the clamped range replaced,
  returns the range and the removed text, counts one revision and calls every listener once, in
  subscription order, with that edit.\<close>

theorem replace_refines_splice:
  assumes "doc_inv d" and "edit_fits d s e new"
  shows "case replace d s e new of (d', edit, calls) \<Rightarrow>
    doc_inv d' \<and> doc_text d' = splice (doc_text d) s e new \<and>
    edit = edit_record (doc_text d) s e new \<and>
    revision d' = (revision d + 1) mod 2 ^ 32 \<and>
    listeners d' = listeners d \<and> calls = map (\<lambda>l. (snd l, [edit])) (listeners d)"
proof -
  obtain d' r where call: "replace_internal d s e new = (d', r)" by fastforce
  note c = replace_internal_correct[OF assms call]
  show ?thesis
    using c by (simp add: replace_def call notify_def wrap32_def split_def)
qed

theorem replace_refines_splice_witness:
  "doc_inv (new_document [104, 105] :: nat text_document) \<and>
   doc_text (fst (replace (new_document [104, 105] :: nat text_document) 1 2 [97, 10])) = [104, 97, 10]"
proof -
  let ?d = "new_document [104, 105] :: nat text_document"
  have inv: "doc_inv ?d" and t: "doc_text ?d = [104, 105]" and a: "add_buffer ?d = []"
    using new_document_correct[of "[104, 105]"] by simp_all
  have "splice [104, 105 :: u16] 1 2 [97, 10] = [104, 97, 10]"
    by (simp add: splice_def clamp_range_def)
  moreover have "edit_fits ?d 1 2 [97, 10]"
    by (simp add: edit_fits_def t a splice_def clamp_range_def)
  ultimately show ?thesis
    using replace_refines_splice[OF inv, of 1 2 "[97, 10]"] inv by (simp add: t split_def)
qed

text \<open>
  \<^verbatim>\<open>slice\<close> returns exactly the requested part of the text, clamped, however many pieces it
  crosses, and \<^verbatim>\<open>code_unit_at\<close> the code unit at an offset, or 0 past the end.\<close>

theorem slice_refines_text:
  assumes "doc_inv d"
  shows "slice d s e = take (e - s) (drop s (doc_text d)) \<and>
    code_unit_at d x = (if x < length (doc_text d) then doc_text d ! x else 0)"
  by (simp add: slice_eq[OF assms] code_unit_at_eq[OF assms])

text \<open>C36: a batch of ordered, non-overlapping edits inside the text, applied right to left, has the
  effect of replacing all ranges of the old text at once; every returned edit carries the text it
  removed, all in one revision and one notification per listener.\<close>

theorem apply_batch_simultaneous:
  assumes "doc_inv d" and "edits \<noteq> []" and "batch_ordered edits"
    and "\<forall>e \<in> set edits. e_start e + e_removed e \<le> length (doc_text d)"
    and "length (add_buffer d) + inserted_total edits < 2 ^ 32"
    and "Suc (length (doc_text d) + inserted_total edits) < 2 ^ 32"
  shows "\<exists>d' applied. apply_batch d edits =
      Inr (d', applied, map (\<lambda>l. (snd l, applied)) (listeners d)) \<and>
    doc_inv d' \<and> doc_text d' = batch_text 0 (doc_text d) edits \<and>
    applied = map (captured (doc_text d)) edits \<and> revision d' = (revision d + 1) mod 2 ^ 32"
proof -
  obtain d' applied where call: "apply_right_to_left d edits = (d', applied)" by fastforce
  have w: "batch_within (e_start (hd edits)) (length (doc_text d)) edits"
    by (rule batch_ordered_within) (use assms in auto)
  note c = apply_right_to_left_correct[OF assms(1) refl w assms(5,6) call]
  show ?thesis
    using c assms(2,3) by (simp add: apply_batch_def call notify_def wrap32_def split_def)
qed

theorem slice_refines_text_witness:
  "slice (new_document [104, 105, 10] :: nat text_document) 1 9 = [105, 10]"
proof -
  have inv: "doc_inv (new_document [104, 105, 10] :: nat text_document)"
    and t: "doc_text (new_document [104, 105, 10] :: nat text_document) = [104, 105, 10]"
    using new_document_correct[of "[104, 105, 10]"] by simp_all
  from slice_refines_text[OF inv, of 1 9 0] show ?thesis by (simp add: t)
qed

theorem apply_batch_simultaneous_witness:
  "\<exists>d' applied calls.
     apply_batch (new_document [97, 98, 99, 100] :: nat text_document)
       [\<lparr>e_start = 0, e_removed = 1, e_deleted = [], e_inserted = [65]\<rparr>,
        \<lparr>e_start = 2, e_removed = 2, e_deleted = [], e_inserted = []\<rparr>] = Inr (d', applied, calls) \<and>
     doc_text d' = [65, 98] \<and> map e_deleted applied = [[97], [99, 100]]"
proof -
  let ?d = "new_document [97, 98, 99, 100] :: nat text_document"
  let ?es = "[\<lparr>e_start = 0, e_removed = 1, e_deleted = [], e_inserted = [65]\<rparr>,
        \<lparr>e_start = 2, e_removed = 2, e_deleted = [], e_inserted = []\<rparr>] :: text_document_edit list"
  have inv: "doc_inv ?d" and t: "doc_text ?d = [97, 98, 99, 100]" and a: "add_buffer ?d = []"
    using new_document_correct[of "[97, 98, 99, 100]"] by simp_all
  have "\<exists>d' applied. apply_batch ?d ?es = Inr (d', applied, map (\<lambda>l. (snd l, applied)) (listeners ?d)) \<and>
    doc_inv d' \<and> doc_text d' = batch_text 0 (doc_text ?d) ?es \<and>
    applied = map (captured (doc_text ?d)) ?es \<and> revision d' = (revision ?d + 1) mod 2 ^ 32"
    by (rule apply_batch_simultaneous[OF inv])
      (simp_all add: t a inserted_total_def wrap32_def)
  then show ?thesis
    by (auto simp: t captured_def)
qed

text \<open>
  An edit is undone by replacing the inserted text with the recorded deleted text.\<close>

theorem replace_undo:
  assumes "doc_inv d" and "edit_fits d s e new" and "replace d s e new = (d', r, calls)"
    and "edit_fits d' (e_start r) (e_start r + length new) (e_deleted r)"
  shows "doc_text (fst (replace d' (e_start r) (e_start r + length new) (e_deleted r))) = doc_text d"
proof -
  obtain d1 r1 where call: "replace_internal d s e new = (d1, r1)" by fastforce
  have eq: "d' = d1\<lparr>revision := wrap32 (revision d1 + 1)\<rparr>" "r = r1"
    using assms(3) by (auto simp: replace_def call Let_def)
  have inv: "doc_inv d'"
    using replace_internal_correct(1)[OF assms(1,2) call] by (simp add: eq)
  have "doc_text (fst (replace_internal d' (e_start r) (e_start r + length new) (e_deleted r)))
      = splice (doc_text d') (e_start r) (e_start r + length new) (e_deleted r)"
    by (rule td.edit_text[OF inv assms(4)])
  also have "\<dots> = doc_text d"
    using td.edit_text[OF assms(1,2)] td.edit_rec[OF assms(1,2)] td.splice_edit_record
    by (simp add: call eq)
  finally show ?thesis
    by (simp add: replace_def Let_def split_def)
qed

theorem replace_undo_witness:
  "\<exists>d' r calls. replace (new_document [97, 98] :: nat text_document) 0 1 [120, 121] = (d', r, calls) \<and>
     doc_text (fst (replace d' (e_start r) (e_start r + 2) (e_deleted r))) = [97, 98]"
proof -
  let ?d = "new_document [97, 98] :: nat text_document"
  have inv: "doc_inv ?d" and t: "doc_text ?d = [97, 98]" and a: "add_buffer ?d = []"
    using new_document_correct[of "[97, 98]"] by simp_all
  have fits: "edit_fits ?d 0 1 [120, 121]"
    by (simp add: edit_fits_def t a splice_def clamp_range_def)
  obtain d' r calls where call: "replace ?d 0 1 [120, 121] = (d', r, calls)"
    by (metis prod_cases3)
  obtain d1 r1 where i: "replace_internal ?d 0 1 [120, 121] = (d1, r1)" by fastforce
  note c = replace_internal_correct[OF inv fits i]
  have "d' = d1\<lparr>revision := wrap32 (revision d1 + 1)\<rparr>" "r = r1"
    using call unfolding replace_def i by (auto simp: Let_def)
  then have "edit_fits d' (e_start r) (e_start r + length [120, 121 :: u16]) (e_deleted r)"
    using c by (simp add: edit_fits_def t a splice_def clamp_range_def edit_record_def)
  from replace_undo[OF inv fits call this] show ?thesis
    using call by (auto simp: t)
qed

end
