(* ===== verification/Text_Lines.thy ===== *)
theory Text_Lines
  imports Text_Document
begin

text \<open>
  The line index and the literal search of \<^verbatim>\<open>fxe::text_document\<close>: \<^verbatim>\<open>line_to_offset\<close>,
  \<^verbatim>\<open>offset_to_line\<close>, \<^verbatim>\<open>line_range\<close>, \<^verbatim>\<open>line_text\<close> and \<^verbatim>\<open>search_literal\<close>, refined to
  their meaning on the text the document spells. The index is built from per-piece newline
  offsets and prefix counts; the specification counts newlines of the whole text.
\<close>

section \<open>Newline offsets\<close>

lemma newline_offsets_append:
  "newline_offsets (xs @ ys) = newline_offsets xs @ map (\<lambda>i. i + length xs) (newline_offsets ys)"
proof -
  let ?f = "filter (\<lambda>i. (xs @ ys) ! i = newline)"
  have "[0..<length (xs @ ys)] = [0..<length xs] @ map (\<lambda>i. i + length xs) [0..<length ys]"
    using upt_add_eq_append[of 0 "length xs" "length ys"] map_add_upt[of "length xs" "length ys"]
    by (simp add: add.commute)
  then have "newline_offsets (xs @ ys) =
      ?f [0..<length xs] @ ?f (map (\<lambda>i. i + length xs) [0..<length ys])"
    by (simp only: newline_offsets_def filter_append)
  moreover have "?f [0..<length xs] = newline_offsets xs"
    unfolding newline_offsets_def by (rule filter_cong) (auto simp: nth_append)
  moreover have "?f (map (\<lambda>i. i + length xs) [0..<length ys]) =
      map (\<lambda>i. i + length xs) (newline_offsets ys)"
    by (simp add: filter_map newline_offsets_def o_def nth_append)
  ultimately show ?thesis by simp
qed

lemma newline_offsets_sorted: "sorted (newline_offsets xs)"
  by (simp add: newline_offsets_def sorted_wrt_filter)

lemma newline_offsets_distinct: "distinct (newline_offsets xs)"
  by (simp add: newline_offsets_def)

lemma newlines_take:
  "newlines (take n xs) = length (filter (\<lambda>i. i < n) (newline_offsets xs))"
proof -
  have "newlines (take n xs) = length (newline_offsets (take n xs))" by simp
  also have "newline_offsets (take n xs) = filter (\<lambda>i. i < n) (newline_offsets xs)"
  proof (cases "n \<le> length xs")
    case True
    have "[0..<length xs] = [0..<n] @ [n..<length xs]"
      using True by (metis le_add_diff_inverse upt_add_eq_append zero_le)
    then show ?thesis
      using True by (auto simp: newline_offsets_def min_def filter_empty_conv intro!: filter_cong)
  next
    case False
    then show ?thesis
      by (auto simp: newline_offsets_def intro!: filter_cong)
  qed
  finally show ?thesis .
qed

text \<open>\<^verbatim>\<open>std::lower_bound\<close> on a sorted list counts the smaller elements.\<close>

lemma lower_bound_eq:
  assumes "sorted xs"
  shows "lower_bound xs v = length (filter (\<lambda>x. x < v) xs)"
  unfolding lower_bound_def
proof (rule bsearch_eqI)
  let ?k = "length (filter (\<lambda>x. x < v) xs)"
  have tw: "filter (\<lambda>x. x < v) xs = takeWhile (\<lambda>x. x < v) xs"
    using assms by (induction xs) (auto simp: takeWhile_eq_Nil_iff dest!: hd_in_set)
  show "?k \<le> length xs" by simp
  show "\<not> \<not> xs ! i < v" if "i < ?k" for i
    using that nth_mem[of i "takeWhile (\<lambda>x. x < v) xs"] takeWhile_nth[of i "\<lambda>x. x < v" xs]
    by (auto simp: tw dest: set_takeWhileD)
  show "\<not> xs ! i < v" if "?k \<le> i" "i < length xs" for i
  proof -
    have "?k < length xs" using that by simp
    then have "\<not> xs ! ?k < v" using nth_length_takeWhile[of "\<lambda>x. x < v" xs] by (simp add: tw)
    then show ?thesis using assms that by (metis le_trans not_le sorted_nth_mono)
  qed
qed simp

section \<open>Offset to line\<close>

lemma offset_to_line_eq:
  assumes inv: "doc_inv d"
  shows "offset_to_line d x = newlines (take x (doc_text d))"
proof -
  have n32: "newlines (take x (doc_text d)) < 2 ^ 32" "newlines (doc_text d) + 1 < 2 ^ 32"
    using newlines_le[of "take x (doc_text d)"] newlines_le[of "doc_text d"] inv
    by (simp_all add: doc_inv_def)
  consider "x = 0" | "length (doc_text d) \<le> x" | "0 < x" "x < length (doc_text d)" by linarith
  then show ?thesis
  proof cases
    case 1
    then show ?thesis by (simp add: offset_to_line_def newlines_def)
  next
    case 2
    then show ?thesis
      using inv n32 by (cases "x = 0") (simp_all add: offset_to_line_def sub32_id newlines_def)
  next
    case 3
    then obtain i where i: "i < length (pieces d)" "off d i \<le> x" "x < off d (Suc i)"
      using piece_index_exists[OF inv] by blast
    let ?p = "pieces d ! i" and ?n = "x - off d i"
    have ne: "pieces d \<noteq> []" using i by auto
    have ls: "p_line_starts ?p = newline_offsets (texts d ! i)"
      using doc_inv_piece_ok[OF inv i(1)] i(1) by (simp add: piece_ok_def texts_def)
    have "take x (doc_text d) = concat (take i (texts d)) @ take ?n (texts d ! i)"
      using i(2,3) off_Suc[OF i(1)] concat_take_drop_Suc[of i "texts d"] i(1)
      by (auto simp: doc_text_def off_def simp flip: concat_take_drop_Suc[of i "texts d"])
    then have total: "newlines (take x (doc_text d)) =
        newlines (concat (take i (texts d))) + newlines (take ?n (texts d ! i))" by simp
    have "lower_bound (p_line_starts ?p) ?n = newlines (take ?n (texts d ! i))"
      by (simp add: ls lower_bound_eq newline_offsets_sorted newlines_take)
    then show ?thesis
      using 3 inv piece_at_eq[OF inv i] doc_inv_cum(2)[OF inv ne, of i] i(1) total n32
      by (simp add: offset_to_line_def Let_def wrap32_id)
  qed
qed

section \<open>Line to offset\<close>

text \<open>The offset of the first code unit of a line: just after the newline that ends the line
  before it.\<close>

definition line_start :: "u16 list \<Rightarrow> nat \<Rightarrow> nat" where
  "line_start t line = (if line = 0 then 0 else newline_offsets t ! (line - 1) + 1)"

lemma nth_newline_offsets_concat:
  assumes "i < length xss" and "newlines (concat (take i xss)) \<le> k"
    and "k < newlines (concat (take (Suc i) xss))"
  shows "newline_offsets (concat xss) ! k =
    length (concat (take i xss)) + newline_offsets (xss ! i) ! (k - newlines (concat (take i xss)))"
proof -
  let ?a = "concat (take i xss)" and ?b = "xss ! i" and ?c = "concat (drop (Suc i) xss)"
  have "concat xss = ?a @ ?b @ ?c"
    using concat_take_drop_Suc[OF assms(1)] by simp
  moreover have "k - newlines ?a < newlines ?b"
    using assms by (simp add: take_Suc_conv_app_nth)
  ultimately show ?thesis
    using assms(2) by (simp add: newline_offsets_append nth_append)
qed

lemma newlines_take_mono:
  "i \<le> j \<Longrightarrow> newlines (concat (take i xss)) \<le> newlines (concat (take j xss))"
  by (metis append_take_drop_id concat_append le_add1 min.absorb1 newlines_append take_take)

text \<open>Every newline of a concatenation is in the first segment where the running count passes it.\<close>

lemma newline_segment:
  assumes "k < newlines (concat xss)"
  obtains i where "i < length xss" "newlines (concat (take i xss)) \<le> k"
    "k < newlines (concat (take (Suc i) xss))"
proof -
  let ?P = "\<lambda>i. k < newlines (concat (take (Suc i) xss))"
  have ex: "?P (length xss)" using assms by simp
  define i where "i = (LEAST i. ?P i)"
  have Pi: "?P i" unfolding i_def using ex by (rule LeastI)
  have below: "newlines (concat (take i xss)) \<le> k"
  proof (cases i)
    case (Suc j)
    then have "\<not> ?P j" using not_less_Least[of j ?P] i_def by auto
    then show ?thesis using Suc by simp
  qed (simp add: newlines_def)
  have "i < length xss"
  proof (rule ccontr)
    assume "\<not> i < length xss"
    then show False using below assms by simp
  qed
  then show thesis using that Pi below by blast
qed

lemma line_piece_eq:
  assumes inv: "doc_inv d" and i: "i < length (pieces d)"
    "newlines (concat (take i (texts d))) < line" "line \<le> newlines (concat (take (Suc i) (texts d)))"
  shows "bsearch (\<lambda>mid. line \<le> cum_lines d ! (mid + 1)) 0 (length (pieces d)) = i"
proof (rule bsearch_eqI)
  have ne: "pieces d \<noteq> []" using i by auto
  show "\<not> line \<le> cum_lines d ! (j + 1)" if "j < i" for j
    using that doc_inv_cum(2)[OF inv ne, of "Suc j"] newlines_take_mono[of "Suc j" i "texts d"] i
    by simp
  show "line \<le> cum_lines d ! (j + 1)" if "i \<le> j" "j < length (pieces d)" for j
    using that doc_inv_cum(2)[OF inv ne, of "Suc j"]
      newlines_take_mono[of "Suc i" "Suc j" "texts d"] i by simp
qed (use i in auto)

lemma set_newline_offsets: "set (newline_offsets xs) = {i. i < length xs \<and> xs ! i = newline}"
  by (auto simp: newline_offsets_def)

lemma nth_newline_offsets:
  assumes "k < newlines xs"
  shows "newline_offsets xs ! k < length xs" and "xs ! (newline_offsets xs ! k) = newline"
  using nth_mem[of k "newline_offsets xs"] assms by (simp_all add: set_newline_offsets)

lemma line_to_offset_eq:
  assumes inv: "doc_inv d" and line: "line \<le> newlines (doc_text d)"
  shows "line_to_offset d line = line_start (doc_text d) line"
proof (cases "line = 0")
  case False
  then have "line - 1 < newlines (concat (texts d))" using line by (simp add: doc_text_def)
  then obtain i where i: "i < length (pieces d)" "newlines (concat (take i (texts d))) \<le> line - 1"
      "line - 1 < newlines (concat (take (Suc i) (texts d)))"
    using newline_segment by (metis length_texts)
  let ?b = "newlines (concat (take i (texts d)))"
  have ne: "pieces d \<noteq> []" using i by auto
  have ls: "p_line_starts (pieces d ! i) = newline_offsets (texts d ! i)"
    using doc_inv_piece_ok[OF inv i(1)] i(1) by (simp add: piece_ok_def texts_def)
  have w: "line - 1 - ?b < newlines (texts d ! i)"
    using i by (simp add: take_Suc_conv_app_nth)
  have l32: "line < 2 ^ 32" "length (doc_text d) < 2 ^ 32"
    using line newlines_le[of "doc_text d"] inv by (auto simp: doc_inv_def)
  have sub: "sub32 (sub32 line ?b) 1 = line - 1 - ?b"
    using i False l32 by (simp add: sub32_id)
  have pos: "line_start (doc_text d) line = off d i + (newline_offsets (texts d ! i) ! (line - 1 - ?b) + 1)"
    using False nth_newline_offsets_concat[of i "texts d" "line - 1"] i
    by (simp add: line_start_def doc_text_def off_def)
  have "off d i + (newline_offsets (texts d ! i) ! (line - 1 - ?b) + 1) \<le> length (doc_text d)"
    using nth_newline_offsets(1)[OF w] off_Suc[OF i(1)] off_less_length(2)[OF inv i(1)] by simp
  then show ?thesis
    using False line inv i line_piece_eq[OF inv i(1), of line] w l32 sub
      doc_inv_cum[OF inv ne, of i]
    by (simp add: line_to_offset_def Let_def ls wrap32_id pos)
qed (simp add: line_to_offset_def line_start_def)

lemma line_to_offset_past:
  assumes "doc_inv d" and "newlines (doc_text d) < line"
  shows "line_to_offset d line = length (doc_text d)"
  using assms by (simp add: line_to_offset_def)

lemma filter_le_nth:
  fixes xs :: "nat list"
  assumes "sorted_wrt (<) xs" and "k < length xs"
  shows "filter (\<lambda>i. i < xs ! k + 1) xs = take (Suc k) xs"
proof -
  let ?P = "\<lambda>i. i < xs ! k + 1"
  have "xs ! j \<le> xs ! k" if "j \<le> k" for j
    using that assms sorted_wrt_nth_less[OF assms(1), of j k] by (cases "j = k") auto
  then have "filter ?P (take (Suc k) xs) = take (Suc k) xs"
    using assms(2) by (auto simp: filter_id_conv in_set_conv_nth less_Suc_eq_le)
  moreover have "xs ! k < xs ! Suc (k + i)" if "i < length xs - Suc k" for i
    using sorted_wrt_nth_less[OF assms(1), of k "Suc (k + i)"] that by simp
  then have "filter ?P (drop (Suc k) xs) = []"
    by (fastforce simp: filter_empty_conv in_set_conv_nth)
  ultimately show ?thesis
    by (metis append_Nil2 append_take_drop_id filter_append)
qed

lemma newlines_take_line_start:
  assumes "line \<le> newlines t"
  shows "newlines (take (line_start t line) t) = line"
proof (cases line)
  case (Suc k)
  have "sorted_wrt (<) (newline_offsets t)"
    using newline_offsets_sorted newline_offsets_distinct by (simp add: strict_sorted_iff)
  then show ?thesis
    using Suc assms filter_le_nth[of "newline_offsets t" k]
    by (simp add: newlines_take line_start_def)
qed (simp add: line_start_def newlines_def)

lemma line_start_le: "line \<le> newlines t \<Longrightarrow> line_start t line \<le> length t"
  using nth_newline_offsets(1)[of "line - 1" t] by (cases line) (auto simp: line_start_def)

section \<open>Lines\<close>

text \<open>The text as a list of lines without their newlines; a text with \<open>n\<close> newlines has \<open>n + 1\<close>
  lines.\<close>

fun split_lines :: "u16 list \<Rightarrow> u16 list list" where
  "split_lines [] = [[]]"
| "split_lines (c # cs) =
     (if c = newline then [] # split_lines cs
      else (case split_lines cs of [] \<Rightarrow> [[c]] | l # ls \<Rightarrow> (c # l) # ls))"

lemma length_split_lines [simp]: "length (split_lines t) = newlines t + 1"
  by (induction t) (auto simp: newlines_def split: list.splits)

lemma newline_offsets_Cons:
  "newline_offsets (c # cs) = (if c = newline then [0] else []) @ map Suc (newline_offsets cs)"
  using newline_offsets_append[of "[c]" cs] by (auto simp: newline_offsets_def)

text \<open>A line is the part of the text between two consecutive line starts, less its newline.\<close>

lemma split_lines_nth:
  "line \<le> newlines t \<Longrightarrow> split_lines t ! line =
     (let s = line_start t line;
          e = (if line < newlines t then newline_offsets t ! line else length t)
      in take (e - s) (drop s t))"
proof (induction t arbitrary: line)
  case Nil
  then show ?case by (simp add: newlines_def)
next
  case (Cons c cs)
  show ?case
  proof (cases "c = newline")
    case True
    then show ?thesis
      using Cons.IH[of "line - 1"] Cons.prems
      by (cases line) (auto simp: newline_offsets_Cons line_start_def newlines_def Let_def nth_Cons'
          split: if_splits)
  next
    case False
    then obtain l ls where l: "split_lines cs = l # ls"
      by (metis length_split_lines Suc_eq_plus1 length_Suc_conv)
    have n: "newlines (c # cs) = newlines cs" using False by (simp add: newlines_def)
    show ?thesis
      using Cons.IH[of line] Cons.prems False l n
      by (cases line) (auto simp: newline_offsets_Cons line_start_def Let_def nth_Cons'
          split: if_splits)
  qed
qed

lemma line_range_eq:
  assumes inv: "doc_inv d" and line: "line \<le> newlines (doc_text d)"
  shows "line_range d line = \<lparr>r_start = line_start (doc_text d) line,
    r_end = (if line < newlines (doc_text d) then newline_offsets (doc_text d) ! line
             else length (doc_text d))\<rparr>"
proof -
  let ?t = "doc_text d"
  have n32: "newlines ?t + 1 < 2 ^ 32" "length ?t < 2 ^ 32"
    using newlines_le[of ?t] inv by (auto simp: doc_inv_def)
  then have w: "wrap32 (line + 1) = line + 1" using line by (simp add: wrap32_id)
  note start = line_to_offset_eq[OF inv line]
  show ?thesis
  proof (cases "line < newlines ?t")
    case True
    let ?o = "newline_offsets ?t ! line"
    have nxt: "line_to_offset d (line + 1) = ?o + 1"
      using line_to_offset_eq[OF inv, of "line + 1"] True by (simp add: line_start_def)
    have o: "?o < length ?t" "?t ! ?o = newline"
      using nth_newline_offsets[OF True] by simp_all
    have "line_start ?t line \<le> ?o"
    proof (cases line)
      case (Suc k)
      have "sorted_wrt (<) (newline_offsets ?t)"
        using newline_offsets_sorted newline_offsets_distinct by (simp add: strict_sorted_iff)
      then show ?thesis
        using Suc True sorted_wrt_nth_less[of "(<)" "newline_offsets ?t" k line]
        by (simp add: line_start_def)
    qed (simp add: line_start_def)
    moreover have "code_unit_at d ?o = newline"
      using o by (simp add: code_unit_at_eq[OF inv])
    ultimately show ?thesis
      using True inv w nxt start o n32
      by (simp add: line_range_def Let_def sub32_id)
  next
    case False
    then have l: "line = newlines ?t" using line by simp
    have "newlines (drop (line_start ?t line) ?t) = 0"
      using newlines_take_line_start[OF line] l
        newlines_append[of "take (line_start ?t line) ?t" "drop (line_start ?t line) ?t"] by simp
    then have no_nl: "newline \<notin> set (drop (line_start ?t line) ?t)"
      by (auto simp: newlines_def filter_empty_conv)
    have "code_unit_at d (length ?t - 1) \<noteq> newline" if "line_start ?t line < length ?t"
    proof -
      have "?t ! (length ?t - 1) = last (drop (line_start ?t line) ?t)"
        using that by (simp add: last_conv_nth)
      also have "\<dots> \<in> set (drop (line_start ?t line) ?t)"
        using that by (intro last_in_set) simp
      finally show ?thesis using no_nl that by (auto simp: code_unit_at_eq[OF inv])
    qed
    then show ?thesis
      using inv w start n32 line_start_le[OF line]
      by (auto simp: line_range_def Let_def sub32_id l)
  qed
qed

section \<open>Search\<close>

text \<open>What a match is, on the text.\<close>

definition occurs_at :: "bool \<Rightarrow> u16 list \<Rightarrow> u16 list \<Rightarrow> nat \<Rightarrow> bool" where
  "occurs_at ci t needle q \<longleftrightarrow>
     q + length needle \<le> length t \<and> list_all2 (unit_eq ci) (take (length needle) (drop q t)) needle"

lemma matches_at_occurs:
  assumes "f \<le> length t" and "i + length needle \<le> length t - f"
  shows "matches_at ci (drop f t) needle i \<longleftrightarrow> occurs_at ci t needle (f + i)"
  using assms
  by (auto simp: matches_at_def occurs_at_def list_all2_conv_all_nth list_all_iff add.assoc)

declare search_loop.simps [simp del]

lemma search_loop_found:
  "needle \<noteq> [] \<Longrightarrow> i + length needle \<le> length hay \<Longrightarrow> found < limit \<Longrightarrow> matches_at ci hay needle i \<Longrightarrow>
   search_loop ci hay needle f limit found i =
     (wrap32 (f + i), wrap32 (f + i + length needle)) #
     search_loop ci hay needle f limit (found + 1) (i + length needle)"
  by (simp add: search_loop.simps[of ci hay needle f limit found i])

lemma search_loop_skip:
  "needle \<noteq> [] \<Longrightarrow> i + length needle \<le> length hay \<Longrightarrow> found < limit \<Longrightarrow> \<not> matches_at ci hay needle i \<Longrightarrow>
   search_loop ci hay needle f limit found i = search_loop ci hay needle f limit found (i + 1)"
  by (simp add: search_loop.simps[of ci hay needle f limit found i])

lemma search_loop_stop:
  "\<not> (needle \<noteq> [] \<and> i + length needle \<le> length hay \<and> found < limit) \<Longrightarrow>
   search_loop ci hay needle f limit found i = []"
  by (subst search_loop.simps) (rule if_not_P)

text \<open>A scan from position \<open>i\<close>: the ranges are matches at or after \<open>i\<close>, they are in order and do not
  overlap, there are at most as many as asked for, and if fewer were found every match at or
  after \<open>i\<close> starts inside one of them.\<close>

definition scan_ok ::
    "bool \<Rightarrow> u16 list \<Rightarrow> u16 list \<Rightarrow> nat \<Rightarrow> nat \<Rightarrow> nat \<Rightarrow> (nat \<times> nat) list \<Rightarrow> bool" where
  "scan_ok ci hay needle f room i R \<longleftrightarrow>
     (\<forall>(s, e) \<in> set R. \<exists>q. i \<le> q \<and> s = f + q \<and> e = s + length needle \<and>
        q + length needle \<le> length hay \<and> matches_at ci hay needle q) \<and>
     sorted_wrt (\<lambda>x y. snd x \<le> fst y) R \<and> length R \<le> room \<and>
     (length R < room \<longrightarrow> (\<forall>q. i \<le> q \<and> q + length needle \<le> length hay \<and> matches_at ci hay needle q \<longrightarrow>
        (\<exists>(s, e) \<in> set R. s \<le> f + q \<and> f + q < e)))"

lemma scan_ok_found:
  assumes "scan_ok ci hay needle f room (i + length needle) R" and "needle \<noteq> []"
    and "i + length needle \<le> length hay" and "matches_at ci hay needle i"
  shows "scan_ok ci hay needle f (Suc room) i ((f + i, f + i + length needle) # R)"
proof -
  have "\<exists>(s, e) \<in> set ((f + i, f + i + length needle) # R). s \<le> f + q \<and> f + q < e"
    if "length R < room" "i \<le> q" "q + length needle \<le> length hay" "matches_at ci hay needle q" for q
  proof (cases "i + length needle \<le> q")
    case True
    then show ?thesis using assms(1) that by (auto simp: scan_ok_def)
  next
    case False
    then show ?thesis using that by auto
  qed
  then show ?thesis
    using assms unfolding scan_ok_def by fastforce
qed

lemma scan_ok_skip:
  assumes "scan_ok ci hay needle f room (i + 1) R" and "\<not> matches_at ci hay needle i"
  shows "scan_ok ci hay needle f room i R"
proof -
  have "i + 1 \<le> q" if "i \<le> q" "matches_at ci hay needle q" for q
    using that assms(2) by (cases "q = i") auto
  moreover have "i \<le> q" if "i + 1 \<le> q" for q
    using that by simp
  ultimately show ?thesis
    using assms(1) unfolding scan_ok_def by (blast elim!: ballE)
qed

lemma search_loop_ok:
  assumes "needle \<noteq> []" and "f + length hay < 2 ^ 32"
  shows "scan_ok ci hay needle f (limit - found) i (search_loop ci hay needle f limit found i)"
  using assms
proof (induction ci hay needle f limit found i rule: search_loop.induct)
  case (1 ci hay needle f limit found i)
  show ?case
  proof (cases "i + length needle \<le> length hay \<and> found < limit")
    case True
    show ?thesis
    proof (cases "matches_at ci hay needle i")
      case m: True
      have "scan_ok ci hay needle f (limit - (found + 1)) (i + length needle)
          (search_loop ci hay needle f limit (found + 1) (i + length needle))"
        using 1 True m by simp
      then have "scan_ok ci hay needle f (Suc (limit - (found + 1))) i
          ((f + i, f + i + length needle) #
           search_loop ci hay needle f limit (found + 1) (i + length needle))"
        using "1.prems" True m by (intro scan_ok_found) auto
      moreover have "wrap32 (f + i) = f + i" "wrap32 (f + i + length needle) = f + i + length needle"
        using "1.prems"(2) True by (simp_all add: wrap32_id)
      moreover have "Suc (limit - (found + 1)) = limit - found"
        using True by linarith
      ultimately show ?thesis
        using "1.prems"(1) True m by (simp add: search_loop_found)
    next
      case m: False
      then have "scan_ok ci hay needle f (limit - found) (i + 1)
          (search_loop ci hay needle f limit found (i + 1))"
        using 1 True by simp
      then show ?thesis
        using "1.prems"(1) True m scan_ok_skip by (simp add: search_loop_skip)
    qed
  next
    case False
    then show ?thesis
      by (auto simp: search_loop_stop scan_ok_def)
  qed
qed

section \<open>Properties\<close>

text \<open>
  The piecewise newline index is exact: the line of an offset is the number of newlines
  before it, and the line of the offset where a line starts is that line.\<close>

theorem line_index_exact:
  assumes "doc_inv d" and "line < line_count d"
  shows "offset_to_line d x = newlines (take x (doc_text d)) \<and>
    line_to_offset d line = line_start (doc_text d) line \<and>
    offset_to_line d (line_to_offset d line) = line"
  using assms by (simp add: offset_to_line_eq line_to_offset_eq newlines_take_line_start)

lemma sample_document:
  fixes t :: "u16 list"
  assumes "t = [97, 10, 98, 10]"
  shows "doc_inv (new_document t :: nat text_document)"
    and "doc_text (new_document t :: nat text_document) = t"
  using assms new_document_correct[of t] by simp_all

theorem line_index_exact_witness:
  "offset_to_line (new_document [97, 10, 98, 10] :: nat text_document) 3 = 1 \<and>
   line_to_offset (new_document [97, 10, 98, 10] :: nat text_document) 2 = 4"
proof -
  note d = sample_document[OF refl]
  have "newlines [97, 10, 98, 10] = 2" by (simp add: newlines_def)
  then have "2 < line_count (new_document [97, 10, 98, 10] :: nat text_document)"
    using d by simp
  from line_index_exact[OF d(1) this, of 3] show ?thesis
    by (simp add: d newlines_def line_start_def newline_offsets_def)
qed

text \<open>
  \<^verbatim>\<open>line_count\<close> and \<^verbatim>\<open>line_text\<close> present the text as its list of lines: line \<open>i\<close> is what stands
  between newline \<open>i\<close> and the next one, without either; past the last line it is empty.\<close>

theorem line_text_is_line:
  assumes "doc_inv d"
  shows "line_count d = length (split_lines (doc_text d)) \<and>
    line_text d line =
      (if line < length (split_lines (doc_text d)) then split_lines (doc_text d) ! line else [])"
proof (cases "line \<le> newlines (doc_text d)")
  case True
  then show ?thesis
    using assms line_range_eq[OF assms True] split_lines_nth[OF True]
    by (simp add: line_text_def Let_def slice_eq)
next
  case False
  then show ?thesis
    using assms by (simp add: line_text_def line_range_def Let_def slice_eq)
qed

theorem line_text_is_line_witness:
  "line_text (new_document [97, 10, 98, 10] :: nat text_document) 1 = [98]"
  using line_text_is_line[OF sample_document(1)[OF refl], of 1] sample_document(2)[OF refl]
  by simp

text \<open>
  Literal search is sound and complete: the ranges it returns are matches of the needle at or
  after the start offset, in ascending order without overlap, at most \<open>limit\<close> of them; and when it
  stops short of the limit, every match in that part of the text starts inside a returned range.\<close>

theorem search_literal_exact:
  assumes "doc_inv d" and "needle \<noteq> []" and "R = search_literal d needle f limit ci"
  shows "(\<forall>(s, e) \<in> set R. f \<le> s \<and> e = s + length needle \<and> occurs_at ci (doc_text d) needle s) \<and>
    sorted_wrt (\<lambda>x y. snd x \<le> fst y) R \<and> length R \<le> limit \<and>
    (length R < limit \<longrightarrow> (\<forall>q. f \<le> q \<and> occurs_at ci (doc_text d) needle q \<longrightarrow>
       (\<exists>(s, e) \<in> set R. s \<le> q \<and> q < e)))"
proof (cases "f < length (doc_text d) \<and> length needle \<le> length (doc_text d) - f")
  case True
  let ?t = "doc_text d" and ?hay = "drop f (doc_text d)"
  have "R = search_loop ci ?hay needle f limit 0 0"
    using True assms by (simp add: search_literal_def Let_def slice_eq)
  moreover have "f + length ?hay < 2 ^ 32"
    using assms(1) True by (simp add: doc_inv_def)
  ultimately have ok: "scan_ok ci ?hay needle f limit 0 R"
    using search_loop_ok[OF assms(2), of f ?hay ci limit 0 0] by simp
  have m: "matches_at ci ?hay needle i \<longleftrightarrow> occurs_at ci ?t needle (f + i)"
    if "i + length needle \<le> length ?t - f" for i
    using matches_at_occurs[OF _ that] True by simp
  have q: "\<exists>(s, e) \<in> set R. s \<le> q \<and> q < e"
    if "length R < limit" "f \<le> q" "occurs_at ci ?t needle q" for q
  proof -
    have "(q - f) + length needle \<le> length ?t - f"
      using that(2,3) unfolding occurs_at_def by linarith
    moreover from this have "matches_at ci ?hay needle (q - f)"
      using m[of "q - f"] that by simp
    moreover have "\<forall>i. i + length needle \<le> length ?hay \<and> matches_at ci ?hay needle i \<longrightarrow>
        (\<exists>(s, e) \<in> set R. s \<le> f + i \<and> f + i < e)"
      using ok that(1) by (simp add: scan_ok_def)
    ultimately show ?thesis
      using that(2) by (fastforce dest!: spec[of _ "q - f"])
  qed
  show ?thesis
    using ok q m unfolding scan_ok_def by fastforce
next
  case False
  then have "R = []"
    using assms by (auto simp: search_literal_def Let_def slice_eq)
  moreover have "\<not> occurs_at ci (doc_text d) needle q" if "f \<le> q" for q
    using False that assms(2) by (cases "f < length (doc_text d)") (auto simp: occurs_at_def)
  ultimately show ?thesis by simp
qed

theorem search_literal_exact_witness:
  "search_literal (new_document [97, 10, 98, 10] :: nat text_document) [10] 0 5 False = [(1, 2), (3, 4)] \<and>
   {q. occurs_at False [97, 10, 98, 10] [10] q} \<subseteq> {1..<2} \<union> {3..<4}"
proof -
  have "search_literal (new_document [97, 10, 98, 10] :: nat text_document) [10] 0 5 False = [(1, 2), (3, 4)]"
    using sample_document[OF refl]
    by (simp add: search_literal_def slice_eq search_loop.simps matches_at_def unit_eq_def wrap32_def)
  then show ?thesis
    using search_literal_exact[OF sample_document(1)[OF refl] _ refl, of "[10]" 0 5 False]
      sample_document(2)[OF refl] by auto
qed

end
