(* ===== verification/Bsdiff.thy ===== *)
theory Bsdiff
  imports Prelude
begin

text \<open>
  Applying a binary patch, \<^verbatim>\<open>src/runtime/bsdiff_apply.cpp\<close>. Sizes and offsets are naturals below
  \<^verbatim>\<open>2^64\<close>, wrapped where the code can wrap them; the three streams of a patch are addressed through
  pointers into the patch bytes, and reading through a pointer that has left the patch is an outcome
  of its own, as are the exception that \<^verbatim>\<open>reserve\<close> throws above the bound \<open>cap\<close> and the overflow of
  \<^verbatim>\<open>-seek_offset\<close>. The theorems show that a patch built from diff, extra and seek entries produces
  the bytes the entries describe, that no patch whose stream lengths sum up below \<^verbatim>\<open>2^64\<close> is read out
  of bounds, and that a patch whose lengths wrap is.
\<close>

section \<open>Definitions\<close>

datatype bs_error = Header_truncated | Magic_invalid | Length_mismatch | Control_misaligned
  | Control_truncated | Negative_sizes | Diff_truncated | Mix_exceeds_source | Output_too_large
  | Extra_truncated | Seek_before_start | Seek_past_end | Not_consumed

text \<open>A failure leaves what was produced so far in \<^verbatim>\<open>out\<close>.\<close>

datatype bs_result = Applied bytes | Failed bs_error bytes | Throws | Out_of_bounds | Signed_overflow

definition k_magic :: bytes where
  "k_magic = [0x46, 0x58, 0x45, 0x42, 0x53, 0x44, 0, 0]"

definition read_u64_le :: "bytes \<Rightarrow> nat \<Rightarrow> u64 option" where
  "read_u64_le bs offset =
     (if offset > length bs \<or> length bs - offset < 8 then None
      else Some (foldl (\<lambda>out b. push_bit 8 out OR ucast b) 0 (rev (take 8 (drop offset bs)))))"

text \<open>Reading \<open>n\<close> bytes of the patch from index \<open>base\<close> on; nothing is read when \<open>n\<close> is zero.\<close>

definition read_range :: "bytes \<Rightarrow> nat \<Rightarrow> nat \<Rightarrow> bytes option" where
  "read_range patch base n =
     (if n = 0 then Some []
      else if base + n \<le> length patch then Some (take n (drop base patch))
      else None)"

datatype fetch = Truncated | Outside | Fetched int

definition read_i64_le :: "bytes \<Rightarrow> nat \<Rightarrow> nat \<Rightarrow> nat \<Rightarrow> fetch" where
  "read_i64_le patch ptr len offset =
     (if offset > len \<or> len - offset < 8 then Truncated
      else case read_range patch (wrap64 (ptr + offset)) 8 of
        None \<Rightarrow> Outside
      | Some bs \<Rightarrow>
          Fetched (sint (foldl (\<lambda>raw b. push_bit 8 raw OR ucast b) (0 :: u64) (rev bs))))"

record bs_header =
  control_len :: nat
  diff_len :: nat
  extra_len :: nat

record bs_state =
  control_off :: nat
  diff_off :: nat
  extra_off :: nat
  old_pos :: nat
  out :: bytes

text \<open>The stream pointers, as indices into the patch.\<close>

definition control_ptr :: nat where
  "control_ptr = 32"

definition diff_ptr :: "bs_header \<Rightarrow> nat" where
  "diff_ptr h = wrap64 (control_ptr + control_len h)"

definition extra_ptr :: "bs_header \<Rightarrow> nat" where
  "extra_ptr h = wrap64 (diff_ptr h + diff_len h)"

text \<open>The seek at the end of an entry.\<close>

definition seek_step :: "nat \<Rightarrow> int \<Rightarrow> bs_state \<Rightarrow> bs_result + bs_state" where
  "seek_step old_size seek_offset st =
     (if seek_offset < 0
      then if seek_offset = - (2 ^ 63) then Inl Signed_overflow
           else if nat (- seek_offset) > old_pos st then Inl (Failed Seek_before_start (out st))
           else Inr (st\<lparr>old_pos := old_pos st - nat (- seek_offset)\<rparr>)
      else if nat seek_offset > old_size - old_pos st then Inl (Failed Seek_past_end (out st))
      else Inr (st\<lparr>old_pos := old_pos st + nat seek_offset\<rparr>))"

text \<open>The mixed and the extra bytes of an entry.\<close>

definition copy_step :: "nat \<Rightarrow> bytes \<Rightarrow> bytes \<Rightarrow> bs_header \<Rightarrow> nat \<Rightarrow> nat \<Rightarrow> int \<Rightarrow> bs_state
    \<Rightarrow> bs_result + bs_state" where
  "copy_step cap old_bytes patch h mix extra_size seek_offset st =
     (if diff_off st > diff_len h \<or> mix > diff_len h - diff_off st then Inl (Failed Diff_truncated (out st))
      else if old_pos st > length old_bytes \<or> mix > length old_bytes - old_pos st
      then Inl (Failed Mix_exceeds_source (out st))
      else if length (out st) > 2 ^ 64 - 1 - mix then Inl (Failed Output_too_large (out st))
      else if wrap64 (length (out st) + mix + extra_size) > cap then Inl Throws
      else case read_range patch (wrap64 (diff_ptr h + diff_off st)) mix of
        None \<Rightarrow> Inl Out_of_bounds
      | Some diff \<Rightarrow>
          let st = st\<lparr>out := out st @ map2 (+) (take mix (drop (old_pos st) old_bytes)) diff,
                      diff_off := diff_off st + mix, old_pos := old_pos st + mix\<rparr>
          in if extra_off st > extra_len h \<or> extra_size > extra_len h - extra_off st
             then Inl (Failed Extra_truncated (out st))
             else case read_range patch (wrap64 (extra_ptr h + extra_off st)) extra_size of
               None \<Rightarrow> Inl Out_of_bounds
             | Some extra \<Rightarrow>
                 seek_step (length old_bytes) seek_offset
                   (st\<lparr>out := out st @ extra, extra_off := extra_off st + extra_size\<rparr>))"

text \<open>The body of the control loop.\<close>

definition bs_step :: "nat \<Rightarrow> bytes \<Rightarrow> bytes \<Rightarrow> bs_header \<Rightarrow> bs_state \<Rightarrow> bs_result + bs_state" where
  "bs_step cap old_bytes patch h st =
     (let rd = read_i64_le patch control_ptr (control_len h); off = control_off st;
          st' = st\<lparr>control_off := off + 24\<rparr>
      in case rd off of
           Truncated \<Rightarrow> Inl (Failed Control_truncated (out st)) | Outside \<Rightarrow> Inl Out_of_bounds
         | Fetched mix_count \<Rightarrow>
      (case rd (off + 8) of
           Truncated \<Rightarrow> Inl (Failed Control_truncated (out st)) | Outside \<Rightarrow> Inl Out_of_bounds
         | Fetched extra_count \<Rightarrow>
      (case rd (off + 16) of
           Truncated \<Rightarrow> Inl (Failed Control_truncated (out st)) | Outside \<Rightarrow> Inl Out_of_bounds
         | Fetched seek_offset \<Rightarrow>
             if mix_count < 0 \<or> extra_count < 0 then Inl (Failed Negative_sizes (out st))
             else copy_step cap old_bytes patch h (nat mix_count) (nat extra_count) seek_offset st')))"

lemma seek_step_control: "seek_step n s st = Inr st' \<Longrightarrow> control_off st' = control_off st"
  by (auto simp: seek_step_def split: if_splits)

lemma bs_step_control:
  assumes "bs_step cap old_bytes patch h st = Inr st'"
  shows "control_off st' = control_off st + 24"
  using assms
  by (auto simp: bs_step_def copy_step_def Let_def dest!: seek_step_control
      split: fetch.splits if_splits option.splits)

function bs_loop :: "nat \<Rightarrow> bytes \<Rightarrow> bytes \<Rightarrow> bs_header \<Rightarrow> bs_state \<Rightarrow> bs_result" where
  "bs_loop cap old_bytes patch h st =
     (if control_off st < control_len h
      then case bs_step cap old_bytes patch h st of
             Inl r \<Rightarrow> r
           | Inr st' \<Rightarrow> bs_loop cap old_bytes patch h st'
      else if diff_off st \<noteq> diff_len h \<or> extra_off st \<noteq> extra_len h
      then Failed Not_consumed (out st)
      else Applied (out st))"
  by pat_completeness auto
termination
  by (relation "measure (\<lambda>(_, _, _, h, st). control_len h - control_off st)")
    (auto dest: bs_step_control)

declare bs_loop.simps [simp del]

definition bs_init :: bs_state where
  "bs_init = \<lparr>control_off = 0, diff_off = 0, extra_off = 0, old_pos = 0, out = []\<rparr>"

definition apply_bsdiff :: "nat \<Rightarrow> bytes \<Rightarrow> bytes \<Rightarrow> bs_result" where
  "apply_bsdiff cap old_bytes patch =
     (if length patch < 32 then Failed Header_truncated []
      else if take 8 patch \<noteq> k_magic then Failed Magic_invalid []
      else case (read_u64_le patch 8, read_u64_le patch 16, read_u64_le patch 24) of
        (Some c, Some d, Some e) \<Rightarrow>
          let total = unat (32 + c + d + e)
          in if total \<noteq> length patch then Failed Length_mismatch []
             else if unat c mod 24 \<noteq> 0 then Failed Control_misaligned []
             else bs_loop cap old_bytes patch
                    \<lparr>control_len = unat c, diff_len = unat d, extra_len = unat e\<rparr> bs_init
      | _ \<Rightarrow> Failed Header_truncated [])"

section \<open>Reading what was written\<close>

text \<open>\<open>bs\<close> stands in the patch from index \<open>base\<close> on.\<close>

definition stands_at :: "bytes \<Rightarrow> nat \<Rightarrow> bytes \<Rightarrow> bool" where
  "stands_at patch base bs \<longleftrightarrow> base + length bs \<le> length patch \<and> take (length bs) (drop base patch) = bs"

lemma stands_at_append [simp]:
  "stands_at patch base (xs @ ys) \<longleftrightarrow> stands_at patch base xs \<and> stands_at patch (base + length xs) ys"
  unfolding stands_at_def by (auto simp: take_add add.commute add.left_commute append_eq_append_conv)

lemma stands_at_Nil [simp]: "stands_at patch base [] \<longleftrightarrow> base \<le> length patch"
  by (simp add: stands_at_def)

lemma stands_at_middle: "stands_at (xs @ bs @ ys) (length xs) bs"
  by (simp add: stands_at_def)

lemma read_range_stands_at [codec_simps]:
  "stands_at patch base bs \<Longrightarrow> read_range patch base (length bs) = Some bs"
  by (auto simp: stands_at_def read_range_def)

lemma read_range_length: "read_range patch base n = Some bs \<Longrightarrow> length bs = n"
  by (auto simp: read_range_def split: if_splits)

lemma read_i64_stands_at [codec_simps]:
  assumes "stands_at patch (ptr + offset) (le_bytes 8 w)" and "offset + 8 \<le> len" and "length patch < 2 ^ 64"
  shows "read_i64_le patch ptr len offset = Fetched (sint (w :: u64))"
proof -
  have "wrap64 (ptr + offset) = ptr + offset"
    using assms(1,3) by (intro wrap64_id) (simp add: stands_at_def)
  then show ?thesis
    using assms(2) read_range_stands_at[OF assms(1)]
    by (auto simp: read_i64_le_def foldl_rev_le_word le_word_le_bytes_id)
qed

lemma read_u64_stands_at [codec_simps]:
  "stands_at patch offset (le_bytes 8 w) \<Longrightarrow> read_u64_le patch offset = Some w"
  by (auto simp: stands_at_def read_u64_le_def foldl_rev_le_word le_word_le_bytes_id)

section \<open>What a patch means\<close>

record bs_entry =
  mixed :: bytes
  extra :: bytes
  seek :: int

definition control_bytes :: "bs_entry \<Rightarrow> bytes" where
  "control_bytes e = le_bytes 8 (of_nat (length (mixed e)) :: u64) @
     le_bytes 8 (of_nat (length (extra e)) :: u64) @ le_bytes 8 (word_of_int (seek e) :: u64)"

definition controls :: "bs_entry list \<Rightarrow> bytes" where
  "controls es = concat (map control_bytes es)"

definition diffs :: "bs_entry list \<Rightarrow> bytes" where
  "diffs es = concat (map mixed es)"

definition extras :: "bs_entry list \<Rightarrow> bytes" where
  "extras es = concat (map extra es)"

definition make_patch :: "bs_entry list \<Rightarrow> bytes" where
  "make_patch es = k_magic @ le_bytes 8 (of_nat (length (controls es)) :: u64) @
     le_bytes 8 (of_nat (length (diffs es)) :: u64) @ le_bytes 8 (of_nat (length (extras es)) :: u64) @
     controls es @ diffs es @ extras es"

text \<open>The bytes a list of entries describes, starting at position \<open>pos\<close> of the old bytes.\<close>

fun patched :: "bytes \<Rightarrow> nat \<Rightarrow> bs_entry list \<Rightarrow> bytes option" where
  "patched old pos [] = Some []"
| "patched old pos (e # es) =
     (let mid = pos + length (mixed e); target = int mid + seek e
      in if mid \<le> length old \<and> 0 \<le> target \<and> target \<le> int (length old)
         then map_option (\<lambda>r. map2 (+) (take (length (mixed e)) (drop pos old)) (mixed e) @ extra e @ r)
                (patched old (nat target) es)
         else None)"

lemma length_control_bytes [simp]: "length (control_bytes e) = 24"
  by (simp add: control_bytes_def)

lemma streams_simps [simp]:
  "controls [] = []" "controls (e # es) = control_bytes e @ controls es"
  "diffs [] = []" "diffs (e # es) = mixed e @ diffs es"
  "extras [] = []" "extras (e # es) = extra e @ extras es"
  by (simp_all add: controls_def diffs_def extras_def)

lemma length_controls [simp]: "length (controls es) = 24 * length es"
  by (induction es) simp_all

lemma length_patched: "patched old pos es = Some r \<Longrightarrow> length r = length (diffs es) + length (extras es)"
  by (induction es arbitrary: pos r) (auto simp: Let_def split: if_splits)

lemma sint_of_nat: "n < 2 ^ 63 \<Longrightarrow> sint (of_nat n :: u64) = int n"
  by (simp add: signed_of_nat signed_take_bit_int_eq_self_iff)

lemma sint_of_int: "- (2 ^ 63) \<le> i \<Longrightarrow> i < 2 ^ 63 \<Longrightarrow> sint (word_of_int i :: u64) = i"
  by (simp add: signed_of_int signed_take_bit_int_eq_self_iff)

lemma seek_step_to:
  assumes "0 \<le> int (old_pos st) + s" and "int (old_pos st) + s \<le> int old_size" and "old_size < 2 ^ 63"
    and "old_pos st \<le> old_size"
  shows "seek_step old_size s st = Inr (st\<lparr>old_pos := nat (int (old_pos st) + s)\<rparr>)"
proof (cases "s < 0")
  case True
  have "old_pos st - nat (- s) = nat (int (old_pos st) + s)" "\<not> nat (- s) > old_pos st"
    using True assms by linarith+
  moreover have "s \<noteq> - (2 ^ 63)"
    using assms by auto
  ultimately show ?thesis by (simp add: seek_step_def)
next
  case False
  have "old_pos st + nat s = nat (int (old_pos st) + s)" "\<not> nat s > old_size - old_pos st"
    using False assms by linarith+
  with False show ?thesis by (simp add: seek_step_def)
qed

text \<open>The state after an entry.\<close>

definition entry_step :: "bytes \<Rightarrow> bs_entry \<Rightarrow> bs_state \<Rightarrow> bs_state" where
  "entry_step old e st =
     \<lparr>control_off = control_off st + 24, diff_off = diff_off st + length (mixed e),
      extra_off = extra_off st + length (extra e),
      old_pos = nat (int (old_pos st + length (mixed e)) + seek e),
      out = out st @ map2 (+) (take (length (mixed e)) (drop (old_pos st) old)) (mixed e) @ extra e\<rparr>"

text \<open>The streams of the patch hold the remaining entries.\<close>

definition holds :: "bytes \<Rightarrow> bs_header \<Rightarrow> bs_state \<Rightarrow> bs_entry list \<Rightarrow> bool" where
  "holds patch h st es \<longleftrightarrow>
     stands_at patch (32 + control_off st) (controls es) \<and>
     control_off st + 24 * length es = control_len h \<and>
     stands_at patch (32 + control_len h + diff_off st) (diffs es) \<and>
     diff_off st + length (diffs es) = diff_len h \<and>
     stands_at patch (32 + control_len h + diff_len h + extra_off st) (extras es) \<and>
     extra_off st + length (extras es) = extra_len h"

lemma wrap64_stands_at: "stands_at patch base bs \<Longrightarrow> length patch < 2 ^ 64 \<Longrightarrow> wrap64 base = base"
  by (intro wrap64_id) (auto simp: stands_at_def)

lemma bs_step_entry:
  assumes h: "holds patch h st (e # es)" and len: "length patch < 2 ^ 63" "length old < 2 ^ 63"
    and p: "patched old (old_pos st) (e # es) = Some r"
    and cap: "length (out st) + length r \<le> cap" "cap < 2 ^ 64"
  shows "bs_step cap old patch h st = Inr (entry_step old e st)"
proof -
  let ?m = "length (mixed e)" and ?x = "length (extra e)"
  have at: "stands_at patch (32 + control_off st) (le_bytes 8 (of_nat ?m :: u64))"
    "stands_at patch (32 + (control_off st + 8)) (le_bytes 8 (of_nat ?x :: u64))"
    "stands_at patch (32 + (control_off st + 16)) (le_bytes 8 (word_of_int (seek e) :: u64))"
    "stands_at patch (32 + control_len h + diff_off st) (mixed e)"
    "stands_at patch (32 + control_len h + diff_len h + extra_off st) (extra e)"
    using h by (simp_all add: holds_def control_bytes_def add.assoc)
  have len64: "length patch < 2 ^ 64" using len(1) by simp
  have fits: "?m < 2 ^ 63" "?x < 2 ^ 63" "32 + control_len h \<le> length patch"
    "32 + control_len h + diff_len h \<le> length patch"
    using at(4,5) len(1) h by (auto simp: stands_at_def holds_def)
  have ptr: "diff_ptr h = 32 + control_len h" "extra_ptr h = 32 + control_len h + diff_len h"
    using fits(3,4) len64 by (simp_all add: diff_ptr_def extra_ptr_def control_ptr_def wrap64_id)
  have pos: "old_pos st + ?m \<le> length old" "0 \<le> int (old_pos st + ?m) + seek e"
    "int (old_pos st + ?m) + seek e \<le> int (length old)"
    using p by (auto simp: Let_def split: if_splits)
  then have "- (2 ^ 63) \<le> seek e" "seek e < 2 ^ 63" using len(2) by simp_all
  then have rd: "read_i64_le patch control_ptr (control_len h) (control_off st) = Fetched (int ?m)"
    "read_i64_le patch control_ptr (control_len h) (control_off st + 8) = Fetched (int ?x)"
    "read_i64_le patch control_ptr (control_len h) (control_off st + 16) = Fetched (seek e)"
    using at(1-3) h len64 fits(1,2)
    by (simp_all add: holds_def control_ptr_def read_i64_stands_at sint_of_nat sint_of_int del: wrap64_id)
  have rng: "read_range patch (wrap64 (diff_ptr h + diff_off st)) ?m = Some (mixed e)"
    "read_range patch (wrap64 (extra_ptr h + extra_off st)) ?x = Some (extra e)"
    using read_range_stands_at[OF at(4)] read_range_stands_at[OF at(5)]
      wrap64_stands_at[OF at(4) len64] wrap64_stands_at[OF at(5) len64]
    by (simp_all only: ptr)
  have size: "?m + ?x \<le> length r" using p by (auto simp: Let_def split: if_splits)
  let ?st = "st\<lparr>control_off := control_off st + 24\<rparr>"
  have guards: "\<not> (diff_off st > diff_len h \<or> ?m > diff_len h - diff_off st)"
    "\<not> (old_pos st > length old \<or> ?m > length old - old_pos st)"
    "\<not> length (out st) > 2 ^ 64 - 1 - ?m" "\<not> wrap64 (length (out st) + ?m + ?x) > cap"
    "\<not> (extra_off st > extra_len h \<or> ?x > extra_len h - extra_off st)"
    using h pos(1) cap size by (auto simp: holds_def wrap64_id)
  have "copy_step cap old patch h ?m ?x (seek e) ?st = Inr (entry_step old e st)"
    using guards rng seek_step_to[of _ "seek e" "length old"] pos len(2)
    by (simp add: copy_step_def entry_step_def Let_def)
  then show ?thesis by (simp add: bs_step_def Let_def rd)
qed

lemma bs_loop_entries:
  assumes "holds patch h st es" and "length patch < 2 ^ 63" "length old < 2 ^ 63"
    and "patched old (old_pos st) es = Some r"
    and "length (out st) + length r \<le> cap" "cap < 2 ^ 64"
  shows "bs_loop cap old patch h st = Applied (out st @ r)"
  using assms
proof (induction es arbitrary: st r)
  case Nil
  then show ?case by (simp add: bs_loop.simps holds_def)
next
  case (Cons e es)
  let ?st = "entry_step old e st"
  obtain r' where r: "patched old (old_pos ?st) es = Some r'"
    "r = map2 (+) (take (length (mixed e)) (drop (old_pos st) old)) (mixed e) @ extra e @ r'"
    using Cons.prems(4) by (auto simp: entry_step_def Let_def split: if_splits)
  have "holds patch h ?st es"
    using Cons.prems(1) by (simp add: holds_def entry_step_def add.assoc)
  moreover have "length (out ?st) + length r' \<le> cap"
    using Cons.prems(5) r(2) by (simp add: entry_step_def)
  ultimately have "bs_loop cap old patch h ?st = Applied (out ?st @ r')"
    using Cons.IH r(1) Cons.prems(2,3,6) by blast
  then show ?case
    using bs_step_entry[OF Cons.prems] Cons.prems(1) r(2)
    by (simp add: bs_loop.simps[of cap old patch h st] holds_def) (simp add: entry_step_def)
qed

lemma holds_make_patch:
  "holds (make_patch es) \<lparr>control_len = 24 * length es, diff_len = length (diffs es),
     extra_len = length (extras es)\<rparr> bs_init es"
proof -
  have "stands_at (xs @ controls es @ diffs es @ extras es) (length xs)
      (controls es @ diffs es @ extras es)" for xs :: bytes
    using stands_at_middle[of xs "controls es @ diffs es @ extras es" "[]"] by simp
  from this[of "k_magic @ le_bytes 8 (of_nat (length (controls es)) :: u64) @
     le_bytes 8 (of_nat (length (diffs es)) :: u64) @ le_bytes 8 (of_nat (length (extras es)) :: u64)"]
  show ?thesis by (simp add: make_patch_def holds_def bs_init_def k_magic_def)
qed

lemma header_make_patch:
  "read_u64_le (make_patch es) 8 = Some (of_nat (length (controls es)))"
  "read_u64_le (make_patch es) 16 = Some (of_nat (length (diffs es)))"
  "read_u64_le (make_patch es) 24 = Some (of_nat (length (extras es)))"
  by (rule read_u64_stands_at; simp add: make_patch_def stands_at_def k_magic_def)+

section \<open>Memory safety\<close>

definition header_fits :: "bytes \<Rightarrow> bs_header \<Rightarrow> bool" where
  "header_fits patch h \<longleftrightarrow>
     32 + control_len h + diff_len h + extra_len h = length patch \<and> length patch < 2 ^ 64"

definition bs_inv :: "bytes \<Rightarrow> bs_header \<Rightarrow> bs_state \<Rightarrow> bool" where
  "bs_inv old h st \<longleftrightarrow> diff_off st \<le> diff_len h \<and> extra_off st \<le> extra_len h \<and>
     old_pos st \<le> length old \<and> length (out st) = diff_off st + extra_off st"

text \<open>What an iteration may end in: an early return other than an out-of-bounds read, or a state
  that satisfies the invariant.\<close>

fun step_ok :: "bytes \<Rightarrow> bs_header \<Rightarrow> bs_result + bs_state \<Rightarrow> bool" where
  "step_ok old h (Inl r) \<longleftrightarrow> r \<noteq> Out_of_bounds \<and> (\<forall>x. r \<noteq> Applied x)"
| "step_ok old h (Inr st) \<longleftrightarrow> bs_inv old h st"

lemma seek_step_ok: "bs_inv old h st \<Longrightarrow> step_ok old h (seek_step (length old) s st)"
  by (auto simp: seek_step_def bs_inv_def)

lemma read_range_inside:
  assumes "base + off + n \<le> length patch" and "length patch < 2 ^ 64"
  shows "read_range patch (wrap64 (base + off)) n \<noteq> None"
  using assms by (simp add: read_range_def wrap64_id)

lemma read_i64_inside:
  assumes "header_fits patch h"
  shows "read_i64_le patch control_ptr (control_len h) off \<noteq> Outside"
proof -
  have "read_range patch (wrap64 (control_ptr + off)) 8 \<noteq> None" if "off + 8 \<le> control_len h"
    using assms that by (intro read_range_inside) (simp_all add: header_fits_def control_ptr_def)
  then show ?thesis
    by (cases "off + 8 \<le> control_len h") (auto simp: read_i64_le_def split: option.splits)
qed

lemma copy_step_ok:
  assumes fits: "header_fits patch h" and inv: "bs_inv old h st"
  shows "step_ok old h (copy_step cap old patch h mix extra_size s st)"
proof -
  have ptr: "diff_ptr h = 32 + control_len h" "extra_ptr h = 32 + control_len h + diff_len h"
    using fits by (simp_all add: header_fits_def diff_ptr_def extra_ptr_def control_ptr_def wrap64_id)
  show ?thesis
  proof (cases "mix \<le> diff_len h - diff_off st \<and> mix \<le> length old - old_pos st")
    case mix: True
    have "read_range patch (wrap64 (diff_ptr h + diff_off st)) mix \<noteq> None"
      unfolding ptr using fits inv mix by (intro read_range_inside) (auto simp: header_fits_def bs_inv_def)
    then obtain d where d: "read_range patch (wrap64 (diff_ptr h + diff_off st)) mix = Some d" "length d = mix"
      using read_range_length by blast
    let ?st = "st\<lparr>out := out st @ map2 (+) (take mix (drop (old_pos st) old)) d,
                  diff_off := diff_off st + mix, old_pos := old_pos st + mix\<rparr>"
    show ?thesis
    proof (cases "extra_size \<le> extra_len h - extra_off st")
      case ex: True
      have "read_range patch (wrap64 (extra_ptr h + extra_off st)) extra_size \<noteq> None"
        unfolding ptr using fits inv ex by (intro read_range_inside) (auto simp: header_fits_def bs_inv_def)
      then obtain x where x: "read_range patch (wrap64 (extra_ptr h + extra_off st)) extra_size = Some x"
        "length x = extra_size"
        using read_range_length by blast
      have "bs_inv old h (?st\<lparr>out := out ?st @ x, extra_off := extra_off ?st + extra_size\<rparr>)"
        using inv mix ex d(2) x(2) by (auto simp: bs_inv_def)
      from seek_step_ok[OF this, of s] show ?thesis
        using d(1) x(1) by (auto simp: copy_step_def Let_def)
    next
      case False
      then show ?thesis using d(1) by (auto simp: copy_step_def Let_def)
    qed
  next
    case False
    then show ?thesis by (auto simp: copy_step_def)
  qed
qed

lemma bs_step_ok:
  assumes "header_fits patch h" and "bs_inv old h st"
  shows "step_ok old h (bs_step cap old patch h st)"
proof -
  have "bs_inv old h (st\<lparr>control_off := control_off st + 24\<rparr>)"
    using assms(2) by (simp add: bs_inv_def)
  from copy_step_ok[OF assms(1) this] read_i64_inside[OF assms(1)] show ?thesis
    by (auto simp: bs_step_def Let_def split: fetch.splits)
qed

lemma bs_loop_ok:
  assumes "header_fits patch h" and "bs_inv old h st"
  shows "bs_loop cap old patch h st \<noteq> Out_of_bounds \<and>
    (\<forall>r. bs_loop cap old patch h st = Applied r \<longrightarrow> length r = diff_len h + extra_len h)"
  using assms
proof (induction cap old patch h st rule: bs_loop.induct)
  case (1 cap old patch h st)
  note ok = bs_step_ok[OF "1.prems", of cap]
  show ?case
  proof (cases "control_off st < control_len h")
    case True
    then show ?thesis
      using ok "1.IH"[OF True _ "1.prems"(1)] by (auto simp: bs_loop.simps[of cap old patch h st] split: sum.splits)
  next
    case False
    then show ?thesis using "1.prems"(2) by (auto simp: bs_loop.simps[of cap old patch h st] bs_inv_def)
  qed
qed

text \<open>The header checks lead into the control loop.\<close>

lemma apply_bsdiff_accepted:
  assumes "read_u64_le patch 8 = Some c" "read_u64_le patch 16 = Some d" "read_u64_le patch 24 = Some e"
    and "32 \<le> length patch" "take 8 patch = k_magic" "unat (32 + c + d + e) = length patch" "unat c mod 24 = 0"
  shows "apply_bsdiff cap old patch =
    bs_loop cap old patch \<lparr>control_len = unat c, diff_len = unat d, extra_len = unat e\<rparr> bs_init"
  using assms by (simp add: apply_bsdiff_def)

lemma apply_bsdiff_rejected:
  assumes "read_u64_le patch 8 = Some c" "read_u64_le patch 16 = Some d" "read_u64_le patch 24 = Some e"
    and "\<not> (32 \<le> length patch \<and> take 8 patch = k_magic \<and> unat (32 + c + d + e) = length patch \<and> unat c mod 24 = 0)"
  shows "\<exists>err. apply_bsdiff cap old patch = Failed err []"
  using assms unfolding apply_bsdiff_def Let_def by auto

section \<open>Properties\<close>

text \<open>C35: Applying a patch made of entries to the old bytes yields exactly the bytes the entries
  describe: each diff byte added to its old byte modulo 256, the extra bytes between them, the
  seeks honoured.\<close>

theorem bsdiff_applies_entries:
  assumes "patched old 0 es = Some new" and "length (make_patch es) < 2 ^ 63" and "length old < 2 ^ 63"
    and "length new \<le> cap" and "cap < 2 ^ 64"
  shows "apply_bsdiff cap old (make_patch es) = Applied new"
proof -
  let ?h = "\<lparr>control_len = 24 * length es, diff_len = length (diffs es), extra_len = length (extras es)\<rparr>"
  have len: "length (make_patch es) = 32 + 24 * length es + length (diffs es) + length (extras es)"
    by (simp add: make_patch_def k_magic_def)
  then have u: "unat (of_nat (length (controls es)) :: u64) = 24 * length es"
    "unat (of_nat (length (diffs es)) :: u64) = length (diffs es)"
    "unat (of_nat (length (extras es)) :: u64) = length (extras es)"
    "unat (of_nat (length (make_patch es)) :: u64) = length (make_patch es)"
    using assms(2) by (simp_all only: unsigned_of_nat length_controls) (simp_all add: take_bit_nat_eq_self_iff)
  have total: "(32 + of_nat (length (controls es)) + of_nat (length (diffs es)) + of_nat (length (extras es)) :: u64)
      = of_nat (length (make_patch es))"
    by (simp add: len)
  have "bs_loop cap old (make_patch es) ?h bs_init = Applied (out bs_init @ new)"
    using holds_make_patch assms by (intro bs_loop_entries) (simp_all add: bs_init_def)
  moreover have "take 8 (make_patch es) = k_magic" "32 \<le> length (make_patch es)" "24 * length es mod 24 = 0"
    by (simp_all add: make_patch_def k_magic_def)
  moreover have "unat (32 + of_nat (length (controls es)) + of_nat (length (diffs es)) +
      of_nat (length (extras es)) :: u64) = length (make_patch es)"
    by (simp only: total u(4))
  ultimately show ?thesis
    using apply_bsdiff_accepted[OF header_make_patch, of es cap old] u(1-3)
    by (simp add: bs_init_def del: length_controls of_nat_mult)
qed

theorem bsdiff_applies_entries_witness:
  "apply_bsdiff 100 [10, 20, 30] (make_patch [\<lparr>mixed = [1, 255], extra = [7], seek = - 1\<rparr>,
     \<lparr>mixed = [0], extra = [], seek = 0\<rparr>]) = Applied [11, 19, 7, 20]"
proof (rule bsdiff_applies_entries)
  show "patched [10, 20, 30] 0 [\<lparr>mixed = [1, 255], extra = [7], seek = - 1\<rparr>,
      \<lparr>mixed = [0], extra = [], seek = 0\<rparr>] = Some [11, 19, 7, 20]"
    by simp
qed (simp_all add: make_patch_def k_magic_def)

text \<open>C34: When the header's stream lengths do not wrap around, no byte outside the patch is ever
  read, and a successful run produces as many bytes as both streams hold.\<close>

theorem bsdiff_memory_safe:
  assumes "read_u64_le patch 8 = Some c" "read_u64_le patch 16 = Some d" "read_u64_le patch 24 = Some e"
    and "32 + unat c + unat d + unat e < 2 ^ 64"
  shows "apply_bsdiff cap old patch \<noteq> Out_of_bounds \<and>
    (\<forall>new. apply_bsdiff cap old patch = Applied new \<longrightarrow> length new = unat d + unat e)"
proof -
  let ?h = "\<lparr>control_len = unat c, diff_len = unat d, extra_len = unat e\<rparr>"
  have "32 + c + d + e = (of_nat (32 + unat c + unat d + unat e) :: u64)" by simp
  then have total: "unat (32 + c + d + e) = 32 + unat c + unat d + unat e"
    using assms(4) by (simp only: unsigned_of_nat) (simp add: take_bit_nat_eq_self_iff)
  have "header_fits patch ?h" if "unat (32 + c + d + e) = length patch"
    using that assms(4) by (simp add: total header_fits_def)
  moreover have "bs_inv old ?h bs_init" by (simp add: bs_inv_def bs_init_def)
  ultimately have "bs_loop cap old patch ?h bs_init \<noteq> Out_of_bounds \<and>
      (\<forall>r. bs_loop cap old patch ?h bs_init = Applied r \<longrightarrow> length r = unat d + unat e)"
    if "unat (32 + c + d + e) = length patch"
    using bs_loop_ok[of patch ?h old bs_init cap] that by simp
  note loop = this
  show ?thesis
  proof (cases "32 \<le> length patch \<and> take 8 patch = k_magic \<and>
        unat (32 + c + d + e) = length patch \<and> unat c mod 24 = 0")
    case True
    then have "apply_bsdiff cap old patch = bs_loop cap old patch ?h bs_init"
      by (intro apply_bsdiff_accepted[OF assms(1-3)]) simp_all
    moreover have "unat (32 + c + d + e) = length patch" using True by (elim conjE)
    ultimately show ?thesis using loop by (simp only: simp_thms) blast
  next
    case False
    from apply_bsdiff_rejected[OF assms(1-3) this] obtain err
      where "apply_bsdiff cap old patch = Failed err []" by blast
    then show ?thesis by simp
  qed
qed

theorem bsdiff_memory_safe_witness:
  "apply_bsdiff 100 [10] (make_patch [\<lparr>mixed = [1], extra = [7], seek = 0\<rparr>]) \<noteq> Out_of_bounds"
proof -
  let ?es = "[\<lparr>mixed = [1], extra = [7], seek = 0\<rparr>]"
  show ?thesis
    using bsdiff_memory_safe[OF header_make_patch, of ?es 100 "[10]"] by simp
qed

text \<open>
  The length test sums in 64 bits: a patch whose control length is 24 and whose diff length
  is \<^verbatim>\<open>2^64 - 24\<close> passes with nothing behind its header, and the first control entry is read past the
  end of the patch.\<close>

theorem bsdiff_wrapped_header_reads_outside:
  "apply_bsdiff cap old (k_magic @ le_bytes 8 (24 :: u64) @ le_bytes 8 (- 24 :: u64) @ le_bytes 8 (0 :: u64))
   = Out_of_bounds"
proof -
  let ?p = "k_magic @ le_bytes 8 (24 :: u64) @ le_bytes 8 (- 24 :: u64) @ le_bytes 8 (0 :: u64)"
  have hdr: "read_u64_le ?p 8 = Some 24" "read_u64_le ?p 16 = Some (- 24)" "read_u64_le ?p 24 = Some 0"
    by (rule read_u64_stands_at; simp add: stands_at_def k_magic_def)+
  have len: "length ?p = 32" "take 8 ?p = k_magic" by (simp_all add: k_magic_def)
  have "read_i64_le ?p control_ptr 24 0 = Outside"
    by (simp add: read_i64_le_def read_range_def control_ptr_def wrap64_id k_magic_def)
  then have "bs_loop cap old ?p \<lparr>control_len = 24, diff_len = unat (- 24 :: u64), extra_len = 0\<rparr> bs_init
      = Out_of_bounds"
    by (simp add: bs_loop.simps bs_step_def bs_init_def Let_def del: append_Cons)
  then show ?thesis
    using apply_bsdiff_accepted[OF hdr, of cap old] len by simp
qed

end
