(* ===== verification/Cbor.thy ===== *)
theory Cbor
  imports Utf "HOL-Library.List_Lexorder" "HOL-Library.Product_Lexorder"
begin

text \<open>
  The CBOR codec of \<^verbatim>\<open>src/runtime/cbor.cpp\<close>, used by the archive manifest, the credential store
  and WebAuthn. Text and byte strings are lists of 8-bit words, \<^verbatim>\<open>uint64_t\<close> is a 64-bit word and
  \<^verbatim>\<open>int64_t\<close> an integer whose range is part of well-formedness. A \<^verbatim>\<open>std::map\<close> is an association
  list in ascending key order, a \<^verbatim>\<open>cmap\<close> an association list as it stands. \<^verbatim>\<open>std::sort\<close> is
  \<open>sort_key\<close> with the comparator's key; entries whose keys compare equal, which \<^verbatim>\<open>std::sort\<close> may
  leave in any order, keep their order. The recursion of the decoder is bounded by a fuel
  argument; \<open>decode\<close> passes the input length, which is shown to be enough. \<^verbatim>\<open>reserve\<close> of a vector
  throws when the count is above what the allocator can provide; that bound is the parameter
  \<open>cap\<close> of the decoder.
\<close>

section \<open>Data\<close>

datatype key = KInt int | KUint u64 | KText bytes | KBytes bytes

datatype cbor_value = Null | Bool bool | SInt int | Uint u64 | Text bytes | Bytes bytes
  | Array "cbor_value list" | Map "(bytes \<times> cbor_value) list" | CMap "(key \<times> cbor_value) list"

section \<open>Encoder\<close>

text \<open>The bytes of \<open>n\<close> from shift \<open>8 * (k - 1)\<close> down to shift 0.\<close>

definition be_bytes :: "nat \<Rightarrow> u64 \<Rightarrow> bytes" where
  "be_bytes k n = map (\<lambda>i. ucast (drop_bit (8 * i) n)) (rev [0..<k])"

definition append_uint :: "u8 \<Rightarrow> u64 \<Rightarrow> bytes" where
  "append_uint major n =
     (let head = push_bit 5 major
      in if n \<le> 23 then [head OR ucast n]
         else if n \<le> 0xff then (head OR 24) # be_bytes 1 n
         else if n \<le> 0xffff then (head OR 25) # be_bytes 2 n
         else if n \<le> 0xffffffff then (head OR 26) # be_bytes 4 n
         else (head OR 27) # be_bytes 8 n)"

definition encode_int :: "int \<Rightarrow> bytes" where
  "encode_int i =
     (if i \<ge> 0 then append_uint 0 (word_of_int i) else append_uint 1 (word_of_int (- (i + 1))))"

definition encode_string :: "u8 \<Rightarrow> bytes \<Rightarrow> bytes" where
  "encode_string major s = append_uint major (of_nat (length s)) @ s"

fun encode_key :: "key \<Rightarrow> bytes" where
  "encode_key (KUint n) = append_uint 0 n"
| "encode_key (KInt i) = encode_int i"
| "encode_key (KText s) = encode_string 3 s"
| "encode_key (KBytes s) = encode_string 2 s"

text \<open>The comparators of \<^verbatim>\<open>encode_into\<close> and \<^verbatim>\<open>key_less\<close>: shorter first, then bytewise.\<close>

definition shortlex :: "bytes \<times> 'a \<Rightarrow> nat \<times> bytes" where
  "shortlex e = (length (fst e), fst e)"

fun encode :: "cbor_value \<Rightarrow> bytes" where
  "encode Null = [0xf6]"
| "encode (Bool b) = [if b then 0xf5 else 0xf4]"
| "encode (Uint n) = append_uint 0 n"
| "encode (SInt i) = encode_int i"
| "encode (Text s) = encode_string 3 s"
| "encode (Bytes s) = encode_string 2 s"
| "encode (Array xs) = append_uint 4 (of_nat (length xs)) @ concat (map encode xs)"
| "encode (Map kvs) =
     (let items = sort_key shortlex (map (\<lambda>kv. (fst kv, encode (snd kv))) kvs)
      in append_uint 5 (of_nat (length items)) @
         concat (map (\<lambda>(k, bs). encode_string 3 k @ bs) items))"
| "encode (CMap kvs) =
     (let items = sort_key shortlex (map (\<lambda>kv. (encode_key (fst kv), encode (snd kv))) kvs)
      in append_uint 5 (of_nat (length items)) @ concat (map (\<lambda>(k, bs). k @ bs) items))"

section \<open>Decoder\<close>

text \<open>What a read returns: it throws, or it returns an optional value and leaves the cursor at some
  suffix of the input.\<close>

datatype 'a result = Length_error | Out_of_fuel | Ret "'a option" bytes

fun and_then :: "'a result \<Rightarrow> ('a option \<Rightarrow> bytes \<Rightarrow> 'b result) \<Rightarrow> 'b result" where
  "and_then (Ret x cur) f = f x cur"
| "and_then Length_error f = Length_error"
| "and_then Out_of_fuel f = Out_of_fuel"

text \<open>\<^verbatim>\<open>if (!x) return std::nullopt;\<close>\<close>

definition on_value :: "'a result \<Rightarrow> ('a \<Rightarrow> bytes \<Rightarrow> 'b result) \<Rightarrow> 'b result" where
  "on_value r f = and_then r (\<lambda>x cur. case x of None \<Rightarrow> Ret None cur | Some y \<Rightarrow> f y cur)"

definition uint_width :: "u8 \<Rightarrow> nat option" where
  "uint_width ai =
     (if ai = 24 then Some 1 else if ai = 25 then Some 2 else if ai = 26 then Some 4
      else if ai = 27 then Some 8 else None)"

definition read_uint :: "u8 \<Rightarrow> bytes \<Rightarrow> u64 result" where
  "read_uint ai cur =
     (if ai \<le> 23 then Ret (Some (ucast ai)) cur
      else case uint_width ai of
        None \<Rightarrow> Ret None cur
      | Some width \<Rightarrow>
          if length cur < width then Ret None cur
          else Ret (Some (foldl (\<lambda>out b. push_bit 8 out OR ucast b) 0 (take width cur)))
                 (drop width cur))"

fun key_of :: "cbor_value \<Rightarrow> key option" where
  "key_of (SInt i) = Some (KInt i)"
| "key_of (Uint n) = Some (KUint n)"
| "key_of (Text s) = Some (KText s)"
| "key_of (Bytes s) = Some (KBytes s)"
| "key_of _ = None"

definition encode_decoded_key :: "cbor_value \<Rightarrow> (key \<times> bytes) option" where
  "encode_decoded_key v = map_option (\<lambda>k. (k, encode_key k)) (key_of v)"

text \<open>\<^verbatim>\<open>std::map::emplace\<close>: keep the old entry when the key is present.\<close>

fun map_emplace :: "bytes \<Rightarrow> cbor_value \<Rightarrow> (bytes \<times> cbor_value) list \<Rightarrow> (bytes \<times> cbor_value) list" where
  "map_emplace k v [] = [(k, v)]"
| "map_emplace k v ((k', v') # m) =
     (if k < k' then (k, v) # (k', v') # m
      else if k = k' then (k', v') # m
      else (k', v') # map_emplace k v m)"

record map_acc =
  text_items :: "(bytes \<times> cbor_value) list"
  mixed_items :: "(key \<times> cbor_value) list"
  seen_keys :: "bytes list"
  all_text :: bool

definition map_acc_empty :: map_acc where
  "map_acc_empty = \<lparr>text_items = [], mixed_items = [], seen_keys = [], all_text = True\<rparr>"

text \<open>The body of the map loop after a key and an item were read.\<close>

definition map_acc_add :: "cbor_value \<Rightarrow> cbor_value \<Rightarrow> map_acc \<Rightarrow> map_acc option" where
  "map_acc_add parsed_key item acc =
     (case encode_decoded_key parsed_key of
        None \<Rightarrow> None
      | Some (k, encoded) \<Rightarrow>
          if encoded \<in> set (seen_keys acc) then None
          else let acc = acc\<lparr>seen_keys := seen_keys acc @ [encoded],
                             mixed_items := mixed_items acc @ [(k, item)]\<rparr>
               in Some (case parsed_key of
                    Text t \<Rightarrow> acc\<lparr>text_items := map_emplace t item (text_items acc)\<rparr>
                  | _ \<Rightarrow> acc\<lparr>all_text := False\<rparr>))"

definition map_acc_value :: "map_acc \<Rightarrow> cbor_value" where
  "map_acc_value acc = (if all_text acc then Map (text_items acc) else CMap (mixed_items acc))"

function (sequential) read :: "nat \<Rightarrow> nat \<Rightarrow> bytes \<Rightarrow> cbor_value result"
  and read_items :: "nat \<Rightarrow> nat \<Rightarrow> nat \<Rightarrow> bytes \<Rightarrow> cbor_value list \<Rightarrow> cbor_value list result"
  and read_pairs :: "nat \<Rightarrow> nat \<Rightarrow> nat \<Rightarrow> bytes \<Rightarrow> map_acc \<Rightarrow> map_acc result"
where
  "read cap 0 cur = Out_of_fuel"
| "read cap (Suc fuel) [] = Ret None []"
| "read cap (Suc fuel) (head # cur) =
     (let major = drop_bit 5 head; ai = head AND 0x1f
      in if major \<le> 1
         then on_value (read_uint ai cur) (\<lambda>n cur.
                if major = 0 then Ret (Some (Uint n)) cur
                else if n > 0x7fffffffffffffff then Ret None cur
                else Ret (Some (SInt (- 1 - uint n))) cur)
         else if major = 2 \<or> major = 3
         then on_value (read_uint ai cur) (\<lambda>n cur.
                if length cur < unat n then Ret None cur
                else if major = 2 then Ret (Some (Bytes (take (unat n) cur))) (drop (unat n) cur)
                else Ret (Some (Text (take (unat n) cur))) (drop (unat n) cur))
         else if major = 4
         then on_value (read_uint ai cur) (\<lambda>n cur.
                if unat n > cap then Length_error
                else on_value (read_items cap fuel (unat n) cur [])
                       (\<lambda>items. Ret (Some (Array items))))
         else if major = 5
         then on_value (read_uint ai cur) (\<lambda>n cur.
                if unat n > cap then Length_error
                else on_value (read_pairs cap fuel (unat n) cur map_acc_empty)
                       (\<lambda>acc. Ret (Some (map_acc_value acc))))
         else if major = 7 \<and> ai = 20 then Ret (Some (Bool False)) cur
         else if major = 7 \<and> ai = 21 then Ret (Some (Bool True)) cur
         else if major = 7 \<and> ai = 22 then Ret (Some Null) cur
         else Ret None cur)"
| "read_items cap fuel 0 cur items = Ret (Some items) cur"
| "read_items cap fuel (Suc n) cur items =
     on_value (read cap fuel cur) (\<lambda>item cur. read_items cap fuel n cur (items @ [item]))"
| "read_pairs cap fuel 0 cur acc = Ret (Some acc) cur"
| "read_pairs cap fuel (Suc n) cur acc =
     and_then (read cap fuel cur) (\<lambda>parsed_key cur.
     and_then (read cap fuel cur) (\<lambda>item cur.
       case (parsed_key, item) of
         (Some k, Some v) \<Rightarrow>
           (case map_acc_add k v acc of
              None \<Rightarrow> Ret None cur
            | Some acc \<Rightarrow> read_pairs cap fuel n cur acc)
       | _ \<Rightarrow> Ret None cur))"
  by pat_completeness auto
termination
  by (relation "measures [\<lambda>x. case x of Inl (_, f, _) \<Rightarrow> f | Inr (Inl (_, f, _, _, _)) \<Rightarrow> f
      | Inr (Inr (_, f, _, _, _)) \<Rightarrow> f,
    \<lambda>x. case x of Inl _ \<Rightarrow> 0 | Inr (Inl (_, _, n, _, _)) \<Rightarrow> Suc n
      | Inr (Inr (_, _, n, _, _)) \<Rightarrow> Suc n]") auto

text \<open>The outcome of \<^verbatim>\<open>decode\<close>: an exception, \<^verbatim>\<open>std::nullopt\<close>, or a value.\<close>

definition decode :: "nat \<Rightarrow> bytes \<Rightarrow> cbor_value result" where
  "decode cap data =
     on_value (read cap (Suc (length data)) data)
       (\<lambda>v cur. if cur \<noteq> [] then Ret None cur else Ret (Some v) cur)"

section \<open>Lookup in mixed maps\<close>

fun numeric_key_equals :: "key \<Rightarrow> int \<Rightarrow> bool" where
  "numeric_key_equals (KInt n) wanted \<longleftrightarrow> n = wanted"
| "numeric_key_equals (KUint n) wanted \<longleftrightarrow> wanted \<ge> 0 \<and> n = word_of_int wanted"
| "numeric_key_equals _ wanted \<longleftrightarrow> False"

fun find_key :: "(key \<Rightarrow> bool) \<Rightarrow> (key \<times> cbor_value) list \<Rightarrow> cbor_value option" where
  "find_key p [] = None"
| "find_key p ((k, item) # m) = (if p k then Some item else find_key p m)"

definition find_int :: "(key \<times> cbor_value) list \<Rightarrow> int \<Rightarrow> cbor_value option" where
  "find_int m k = find_key (\<lambda>map_key. numeric_key_equals map_key k) m"

definition find_text :: "(key \<times> cbor_value) list \<Rightarrow> bytes \<Rightarrow> cbor_value option" where
  "find_text m k = find_key (\<lambda>map_key. map_key = KText k) m"

definition find_bytes :: "(key \<times> cbor_value) list \<Rightarrow> bytes \<Rightarrow> cbor_value option" where
  "find_bytes m k = find_key (\<lambda>map_key. map_key = KBytes k) m"

section \<open>Heads\<close>

lemma head_byte:
  fixes major ai :: u8
  assumes "unat major < 2 ^ 3" and "unat ai < 2 ^ 5"
  shows "drop_bit 5 (push_bit 5 major OR ai) = major" and "(push_bit 5 major OR ai) AND 0x1f = ai"
  using small_bits[OF assms(1)] small_bits[OF assms(2)] by (simp_all add: bitwise8)

lemma be_bytes_Suc: "be_bytes (Suc k) n = ucast (drop_bit (8 * k) n) # be_bytes k n"
  by (simp add: be_bytes_def)

lemma length_be_bytes [simp]: "length (be_bytes k n) = k"
  by (simp add: be_bytes_def)

lemma foldl_be_bytes:
  "foldl (\<lambda>out b. push_bit 8 out OR ucast b) a (be_bytes k n) = push_bit (8 * k) a OR take_bit (8 * k) n"
proof (induction k arbitrary: a)
  case 0
  then show ?case by (simp add: be_bytes_def)
next
  case (Suc k)
  have "push_bit (8 * k) (push_bit 8 a OR ucast (ucast (drop_bit (8 * k) n) :: u8)) OR take_bit (8 * k) n
      = push_bit (8 * Suc k) a OR take_bit (8 * Suc k) n"
    by (rule bit_word_eqI) (auto simp: bit_simps algebra_simps)
  then show ?case
    by (simp add: be_bytes_Suc Suc)
qed

lemma take_bit_small: "unat n < 2 ^ k \<Longrightarrow> take_bit k n = n" for n :: u64
  using small_bits[of n k] by (auto intro!: bit_word_eqI simp: bit_simps) (meson not_le)

lemma read_uint_wide:
  assumes "uint_width ai = Some k" and "\<not> ai \<le> 23" and "unat n < 2 ^ (8 * k)"
  shows "read_uint ai (be_bytes k n @ rest) = Ret (Some n) rest"
  using assms foldl_be_bytes[of 0 k n] take_bit_small[OF assms(3)]
  by (simp add: read_uint_def)

text \<open>Reading back the head of an item: its major type, and its count or value.\<close>

lemma append_uint_read [codec_simps]:
  assumes "unat major < 2 ^ 3"
  shows "\<exists>h t. append_uint major n = h # t \<and> drop_bit 5 h = major \<and>
    (\<forall>rest. read_uint (h AND 0x1f) (t @ rest) = Ret (Some n) rest)"
proof -
  have wide: ?thesis if "append_uint major n = (push_bit 5 major OR ai) # be_bytes k n"
    "uint_width ai = Some k" "\<not> ai \<le> 23" "unat n < 2 ^ (8 * k)" "unat ai < 2 ^ 5" for ai k
    using that read_uint_wide[OF that(2-4)] head_byte[OF assms that(5)] by auto
  have lt: "unat n < 2 ^ 64" using unsigned_less[of n] by simp
  consider "n \<le> 23" | "\<not> n \<le> 23" "n \<le> 0xff" | "\<not> n \<le> 0xff" "n \<le> 0xffff"
    | "\<not> n \<le> 0xffff" "n \<le> 0xffffffff" | "\<not> n \<le> 0xffffffff"
    by blast
  then show ?thesis
  proof cases
    case 1
    then have u: "unat n \<le> 23" by (simp add: word_le_nat_alt)
    then have a: "unat (ucast n :: u8) = unat n"
      by (simp add: unsigned_ucast_eq take_bit_nat_eq_self_iff)
    have "(ucast n :: u8) \<le> 23" using u a by (simp add: word_le_nat_alt)
    moreover have "ucast (ucast n :: u8) = n"
      using u take_bit_small[of n 8] by (simp add: word_unat_eq_iff unsigned_ucast_eq take_bit_nat_eq_self_iff)
    ultimately show ?thesis
      using 1 head_byte[OF assms, of "ucast n"] a u by (simp add: append_uint_def read_uint_def)
  next
    case 2
    then show ?thesis
      by (intro wide[of 24 1]) (auto simp: append_uint_def uint_width_def word_le_nat_alt)
  next
    case 3
    then show ?thesis
      by (intro wide[of 25 2]) (auto simp: append_uint_def uint_width_def word_le_nat_alt)
  next
    case 4
    then show ?thesis
      by (intro wide[of 26 4]) (auto simp: append_uint_def uint_width_def word_le_nat_alt)
  next
    case 5
    then show ?thesis
      using lt by (intro wide[of 27 8]) (auto simp: append_uint_def uint_width_def word_le_nat_alt)
  qed
qed

section \<open>What a decoder makes of an encoded value\<close>

text \<open>CBOR has one form for non-negative integers, so a non-negative \<^verbatim>\<open>int64_t\<close> comes back as
  \<^verbatim>\<open>uint64_t\<close>; a mixed map comes back in encoding order, and as a text map when all its keys are
  text.\<close>

fun norm_key :: "key \<Rightarrow> key" where
  "norm_key (KInt i) = (if i \<ge> 0 then KUint (word_of_int i) else KInt i)"
| "norm_key k = k"

fun key_value :: "key \<Rightarrow> cbor_value" where
  "key_value (KInt i) = SInt i"
| "key_value (KUint n) = Uint n"
| "key_value (KText s) = Text s"
| "key_value (KBytes s) = Bytes s"

fun is_text :: "key \<Rightarrow> bool" where
  "is_text (KText s) = True"
| "is_text k = False"

fun text_of_key :: "key \<Rightarrow> bytes" where
  "text_of_key (KText s) = s"
| "text_of_key k = []"

definition key_order :: "key \<times> 'a \<Rightarrow> nat \<times> bytes" where
  "key_order kv = (length (encode_key (fst kv)), encode_key (fst kv))"

definition mixed_value :: "(key \<times> cbor_value) list \<Rightarrow> cbor_value" where
  "mixed_value items =
     (if list_all (\<lambda>kv. is_text (fst kv)) items
      then Map (sort_key fst (map (\<lambda>kv. (text_of_key (fst kv), snd kv)) items))
      else CMap items)"

fun norm :: "cbor_value \<Rightarrow> cbor_value" where
  "norm (SInt i) = (if i \<ge> 0 then Uint (word_of_int i) else SInt i)"
| "norm (Array xs) = Array (map norm xs)"
| "norm (Map kvs) = Map (map (\<lambda>kv. (fst kv, norm (snd kv))) kvs)"
| "norm (CMap kvs) =
     mixed_value (sort_key key_order (map (\<lambda>kv. (norm_key (fst kv), norm (snd kv))) kvs))"
| "norm v = v"

fun wf_key :: "key \<Rightarrow> bool" where
  "wf_key (KInt i) \<longleftrightarrow> - (2 ^ 63) \<le> i \<and> i < 2 ^ 63"
| "wf_key (KUint n) \<longleftrightarrow> True"
| "wf_key (KText s) \<longleftrightarrow> length s < 2 ^ 64"
| "wf_key (KBytes s) \<longleftrightarrow> length s < 2 ^ 64"

fun wf_value :: "nat \<Rightarrow> cbor_value \<Rightarrow> bool" where
  "wf_value cap (SInt i) \<longleftrightarrow> - (2 ^ 63) \<le> i \<and> i < 2 ^ 63"
| "wf_value cap (Text s) \<longleftrightarrow> length s < 2 ^ 64"
| "wf_value cap (Bytes s) \<longleftrightarrow> length s < 2 ^ 64"
| "wf_value cap (Array xs) \<longleftrightarrow> length xs \<le> cap \<and> length xs < 2 ^ 64 \<and> list_all (wf_value cap) xs"
| "wf_value cap (Map kvs) \<longleftrightarrow> length kvs \<le> cap \<and> length kvs < 2 ^ 64 \<and>
     sorted_wrt (<) (map fst kvs) \<and>
     list_all (\<lambda>kv. length (fst kv) < 2 ^ 64 \<and> wf_value cap (snd kv)) kvs"
| "wf_value cap (CMap kvs) \<longleftrightarrow> length kvs \<le> cap \<and> length kvs < 2 ^ 64 \<and>
     distinct (map (\<lambda>kv. norm_key (fst kv)) kvs) \<and>
     list_all (\<lambda>kv. wf_key (fst kv) \<and> wf_value cap (snd kv)) kvs"
| "wf_value cap _ \<longleftrightarrow> True"

fun depth :: "cbor_value \<Rightarrow> nat" where
  "depth (Array xs) = Suc (foldr max (map depth xs) 0)"
| "depth (Map kvs) = Suc (foldr max (map (\<lambda>kv. depth (snd kv)) kvs) 1)"
| "depth (CMap kvs) = Suc (foldr max (map (\<lambda>kv. depth (snd kv)) kvs) 1)"
| "depth _ = 1"

subsection \<open>Leaves\<close>

lemma on_value_simps [simp]:
  "on_value (Ret (Some x) cur) f = f x cur" "on_value (Ret None cur) f = Ret None cur"
  "on_value Length_error f = Length_error" "on_value Out_of_fuel f = Out_of_fuel"
  by (simp_all add: on_value_def)

lemma read_uint_item:
  "read cap (Suc fuel) (append_uint 0 n @ rest) = Ret (Some (Uint n)) rest"
  using append_uint_read[of 0 n] by (auto simp: Let_def)

lemma read_nint_item:
  assumes "i < 0" and "- (2 ^ 63) \<le> i"
  shows "read cap (Suc fuel) (append_uint 1 (word_of_int (- (i + 1))) @ rest) = Ret (Some (SInt i)) rest"
proof -
  let ?n = "word_of_int (- (i + 1)) :: u64"
  have u: "uint ?n = - (i + 1)"
    using assms by (subst uint_word_of_int_eq) (simp add: take_bit_int_eq_self_iff)
  then have "\<not> ?n > 0x7fffffffffffffff"
    using assms by (simp add: word_less_def)
  then show ?thesis
    using append_uint_read[of 1 ?n] u by (auto simp: Let_def)
qed

lemma read_string_item:
  assumes "length s < 2 ^ 64"
  shows "read cap (Suc fuel) (encode_string 3 s @ rest) = Ret (Some (Text s)) rest"
    and "read cap (Suc fuel) (encode_string 2 s @ rest) = Ret (Some (Bytes s)) rest"
proof -
  have "unat (of_nat (length s) :: u64) = length s"
    using assms by (simp add: unsigned_of_nat take_bit_nat_eq_self_iff)
  then show "read cap (Suc fuel) (encode_string 3 s @ rest) = Ret (Some (Text s)) rest"
    "read cap (Suc fuel) (encode_string 2 s @ rest) = Ret (Some (Bytes s)) rest"
    using append_uint_read[of 3 "of_nat (length s)"] append_uint_read[of 2 "of_nat (length s)"]
    by (auto simp: Let_def encode_string_def word_le_nat_alt)
qed

lemma read_int_item:
  assumes "- (2 ^ 63) \<le> i"
  shows "read cap (Suc fuel) (encode_int i @ rest) = Ret (Some (norm (SInt i))) rest"
  using read_nint_item[OF _ assms] read_uint_item by (simp add: encode_int_def)

lemma read_key_item:
  assumes "wf_key k"
  shows "read cap (Suc fuel) (encode_key k @ rest) = Ret (Some (key_value (norm_key k))) rest"
  using assms read_int_item read_uint_item read_string_item by (cases k) simp_all

lemma encode_norm_key [simp]: "encode_key (norm_key k) = encode_key k"
  by (cases k) (simp_all add: encode_int_def)

lemma key_of_key_value [simp]: "key_of (key_value k) = Some k"
  by (cases k) simp_all

lemma key_value_text: "(case key_value k of Text t \<Rightarrow> f t | _ \<Rightarrow> g) = (if is_text k then f (text_of_key k) else g)"
  by (cases k) simp_all

subsection \<open>Array and map loops\<close>

lemma read_items_encoded:
  assumes "\<And>x rest. x \<in> set xs \<Longrightarrow> read cap fuel (encode x @ rest) = Ret (Some (norm x)) rest"
  shows "read_items cap fuel (length xs) (concat (map encode xs) @ rest) items =
    Ret (Some (items @ map norm xs)) rest"
  using assms by (induction xs arbitrary: items) simp_all

definition add_entry :: "map_acc \<Rightarrow> key \<times> cbor_value \<Rightarrow> map_acc" where
  "add_entry acc kv = acc\<lparr>seen_keys := seen_keys acc @ [encode_key (fst kv)],
     mixed_items := mixed_items acc @ [kv],
     text_items := (if is_text (fst kv) then map_emplace (text_of_key (fst kv)) (snd kv) (text_items acc)
       else text_items acc),
     all_text := all_text acc \<and> is_text (fst kv)\<rparr>"

lemma map_acc_add_key_value:
  assumes "encode_key k \<notin> set (seen_keys acc)"
  shows "map_acc_add (key_value k) v acc = Some (add_entry acc (k, v))"
  using assms by (cases k) (simp_all add: map_acc_add_def encode_decoded_key_def add_entry_def Let_def)

lemma read_pairs_encoded:
  assumes "\<And>kv rest. kv \<in> set kvs \<Longrightarrow> read cap fuel (encode (snd kv) @ rest) = Ret (Some (norm (snd kv))) rest"
    and "list_all (\<lambda>kv. wf_key (fst kv)) kvs" and "0 < fuel"
    and "distinct (map (\<lambda>kv. encode_key (fst kv)) kvs)"
    and "\<forall>kv \<in> set kvs. encode_key (fst kv) \<notin> set (seen_keys acc)"
  shows "read_pairs cap fuel (length kvs) (concat (map (\<lambda>kv. encode_key (fst kv) @ encode (snd kv)) kvs) @ rest) acc
    = Ret (Some (foldl add_entry acc (map (\<lambda>kv. (norm_key (fst kv), norm (snd kv))) kvs))) rest"
  using assms
proof (induction kvs arbitrary: acc)
  case (Cons kv kvs)
  obtain f where f: "fuel = Suc f" using Cons.prems(3) by (cases fuel) auto
  let ?acc = "add_entry acc (norm_key (fst kv), norm (snd kv))"
  have "map_acc_add (key_value (norm_key (fst kv))) (norm (snd kv)) acc = Some ?acc"
    using Cons.prems(5) by (simp add: map_acc_add_key_value)
  moreover have "\<forall>kv' \<in> set kvs. encode_key (fst kv') \<notin> set (seen_keys ?acc)"
    using Cons.prems(4,5) by (force simp: add_entry_def image_iff)
  then have "read_pairs cap fuel (length kvs)
      (concat (map (\<lambda>kv. encode_key (fst kv) @ encode (snd kv)) kvs) @ rest) ?acc =
      Ret (Some (foldl add_entry ?acc (map (\<lambda>kv. (norm_key (fst kv), norm (snd kv))) kvs))) rest"
    using Cons by simp
  ultimately show ?case
    using Cons.prems(1)[of kv] Cons.prems(2) read_key_item[of "fst kv" cap f] by (simp add: f)
qed simp

lemma foldl_add_entry:
  "mixed_items (foldl add_entry acc kvs) = mixed_items acc @ kvs"
  "all_text (foldl add_entry acc kvs) \<longleftrightarrow> all_text acc \<and> list_all (\<lambda>kv. is_text (fst kv)) kvs"
  by (induction kvs arbitrary: acc) (auto simp: add_entry_def)

text \<open>Emplacing distinct keys one by one sorts them.\<close>

lemma map_emplace_insort:
  "sorted (map fst m) \<Longrightarrow> k \<notin> fst ` set m \<Longrightarrow> map_emplace k v m = insort_key fst (k, v) m"
  by (induction k v m rule: map_emplace.induct) auto

lemma foldl_emplace:
  assumes "list_all (\<lambda>kv. is_text (fst kv)) kvs" and "sorted (map fst (text_items acc))"
    and "distinct (map (\<lambda>kv. text_of_key (fst kv)) kvs)"
    and "\<forall>kv \<in> set kvs. text_of_key (fst kv) \<notin> fst ` set (text_items acc)"
  shows "text_items (foldl add_entry acc kvs) =
    fold (insort_key fst) (map (\<lambda>kv. (text_of_key (fst kv), snd kv)) kvs) (text_items acc)"
  using assms
proof (induction kvs arbitrary: acc)
  case (Cons kv kvs)
  let ?acc = "add_entry acc kv" and ?e = "(text_of_key (fst kv), snd kv)"
  have t: "text_items ?acc = insort_key fst ?e (text_items acc)"
    using Cons.prems by (simp add: add_entry_def map_emplace_insort)
  have fresh: "\<forall>kv' \<in> set kvs. text_of_key (fst kv') \<notin> fst ` set (text_items ?acc)"
    using Cons.prems(3,4) by (auto simp: t set_insort_key image_iff)
  have "text_items (foldl add_entry ?acc kvs) =
      fold (insort_key fst) (map (\<lambda>kv. (text_of_key (fst kv), snd kv)) kvs) (text_items ?acc)"
  proof (rule Cons.IH)
    show "sorted (map fst (text_items ?acc))"
      unfolding t sorted_insort_key by (rule Cons.prems(2))
  qed (use Cons.prems(1,3) fresh in simp_all)
  then show ?case by (simp add: t)
qed simp

lemma sort_key_unique:
  assumes "set ys = set xs" and "distinct (map fst xs)" and "distinct (map fst ys)"
    and "sorted (map fst ys)"
  shows "sort_key fst xs = ys"
proof (rule map_sorted_distinct_set_unique)
  show "inj_on fst (set (sort_key fst xs) \<union> set ys)"
    using assms by (simp add: distinct_map)
  show "distinct (map fst (sort_key fst xs))"
    using assms(2) by (simp add: distinct_map)
qed (use assms in simp_all)

lemma fold_insort_sort:
  assumes "distinct (map fst xs)"
  shows "fold (insort_key fst) xs [] = sort_key fst xs"
proof -
  have "fold (insort_key fst) xs [] = sort_key fst (rev xs)"
    by (simp add: sort_key_def foldr_conv_fold)
  also have "\<dots> = sort_key fst xs"
    using assms by (intro sort_key_unique) (simp_all add: distinct_map)
  finally show ?thesis .
qed

lemma map_acc_value_foldl:
  assumes "distinct (map (\<lambda>kv. encode_key (fst kv)) kvs)"
  shows "map_acc_value (foldl add_entry map_acc_empty kvs) = mixed_value kvs"
proof (cases "list_all (\<lambda>kv. is_text (fst kv)) kvs")
  case True
  let ?es = "map (\<lambda>kv. (text_of_key (fst kv), snd kv)) kvs"
  have "encode_key (fst kv) = encode_string 3 (text_of_key (fst kv))" if "kv \<in> set kvs" for kv
    using True that by (cases "fst kv") (auto simp: list_all_iff)
  then have d: "distinct (map (\<lambda>kv. text_of_key (fst kv)) kvs)"
    using assms by (auto simp: distinct_map inj_on_def)
  then have "text_items (foldl add_entry map_acc_empty kvs) = sort_key fst ?es"
    using foldl_emplace[OF True, of map_acc_empty] fold_insort_sort[of ?es]
    by (simp add: map_acc_empty_def o_def)
  then show ?thesis
    using True by (simp add: map_acc_value_def mixed_value_def foldl_add_entry map_acc_empty_def)
next
  case False
  then show ?thesis
    by (simp add: map_acc_value_def mixed_value_def foldl_add_entry map_acc_empty_def)
qed

subsection \<open>Maps as mixed maps\<close>

text \<open>Both kinds of map write key and value in encoding order behind the same head.\<close>

definition encode_entries :: "(key \<times> cbor_value) list \<Rightarrow> bytes" where
  "encode_entries kvs = append_uint 5 (of_nat (length kvs)) @
     concat (map (\<lambda>kv. encode_key (fst kv) @ encode (snd kv)) kvs)"

lemma encode_CMap: "encode (CMap kvs) = encode_entries (sort_key key_order kvs)"
  by (simp add: encode_entries_def Let_def sort_key_map shortlex_def key_order_def[abs_def] o_def)

definition text_entry :: "bytes \<times> cbor_value \<Rightarrow> key \<times> cbor_value" where
  "text_entry kv = (KText (fst kv), snd kv)"

lemma encode_Map: "encode (Map kvs) = encode_entries (map text_entry (sort_key shortlex kvs))"
  by (simp add: encode_entries_def Let_def sort_key_map text_entry_def shortlex_def[abs_def] o_def)

lemma read_entries:
  assumes "\<And>kv rest. kv \<in> set kvs \<Longrightarrow>
      read cap fuel (encode (snd kv) @ rest) = Ret (Some (norm (snd kv))) rest"
    and "list_all (\<lambda>kv. wf_key (fst kv)) kvs" and "0 < fuel"
    and "distinct (map (\<lambda>kv. encode_key (fst kv)) kvs)"
    and "length kvs \<le> cap" and "length kvs < 2 ^ 64"
  shows "read cap (Suc fuel) (encode_entries kvs @ rest) =
    Ret (Some (mixed_value (map (\<lambda>kv. (norm_key (fst kv), norm (snd kv))) kvs))) rest"
proof -
  let ?items = "map (\<lambda>kv. (norm_key (fst kv), norm (snd kv))) kvs"
  have u: "unat (of_nat (length kvs) :: u64) = length kvs"
    using assms(6) by (simp add: unsigned_of_nat take_bit_nat_eq_self_iff)
  have "map_acc_value (foldl add_entry map_acc_empty ?items) = mixed_value ?items"
    using assms(4) by (intro map_acc_value_foldl) (simp add: o_def)
  moreover have "read_pairs cap fuel (length kvs)
      (concat (map (\<lambda>kv. encode_key (fst kv) @ encode (snd kv)) kvs) @ rest) map_acc_empty =
      Ret (Some (foldl add_entry map_acc_empty ?items)) rest"
    using assms by (intro read_pairs_encoded) (auto simp: map_acc_empty_def)
  ultimately show ?thesis
    using append_uint_read[of 5 "of_nat (length kvs)"] u assms(5)
    by (auto simp: encode_entries_def Let_def word_le_nat_alt)
qed

lemma read_array:
  assumes "\<And>x rest. x \<in> set xs \<Longrightarrow> read cap fuel (encode x @ rest) = Ret (Some (norm x)) rest"
    and "length xs \<le> cap" and "length xs < 2 ^ 64"
  shows "read cap (Suc fuel) (encode (Array xs) @ rest) = Ret (Some (norm (Array xs))) rest"
proof -
  have "unat (of_nat (length xs) :: u64) = length xs"
    using assms(3) by (simp add: unsigned_of_nat take_bit_nat_eq_self_iff)
  then show ?thesis
    using append_uint_read[of 4 "of_nat (length xs)"] assms(2)
      read_items_encoded[OF assms(1), of xs rest "[]"]
    by (auto simp: Let_def word_le_nat_alt)
qed

lemma read_simple:
  "read cap (Suc fuel) (encode Null @ rest) = Ret (Some Null) rest"
  "read cap (Suc fuel) (encode (Bool b) @ rest) = Ret (Some (Bool b)) rest"
  by (simp_all add: Let_def word_le_nat_alt)

subsection \<open>Nesting\<close>

lemma foldr_max_le: "foldr max (map f xs) (a :: nat) \<le> n \<longleftrightarrow> a \<le> n \<and> (\<forall>x \<in> set xs. f x \<le> n)"
  by (induction xs) auto

lemma mixed_value_norm_Map:
  assumes "sorted_wrt (<) (map fst kvs)"
  shows "mixed_value (map (\<lambda>kv. (norm_key (fst kv), norm (snd kv))) (map text_entry (sort_key shortlex kvs)))
    = norm (Map kvs)"
proof -
  let ?f = "\<lambda>kv. (fst kv, norm (snd kv))"
  have "list_all (\<lambda>kv. is_text (fst kv))
      (map (\<lambda>kv. (norm_key (fst kv), norm (snd kv))) (map text_entry (sort_key shortlex kvs)))"
    by (simp add: text_entry_def list_all_iff)
  moreover have "sort_key fst (map ?f (sort_key shortlex kvs)) = map ?f kvs"
    using assms by (intro sort_key_unique) (simp_all add: distinct_map o_def strict_sorted_iff)
  ultimately show ?thesis
    by (simp add: mixed_value_def text_entry_def o_def)
qed

text \<open>A key on its own is a prefix code: this is what makes the duplicate test on encoded keys a
  test on keys.\<close>

definition dec_key :: "bytes \<Rightarrow> (key \<times> bytes) option" where
  "dec_key bs =
     (case read 0 1 bs of
        Ret (Some v) rest \<Rightarrow> map_option (\<lambda>k. (k, rest)) (key_of v)
      | _ \<Rightarrow> None)"

interpretation key_codec: prefix_codec encode_key dec_key "\<lambda>k. wf_key k \<and> norm_key k = k"
proof
  fix k rest
  assume "wf_key k \<and> norm_key k = k"
  then show "dec_key (encode_key k @ rest) = Some (k, rest)"
    using read_key_item[of k 0 0 rest] by (simp add: dec_key_def)
qed

lemma wf_norm_key: "wf_key k \<Longrightarrow> wf_key (norm_key k) \<and> norm_key (norm_key k) = norm_key k"
  by (cases k) auto

lemma distinct_encode_key:
  assumes "list_all (\<lambda>kv. wf_key (fst kv)) kvs" and "distinct (map (\<lambda>kv. norm_key (fst kv)) kvs)"
  shows "distinct (map (\<lambda>kv. encode_key (fst kv)) kvs)"
proof -
  have "distinct (map encode_key (map (\<lambda>kv. norm_key (fst kv)) kvs))"
  proof (subst distinct_map, intro conjI)
    show "inj_on encode_key (set (map (\<lambda>kv. norm_key (fst kv)) kvs))"
      by (rule inj_on_subset[OF key_codec.enc_inj_on])
        (use assms(1) wf_norm_key in \<open>auto simp: list_all_iff\<close>)
  qed (rule assms(2))
  then show ?thesis by (simp add: o_def)
qed

lemma in_snds [simp]: "snd x \<in> Basic_BNFs.snds x"
  by (cases x) simp

lemma read_encode:
  "wf_value cap v \<Longrightarrow> depth v \<le> fuel \<Longrightarrow> read cap fuel (encode v @ rest) = Ret (Some (norm v)) rest"
proof (induction v arbitrary: fuel rest)
  case (Array xs)
  then obtain f where f: "fuel = Suc f" by (cases fuel) auto
  have "read cap f (encode x @ rest) = Ret (Some (norm x)) rest" if "x \<in> set xs" for x rest
    using Array that by (auto simp: f foldr_max_le list_all_iff)
  then show ?case using read_array[of xs cap f rest] Array.prems by (simp add: f)
next
  case (Map kvs)
  then obtain f where f: "fuel = Suc f" by (cases fuel) auto
  let ?kvs = "map text_entry (sort_key shortlex kvs)"
  have dep: "1 \<le> f" "\<And>kv. kv \<in> set kvs \<Longrightarrow> depth (snd kv) \<le> f"
    using Map.prems(2) by (auto simp: f foldr_max_le)
  have "read cap f (encode (snd kv) @ rest) = Ret (Some (norm (snd kv))) rest" if "kv \<in> set ?kvs" for kv rest
    using Map.IH[OF _ in_snds] Map.prems(1) dep(2) that by (auto simp: text_entry_def list_all_iff)
  moreover have "list_all (\<lambda>kv. wf_key (fst kv)) ?kvs" "distinct (map (\<lambda>kv. norm_key (fst kv)) ?kvs)"
    using Map.prems(1)
    by (auto simp: list_all_iff text_entry_def distinct_map inj_on_def strict_sorted_iff)
  ultimately have "read cap fuel (encode_entries ?kvs @ rest) =
      Ret (Some (mixed_value (map (\<lambda>kv. (norm_key (fst kv), norm (snd kv))) ?kvs))) rest"
    unfolding f using Map.prems(1) dep(1) by (intro read_entries distinct_encode_key) auto
  then show ?case
    using Map.prems(1) mixed_value_norm_Map by (simp only: encode_Map wf_value.simps)
next
  case (CMap kvs)
  then obtain f where f: "fuel = Suc f" by (cases fuel) auto
  let ?kvs = "sort_key key_order kvs"
  have dep: "1 \<le> f" "\<And>kv. kv \<in> set kvs \<Longrightarrow> depth (snd kv) \<le> f"
    using CMap.prems(2) by (auto simp: f foldr_max_le)
  have "read cap f (encode (snd kv) @ rest) = Ret (Some (norm (snd kv))) rest" if "kv \<in> set ?kvs" for kv rest
    using CMap.IH[of kv "snd kv"] CMap.prems(1) dep(2) that by (simp add: list_all_iff)
  moreover have "list_all (\<lambda>kv. wf_key (fst kv)) ?kvs" "distinct (map (\<lambda>kv. norm_key (fst kv)) ?kvs)"
    using CMap.prems(1) by (auto simp: list_all_iff distinct_map)
  ultimately have "read cap fuel (encode_entries ?kvs @ rest) =
      Ret (Some (mixed_value (map (\<lambda>kv. (norm_key (fst kv), norm (snd kv))) ?kvs))) rest"
    unfolding f using CMap.prems(1) dep(1) by (intro read_entries distinct_encode_key) auto
  then show ?case
    by (simp add: encode_CMap sort_key_map key_order_def[abs_def] del: encode.simps)
next
  case (SInt i)
  then show ?case by (cases fuel) (simp_all add: read_int_item del: norm.simps)
next
  case (Text s)
  then show ?case by (cases fuel) (simp_all add: read_string_item)
next
  case (Bytes s)
  then show ?case by (cases fuel) (simp_all add: read_string_item)
next
  case (Uint n)
  then show ?case by (cases fuel) (simp_all add: read_uint_item)
next
  case Null
  then show ?case using read_simple(1) by (cases fuel) simp_all
next
  case (Bool b)
  then show ?case using read_simple(2) by (cases fuel) simp_all
qed

subsection \<open>Fuel\<close>

lemma append_uint_nonempty: "0 < length (append_uint m n)"
  by (simp add: append_uint_def Let_def)

lemma length_concat_ge: "x \<in> set xs \<Longrightarrow> length (f x) \<le> length (concat (map f xs))"
  by (induction xs) auto

lemma depth_entries:
  assumes "\<forall>kv \<in> set kvs. depth (snd kv) \<le> Suc (length (encode (snd kv)))"
  shows "\<forall>kv \<in> set kvs. depth (snd kv) \<le> length (encode_entries kvs)" and "1 \<le> length (encode_entries kvs)"
proof -
  show "1 \<le> length (encode_entries kvs)"
    using append_uint_nonempty[of 5 "of_nat (length kvs)"] by (simp add: encode_entries_def Suc_le_eq)
  show "\<forall>kv \<in> set kvs. depth (snd kv) \<le> length (encode_entries kvs)"
  proof
    fix kv assume kv: "kv \<in> set kvs"
    have "length (encode (snd kv)) \<le> length (concat (map (\<lambda>kv. encode_key (fst kv) @ encode (snd kv)) kvs))"
      using length_concat_ge[OF kv, of "\<lambda>kv. encode_key (fst kv) @ encode (snd kv)"] by simp
    then show "depth (snd kv) \<le> length (encode_entries kvs)"
      using bspec[OF assms kv] append_uint_nonempty[of 5 "of_nat (length kvs)"]
      unfolding encode_entries_def length_append by linarith
  qed
qed

lemma depth_le_length: "depth v \<le> Suc (length (encode v))"
proof (induction v)
  case (Array xs)
  have "depth x \<le> length (encode (Array xs))" if "x \<in> set xs" for x
    using Array[OF that] length_concat_ge[OF that, of encode]
      append_uint_nonempty[of 4 "of_nat (length xs)"]
    unfolding encode.simps length_append by linarith
  then show ?case by (simp add: foldr_max_le del: encode.simps)
next
  case (Map kvs)
  let ?kvs = "map text_entry (sort_key shortlex kvs)"
  have "\<forall>kv \<in> set ?kvs. depth (snd kv) \<le> Suc (length (encode (snd kv)))"
    using Map[OF _ in_snds] by (auto simp: text_entry_def)
  from depth_entries[OF this] show ?case
    by (simp add: encode_Map foldr_max_le text_entry_def del: encode.simps)
next
  case (CMap kvs)
  have "\<forall>kv \<in> set (sort_key key_order kvs). depth (snd kv) \<le> Suc (length (encode (snd kv)))"
    using CMap[OF _ in_snds] by auto
  from depth_entries[OF this] show ?case
    by (simp add: encode_CMap foldr_max_le del: encode.simps)
qed simp_all

lemma read_uint_length:
  "read_uint ai cur = Ret x rest \<Longrightarrow> length rest \<le> length cur"
  "read_uint ai cur \<noteq> Out_of_fuel" "read_uint ai cur \<noteq> Length_error"
  by (auto simp: read_uint_def split: if_splits option.splits)

lemma on_value_eqD:
  "on_value r f = Ret y cur' \<Longrightarrow> (\<exists>x cur. r = Ret (Some x) cur \<and> f x cur = Ret y cur') \<or> r = Ret None cur' \<and> y = None"
  by (cases r) (auto simp: on_value_def split: option.splits)

lemma on_value_fuel:
  "r \<noteq> Out_of_fuel \<Longrightarrow> (\<And>x cur. r = Ret (Some x) cur \<Longrightarrow> f x cur \<noteq> Out_of_fuel) \<Longrightarrow> on_value r f \<noteq> Out_of_fuel"
  by (cases r) (auto simp: on_value_def split: option.splits)

text \<open>A read with more fuel than input never runs out, and never moves the cursor backwards.\<close>

definition good :: "nat \<Rightarrow> 'a result \<Rightarrow> bool" where
  "good n r \<longleftrightarrow> r \<noteq> Out_of_fuel \<and> (\<forall>x rest. r = Ret x rest \<longrightarrow> length rest \<le> n)"

lemma good_on_value:
  "good n r \<Longrightarrow> (\<And>x cur. length cur \<le> n \<Longrightarrow> good n (f x cur)) \<Longrightarrow> good n (on_value r f)"
  by (cases r) (auto simp: good_def on_value_def split: option.splits)

lemma good_and_then:
  "good n r \<Longrightarrow> (\<And>x cur. length cur \<le> n \<Longrightarrow> good n (f x cur)) \<Longrightarrow> good n (and_then r f)"
  by (cases r) (auto simp: good_def)

lemma good_Ret [simp]: "good n (Ret x rest) \<longleftrightarrow> length rest \<le> n" "good n Length_error"
  by (auto simp: good_def)

lemma good_read_uint: "length cur \<le> n \<Longrightarrow> good n (read_uint ai cur)"
  using read_uint_length[of ai cur] by (cases "read_uint ai cur") auto

lemma good_mono: "good n r \<Longrightarrow> n \<le> m \<Longrightarrow> good m r"
  by (auto simp: good_def)

lemma read_items_good:
  assumes "\<And>cur. length cur \<le> m \<Longrightarrow> good m (read cap fuel cur)"
  shows "length cur \<le> m \<Longrightarrow> good m (read_items cap fuel n cur items)"
  by (induction n arbitrary: cur items) (auto intro!: good_on_value assms)

lemma read_pairs_good:
  assumes "\<And>cur. length cur \<le> m \<Longrightarrow> good m (read cap fuel cur)"
  shows "length cur \<le> m \<Longrightarrow> good m (read_pairs cap fuel n cur acc)"
  by (induction n arbitrary: cur acc) (auto intro!: good_and_then assms split: option.splits)

lemma read_good: "length cur \<le> m \<Longrightarrow> m < fuel \<Longrightarrow> good m (read cap fuel cur)"
proof (induction fuel arbitrary: cur m)
  case (Suc fuel)
  show ?case
  proof (cases cur)
    case (Cons head cur')
    then obtain k where k: "m = Suc k" "length cur' \<le> k" "k < fuel"
      using Suc.prems by (cases m) auto
    have len: "length c \<le> k \<Longrightarrow> good k (read cap fuel c)" for c
      using Suc.IH k(3) by blast
    have "good k (read cap (Suc fuel) (head # cur'))"
      unfolding read.simps Let_def
      using k(2) by (auto intro!: good_on_value good_read_uint read_items_good read_pairs_good len)
    then show ?thesis
      unfolding Cons k(1) by (rule good_mono) simp
  qed (use Suc.prems in simp)
qed simp

subsection \<open>Size\<close>

text \<open>A value whose encoding is small has small counts and strings, so only its integers and keys
  are left to check.\<close>

fun wf_shape :: "cbor_value \<Rightarrow> bool" where
  "wf_shape (SInt i) \<longleftrightarrow> - (2 ^ 63) \<le> i \<and> i < 2 ^ 63"
| "wf_shape (Array xs) \<longleftrightarrow> list_all wf_shape xs"
| "wf_shape (Map kvs) \<longleftrightarrow> sorted_wrt (<) (map fst kvs) \<and> list_all (\<lambda>kv. wf_shape (snd kv)) kvs"
| "wf_shape (CMap kvs) \<longleftrightarrow> False"
| "wf_shape _ \<longleftrightarrow> True"

lemma length_le_concat: "(\<And>x. x \<in> set xs \<Longrightarrow> f x \<noteq> []) \<Longrightarrow> length xs \<le> length (concat (map f xs))"
proof (induction xs)
  case (Cons x xs)
  then have "f x \<noteq> []" "length xs \<le> length (concat (map f xs))" by simp_all
  then show ?case by (cases "f x") simp_all
qed simp

lemma append_uint_not_Nil [simp]: "append_uint m n \<noteq> []"
  using append_uint_nonempty[of m n] by (simp add: append_uint_def Let_def)

lemma encode_key_not_Nil [simp]: "encode_key k \<noteq> []" and encode_not_Nil [simp]: "encode v \<noteq> []"
proof -
  show "encode_key k \<noteq> []" by (cases k) (simp_all add: encode_int_def encode_string_def)
  show "encode v \<noteq> []" by (cases v) (simp_all add: encode_int_def encode_string_def Let_def)
qed

lemma length_encode_entries:
  "length kvs \<le> length (encode_entries kvs)"
  "kv \<in> set kvs \<Longrightarrow> length (encode_key (fst kv)) + length (encode (snd kv)) \<le> length (encode_entries kvs)"
  using length_le_concat[of kvs "\<lambda>kv. encode_key (fst kv) @ encode (snd kv)"]
    length_concat_ge[of kv kvs "\<lambda>kv. encode_key (fst kv) @ encode (snd kv)"]
  by (simp_all add: encode_entries_def)

lemma wf_value_small:
  assumes "wf_shape v" and "length (encode v) \<le> cap" and "cap < 2 ^ 64"
  shows "wf_value cap v"
  using assms
proof (induction v)
  case (Array xs)
  have "length (encode x) \<le> cap" if "x \<in> set xs" for x
    using length_concat_ge[OF that, of encode] Array.prems(2) by simp
  moreover have "length xs \<le> cap"
    using length_le_concat[of xs encode] Array.prems(2) by simp
  ultimately show ?case using Array by (auto simp: list_all_iff)
next
  case (Map kvs)
  let ?es = "map text_entry (sort_key shortlex kvs)"
  have len: "length (encode_entries ?es) \<le> cap" using Map.prems(2) by (simp only: encode_Map)
  have "length (encode_string 3 (fst kv)) + length (encode (snd kv)) \<le> cap" if "kv \<in> set kvs" for kv
  proof -
    have "text_entry kv \<in> set ?es" using that by simp
    from length_encode_entries(2)[OF this] len show ?thesis by (simp add: text_entry_def)
  qed
  then have "length (fst kv) \<le> cap \<and> length (encode (snd kv)) \<le> cap" if "kv \<in> set kvs" for kv
    using that by (fastforce simp: encode_string_def)
  moreover have "length kvs \<le> cap" using length_encode_entries(1)[of ?es] len by simp
  ultimately show ?case
    using Map.prems Map.IH[OF _ in_snds] by (fastforce simp: list_all_iff)
qed (auto simp: encode_string_def)

lemma decode_encode: "wf_value cap v \<Longrightarrow> decode cap (encode v) = Ret (Some (norm v)) []"
  using read_encode[OF _ depth_le_length, of cap v "[]"] by (simp add: decode_def)

section \<open>What the decoder accepts\<close>

text \<open>The results a read may return: the cursor does not move backwards and a value satisfies
  \<open>P\<close>.\<close>

definition yields :: "nat \<Rightarrow> ('a \<Rightarrow> bool) \<Rightarrow> 'a result \<Rightarrow> bool" where
  "yields n P r \<longleftrightarrow> (\<forall>x rest. r = Ret x rest \<longrightarrow> length rest \<le> n \<and> (\<forall>v. x = Some v \<longrightarrow> P v))"

lemma yields_simps [simp]:
  "yields n P (Ret None rest) \<longleftrightarrow> length rest \<le> n"
  "yields n P (Ret (Some v) rest) \<longleftrightarrow> length rest \<le> n \<and> P v"
  "yields n P Length_error" "yields n P Out_of_fuel"
  by (auto simp: yields_def)

lemma yields_on_value:
  "yields n P r \<Longrightarrow> (\<And>x cur. length cur \<le> n \<Longrightarrow> P x \<Longrightarrow> yields n Q (f x cur)) \<Longrightarrow> yields n Q (on_value r f)"
  by (cases r) (auto simp: yields_def on_value_def split: option.splits)

lemma yields_and_then:
  "yields n P r \<Longrightarrow> (\<And>x cur. length cur \<le> n \<Longrightarrow> (\<And>v. x = Some v \<Longrightarrow> P v) \<Longrightarrow> yields n Q (f x cur)) \<Longrightarrow>
    yields n Q (and_then r f)"
proof (cases r)
  case (Ret x cur)
  assume "yields n P r"
    and f: "\<And>x cur. length cur \<le> n \<Longrightarrow> (\<And>v. x = Some v \<Longrightarrow> P v) \<Longrightarrow> yields n Q (f x cur)"
  then have "yields n Q (f x cur)"
    unfolding Ret yields_def[of n P] by (intro f) blast+
  then show ?thesis by (simp add: Ret)
qed simp_all

lemma yields_read_uint: "length cur \<le> n \<Longrightarrow> yields n (\<lambda>_. True) (read_uint ai cur)"
  using read_uint_length[of ai cur] by (cases "read_uint ai cur") (auto simp: yields_def)

text \<open>Decoded keys are in the form the encoder of keys inverts, so distinct encodings are distinct
  keys.\<close>

definition plain_key :: "key \<Rightarrow> bool" where
  "plain_key k \<longleftrightarrow> wf_key k \<and> norm_key k = k"

fun plain_value :: "cbor_value \<Rightarrow> bool" where
  "plain_value (SInt i) \<longleftrightarrow> i < 0"
| "plain_value _ \<longleftrightarrow> True"

definition acc_ok :: "nat \<Rightarrow> map_acc \<Rightarrow> bool" where
  "acc_ok cap acc \<longleftrightarrow> seen_keys acc = map (\<lambda>kv. encode_key (fst kv)) (mixed_items acc) \<and>
     distinct (map (\<lambda>kv. encode_key (fst kv)) (mixed_items acc)) \<and>
     list_all (\<lambda>kv. plain_key (fst kv) \<and> wf_value cap (snd kv)) (mixed_items acc) \<and>
     sorted_wrt (<) (map fst (text_items acc)) \<and>
     list_all (\<lambda>kv. length (fst kv) < 2 ^ 64 \<and> wf_value cap (snd kv)) (text_items acc) \<and>
     length (text_items acc) \<le> length (mixed_items acc)"

lemma set_map_emplace: "set (map_emplace k v m) \<subseteq> insert (k, v) (set m)"
  by (induction k v m rule: map_emplace.induct) auto

lemma length_map_emplace: "length (map_emplace k v m) \<le> Suc (length m)"
  by (induction k v m rule: map_emplace.induct) auto

lemma sorted_map_emplace:
  "sorted_wrt (<) (map fst m) \<Longrightarrow> sorted_wrt (<) (map fst (map_emplace k v m))"
proof (induction k v m rule: map_emplace.induct)
  case (2 k v k' v' m)
  have "k' < fst e" if "k' < k" "\<forall>x \<in> set m. k' < fst x" "e \<in> set (map_emplace k v m)" for e
    using set_map_emplace[of k v m] that by auto
  with 2 show ?case
    by (auto simp: not_less_iff_gr_or_eq)
qed simp

lemma key_of_plain:
  assumes "key_of v = Some k" and "wf_value cap v" and "plain_value v"
  shows "v = key_value k" and "plain_key k"
  using assms by (cases v; auto simp: plain_key_def)+

lemma map_acc_add_ok:
  assumes "acc_ok cap acc" and "wf_value cap parsed" "plain_value parsed" and "wf_value cap item"
    and "map_acc_add parsed item acc = Some acc'"
  shows "acc_ok cap acc' \<and> length (mixed_items acc') = Suc (length (mixed_items acc))"
proof -
  obtain k where k: "key_of parsed = Some k" "encode_key k \<notin> set (seen_keys acc)"
    using assms(5) by (auto simp: map_acc_add_def encode_decoded_key_def split: option.splits if_splits)
  have v: "parsed = key_value k" "plain_key k"
    using key_of_plain[OF k(1) assms(2,3)] by simp_all
  then have acc': "acc' = add_entry acc (k, item)"
    using map_acc_add_key_value[OF k(2), of item] assms(5) by simp
  have "is_text k \<Longrightarrow> length (text_of_key k) < 2 ^ 64"
    using v(2) by (cases k) (auto simp: plain_key_def)
  then have "list_all (\<lambda>kv. length (fst kv) < 2 ^ 64 \<and> wf_value cap (snd kv)) (text_items acc')"
    using assms(1,4) set_map_emplace[of "text_of_key k" item "text_items acc"]
    by (fastforce simp: acc' add_entry_def acc_ok_def list_all_iff)
  moreover have "sorted_wrt (<) (map fst (text_items acc'))"
    using assms(1) by (simp add: acc' add_entry_def acc_ok_def sorted_map_emplace)
  moreover have "length (text_items acc') \<le> length (mixed_items acc')"
    using assms(1) length_map_emplace[of "text_of_key k" item "text_items acc"]
    by (auto simp: acc' add_entry_def acc_ok_def)
  ultimately show ?thesis
    using assms(1,4) k(2) v(2) by (simp add: acc_ok_def acc' add_entry_def)
qed

lemma map_acc_value_ok:
  assumes "acc_ok cap acc" and "length (mixed_items acc) \<le> cap" and "length (mixed_items acc) < 2 ^ 64"
  shows "wf_value cap (map_acc_value acc) \<and> plain_value (map_acc_value acc)"
proof -
  have eq: "map (\<lambda>kv. norm_key (fst kv)) (mixed_items acc) = map fst (mixed_items acc)"
    using assms(1) by (simp add: acc_ok_def plain_key_def list_all_iff)
  have "distinct (map encode_key (map fst (mixed_items acc)))"
    using assms(1) by (auto simp: acc_ok_def o_def)
  then have "distinct (map (\<lambda>kv. norm_key (fst kv)) (mixed_items acc))"
    unfolding eq by (rule distinct_map[THEN iffD1, THEN conjunct1])
  then show ?thesis
    using assms by (simp add: map_acc_value_def acc_ok_def plain_key_def list_all_iff)
qed

definition wf_plain :: "nat \<Rightarrow> cbor_value \<Rightarrow> bool" where
  "wf_plain cap v \<longleftrightarrow> wf_value cap v \<and> plain_value v"

lemma yields_if:
  "(c \<Longrightarrow> yields n P a) \<Longrightarrow> (\<not> c \<Longrightarrow> yields n P b) \<Longrightarrow> yields n P (if c then a else b)"
  by simp

lemma wf_plain_leaf:
  "wf_plain cap Null" "wf_plain cap (Bool b)" "wf_plain cap (Uint n)"
  "wf_plain cap (SInt i) \<longleftrightarrow> - (2 ^ 63) \<le> i \<and> i < 0"
  "wf_plain cap (Text s) \<longleftrightarrow> length s < 2 ^ 64" "wf_plain cap (Bytes s) \<longleftrightarrow> length s < 2 ^ 64"
  by (auto simp: wf_plain_def)

lemma read_items_yields:
  assumes "\<And>cur. length cur \<le> m \<Longrightarrow> yields m (wf_plain cap) (read cap fuel cur)"
  shows "length cur \<le> m \<Longrightarrow> list_all (wf_value cap) items \<Longrightarrow>
    yields m (\<lambda>xs. list_all (wf_value cap) xs \<and> length xs = length items + n) (read_items cap fuel n cur items)"
proof (induction n arbitrary: cur items)
  case (Suc n)
  have "yields m (\<lambda>xs. list_all (wf_value cap) xs \<and> length xs = length items + Suc n)
      (read_items cap fuel n cur' (items @ [item]))" if "length cur' \<le> m" "wf_plain cap item" for cur' item
    using Suc.IH[of cur' "items @ [item]"] that Suc.prems(2) by (simp add: wf_plain_def)
  then show ?case
    by (auto intro!: yields_on_value[OF assms] Suc.prems(1))
qed simp

lemma read_pairs_yields:
  assumes "\<And>cur. length cur \<le> m \<Longrightarrow> yields m (wf_plain cap) (read cap fuel cur)"
  shows "length cur \<le> m \<Longrightarrow> acc_ok cap acc \<Longrightarrow>
    yields m (\<lambda>a. acc_ok cap a \<and> length (mixed_items a) = length (mixed_items acc) + n)
      (read_pairs cap fuel n cur acc)"
proof (induction n arbitrary: cur acc)
  case (Suc n)
  let ?P = "\<lambda>a. acc_ok cap a \<and> length (mixed_items a) = length (mixed_items acc) + Suc n"
  have "yields m ?P (read_pairs cap fuel n cur' acc')"
    if "length cur' \<le> m" "wf_plain cap k" "wf_plain cap v" "map_acc_add k v acc = Some acc'" for cur' k v acc'
    using Suc.IH[of cur' acc'] that map_acc_add_ok[OF Suc.prems(2) _ _ _ that(4)]
    by (simp add: wf_plain_def)
  then show ?case
    by (auto intro!: yields_and_then[OF assms] Suc.prems(1) split: option.splits)
qed simp

lemma read_yields:
  "length cur \<le> m \<Longrightarrow> m < 2 ^ 64 \<Longrightarrow> yields m (wf_plain cap) (read cap fuel cur)"
proof (induction fuel arbitrary: cur)
  case (Suc fuel)
  have rd: "length c \<le> m \<Longrightarrow> yields m (wf_plain cap) (read cap fuel c)" for c
    using Suc.IH Suc.prems(2) by blast
  have neg: "uint n \<le> 9223372036854775807" "- 1 < uint n" if "\<not> 0x7fffffffffffffff < n" for n :: u64
    using that by (simp_all add: word_less_def) (meson unsigned_greater_eq less_le_trans neg_less_0_iff_less zero_less_one)
  have items: "yields m (wf_plain cap) (on_value (read_items cap fuel (unat (n :: u64)) c []) (\<lambda>items. Ret (Some (Array items))))"
    if "length c \<le> m" "\<not> cap < unat n" for c n
    using that unsigned_less[of n]
    by (intro yields_on_value[OF read_items_yields[OF rd]]) (simp_all add: wf_plain_def)
  have pairs: "yields m (wf_plain cap) (on_value (read_pairs cap fuel (unat (n :: u64)) c map_acc_empty)
      (\<lambda>acc. Ret (Some (map_acc_value acc))))" if "length c \<le> m" "\<not> cap < unat n" for c n
  proof (intro yields_on_value[OF read_pairs_yields[OF rd]] that(1))
    fix acc and cur' :: bytes
    assume "length cur' \<le> m"
      and "acc_ok cap acc \<and> length (mixed_items acc) = length (mixed_items map_acc_empty) + unat n"
    moreover have "unat n < 2 ^ 64" using unsigned_less[of n] by simp
    ultimately show "yields m (wf_plain cap) (Ret (Some (map_acc_value acc)) cur')"
      using that map_acc_value_ok[of cap acc] by (simp add: wf_plain_def map_acc_empty_def)
  qed (simp_all add: map_acc_empty_def acc_ok_def)
  show ?case
  proof (cases cur)
    case (Cons head cur')
    then have len: "length cur' \<le> m" using Suc.prems(1) by simp
    show ?thesis
      unfolding Cons read.simps Let_def
      by (intro yields_if yields_on_value[OF yields_read_uint] items pairs)
        (use len Suc.prems(2) neg in \<open>simp_all add: wf_plain_leaf\<close>)
  qed simp
qed simp

section \<open>Properties\<close>

text \<open>C2: Decoding what the encoder wrote gives the value back, whatever its nesting: a
  non-negative signed integer returns as unsigned, a mixed map in canonical key order, nothing else
  changes, no input byte is left over and no exception is raised, provided the counts fit the
  allocator.\<close>

theorem cbor_round_trip:
  assumes "wf_value cap v"
  shows "decode cap (encode v) = Ret (Some (norm v)) []"
  by (rule decode_encode[OF assms])

theorem cbor_round_trip_witness:
  "wf_value 8 (CMap [(KText [98], SInt (- 500)), (KInt 7, Map [([97], Bool True), ([97, 98], Null)])])
   \<and> decode 8 (encode (CMap [(KText [98], SInt (- 500)), (KInt 7, Map [([97], Bool True), ([97, 98], Null)])]))
     = Ret (Some (CMap [(KUint 7, Map [([97], Bool True), ([97, 98], Null)]), (KText [98], SInt (- 500))])) []"
proof
  let ?v = "CMap [(KText [98], SInt (- 500)), (KInt 7, Map [([97], Bool True), ([97, 98], Null)])]"
  show wf: "wf_value 8 ?v" by simp
  have "norm ?v = CMap [(KUint 7, Map [([97], Bool True), ([97, 98], Null)]), (KText [98], SInt (- 500))]"
    by (simp add: mixed_value_def key_order_def encode_string_def append_uint_def word_le_nat_alt less_eq_prod_def)
  with cbor_round_trip[OF wf] show "decode 8 (encode ?v) =
      Ret (Some (CMap [(KUint 7, Map [([97], Bool True), ([97, 98], Null)]), (KText [98], SInt (- 500))])) []"
    by (simp only:)
qed

text \<open>C40: On every input, hostile ones included, decoding comes to an end: it throws, it rejects,
  or it returns a value after consuming the whole input.\<close>

theorem cbor_decode_total:
  "decode cap data = Length_error \<or> (\<exists>rest. decode cap data = Ret None rest) \<or>
   (\<exists>v. decode cap data = Ret (Some v) [])"
proof -
  have "good (length data) (read cap (Suc (length data)) data)"
    by (rule read_good) simp_all
  then show ?thesis
    by (cases "read cap (Suc (length data)) data") (auto simp: decode_def good_def on_value_def split: option.splits)
qed

text \<open>
  Every value the decoder accepts is well formed: maps hold no key twice (text maps are
  in key order), integers are in range, counts are within what was reserved; and so encoding it
  again and decoding that gives its normal form.\<close>

theorem cbor_decode_wf:
  assumes "decode cap data = Ret (Some v) rest" and "length data < 2 ^ 64"
  shows "wf_value cap v \<and> rest = [] \<and> decode cap (encode v) = Ret (Some (norm v)) []"
proof -
  obtain cur where "read cap (Suc (length data)) data = Ret (Some v) cur" and "rest = []"
    using assms(1) unfolding decode_def by (auto dest!: on_value_eqD split: if_splits)
  then have "wf_value cap v" "rest = []"
    using read_yields[OF le_refl assms(2), of cap "Suc (length data)"] by (simp_all add: wf_plain_def)
  then show ?thesis
    using decode_encode by blast
qed

theorem cbor_decode_wf_witness:
  "decode 4 [0xa2, 0x01, 0xf5, 0x20, 0xf4] = Ret (Some (CMap [(KUint 1, Bool True), (KInt (- 1), Bool False)])) []
   \<and> wf_value 4 (CMap [(KUint 1, Bool True), (KInt (- 1), Bool False)])"
proof
  show d: "decode 4 [0xa2, 0x01, 0xf5, 0x20, 0xf4] =
      Ret (Some (CMap [(KUint 1, Bool True), (KInt (- 1), Bool False)])) []"
    by code_simp
  show "wf_value 4 (CMap [(KUint 1, Bool True), (KInt (- 1), Bool False)])"
    using cbor_decode_wf[OF d] by simp
qed

lemma read_count_throws:
  assumes "m = 4 \<or> m = 5" and "cap < unat n"
  shows "read cap (Suc fuel) (append_uint m n) = Length_error"
proof -
  have m: "unat m < 2 ^ 3" using assms(1) by auto
  obtain h t where ht: "append_uint m n = h # t" "drop_bit 5 h = m" "read_uint (h AND 0x1f) t = Ret (Some n) []"
    using append_uint_read[OF m, of n] append_Nil2 by metis
  show ?thesis
    using assms unfolding ht(1) read.simps Let_def ht(2,3) by (auto simp: word_le_nat_alt)
qed

text \<open>A nine-byte array or map head whose count is above what the allocator can reserve makes
  the decoder throw instead of returning an empty optional, although no item follows.\<close>

theorem cbor_huge_count_throws:
  assumes "cap < unat n"
  shows "decode cap (append_uint 4 n) = Length_error \<and> decode cap (append_uint 5 n) = Length_error"
  using read_count_throws[OF _ assms] by (simp add: decode_def)

theorem cbor_huge_count_throws_witness:
  "decode (2 ^ 58) [0x9b, 0xff, 0xff, 0xff, 0xff, 0xff, 0xff, 0xff, 0xff] = Length_error"
proof -
  have "append_uint 4 0xffffffffffffffff = [0x9b, 0xff, 0xff, 0xff, 0xff, 0xff, 0xff, 0xff, 0xff]"
    by code_simp
  then show ?thesis
    using cbor_huge_count_throws[of "2 ^ 58" "0xffffffffffffffff"] by simp
qed

end
