(* ===== verification/Ascii.thy ===== *)
theory Ascii
  imports Prelude "HOL-Library.List_Lexorder"
begin

text \<open>
  Byte strings for ASCII text: \<^verbatim>\<open>std::string\<close> is a list of 8-bit words throughout, a literal is
  \<open>ascii ''...''\<close>. \<open>tolower\<close> is \<^verbatim>\<open>std::tolower\<close> in the C locale, \<open>lower_ascii\<close> the loop that
  \<^verbatim>\<open>src/runtime/fxa_archive.cpp\<close>, \<^verbatim>\<open>src/runtime/bundle_loader.cpp\<close> and
  \<^verbatim>\<open>include/fxe/string_utils.hpp\<close> (\<^verbatim>\<open>ascii_lower\<close>) write out. The second part models \<^verbatim>\<open>trim\<close> and the
  \<^verbatim>\<open>std::string\<close> searches the parsers use, and decimal integers as \<^verbatim>\<open>operator<<\<close> prints and
  \<^verbatim>\<open>std::from_chars\<close> reads them.
\<close>

definition ascii :: "string \<Rightarrow> bytes" where
  "ascii s = map of_char s"

definition tolower :: "u8 \<Rightarrow> u8" where
  "tolower c = (if 65 \<le> c \<and> c \<le> 90 then c + 32 else c)"

definition lower_ascii :: "bytes \<Rightarrow> bytes" where
  "lower_ascii s = map tolower s"

lemma length_ascii [simp]: "length (ascii s) = length s"
  by (simp add: ascii_def)

lemma ascii_Nil [simp]: "ascii s = [] \<longleftrightarrow> s = []" "[] = ascii s \<longleftrightarrow> s = []"
  by (auto simp: ascii_def)

lemma of_char_inj: "(of_char c :: u8) = of_char d \<longleftrightarrow> c = d"
proof
  assume eq: "(of_char c :: u8) = of_char d"
  have "unat (of_char x :: u8) = of_char x" for x
  proof -
    have "(of_char x :: nat) < 256"
      by (metis of_char_mod_256 mod_less_divisor zero_less_numeral)
    then have "unat (of_nat (of_char x) :: u8) = of_char x"
      by (simp add: unsigned_of_nat take_bit_nat_eq_self_iff del: of_nat_of_char)
    then show ?thesis by (simp only: of_nat_of_char)
  qed
  with eq have "(of_char c :: nat) = of_char d" by metis
  then show "c = d" by (metis char_of_char)
qed simp

lemma ascii_eq_iff [simp]: "ascii s = ascii t \<longleftrightarrow> s = t"
  unfolding ascii_def by (rule inj_map_eq_map) (simp add: inj_def of_char_inj)

lemma tolower_idem [simp]: "tolower (tolower c) = tolower c"
proof (cases "65 \<le> c \<and> c \<le> 90")
  case True
  then have "unat (c + 32) = unat c + 32"
    by (simp add: word_le_nat_alt unat_word_ariths)
  then have "\<not> c + 32 \<le> 90" using True by (simp add: word_le_nat_alt)
  with True show ?thesis by (simp add: tolower_def)
qed (auto simp: tolower_def)

lemma lower_ascii_simps [simp]:
  "lower_ascii [] = []" "lower_ascii (c # s) = tolower c # lower_ascii s"
  "lower_ascii (lower_ascii s) = lower_ascii s" "length (lower_ascii s) = length s"
  by (simp_all add: lower_ascii_def)

section \<open>Searching and cutting strings\<close>

definition is_ws :: "u8 \<Rightarrow> bool" where
  "is_ws c \<longleftrightarrow> c = 32 \<or> c = 9 \<or> c = 13 \<or> c = 10"

definition trim :: "bytes \<Rightarrow> bytes" where
  "trim s = rev (dropWhile is_ws (rev (dropWhile is_ws s)))"

text \<open>\<^verbatim>\<open>find\<close> and \<^verbatim>\<open>rfind\<close> of a character, with \<open>None\<close> for \<^verbatim>\<open>npos\<close>; \<open>find_from\<close> starts at a position.\<close>

fun find_char :: "u8 \<Rightarrow> bytes \<Rightarrow> nat option" where
  "find_char c [] = None"
| "find_char c (x # s) = (if x = c then Some 0 else map_option Suc (find_char c s))"

definition find_from :: "u8 \<Rightarrow> bytes \<Rightarrow> nat \<Rightarrow> nat option" where
  "find_from c s pos = map_option ((+) pos) (find_char c (drop pos s))"

fun rfind_char :: "u8 \<Rightarrow> bytes \<Rightarrow> nat option" where
  "rfind_char c [] = None"
| "rfind_char c (x # s) =
     (case rfind_char c s of
        Some i \<Rightarrow> Some (Suc i)
      | None \<Rightarrow> if x = c then Some 0 else None)"

definition starts_with :: "bytes \<Rightarrow> bytes \<Rightarrow> bool" where
  "starts_with p s \<longleftrightarrow> take (length p) s = p"

fun find_sub :: "bytes \<Rightarrow> bytes \<Rightarrow> nat option" where
  "find_sub p [] = (if p = [] then Some 0 else None)"
| "find_sub p (x # s) = (if starts_with p (x # s) then Some 0 else map_option Suc (find_sub p s))"

text \<open>The text before the first \<open>c\<close>, and the text behind it, empty when there is no \<open>c\<close>.\<close>

definition before :: "u8 \<Rightarrow> bytes \<Rightarrow> bytes" where
  "before c s = takeWhile (\<lambda>x. x \<noteq> c) s"

definition after :: "u8 \<Rightarrow> bytes \<Rightarrow> bytes" where
  "after c s = drop (Suc (length (before c s))) s"

lemma length_after: "s \<noteq> [] \<Longrightarrow> length (after c s) < length s"
  by (cases s) (auto simp: after_def)

lemma before_after: "c \<in> set s \<Longrightarrow> s = before c s @ c # after c s"
  by (induction s) (auto simp: before_def after_def)

lemma before_none [simp]: "c \<notin> set s \<Longrightarrow> before c s = s"
  by (induction s) (auto simp: before_def)

lemma before_append [simp]: "c \<notin> set s \<Longrightarrow> before c (s @ c # t) = s"
  by (induction s) (auto simp: before_def)

lemma after_append [simp]: "c \<notin> set s \<Longrightarrow> after c (s @ c # t) = t"
  by (simp add: after_def)

lemma find_char_None [simp]: "find_char c s = None \<longleftrightarrow> c \<notin> set s"
  by (induction s) auto

lemma find_char_Some: "find_char c s = Some i \<Longrightarrow> i < length s \<and> s ! i = c \<and> c \<notin> set (take i s)"
  by (induction s arbitrary: i) (auto split: if_splits)

lemma find_char_append: "c \<notin> set s \<Longrightarrow> find_char c (s @ c # t) = Some (length s)"
  by (induction s) auto

lemma rfind_char_None [simp]: "rfind_char c s = None \<longleftrightarrow> c \<notin> set s"
  by (induction s) (auto split: option.splits)

lemma rfind_char_Some: "rfind_char c s = Some i \<Longrightarrow> i < length s \<and> s ! i = c \<and> c \<notin> set (drop (Suc i) s)"
  by (induction s arbitrary: i) (auto split: option.splits if_splits)

lemma starts_with_iff: "starts_with p s \<longleftrightarrow> (\<exists>t. s = p @ t)"
  unfolding starts_with_def by (metis append_eq_conv_conj append_take_drop_id)

lemma trim_idem [simp]: "trim (trim s) = trim s"
proof -
  have front: "dropWhile is_ws (rev (dropWhile is_ws (rev t))) = rev (dropWhile is_ws (rev t))"
    if "t = [] \<or> \<not> is_ws (hd t)" for t
  proof (cases "rev (dropWhile is_ws (rev t))")
    case (Cons a l)
    then have "t \<noteq> []" by auto
    moreover obtain u where "t = rev (dropWhile is_ws (rev t)) @ u"
      by (metis rev_append rev_rev_ident takeWhile_dropWhile_id)
    ultimately have "hd t = a" using Cons by (metis append_Cons list.sel(1))
    then show ?thesis using that Cons \<open>t \<noteq> []\<close> by simp
  next
    case Nil
    show ?thesis by (simp only: Nil dropWhile.simps)
  qed
  have "dropWhile is_ws s = [] \<or> \<not> is_ws (hd (dropWhile is_ws s))"
    using hd_dropWhile[of is_ws s] by (metis dropWhile_eq_Nil_conv)
  from front[OF this] show ?thesis by (simp add: trim_def)
qed

lemma trim_id: "s \<noteq> [] \<Longrightarrow> \<not> is_ws (hd s) \<Longrightarrow> \<not> is_ws (last s) \<Longrightarrow> trim s = s"
proof -
  assume s: "s \<noteq> []" "\<not> is_ws (hd s)" "\<not> is_ws (last s)"
  have "dropWhile is_ws s = s" using s by (simp only: dropWhile_eq_self_iff) simp
  moreover have "dropWhile is_ws (rev s) = rev s"
    using s by (simp only: dropWhile_eq_self_iff) (simp add: hd_rev)
  ultimately show ?thesis by (simp only: trim_def rev_rev_ident)
qed

lemma trim_no_ws: "list_all (\<lambda>c. \<not> is_ws c) s \<Longrightarrow> trim s = s"
proof (cases "s = []")
  case False
  assume "list_all (\<lambda>c. \<not> is_ws c) s"
  then show ?thesis using False hd_in_set last_in_set by (intro trim_id) (auto simp: list_all_iff)
qed (simp add: trim_def)

section \<open>Decimal integers\<close>

fun digits :: "nat \<Rightarrow> bytes" where
  "digits n = (if n < 10 then [48 + of_nat n] else digits (n div 10) @ [48 + of_nat (n mod 10)])"

declare digits.simps [simp del]

definition print_int :: "int \<Rightarrow> bytes" where
  "print_int i = (if i < 0 then 45 # digits (nat (- i)) else digits (nat i))"

definition is_digit :: "u8 \<Rightarrow> bool" where
  "is_digit c \<longleftrightarrow> 48 \<le> c \<and> c \<le> 57"

definition digits_value :: "bytes \<Rightarrow> nat" where
  "digits_value s = foldl (\<lambda>n c. 10 * n + (unat c - 48)) 0 s"

text \<open>\<^verbatim>\<open>std::from_chars\<close> into an \<^verbatim>\<open>i64\<close>, accepted only when it consumes the whole text.\<close>

definition from_chars_i64 :: "bytes \<Rightarrow> int option" where
  "from_chars_i64 s =
     (let neg = (s \<noteq> [] \<and> hd s = 45); ds = (if neg then tl s else s);
          v = (if neg then - int (digits_value ds) else int (digits_value ds))
      in if ds = [] \<or> \<not> list_all is_digit ds \<or> v < - (2 ^ 63) \<or> v \<ge> 2 ^ 63 then None else Some v)"

lemma digit_props:
  assumes "d < 10"
  shows "unat (48 + of_nat d :: u8) = 48 + d" "is_digit (48 + of_nat d)" "\<not> is_ws (48 + of_nat d)"
    "(48 + of_nat d :: u8) \<noteq> 45" "(48 + of_nat d :: u8) \<noteq> 43" "(48 + of_nat d :: u8) \<noteq> 9" "(48 + of_nat d :: u8) \<noteq> 10"
proof -
  have "(48 + of_nat d :: u8) = of_nat (48 + d)" by simp
  moreover have "unat (of_nat (48 + d) :: u8) = 48 + d"
    using assms by (simp only: unsigned_of_nat) (simp add: take_bit_nat_eq_self_iff)
  ultimately show u: "unat (48 + of_nat d :: u8) = 48 + d" by simp
  show "is_digit (48 + of_nat d)" "\<not> is_ws (48 + of_nat d)"
    "(48 + of_nat d :: u8) \<noteq> 45" "(48 + of_nat d :: u8) \<noteq> 43" "(48 + of_nat d :: u8) \<noteq> 9" "(48 + of_nat d :: u8) \<noteq> 10"
    using u assms by (auto simp: is_digit_def is_ws_def word_le_nat_alt word_unat_eq_iff)
qed

lemma digits_ok:
  "digits n \<noteq> []" "list_all is_digit (digits n)" "digits_value (digits n) = n"
  "list_all (\<lambda>c. \<not> is_ws c \<and> c \<noteq> 45 \<and> c \<noteq> 43 \<and> c \<noteq> 9 \<and> c \<noteq> 10) (digits n)"
proof (induction n rule: digits.induct)
  case (1 n)
  note d = digit_props[of "n mod 10"] digit_props[of n]
  case 1 show ?case by (simp add: digits.simps[of n])
  case 2 show ?case using "1.IH" d by (simp add: digits.simps[of n])
  case 3 show ?case using "1.IH" d by (simp add: digits.simps[of n] digits_value_def)
  case 4 show ?case using "1.IH" d by (simp add: digits.simps[of n])
qed

lemma digits_no_newline: "10 \<notin> set (digits n)"
  using digits_ok(4)[of n] by (auto simp: list_all_iff)

lemma from_chars_print_int [codec_simps]:
  assumes "- (2 ^ 63) \<le> i" "i < 2 ^ 63"
  shows "from_chars_i64 (print_int i) = Some i"
proof (cases "i < 0")
  case True
  then show ?thesis
    using assms digits_ok[of "nat (- i)"] by (simp add: from_chars_i64_def print_int_def)
next
  case False
  have "hd (digits (nat i)) \<noteq> 45"
    using digits_ok(1,4)[of "nat i"] hd_in_set[of "digits (nat i)"] by (auto simp: list_all_iff)
  then show ?thesis
    using False assms digits_ok[of "nat i"] by (simp add: from_chars_i64_def print_int_def)
qed

end
