(* ===== verification/Fxa_Archive.thy ===== *)
theory Fxa_Archive
  imports Cbor Ascii
begin

text \<open>
  The application archive of \<^verbatim>\<open>src/runtime/fxa_archive.cpp\<close>: a payload, a CBOR manifest and a
  144-byte trailer appended to the executable. The packer and the reader are modelled in full.
  Libsodium, zstd and the operating system's file access are the parameters \<open>crypto\<close>, \<open>zstd\<close> and
  \<open>file_system\<close>. Sizes and offsets are naturals, wrapped to 64 bits where the reader adds values
  taken from the file.
\<close>

section \<open>External code\<close>

text \<open>Libsodium: \<^verbatim>\<open>sodium_base642bin\<close> yields the decoded bytes and the index where it stopped.\<close>

record crypto =
  sha256 :: "bytes \<Rightarrow> bytes"
  base642bin :: "bytes \<Rightarrow> (bytes \<times> nat) option"
  sk_to_pk :: "bytes \<Rightarrow> bytes option"
  sign_detached :: "bytes \<Rightarrow> bytes \<Rightarrow> bytes option"
  verify_detached :: "bytes \<Rightarrow> bytes \<Rightarrow> bytes \<Rightarrow> bool"

text \<open>Zstandard: whether the build has it, compression, the content size a frame announces, and
  decompression into a buffer of a given size.\<close>

record zstd =
  has_zstd :: bool
  zstd_compress :: "bytes \<Rightarrow> bytes option"
  zstd_content_size :: "bytes \<Rightarrow> nat option"
  zstd_decompress :: "nat \<Rightarrow> bytes \<Rightarrow> bytes option"

text \<open>Files that can be read with their contents, whether a file can be opened for appending, and
  what arrives of a write with the state of the stream afterwards.\<close>

record file_system =
  files :: "bytes \<Rightarrow> bytes option"
  can_append :: "bytes \<Rightarrow> bool"
  written :: "bytes \<Rightarrow> bytes \<times> bool"

section \<open>Data\<close>

record arc_entry =
  entry_offset :: nat
  entry_size :: nat

record bundled_font =
  family :: bytes
  virtual_path :: bytes
  weight :: u32
  style :: bytes

record manifest_metadata =
  app_name :: bytes
  version :: bytes
  entry_point :: bytes
  created_at :: bytes
  meta_compression :: bytes
  update_url :: bytes
  public_key :: bytes
  channel :: bytes
  signer_secret_key_b64 :: bytes
  signer_public_key_b64 :: bytes
  meta_fonts :: "bundled_font list"

record pack_options =
  sign :: bool
  secret_key_b64 :: bytes
  public_key_b64 :: bytes
  compress :: bool

record parsed_manifest =
  pm_compression :: bytes
  pm_payload_sha256 :: bytes
  pm_public_key :: bytes
  pm_signature_algorithm :: bytes
  pm_entries :: "(bytes \<times> arc_entry) list"
  pm_fonts :: "bundled_font list"

record fxa_bundle =
  path :: bytes
  valid :: bool
  signed_archive :: bool
  signature_verified :: bool
  payload_offset :: nat
  compression :: bytes
  payload_sha256 :: bytes
  signer_pubkey :: bytes
  decompressed_payload :: bytes
  index :: "(bytes \<times> arc_entry) list"
  names :: "bytes list"
  fonts :: "bundled_font list"

section \<open>Integers and the trailer\<close>

definition k_magic :: bytes where
  "k_magic = ascii ''FXEAXA'' @ [0, 0]"

definition k_trailer_size :: nat where
  "k_trailer_size = 144"

definition put_u32 :: "u32 \<Rightarrow> bytes" where
  "put_u32 v = map (\<lambda>i. ucast (drop_bit (8 * i) v AND 0xff)) [0, 1, 2, 3]"

definition put_u64 :: "u64 \<Rightarrow> bytes" where
  "put_u64 v = map (\<lambda>i. ucast (drop_bit (8 * i) v AND 0xff)) [0..<8]"

definition read_u32 :: "bytes \<Rightarrow> u32" where
  "read_u32 p = ucast (p ! 0) OR push_bit 8 (ucast (p ! 1)) OR push_bit 16 (ucast (p ! 2)) OR
     push_bit 24 (ucast (p ! 3))"

definition read_u64 :: "bytes \<Rightarrow> u64" where
  "read_u64 p = foldl (\<lambda>v i. v OR push_bit (8 * i) (ucast (p ! i))) 0 [0..<8]"

definition make_signed_prefix :: "u32 \<Rightarrow> nat \<Rightarrow> nat \<Rightarrow> nat \<Rightarrow> nat \<Rightarrow> bytes" where
  "make_signed_prefix flags manifest_offset manifest_size payload_start payload_size =
     k_magic @ put_u32 1 @ put_u32 flags @ put_u64 (of_nat manifest_offset) @
     put_u64 (of_nat manifest_size) @ put_u64 (of_nat payload_start) @ put_u64 (of_nat payload_size)"

section \<open>Helpers\<close>

definition hex_digit :: "u8 \<Rightarrow> u8" where
  "hex_digit d = ascii ''0123456789abcdef'' ! unat d"

definition sha256_hex :: "crypto \<Rightarrow> bytes \<Rightarrow> bytes" where
  "sha256_hex c bs = concat (map (\<lambda>b. [hex_digit (drop_bit 4 b), hex_digit (b AND 0x0f)]) (sha256 c bs))"

definition base64_decode :: "crypto \<Rightarrow> bytes \<Rightarrow> bytes option" where
  "base64_decode c input =
     (case base642bin c input of
        None \<Rightarrow> None
      | Some (out, stop) \<Rightarrow>
          if list_all (\<lambda>ch. ch \<in> {32, 9, 10, 13}) (drop stop input) then Some out else None)"

definition compress_payload :: "zstd \<Rightarrow> bytes \<Rightarrow> bool \<Rightarrow> (bytes \<times> bytes) option" where
  "compress_payload z raw_payload enabled =
     (if \<not> enabled \<or> raw_payload = [] then Some (raw_payload, ascii ''none'')
      else if has_zstd z
      then map_option (\<lambda>out. (out, ascii ''zstd'')) (zstd_compress z raw_payload)
      else Some (raw_payload, ascii ''none''))"

text \<open>What reading an archive can end in: an exception, an early return, or a value.\<close>

datatype 'a outcome = Exception | Rejected | Done 'a

text \<open>\<^verbatim>\<open>out.resize(size)\<close> throws above the bound \<open>cap\<close>.\<close>

definition decompress_payload :: "nat \<Rightarrow> zstd \<Rightarrow> bytes \<Rightarrow> bytes outcome" where
  "decompress_payload cap z payload =
     (if \<not> has_zstd z then Rejected
      else case zstd_content_size z payload of
        None \<Rightarrow> Rejected
      | Some content_size \<Rightarrow>
          if content_size > cap then Exception
          else case zstd_decompress z content_size payload of
            None \<Rightarrow> Rejected
          | Some out \<Rightarrow> if length out \<noteq> content_size then Rejected else Done out)"

definition cbor_text :: "(bytes \<times> cbor_value) list \<Rightarrow> bytes \<Rightarrow> bytes option" where
  "cbor_text m k = (case map_of m k of Some (Text t) \<Rightarrow> Some t | _ \<Rightarrow> None)"

definition cbor_u64 :: "(bytes \<times> cbor_value) list \<Rightarrow> bytes \<Rightarrow> nat option" where
  "cbor_u64 m k =
     (case map_of m k of
        Some (Uint n) \<Rightarrow> Some (unat n)
      | Some (SInt i) \<Rightarrow> if i \<ge> 0 then Some (nat i) else None
      | _ \<Rightarrow> None)"

definition cbor_array_value :: "(bytes \<times> cbor_value) list \<Rightarrow> bytes \<Rightarrow> cbor_value list option" where
  "cbor_array_value m k = (case map_of m k of Some (Array xs) \<Rightarrow> Some xs | _ \<Rightarrow> None)"

definition cbor_map_value :: "cbor_value \<Rightarrow> (bytes \<times> cbor_value) list option" where
  "cbor_map_value v = (case v of Map m \<Rightarrow> Some m | _ \<Rightarrow> None)"

text \<open>The key of the comparator \<^verbatim>\<open>bundled_font_less\<close>.\<close>

definition bundled_font_key :: "bundled_font \<Rightarrow> bytes \<times> u32 \<times> bytes \<times> bytes" where
  "bundled_font_key f = (family f, weight f, style f, virtual_path f)"

definition parse_bundled_font :: "cbor_value \<Rightarrow> bundled_font option" where
  "parse_bundled_font v =
     (case cbor_map_value v of
        None \<Rightarrow> None
      | Some m \<Rightarrow>
          (case (cbor_text m (ascii ''family''), cbor_text m (ascii ''path''),
                 cbor_u64 m (ascii ''weight''), cbor_text m (ascii ''style'')) of
             (Some fam, Some p, Some w, Some st) \<Rightarrow>
               if w = 0 \<or> w > 1000 then None
               else Some \<lparr>family = fam, virtual_path = p, weight = of_nat w, style = lower_ascii st\<rparr>
           | _ \<Rightarrow> None))"

text \<open>A \<^verbatim>\<open>cbor::map\<close> from an initializer list, and \<^verbatim>\<open>m[key] = value\<close> for a key not yet present.\<close>

definition cbor_map :: "(bytes \<times> cbor_value) list \<Rightarrow> (bytes \<times> cbor_value) list" where
  "cbor_map kvs = foldl (\<lambda>m kv. map_emplace (fst kv) (snd kv) m) [] kvs"

definition encode_bundled_font :: "bundled_font \<Rightarrow> cbor_value" where
  "encode_bundled_font f =
     Map (cbor_map [(ascii ''family'', Text (family f)), (ascii ''path'', Text (virtual_path f)),
       (ascii ''weight'', Uint (ucast (weight f))), (ascii ''style'', Text (style f))])"

text \<open>The loops of \<^verbatim>\<open>parse_manifest\<close>: the first bad item makes the whole manifest bad.\<close>

fun parse_all :: "('a \<Rightarrow> 'b option) \<Rightarrow> 'a list \<Rightarrow> 'b list option" where
  "parse_all f [] = Some []"
| "parse_all f (x # xs) =
     (case f x of None \<Rightarrow> None | Some y \<Rightarrow> map_option (Cons y) (parse_all f xs))"

definition parse_entry :: "cbor_value \<Rightarrow> (bytes \<times> arc_entry) option" where
  "parse_entry v =
     (case cbor_map_value v of
        None \<Rightarrow> None
      | Some m \<Rightarrow>
          (case (cbor_text m (ascii ''name''), cbor_u64 m (ascii ''offset''), cbor_u64 m (ascii ''size'')) of
             (Some n, Some off, Some sz) \<Rightarrow> Some (n, \<lparr>entry_offset = off, entry_size = sz\<rparr>)
           | _ \<Rightarrow> None))"

definition required_text :: "(bytes \<times> cbor_value) list \<Rightarrow> bool" where
  "required_text root \<longleftrightarrow>
     cbor_text root (ascii ''magic'') = Some (ascii ''fxa1'') \<and>
     cbor_text root (ascii ''appName'') \<noteq> None \<and> cbor_text root (ascii ''version'') \<noteq> None \<and>
     cbor_text root (ascii ''entry'') \<noteq> None \<and> cbor_text root (ascii ''createdAt'') \<noteq> None"

definition text_or_empty :: "(bytes \<times> cbor_value) list \<Rightarrow> bytes \<Rightarrow> bytes" where
  "text_or_empty root k = (case cbor_text root k of None \<Rightarrow> [] | Some t \<Rightarrow> t)"

definition parse_fields :: "(bytes \<times> cbor_value) list \<Rightarrow> parsed_manifest option" where
  "parse_fields root =
     (case (cbor_text root (ascii ''compression''), cbor_text root (ascii ''payloadSha256''),
            cbor_array_value root (ascii ''entries'')) of
        (Some codec, Some sha, Some entries_value) \<Rightarrow>
          if \<not> required_text root \<or> codec \<noteq> ascii ''none'' \<and> codec \<noteq> ascii ''zstd'' then None
          else (case parse_all parse_bundled_font
                  (case cbor_array_value root (ascii ''fonts'') of None \<Rightarrow> [] | Some fs \<Rightarrow> fs) of
             None \<Rightarrow> None
           | Some fs \<Rightarrow>
               map_option (\<lambda>es. \<lparr>pm_compression = codec, pm_payload_sha256 = sha,
                   pm_public_key = text_or_empty root (ascii ''publicKey''),
                   pm_signature_algorithm = text_or_empty root (ascii ''signatureAlgorithm''),
                   pm_entries = es, pm_fonts = fs\<rparr>)
                 (parse_all parse_entry entries_value))
      | _ \<Rightarrow> None)"

definition parse_manifest :: "nat \<Rightarrow> bytes \<Rightarrow> parsed_manifest outcome" where
  "parse_manifest cap bs =
     (case decode cap bs of
        Ret (Some v) _ \<Rightarrow>
          (case cbor_map_value v of
             None \<Rightarrow> Rejected
           | Some root \<Rightarrow> (case parse_fields root of None \<Rightarrow> Rejected | Some p \<Rightarrow> Done p))
      | Ret None _ \<Rightarrow> Rejected
      | _ \<Rightarrow> Exception)"

section \<open>Packing\<close>

datatype pack_error = Cannot_open bytes | Compression_failed | Invalid_secret_key | Derivation_failed
  | Invalid_public_key | Key_mismatch | Signing_failed | Cannot_append | Write_failed

text \<open>\<^verbatim>\<open>crypto_sign_SECRETKEYBYTES\<close> is 64, \<^verbatim>\<open>crypto_sign_PUBLICKEYBYTES\<close> 32 and
  \<^verbatim>\<open>crypto_sign_BYTES\<close> 64.\<close>

definition parse_signing_keys ::
  "crypto \<Rightarrow> manifest_metadata \<Rightarrow> pack_options \<Rightarrow> pack_error + (bytes \<times> bytes)" where
  "parse_signing_keys c meta opts =
     (let secret_b64 = (if secret_key_b64 opts \<noteq> [] then secret_key_b64 opts else signer_secret_key_b64 meta);
          public_b64 = (if public_key_b64 opts \<noteq> [] then public_key_b64 opts
                        else if signer_public_key_b64 meta \<noteq> [] then signer_public_key_b64 meta
                        else public_key meta)
      in case base64_decode c secret_b64 of
           None \<Rightarrow> Inl Invalid_secret_key
         | Some secret \<Rightarrow>
             if length secret \<noteq> 64 then Inl Invalid_secret_key
             else (case sk_to_pk c secret of
                None \<Rightarrow> Inl Derivation_failed
              | Some derived_public \<Rightarrow>
                  if public_b64 = [] then Inr (secret, derived_public)
                  else (case base64_decode c public_b64 of
                     None \<Rightarrow> Inl Invalid_public_key
                   | Some provided \<Rightarrow>
                       if length provided \<noteq> 32 then Inl Invalid_public_key
                       else if provided \<noteq> derived_public then Inl Key_mismatch
                       else Inr (secret, provided))))"

text \<open>The loop that reads the files and lays them out one after the other.\<close>

fun gather :: "file_system \<Rightarrow> (bytes \<times> bytes) list \<Rightarrow> bytes \<Rightarrow> (bytes \<times> arc_entry) list
    \<Rightarrow> pack_error + (bytes \<times> (bytes \<times> arc_entry) list)" where
  "gather fs [] raw_payload entries = Inr (raw_payload, entries)"
| "gather fs ((disk_path, archive_name) # rest) raw_payload entries =
     (case files fs disk_path of
        None \<Rightarrow> Inl (Cannot_open disk_path)
      | Some body \<Rightarrow>
          gather fs rest (raw_payload @ body)
            (entries @ [(archive_name, \<lparr>entry_offset = length raw_payload, entry_size = length body\<rparr>)]))"

definition encode_entry :: "bytes \<times> arc_entry \<Rightarrow> cbor_value" where
  "encode_entry ne =
     Map (cbor_map [(ascii ''name'', Text (fst ne)), (ascii ''offset'', Uint (of_nat (entry_offset (snd ne)))),
       (ascii ''size'', Uint (of_nat (entry_size (snd ne))))])"

definition lower_style :: "bundled_font \<Rightarrow> bundled_font" where
  "lower_style f = f\<lparr>style := lower_ascii (style f)\<rparr>"

definition manifest_fonts :: "manifest_metadata \<Rightarrow> bundled_font list" where
  "manifest_fonts meta = sort_key bundled_font_key (map lower_style (meta_fonts meta))"

definition manifest_public_key :: "manifest_metadata \<Rightarrow> pack_options \<Rightarrow> bytes" where
  "manifest_public_key meta opts =
     (if public_key meta \<noteq> [] then public_key meta
      else if public_key_b64 opts \<noteq> [] then public_key_b64 opts else signer_public_key_b64 meta)"

definition put_unless :: "bool \<Rightarrow> string \<Rightarrow> cbor_value \<Rightarrow> (bytes \<times> cbor_value) list \<Rightarrow> (bytes \<times> cbor_value) list" where
  "put_unless skip k v m = (if skip then m else map_emplace (ascii k) v m)"

definition manifest_map :: "crypto \<Rightarrow> manifest_metadata \<Rightarrow> pack_options \<Rightarrow> bytes \<Rightarrow> bytes
    \<Rightarrow> (bytes \<times> arc_entry) list \<Rightarrow> (bytes \<times> cbor_value) list" where
  "manifest_map c meta opts payload codec entries =
     put_unless (\<not> sign opts) ''signatureAlgorithm'' (Text (ascii ''ed25519''))
     (put_unless (manifest_public_key meta opts = []) ''publicKey'' (Text (manifest_public_key meta opts))
     (put_unless (update_url meta = []) ''updateUrl'' (Text (update_url meta))
     (put_unless (channel meta = []) ''channel'' (Text (channel meta))
     (put_unless (manifest_fonts meta = []) ''fonts'' (Array (map encode_bundled_font (manifest_fonts meta)))
     (cbor_map [(ascii ''magic'', Text (ascii ''fxa1'')), (ascii ''appName'', Text (app_name meta)),
       (ascii ''version'', Text (version meta)), (ascii ''entry'', Text (entry_point meta)),
       (ascii ''createdAt'', Text (created_at meta)), (ascii ''compression'', Text codec),
       (ascii ''payloadSha256'', Text (sha256_hex c payload)),
       (ascii ''entries'', Array (map encode_entry entries))])))))"

text \<open>Everything between reading the inputs and the writes: the bytes to append to the binary.\<close>

definition seal :: "crypto \<Rightarrow> manifest_metadata \<Rightarrow> pack_options \<Rightarrow> bytes \<Rightarrow> nat \<Rightarrow> bytes \<Rightarrow> pack_error + bytes" where
  "seal c meta opts manifest_bytes payload_start payload =
     (let flags = (if sign opts then 1 else 0); payload_size = length payload;
          manifest_offset = payload_start + payload_size; manifest_size = length manifest_bytes;
          prefix = make_signed_prefix flags manifest_offset manifest_size payload_start payload_size
      in if sign opts
         then (case parse_signing_keys c meta opts of
            Inl e \<Rightarrow> Inl e
          | Inr (secret, signer_public_key) \<Rightarrow>
              (case sign_detached c (prefix @ manifest_bytes @ payload) secret of
                 None \<Rightarrow> Inl Signing_failed
               | Some signature \<Rightarrow> Inr (payload @ manifest_bytes @ prefix @ signature @ signer_public_key)))
         else Inr (payload @ manifest_bytes @ prefix @ replicate 64 0 @ replicate 32 0))"

definition pack_bytes :: "crypto \<Rightarrow> zstd \<Rightarrow> file_system \<Rightarrow> bytes \<Rightarrow> (bytes \<times> bytes) list
    \<Rightarrow> manifest_metadata \<Rightarrow> pack_options \<Rightarrow> pack_error + bytes" where
  "pack_bytes c z fs binary_path inputs meta opts =
     (case gather fs inputs [] [] of
        Inl e \<Rightarrow> Inl e
      | Inr (raw_payload, entries) \<Rightarrow>
          (case compress_payload z raw_payload (compress opts) of
             None \<Rightarrow> Inl Compression_failed
           | Some (payload, codec) \<Rightarrow>
               (case (if sign opts then parse_signing_keys c meta opts else Inr ([], [])) of
                  Inl e \<Rightarrow> Inl e
                | Inr _ \<Rightarrow>
                    (let manifest_bytes = encode (Map (manifest_map c meta opts payload codec entries))
                     in case files fs binary_path of
                          None \<Rightarrow> Inl (Cannot_open binary_path)
                        | Some current \<Rightarrow>
                            seal c meta opts manifest_bytes (length current) payload))))"

text \<open>The error, if any, and the files afterwards.\<close>

definition pack_files :: "crypto \<Rightarrow> zstd \<Rightarrow> file_system \<Rightarrow> bytes \<Rightarrow> (bytes \<times> bytes) list
    \<Rightarrow> manifest_metadata \<Rightarrow> pack_options \<Rightarrow> pack_error option \<times> file_system" where
  "pack_files c z fs binary_path inputs meta opts =
     (case pack_bytes c z fs binary_path inputs meta opts of
        Inl e \<Rightarrow> (Some e, fs)
      | Inr bs \<Rightarrow>
          if \<not> can_append fs binary_path then (Some Cannot_append, fs)
          else let (arrived, good) = written fs bs;
                   current = (case files fs binary_path of None \<Rightarrow> [] | Some x \<Rightarrow> x)
               in (if good then None else Some Write_failed,
                   fs\<lparr>files := (files fs)(binary_path \<mapsto> current @ arrived)\<rparr>))"

section \<open>Opening\<close>

record trailer =
  t_flags :: u32
  t_manifest_offset :: nat
  t_manifest_size :: nat
  t_payload_offset :: nat
  t_payload_size :: nat
  t_signature :: bytes
  t_signer :: bytes

definition field_u64 :: "bytes \<Rightarrow> nat \<Rightarrow> nat" where
  "field_u64 t i = unat (read_u64 (drop i t))"

text \<open>The trailer with its checks; the sums wrap as in the code.\<close>

definition read_trailer :: "bytes \<Rightarrow> trailer option" where
  "read_trailer f =
     (if length f < k_trailer_size then None
      else let t = drop (length f - k_trailer_size) f; trailer_offset = length f - k_trailer_size;
               manifest_offset = field_u64 t 16; manifest_size = field_u64 t 24;
               payload_off = field_u64 t 32; payload_size = field_u64 t 40
           in if take 8 t \<noteq> k_magic \<or> read_u32 (drop 8 t) \<noteq> 1 then None
              else if manifest_offset > trailer_offset \<or> manifest_size > trailer_offset \<or>
                      payload_off > manifest_offset \<or>
                      wrap64 (payload_off + payload_size) \<noteq> manifest_offset \<or>
                      wrap64 (manifest_offset + manifest_size) \<noteq> trailer_offset
              then None
              else Some \<lparr>t_flags = read_u32 (drop 12 t), t_manifest_offset = manifest_offset,
                         t_manifest_size = manifest_size, t_payload_offset = payload_off,
                         t_payload_size = payload_size, t_signature = take 64 (drop 48 t),
                         t_signer = take 32 (drop 112 t)\<rparr>)"

definition empty_bundle :: "bytes \<Rightarrow> fxa_bundle" where
  "empty_bundle p =
     \<lparr>path = p, valid = False, signed_archive = False, signature_verified = False, payload_offset = 0,
      compression = [], payload_sha256 = [], signer_pubkey = [], decompressed_payload = [],
      index = [], names = [], fonts = []\<rparr>"

text \<open>The signature part of the constructor: the new bundle, and whether it goes on.\<close>

definition check_signature ::
  "crypto \<Rightarrow> trailer \<Rightarrow> bytes \<Rightarrow> bytes \<Rightarrow> parsed_manifest \<Rightarrow> fxa_bundle \<Rightarrow> fxa_bundle \<times> bool" where
  "check_signature c t payload manifest parsed b =
     (if t_flags t AND 1 = 0 then (b\<lparr>signed_archive := False\<rparr>, True)
      else let b = b\<lparr>signed_archive := True, signer_pubkey := t_signer t\<rparr>
           in if pm_signature_algorithm parsed \<noteq> [] \<and>
                 lower_ascii (pm_signature_algorithm parsed) \<noteq> ascii ''ed25519''
              then (b, False)
              else if pm_public_key parsed \<noteq> [] \<and>
                      base64_decode c (pm_public_key parsed) \<noteq> Some (signer_pubkey b)
              then (b, False)
              else (b\<lparr>signature_verified :=
                       verify_detached c (t_signature t)
                         (make_signed_prefix (t_flags t) (t_manifest_offset t) (t_manifest_size t)
                            (t_payload_offset t) (t_payload_size t) @ manifest @ payload)
                         (t_signer t)\<rparr>, True))"

text \<open>\<^verbatim>\<open>index_.emplace\<close> keeps the entry of a name that is already there.\<close>

definition index_emplace :: "bytes \<Rightarrow> arc_entry \<Rightarrow> (bytes \<times> arc_entry) list \<Rightarrow> (bytes \<times> arc_entry) list" where
  "index_emplace n e m = (if map_of m n \<noteq> None then m else m @ [(n, e)])"

fun index_entries :: "nat \<Rightarrow> (bytes \<times> arc_entry) list \<Rightarrow> fxa_bundle \<Rightarrow> fxa_bundle" where
  "index_entries logical_size [] b = b\<lparr>valid := True\<rparr>"
| "index_entries logical_size ((n, e) # es) b =
     (if entry_offset e > logical_size \<or> entry_size e > logical_size - entry_offset e then b
      else index_entries logical_size es
             (b\<lparr>index := index_emplace n e (index b), names := names b @ [n]\<rparr>))"

definition finish_open :: "nat \<Rightarrow> zstd \<Rightarrow> bytes \<Rightarrow> parsed_manifest \<Rightarrow> fxa_bundle \<Rightarrow> fxa_bundle outcome" where
  "finish_open cap z payload parsed b =
     (if compression b = ascii ''zstd''
      then (case decompress_payload cap z payload of
              Exception \<Rightarrow> Exception
            | Rejected \<Rightarrow> Done b
            | Done raw \<Rightarrow>
                Done (index_entries (length raw) (pm_entries parsed) (b\<lparr>decompressed_payload := raw\<rparr>)))
      else if compression b \<noteq> ascii ''none'' then Done b
      else Done (index_entries (length payload) (pm_entries parsed) b))"

text \<open>The constructor: \<open>Exception\<close> when it throws, otherwise the object, valid or not.\<close>

definition bundle_open :: "nat \<Rightarrow> crypto \<Rightarrow> zstd \<Rightarrow> file_system \<Rightarrow> bytes \<Rightarrow> fxa_bundle outcome" where
  "bundle_open cap c z fs p =
     (case files fs p of
        None \<Rightarrow> Done (empty_bundle p)
      | Some f \<Rightarrow>
          (case read_trailer f of
             None \<Rightarrow> Done (empty_bundle p)
           | Some t \<Rightarrow>
               let b = (empty_bundle p)\<lparr>payload_offset := t_payload_offset t\<rparr>;
                   payload = take (t_payload_size t) (drop (t_payload_offset t) f);
                   manifest = take (t_manifest_size t) (drop (t_payload_offset t + t_payload_size t) f)
               in if length payload < t_payload_size t \<or> length manifest < t_manifest_size t then Done b
                  else (case parse_manifest cap manifest of
                     Exception \<Rightarrow> Exception
                   | Rejected \<Rightarrow> Done b
                   | Done parsed \<Rightarrow>
                       let b = b\<lparr>compression := pm_compression parsed,
                                 payload_sha256 := pm_payload_sha256 parsed, fonts := pm_fonts parsed\<rparr>;
                           (b, go_on) = check_signature c t payload manifest parsed b
                       in if go_on then finish_open cap z payload parsed b else Done b)))"

definition bundle_read :: "file_system \<Rightarrow> fxa_bundle \<Rightarrow> bytes \<Rightarrow> bytes option" where
  "bundle_read fs b name =
     (if \<not> valid b then None
      else case map_of (index b) name of
        None \<Rightarrow> None
      | Some e \<Rightarrow>
          if compression b = ascii ''zstd''
          then Some (take (entry_size e) (drop (entry_offset e) (decompressed_payload b)))
          else (case files fs (path b) of
             None \<Rightarrow> None
           | Some f \<Rightarrow>
               let pos = payload_offset b + entry_offset e
               in if entry_size e = 0 then Some []
                  else if pos + entry_size e \<le> length f then Some (take (entry_size e) (drop pos f))
                  else None))"

definition bundle_list :: "fxa_bundle \<Rightarrow> bytes list" where
  "bundle_list b = names b"

end
