(* ===== verification/Fxa_Correct.thy ===== *)
theory Fxa_Correct
  imports Fxa_Archive
begin

text \<open>
  Correctness of the archive of \<open>Fxa_Archive\<close>: the trailer's regions tile the file, entries stay
  inside the payload, a verified signature covers everything in front of it, and opening a packed
  file gives the packed files back.
\<close>

section \<open>Integers of the trailer\<close>

lemma low_byte: "(ucast (x AND 0xff) :: u8) = ucast x" for x :: "'a::len word"
proof -
  have "(0xff :: 'a word) = mask 8" by (simp add: mask_eq_exp_minus_1)
  moreover have "(ucast (x AND mask 8) :: u8) = ucast x"
    by (rule bit_word_eqI) (auto simp: bit_simps dest: bit_imp_le_length)
  ultimately show ?thesis by (simp only:)
qed

lemma put_u64_le_bytes: "put_u64 v = le_bytes 8 v"
  by (simp add: put_u64_def le_bytes_def low_byte)

lemma put_u32_le_bytes: "put_u32 v = le_bytes 4 v"
  by (simp add: put_u32_def le_bytes_def low_byte upt_rec)

lemma read_u64_le_word: "8 \<le> length p \<Longrightarrow> read_u64 p = le_word (take 8 p)"
  unfolding read_u64_def by (rule foldl_shifts_le_word)

lemma read_u32_le_word:
  assumes "4 \<le> length p"
  shows "read_u32 p = le_word (take 4 p)"
proof -
  have "[0..<4] = [0, 1, 2, 3::nat]" by (simp add: upt_rec)
  then show ?thesis
    using foldl_shifts_le_word[OF assms, where 'a = 32] by (simp add: read_u32_def or.assoc)
qed

lemma length_put [simp]: "length (put_u32 v) = 4" "length (put_u64 w) = 8"
  by (simp_all add: put_u32_le_bytes put_u64_le_bytes)

lemma read_put [codec_simps]: "read_u32 (put_u32 v @ rest) = v" "read_u64 (put_u64 w @ rest) = w"
  by (simp_all add: read_u32_le_word read_u64_le_word put_u32_le_bytes put_u64_le_bytes le_word_le_bytes_id)

definition take_u64 :: "bytes \<Rightarrow> (u64 \<times> bytes) option" where
  "take_u64 bs = (if length bs < 8 then None else Some (read_u64 bs, drop 8 bs))"

interpretation u64_codec: prefix_codec put_u64 take_u64 "\<lambda>_. True"
  by unfold_locales (simp add: take_u64_def read_put)

section \<open>The trailer\<close>

lemma wrap64_sum:
  assumes "wrap64 (a + b) = c" and "a \<le> c" and "b < 2 ^ 64" and "c < 2 ^ 64"
  shows "a + b = c"
proof -
  have "a + b < 2 ^ 64 \<or> a + b = wrap64 (a + b) + 2 ^ 64"
    using assms(2-4) by (auto simp: wrap64_def mod_if[of "a + b"])
  then show ?thesis using assms by (auto simp: wrap64_id)
qed

lemma field_u64_bound: "field_u64 x i < 2 ^ 64"
  using unsigned_less[of "read_u64 (drop i x)"] by (simp add: field_u64_def)

lemma read_trailer_SomeD:
  assumes "read_trailer f = Some t"
  shows "k_trailer_size \<le> length f" "t_payload_offset t \<le> t_manifest_offset t"
    "t_manifest_offset t \<le> length f - k_trailer_size"
    "wrap64 (t_payload_offset t + t_payload_size t) = t_manifest_offset t"
    "wrap64 (t_manifest_offset t + t_manifest_size t) = length f - k_trailer_size"
    "t_payload_size t < 2 ^ 64" "t_manifest_size t < 2 ^ 64"
proof -
  let ?t = "drop (length f - k_trailer_size) f"
  have *: "k_trailer_size \<le> length f \<and> t_payload_offset t \<le> t_manifest_offset t \<and>
    t_manifest_offset t \<le> length f - k_trailer_size \<and>
    wrap64 (t_payload_offset t + t_payload_size t) = t_manifest_offset t \<and>
    wrap64 (t_manifest_offset t + t_manifest_size t) = length f - k_trailer_size \<and>
    t_payload_size t = field_u64 ?t 40 \<and> t_manifest_size t = field_u64 ?t 24"
    using assms unfolding read_trailer_def Let_def by (simp split: if_split_asm) force
  then show "k_trailer_size \<le> length f" "t_payload_offset t \<le> t_manifest_offset t"
    "t_manifest_offset t \<le> length f - k_trailer_size"
    "wrap64 (t_payload_offset t + t_payload_size t) = t_manifest_offset t"
    "wrap64 (t_manifest_offset t + t_manifest_size t) = length f - k_trailer_size"
    by blast+
  show "t_payload_size t < 2 ^ 64" "t_manifest_size t < 2 ^ 64"
    using * field_u64_bound by metis+
qed

lemma read_trailer_tiles:
  assumes "read_trailer f = Some t" and "length f < 2 ^ 64"
  shows "t_payload_offset t + t_payload_size t = t_manifest_offset t"
    and "t_manifest_offset t + t_manifest_size t + k_trailer_size = length f"
proof -
  note d = read_trailer_SomeD[OF assms(1)]
  show "t_payload_offset t + t_payload_size t = t_manifest_offset t"
    using d(3) assms(2) by (intro wrap64_sum[OF d(4,2,6)]) linarith
  have "t_manifest_offset t + t_manifest_size t = length f - k_trailer_size"
    using assms(2) by (intro wrap64_sum[OF d(5,3,7)]) linarith
  then show "t_manifest_offset t + t_manifest_size t + k_trailer_size = length f"
    using d(1) by linarith
qed

text \<open>The trailer the packer writes is read back.\<close>

lemma length_k_magic [simp]: "length k_magic = 8"
  by (simp add: k_magic_def)

lemma length_make_signed_prefix [simp]: "length (make_signed_prefix fl mo ms po ps) = 48"
  by (simp add: make_signed_prefix_def)

lemma read_trailer_written:
  assumes "f = pre @ payload @ manifest @
      make_signed_prefix fl (length pre + length payload) (length manifest) (length pre) (length payload) @ sg @ pk"
    and "length sg = 64" "length pk = 32" "length f < 2 ^ 64"
  shows "read_trailer f = Some \<lparr>t_flags = fl, t_manifest_offset = length pre + length payload,
    t_manifest_size = length manifest, t_payload_offset = length pre, t_payload_size = length payload,
    t_signature = sg, t_signer = pk\<rparr>"
proof -
  let ?pre = "make_signed_prefix fl (length pre + length payload) (length manifest) (length pre) (length payload)"
  have len: "length f = length pre + length payload + length manifest + 144"
    using assms(1-3) by simp
  have t: "drop (length f - k_trailer_size) f = ?pre @ sg @ pk"
    unfolding len k_trailer_size_def using assms(1) by simp
  have u: "n < 2 ^ 64 \<Longrightarrow> unat (of_nat n :: u64) = n" for n
    by (simp add: unsigned_of_nat take_bit_nat_eq_self_iff)
  have fields: "take 8 (?pre @ sg @ pk) = k_magic" "read_u32 (drop 8 (?pre @ sg @ pk)) = 1"
    "read_u32 (drop 12 (?pre @ sg @ pk)) = fl" "field_u64 (?pre @ sg @ pk) 16 = length pre + length payload"
    "field_u64 (?pre @ sg @ pk) 24 = length manifest" "field_u64 (?pre @ sg @ pk) 32 = length pre"
    "field_u64 (?pre @ sg @ pk) 40 = length payload" "take 64 (drop 48 (?pre @ sg @ pk)) = sg"
    "take 32 (drop 112 (?pre @ sg @ pk)) = pk"
    using assms(2,3,4) len u
    by (simp_all add: make_signed_prefix_def field_u64_def read_put del: of_nat_add)
  show ?thesis
    unfolding read_trailer_def t Let_def fields
    using len assms(4) by (simp add: k_trailer_size_def wrap64_id)
qed

section \<open>Manifest maps\<close>

text \<open>A \<^verbatim>\<open>std::map\<close> built by insertions: ordered, and holding values the encoder keeps.\<close>

definition ordered_map :: "(bytes \<times> cbor_value) list \<Rightarrow> bool" where
  "ordered_map m \<longleftrightarrow> sorted_wrt (<) (map fst m)"

definition stable_map :: "(bytes \<times> cbor_value) list \<Rightarrow> bool" where
  "stable_map m \<longleftrightarrow> list_all (\<lambda>kv. norm (snd kv) = snd kv \<and> wf_shape (snd kv)) m"

lemma map_laws_Nil [simp]: "ordered_map []" "stable_map []"
  by (simp_all add: ordered_map_def stable_map_def)

lemma ordered_map_emplace [simp]: "ordered_map m \<Longrightarrow> ordered_map (map_emplace k v m)"
  by (simp add: ordered_map_def sorted_map_emplace)

lemma stable_map_emplace [simp]:
  assumes "stable_map m" "norm v = v" "wf_shape v"
  shows "stable_map (map_emplace k v m)"
proof -
  have "\<forall>kv \<in> insert (k, v) (set m). norm (snd kv) = snd kv \<and> wf_shape (snd kv)"
    using assms by (simp add: stable_map_def list_all_iff)
  then show ?thesis
    using set_map_emplace[of k v m] unfolding stable_map_def list_all_iff by blast
qed

lemma ordered_map_above: "ordered_map ((k, v) # m) \<Longrightarrow> x \<le> k \<Longrightarrow> map_of m x = None"
  by (auto simp: ordered_map_def map_of_eq_None_iff)

lemma map_of_emplace [simp]:
  "ordered_map m \<Longrightarrow> map_of (map_emplace k v m) x =
     (if x = k \<and> map_of m k = None then Some v else map_of m x)"
proof (induction k v m rule: map_emplace.induct)
  case (2 k v k' v' m)
  have "ordered_map m" using "2.prems" by (simp add: ordered_map_def)
  moreover have "k < k' \<Longrightarrow> map_of m k = None"
    using ordered_map_above[OF "2.prems", of k] by simp
  ultimately show ?case using 2 by auto
qed simp

lemma put_unless_laws [simp]:
  "ordered_map m \<Longrightarrow> ordered_map (put_unless skip k v m)"
  "stable_map m \<Longrightarrow> norm v = v \<Longrightarrow> wf_shape v \<Longrightarrow> stable_map (put_unless skip k v m)"
  "ordered_map m \<Longrightarrow> map_of (put_unless skip k v m) x =
     (if \<not> skip \<and> x = ascii k \<and> map_of m (ascii k) = None then Some v else map_of m x)"
  by (auto simp: put_unless_def)

lemma cbor_map_laws [simp]:
  "ordered_map (cbor_map kvs)"
  "list_all (\<lambda>kv. norm (snd kv) = snd kv \<and> wf_shape (snd kv)) kvs \<Longrightarrow> stable_map (cbor_map kvs)"
proof -
  have "ordered_map m \<Longrightarrow> ordered_map (foldl (\<lambda>m kv. map_emplace (fst kv) (snd kv) m) m kvs)" for m
    by (induction kvs arbitrary: m) simp_all
  then show "ordered_map (cbor_map kvs)" by (simp add: cbor_map_def)
  have "stable_map m \<Longrightarrow> list_all (\<lambda>kv. norm (snd kv) = snd kv \<and> wf_shape (snd kv)) kvs \<Longrightarrow>
      stable_map (foldl (\<lambda>m kv. map_emplace (fst kv) (snd kv) m) m kvs)" for m
    by (induction kvs arbitrary: m) simp_all
  then show "list_all (\<lambda>kv. norm (snd kv) = snd kv \<and> wf_shape (snd kv)) kvs \<Longrightarrow> stable_map (cbor_map kvs)"
    by (simp add: cbor_map_def)
qed

lemma map_of_cbor_map [simp]: "map_of (cbor_map kvs) = map_of kvs"
proof -
  have "ordered_map m \<Longrightarrow> map_of (foldl (\<lambda>m kv. map_emplace (fst kv) (snd kv) m) m kvs) x =
      (case map_of m x of None \<Rightarrow> map_of kvs x | Some v \<Rightarrow> Some v)" for m x
    by (induction kvs arbitrary: m) (auto split: option.splits)
  from this[of "[]"] show ?thesis by (auto simp: cbor_map_def)
qed

lemma norm_stable_map: "stable_map m \<Longrightarrow> norm (Map m) = Map m"
  by (simp add: stable_map_def list_all_iff map_idI)

lemma wf_shape_map: "stable_map m \<Longrightarrow> ordered_map m \<Longrightarrow> wf_shape (Map m)"
  by (simp add: stable_map_def ordered_map_def list_all_iff)

subsection \<open>Entries and fonts\<close>

lemma encoded_font_stable [simp]: "norm (encode_bundled_font f) = encode_bundled_font f" "wf_shape (encode_bundled_font f)"
  unfolding encode_bundled_font_def
  by (rule norm_stable_map, simp) (rule wf_shape_map; simp)

lemma encoded_entry_stable [simp]: "norm (encode_entry e) = encode_entry e" "wf_shape (encode_entry e)"
  unfolding encode_entry_def
  by (rule norm_stable_map, simp) (rule wf_shape_map; simp)

lemma parse_encoded_font:
  assumes "0 < unat (weight f)" "unat (weight f) \<le> 1000" "lower_ascii (style f) = style f"
  shows "parse_bundled_font (encode_bundled_font f) = Some f"
proof -
  have "unat (ucast (weight f) :: u64) = unat (weight f)"
    using assms(2) by (simp add: unsigned_ucast_eq take_bit_nat_eq_self)
  then show ?thesis
    using assms by (simp add: parse_bundled_font_def encode_bundled_font_def cbor_map_value_def
        cbor_text_def cbor_u64_def)
qed

lemma parse_encoded_entry:
  assumes "entry_offset (snd e) < 2 ^ 64" "entry_size (snd e) < 2 ^ 64"
  shows "parse_entry (encode_entry e) = Some e"
  using assms by (cases e) (simp add: parse_entry_def encode_entry_def cbor_map_value_def cbor_text_def
      cbor_u64_def unsigned_of_nat take_bit_nat_eq_self_iff)

lemma parse_all_map: "(\<And>x. x \<in> set xs \<Longrightarrow> f (g x) = Some x) \<Longrightarrow> parse_all f (map g xs) = Some xs"
  by (induction xs) simp_all

text \<open>The manifest the packer builds is parsed to what it was built from.\<close>

definition font_ok :: "bundled_font \<Rightarrow> bool" where
  "font_ok f \<longleftrightarrow> 0 < unat (weight f) \<and> unat (weight f) \<le> 1000"

lemma parse_manifest_fonts:
  assumes "list_all font_ok (meta_fonts meta)"
  shows "parse_all parse_bundled_font (map encode_bundled_font (manifest_fonts meta)) = Some (manifest_fonts meta)"
  using assms
  by (intro parse_all_map parse_encoded_font) (auto simp: manifest_fonts_def lower_style_def font_ok_def list_all_iff)

lemma parse_fields_manifest:
  assumes fonts: "list_all font_ok (meta_fonts meta)"
    and entries: "\<forall>e \<in> set entries. entry_offset (snd e) < 2 ^ 64 \<and> entry_size (snd e) < 2 ^ 64"
    and codec: "codec = ascii ''none'' \<or> codec = ascii ''zstd''"
  shows "parse_fields (manifest_map c meta opts payload codec entries) =
    Some \<lparr>pm_compression = codec, pm_payload_sha256 = sha256_hex c payload,
      pm_public_key = manifest_public_key meta opts,
      pm_signature_algorithm = (if sign opts then ascii ''ed25519'' else []),
      pm_entries = entries, pm_fonts = manifest_fonts meta\<rparr>"
proof -
  let ?m = "manifest_map c meta opts payload codec entries"
  have es: "parse_all parse_entry (map encode_entry entries) = Some entries"
    using entries by (intro parse_all_map parse_encoded_entry) auto
  have look: "cbor_text ?m (ascii ''compression'') = Some codec"
    "cbor_text ?m (ascii ''payloadSha256'') = Some (sha256_hex c payload)"
    "cbor_array_value ?m (ascii ''entries'') = Some (map encode_entry entries)"
    "required_text ?m" "text_or_empty ?m (ascii ''publicKey'') = manifest_public_key meta opts"
    "text_or_empty ?m (ascii ''signatureAlgorithm'') = (if sign opts then ascii ''ed25519'' else [])"
    by (simp_all add: manifest_map_def cbor_text_def cbor_array_value_def required_text_def text_or_empty_def)
  have fs: "(case cbor_array_value ?m (ascii ''fonts'') of None \<Rightarrow> [] | Some fs \<Rightarrow> fs) =
      map encode_bundled_font (manifest_fonts meta)"
    by (simp add: manifest_map_def cbor_array_value_def)
  show ?thesis
    unfolding parse_fields_def look fs parse_manifest_fonts[OF fonts]
    using codec es look(4) by auto
qed

lemma manifest_map_laws:
  "stable_map (manifest_map c meta opts payload codec entries)"
  "ordered_map (manifest_map c meta opts payload codec entries)"
  by (simp_all add: manifest_map_def list_all_iff map_idI)

section \<open>Layout of the payload\<close>

text \<open>Each input ends up as an entry that cuts the input's contents out of the payload.\<close>

definition cuts_out :: "file_system \<Rightarrow> bytes \<Rightarrow> bytes \<times> bytes \<Rightarrow> bytes \<times> arc_entry \<Rightarrow> bool" where
  "cuts_out fs raw inp ne \<longleftrightarrow> snd inp = fst ne \<and>
     (\<exists>body. files fs (fst inp) = Some body \<and> entry_size (snd ne) = length body \<and>
        entry_offset (snd ne) + length body \<le> length raw \<and>
        take (length body) (drop (entry_offset (snd ne)) raw) = body)"

lemma cuts_out_append: "cuts_out fs raw inp ne \<Longrightarrow> cuts_out fs (raw @ tail) inp ne"
  by (auto simp: cuts_out_def)

lemma gather_layout:
  assumes "gather fs inputs raw entries = Inr (raw', entries')"
  shows "\<exists>tail es. raw' = raw @ tail \<and> entries' = entries @ es \<and> list_all2 (cuts_out fs raw') inputs es"
  using assms
proof (induction fs inputs raw entries rule: gather.induct)
  case (2 fs disk_path archive_name rest raw entries)
  then obtain body where body: "files fs disk_path = Some body" by (auto split: option.splits)
  let ?e = "(archive_name, \<lparr>entry_offset = length raw, entry_size = length body\<rparr>)"
  obtain tail es where ih: "raw' = (raw @ body) @ tail" "entries' = (entries @ [?e]) @ es"
    "list_all2 (cuts_out fs raw') rest es"
    using "2.IH"[OF body] "2.prems" by (auto simp: body)
  have "cuts_out fs raw' (disk_path, archive_name) ?e"
    using body by (simp add: cuts_out_def ih(1))
  with ih show ?case
    by (intro exI[of _ "body @ tail"] exI[of _ "?e # es"]) simp
qed simp

text \<open>What the archive holds under a name: the first input with that name.\<close>

fun packed_file :: "file_system \<Rightarrow> (bytes \<times> bytes) list \<Rightarrow> bytes \<Rightarrow> bytes option" where
  "packed_file fs [] name = None"
| "packed_file fs ((disk_path, archive_name) # rest) name =
     (if archive_name = name then files fs disk_path else packed_file fs rest name)"

definition cut :: "bytes \<Rightarrow> arc_entry \<Rightarrow> bytes" where
  "cut raw e = take (entry_size e) (drop (entry_offset e) raw)"

lemma packed_file_cut:
  "list_all2 (cuts_out fs raw) inputs es \<Longrightarrow> packed_file fs inputs name = map_option (cut raw) (map_of es name)"
  by (induction rule: list_all2_induct) (auto simp: cuts_out_def cut_def)

lemma cuts_out_names: "list_all2 (cuts_out fs raw) inputs es \<Longrightarrow> map fst es = map snd inputs"
  by (induction rule: list_all2_induct) (auto simp: cuts_out_def)

definition within :: "nat \<Rightarrow> arc_entry \<Rightarrow> bool" where
  "within n e \<longleftrightarrow> entry_offset e + entry_size e \<le> n"

lemma cuts_out_within: "list_all2 (cuts_out fs raw) inputs es \<Longrightarrow> list_all (\<lambda>e. within (length raw) (snd e)) es"
  by (induction rule: list_all2_induct) (auto simp: cuts_out_def within_def)

section \<open>The index\<close>

lemma map_of_index_emplace: "map_of (index_emplace n e m) x =
    (case map_of m x of None \<Rightarrow> if x = n then Some e else None | Some e' \<Rightarrow> Some e')"
  by (auto simp: index_emplace_def map_of_append map_add_def split: option.splits)

lemma index_entries_all:
  assumes "list_all (\<lambda>e. within n (snd e)) es"
  shows "valid (index_entries n es b)" "names (index_entries n es b) = names b @ map fst es"
    "map_of (index (index_entries n es b)) x =
       (case map_of (index b) x of None \<Rightarrow> map_of es x | Some e \<Rightarrow> Some e)"
  using assms
  by (induction n es b rule: index_entries.induct)
    (auto simp: within_def map_of_index_emplace split: option.splits)

lemma index_entries_fields [simp]:
  "signed_archive (index_entries n es b) = signed_archive b"
  "signature_verified (index_entries n es b) = signature_verified b"
  "fonts (index_entries n es b) = fonts b" "compression (index_entries n es b) = compression b"
  "path (index_entries n es b) = path b" "payload_offset (index_entries n es b) = payload_offset b"
  "decompressed_payload (index_entries n es b) = decompressed_payload b"
  "signer_pubkey (index_entries n es b) = signer_pubkey b"
  by (induction n es b rule: index_entries.induct) auto

text \<open>A valid bundle never holds an entry that leaves the payload.\<close>

lemma index_entries_valid:
  assumes "valid (index_entries n es b)" and "\<not> valid b"
  shows "list_all (\<lambda>e. within n (snd e)) es"
  using assms
  by (induction n es b rule: index_entries.induct) (auto simp: within_def split: if_splits)

section \<open>What opening yields\<close>

lemma read_trailer_fields:
  assumes "read_trailer f = Some t" and "tr = drop (length f - k_trailer_size) f"
  shows "take 8 tr = k_magic" "read_u32 (drop 8 tr) = 1"
    "t = \<lparr>t_flags = read_u32 (drop 12 tr), t_manifest_offset = field_u64 tr 16,
      t_manifest_size = field_u64 tr 24, t_payload_offset = field_u64 tr 32, t_payload_size = field_u64 tr 40,
      t_signature = take 64 (drop 48 tr), t_signer = take 32 (drop 112 tr)\<rparr>"
  using assms(1)[unfolded read_trailer_def Let_def guard_Some option.inject, folded assms(2)] by blast+

lemma prefix_of_trailer:
  assumes t: "read_trailer f = Some t" and f: "length f < 2 ^ 64"
  shows "take 48 (drop (length f - k_trailer_size) f) =
    make_signed_prefix (t_flags t) (t_manifest_offset t) (t_manifest_size t) (t_payload_offset t) (t_payload_size t)"
proof -
  let ?t = "drop (length f - k_trailer_size) f"
  have len: "length ?t = 144" using read_trailer_SomeD(1)[OF t] by (simp add: k_trailer_size_def)
  note r = read_trailer_fields[OF t refl]
  have vals: "take 8 ?t = k_magic" "read_u32 (drop 8 ?t) = 1" "t_flags t = read_u32 (drop 12 ?t)"
    "t_manifest_offset t = field_u64 ?t 16" "t_manifest_size t = field_u64 ?t 24"
    "t_payload_offset t = field_u64 ?t 32" "t_payload_size t = field_u64 ?t 40"
    using r(1,2) by (simp_all only: r(3) trailer.simps)
  have u64: "put_u64 (of_nat (field_u64 ?t i)) = take 8 (drop i ?t)" if "i + 8 \<le> 144" for i
    using that len le_bytes_le_word[of "take 8 (drop i ?t)", where 'a = 64]
    by (simp add: field_u64_def put_u64_le_bytes read_u64_le_word)
  have u32: "put_u32 (read_u32 (drop i ?t)) = take 4 (drop i ?t)" if "i + 4 \<le> 144" for i
    using that len le_bytes_le_word[of "take 4 (drop i ?t)", where 'a = 32]
    by (simp add: put_u32_le_bytes read_u32_le_word)
  have "take 48 ?t = take (8 + (4 + (4 + (8 + (8 + (8 + 8)))))) ?t" by simp
  also have "\<dots> = take 8 ?t @ take 4 (drop 8 ?t) @ take 4 (drop 12 ?t) @ take 8 (drop 16 ?t) @
      take 8 (drop 24 ?t) @ take 8 (drop 32 ?t) @ take 8 (drop 40 ?t)"
    unfolding take_add drop_drop by simp
  finally show ?thesis
    unfolding make_signed_prefix_def vals using u64 u32[of 8] u32[of 12] vals(1,2) by simp
qed

text \<open>A bundle that is valid, or whose signature verified, went through all the stages.\<close>

definition opened ::
  "nat \<Rightarrow> crypto \<Rightarrow> zstd \<Rightarrow> bytes \<Rightarrow> fxa_bundle \<Rightarrow> bytes \<Rightarrow> trailer \<Rightarrow> parsed_manifest \<Rightarrow> fxa_bundle \<Rightarrow> bool" where
  "opened cap c z p b f t parsed b' \<longleftrightarrow> read_trailer f = Some t \<and>
     (let payload = take (t_payload_size t) (drop (t_payload_offset t) f);
          manifest = take (t_manifest_size t) (drop (t_payload_offset t + t_payload_size t) f)
      in parse_manifest cap manifest = Done parsed \<and>
         check_signature c t payload manifest parsed
           ((empty_bundle p)\<lparr>payload_offset := t_payload_offset t, compression := pm_compression parsed,
              payload_sha256 := pm_payload_sha256 parsed, fonts := pm_fonts parsed\<rparr>) = (b', True) \<and>
         finish_open cap z payload parsed b' = Done b)"

lemma bundle_open_stages:
  assumes "bundle_open cap c z fs p = Done b" and "valid b \<or> signature_verified b"
  shows "\<exists>f t parsed b'. files fs p = Some f \<and> opened cap c z p b f t parsed b'"
proof -
  have "\<not> valid (empty_bundle p) \<and> \<not> signature_verified (empty_bundle p)" by (simp add: empty_bundle_def)
  moreover have "\<not> valid b'' \<and> \<not> signature_verified b''"
    if "check_signature c t payload manifest parsed b' = (b'', False)"
      "\<not> valid b'" "\<not> signature_verified b'" for t payload manifest parsed b' b''
    using that by (auto simp: check_signature_def Let_def split: if_splits)
  ultimately show ?thesis
    using assms unfolding bundle_open_def opened_def
    by (fastforce simp: Let_def split: option.splits outcome.splits if_splits prod.splits)
qed

lemma check_signature_keeps:
  assumes "check_signature c t payload manifest parsed b = (b', True)"
  shows "path b' = path b" "payload_offset b' = payload_offset b" "compression b' = compression b"
    "valid b' = valid b" "index b' = index b" "names b' = names b" "fonts b' = fonts b"
  using assms by (auto simp: check_signature_def Let_def split: if_splits)

lemma finish_open_keeps:
  assumes "finish_open cap z payload parsed b = Done b'"
  shows "path b' = path b" "payload_offset b' = payload_offset b" "compression b' = compression b"
    "signed_archive b' = signed_archive b" "signature_verified b' = signature_verified b"
    "signer_pubkey b' = signer_pubkey b" "fonts b' = fonts b"
  using assms by (auto simp: finish_open_def split: if_splits outcome.splits)

lemma finish_open_index:
  assumes "finish_open cap z payload parsed b = Done b'" "valid b'" "\<not> valid b" "index b = []" "names b = []"
  shows "map_of (index b') = map_of (pm_entries parsed)" "names b' = map fst (pm_entries parsed)"
    "list_all (\<lambda>e. within (if compression b = ascii ''zstd'' then length (decompressed_payload b') else length payload) (snd e))
       (pm_entries parsed)"
proof -
  obtain n b0 where b': "b' = index_entries n (pm_entries parsed) b0" "\<not> valid b0" "index b0 = []" "names b0 = []"
    and n: "n = (if compression b = ascii ''zstd'' then length (decompressed_payload b') else length payload)"
    using assms by (auto simp: finish_open_def split: if_splits outcome.splits)
  have w: "list_all (\<lambda>e. within n (snd e)) (pm_entries parsed)"
    using index_entries_valid assms(2) b'(1,2) by blast
  show "map_of (index b') = map_of (pm_entries parsed)" "names b' = map fst (pm_entries parsed)"
    using index_entries_all[OF w] b' by auto
  show "list_all (\<lambda>e. within (if compression b = ascii ''zstd'' then length (decompressed_payload b') else length payload) (snd e))
       (pm_entries parsed)"
    using w n by simp
qed

lemma split_file:
  assumes "a + n = m" and "m + k + k_trailer_size = length f"
  shows "f = take a f @ take n (drop a f) @ take k (drop m f) @ drop (length f - k_trailer_size) f"
proof -
  have "f = take a f @ drop a f" by simp
  also have "drop a f = take n (drop a f) @ drop m f"
    using assms(1) by (metis add.commute append_take_drop_id drop_drop)
  also have "drop m f = take k (drop m f) @ drop (length f - k_trailer_size) f"
    using assms(2) by (metis add.commute add_diff_cancel_right' append_take_drop_id drop_drop)
  finally show ?thesis .
qed

lemma split_trailer:
  assumes "length t = 144"
  shows "t = take 48 t @ take 64 (drop 48 t) @ take 32 (drop 112 t)"
proof -
  have "take 32 (drop 112 t) = drop 64 (drop 48 t)" using assms by simp
  then show ?thesis by (simp only: append_take_drop_id)
qed

section \<open>Opening what was packed\<close>

text \<open>What the libraries promise: decompression inverts compression, and a detached signature
  verifies under the public key of its secret key.\<close>

definition zstd_ok :: "zstd \<Rightarrow> bool" where
  "zstd_ok z \<longleftrightarrow> (\<forall>x y. zstd_compress z x = Some y \<longrightarrow>
     zstd_content_size z y = Some (length x) \<and> zstd_decompress z (length x) y = Some x)"

definition crypto_ok :: "crypto \<Rightarrow> bool" where
  "crypto_ok c \<longleftrightarrow> (\<forall>m sk sg pk. sign_detached c m sk = Some sg \<and> sk_to_pk c sk = Some pk \<longrightarrow>
     length sg = 64 \<and> length pk = 32 \<and> verify_detached c sg m pk)"

text \<open>The key named in the manifest, if any, is the signing key.\<close>

definition keys_agree :: "crypto \<Rightarrow> manifest_metadata \<Rightarrow> pack_options \<Rightarrow> bool" where
  "keys_agree c meta opts \<longleftrightarrow> sign opts \<longrightarrow> manifest_public_key meta opts = [] \<or>
     (\<exists>sk pk. parse_signing_keys c meta opts = Inr (sk, pk) \<and>
        base64_decode c (manifest_public_key meta opts) = Some pk)"

lemma parse_signing_keys_pk:
  "parse_signing_keys c meta opts = Inr (sk, pk) \<Longrightarrow> sk_to_pk c sk = Some pk"
  by (auto simp: parse_signing_keys_def Let_def split: option.splits if_splits)

lemma seal_shape:
  assumes "seal c meta opts mb start payload = Inr bs" and "crypto_ok c" and "keys_agree c meta opts"
    and "hdr = make_signed_prefix (if sign opts then 1 else 0) (start + length payload) (length mb) start (length payload)"
  shows "\<exists>sg pk. bs = payload @ mb @ hdr @ sg @ pk \<and> length sg = 64 \<and> length pk = 32 \<and>
    (sign opts \<longrightarrow> verify_detached c sg (hdr @ mb @ payload) pk \<and>
       (manifest_public_key meta opts = [] \<or> base64_decode c (manifest_public_key meta opts) = Some pk))"
proof (cases "sign opts")
  case True
  then obtain sk pk sg where k: "parse_signing_keys c meta opts = Inr (sk, pk)"
    "sign_detached c (hdr @ mb @ payload) sk = Some sg" "bs = payload @ mb @ hdr @ sg @ pk"
    using assms(1,4) by (auto simp: seal_def Let_def split: sum.splits option.splits)
  have "length sg = 64 \<and> length pk = 32 \<and> verify_detached c sg (hdr @ mb @ payload) pk"
    using assms(2) k(2) parse_signing_keys_pk[OF k(1)] unfolding crypto_ok_def by blast
  then show ?thesis using k assms(3) True by (auto simp: keys_agree_def)
next
  case False
  then show ?thesis
    using assms(1,4)
    by (intro exI[of _ "replicate 64 0"] exI[of _ "replicate 32 0"]) (simp add: seal_def Let_def)
qed

lemma parse_packed_manifest:
  assumes "length (encode (Map (manifest_map c meta opts payload codec entries))) \<le> cap" "cap < 2 ^ 64"
  shows "parse_manifest cap (encode (Map (manifest_map c meta opts payload codec entries))) =
    (case parse_fields (manifest_map c meta opts payload codec entries) of None \<Rightarrow> Rejected | Some p \<Rightarrow> Done p)"
proof -
  let ?m = "manifest_map c meta opts payload codec entries"
  have "wf_value cap (Map ?m)"
    by (rule wf_value_small[OF wf_shape_map[OF manifest_map_laws] assms])
  then have "decode cap (encode (Map ?m)) = Ret (Some (Map ?m)) []"
    using decode_encode norm_stable_map[OF manifest_map_laws(1)] by metis
  then show ?thesis by (simp add: parse_manifest_def cbor_map_value_def)
qed

lemma compress_payload_cases:
  assumes "compress_payload z raw en = Some (payload, codec)" and "zstd_ok z" and "length raw \<le> cap"
  obtains "codec = ascii ''none''" "payload = raw"
  | "codec = ascii ''zstd''" "decompress_payload cap z payload = Done raw"
  using assms by (auto simp: compress_payload_def decompress_payload_def zstd_ok_def split: if_splits)

text \<open>A bundle that presents an index over a raw payload.\<close>

definition presents :: "file_system \<Rightarrow> fxa_bundle \<Rightarrow> bytes \<Rightarrow> (bytes \<times> arc_entry) list \<Rightarrow> bool" where
  "presents fs b raw entries \<longleftrightarrow> valid b \<and> names b = map fst entries \<and>
     (\<forall>name. bundle_read fs b name = map_option (cut raw) (map_of entries name))"

lemma presents_none:
  assumes "list_all (\<lambda>e. within (length payload) (snd e)) entries" and "compression b = ascii ''none''"
    and "index b = []" "names b = []" and "files fs (path b) = Some (pre @ payload @ rest)"
    and "payload_offset b = length pre"
  shows "presents fs (index_entries (length payload) entries b) payload entries"
proof -
  let ?b = "index_entries (length payload) entries b"
  have "bundle_read fs ?b name = map_option (cut payload) (map_of entries name)" for name
  proof (cases "map_of entries name")
    case (Some e)
    then have "within (length payload) e"
      using assms(1) map_of_SomeD[OF Some] by (force simp: list_all_iff)
    then show ?thesis
      using Some assms index_entries_all[OF assms(1)] by (auto simp: bundle_read_def within_def cut_def Let_def)
  qed (use assms index_entries_all[OF assms(1)] in \<open>simp add: bundle_read_def\<close>)
  then show ?thesis using index_entries_all[OF assms(1)] assms(4) by (simp add: presents_def)
qed

lemma presents_zstd:
  assumes "list_all (\<lambda>e. within (length raw) (snd e)) entries" and "compression b = ascii ''zstd''"
    and "index b = []" "names b = []"
  shows "presents fs (index_entries (length raw) entries (b\<lparr>decompressed_payload := raw\<rparr>)) raw entries"
proof -
  let ?b = "index_entries (length raw) entries (b\<lparr>decompressed_payload := raw\<rparr>)"
  have "bundle_read fs ?b name = map_option (cut raw) (map_of entries name)" for name
    using assms(2-4) index_entries_all[OF assms(1)]
    by (auto simp: bundle_read_def cut_def split: option.splits)
  then show ?thesis using index_entries_all[OF assms(1)] assms(4) by (simp add: presents_def)
qed

lemma finish_open_presents:
  assumes "compress_payload z raw en = Some (payload, pm_compression parsed)" "zstd_ok z" "length raw \<le> cap"
    and "list_all (\<lambda>e. within (length raw) (snd e)) (pm_entries parsed)"
    and "compression b = pm_compression parsed" "index b = []" "names b = []"
    and "files fs (path b) = Some (pre @ payload @ rest)" "payload_offset b = length pre"
  shows "\<exists>b'. finish_open cap z payload parsed b = Done b' \<and> presents fs b' raw (pm_entries parsed)"
  using compress_payload_cases[OF assms(1-3)]
proof cases
  case 1
  then show ?thesis
    using presents_none[OF _ _ assms(6,7,8,9)] assms(4,5) by (simp add: finish_open_def)
next
  case 2
  then show ?thesis
    using presents_zstd[OF assms(4) _ assms(6,7)] assms(5) by (simp add: finish_open_def)
qed

lemma pack_bytes_parts:
  assumes "pack_bytes c z fs p inputs meta opts = Inr bs"
  obtains raw entries payload codec current where "gather fs inputs [] [] = Inr (raw, entries)"
    "compress_payload z raw (compress opts) = Some (payload, codec)" "files fs p = Some current"
    "seal c meta opts (encode (Map (manifest_map c meta opts payload codec entries))) (length current) payload = Inr bs"
  using assms by (auto simp: pack_bytes_def Let_def split: sum.splits option.splits prod.splits if_splits)

lemma gather_entries:
  assumes "gather fs inputs [] [] = Inr (raw, entries)"
  shows "list_all2 (cuts_out fs raw) inputs entries"
  using gather_layout[OF assms] by auto

lemma check_signature_packed:
  assumes "t_flags t = (if flagged then 1 else 0)"
    and "pm_signature_algorithm parsed = (if flagged then ascii ''ed25519'' else [])"
    and "flagged \<longrightarrow> verify_detached c (t_signature t) (make_signed_prefix (t_flags t) (t_manifest_offset t)
        (t_manifest_size t) (t_payload_offset t) (t_payload_size t) @ manifest @ payload) (t_signer t) \<and>
      (pm_public_key parsed = [] \<or> base64_decode c (pm_public_key parsed) = Some (t_signer t))"
    and "\<not> signature_verified b"
  shows "\<exists>b'. check_signature c t payload manifest parsed b = (b', True) \<and>
    signed_archive b' = flagged \<and> signature_verified b' = flagged"
proof -
  have "lower_ascii (ascii ''ed25519'') = ascii ''ed25519''"
    by (simp add: ascii_def tolower_def lower_ascii_def)
  then show ?thesis using assms by (auto simp: check_signature_def Let_def)
qed

lemma pack_open:
  assumes pack: "pack_bytes c z fs p inputs meta opts = Inr bs" and cur: "files fs p = Some current"
    and stored: "files fs' p = Some (current @ bs)"
    and ext: "zstd_ok z" "crypto_ok c" and keys: "keys_agree c meta opts"
    and font: "list_all font_ok (meta_fonts meta)"
    and raw: "gather fs inputs [] [] = Inr (raw, entries)" "length raw \<le> cap"
    and sizes: "length (current @ bs) \<le> cap" "cap < 2 ^ 64"
  shows "\<exists>b. bundle_open cap c z fs' p = Done b \<and> presents fs' b raw entries \<and>
    signed_archive b = sign opts \<and> signature_verified b = sign opts \<and> fonts b = manifest_fonts meta"
proof -
  obtain payload codec where z: "compress_payload z raw (compress opts) = Some (payload, codec)"
    and sl: "seal c meta opts (encode (Map (manifest_map c meta opts payload codec entries))) (length current) payload = Inr bs"
    using pack_bytes_parts[OF pack] raw(1) cur by (metis Pair_inject option.inject sum.inject(2))
  define mb where "mb = encode (Map (manifest_map c meta opts payload codec entries))"
  let ?fl = "if sign opts then 1 else 0"
  let ?hdr = "make_signed_prefix ?fl (length current + length payload) (length mb) (length current) (length payload)"
  obtain sg pk where bs: "bs = payload @ mb @ ?hdr @ sg @ pk" "length sg = 64" "length pk = 32"
    and sig: "sign opts \<longrightarrow> verify_detached c sg (?hdr @ mb @ payload) pk \<and>
       (manifest_public_key meta opts = [] \<or> base64_decode c (manifest_public_key meta opts) = Some pk)"
    using seal_shape[OF sl[folded mb_def] ext(2) keys refl] by metis
  define t where "t = \<lparr>t_flags = ?fl, t_manifest_offset = length current + length payload,
    t_manifest_size = length mb, t_payload_offset = length current, t_payload_size = length payload,
    t_signature = sg, t_signer = pk\<rparr>"
  have t: "read_trailer (current @ bs) = Some t"
    unfolding t_def using sizes bs by (intro read_trailer_written) simp_all
  have within: "list_all (\<lambda>e. within (length raw) (snd e)) entries"
    using cuts_out_within[OF gather_entries[OF raw(1)]] .
  then have "\<forall>e \<in> set entries. entry_offset (snd e) < 2 ^ 64 \<and> entry_size (snd e) < 2 ^ 64"
    using raw(2) sizes(2) by (fastforce simp: list_all_iff within_def)
  moreover have "codec = ascii ''none'' \<or> codec = ascii ''zstd''"
    using z by (auto simp: compress_payload_def split: if_splits)
  moreover have "length mb \<le> cap" using sizes(1) bs(1) by simp
  ultimately have parsed: "parse_manifest cap mb = Done \<lparr>pm_compression = codec,
      pm_payload_sha256 = sha256_hex c payload, pm_public_key = manifest_public_key meta opts,
      pm_signature_algorithm = (if sign opts then ascii ''ed25519'' else []),
      pm_entries = entries, pm_fonts = manifest_fonts meta\<rparr>" (is "_ = Done ?pm")
    using parse_packed_manifest[OF _ sizes(2)] parse_fields_manifest[OF font] by (simp add: mb_def)
  let ?b = "(empty_bundle p)\<lparr>payload_offset := length current, compression := codec,
    payload_sha256 := sha256_hex c payload, fonts := manifest_fonts meta\<rparr>"
  obtain b' where chk: "check_signature c t payload mb ?pm ?b = (b', True)"
    "signed_archive b' = sign opts" "signature_verified b' = sign opts"
    using check_signature_packed[of t "sign opts" ?pm c mb payload ?b] sig
    by (auto simp: t_def empty_bundle_def)
  note keep = check_signature_keeps[OF chk(1)]
  have "\<exists>b. finish_open cap z payload ?pm b' = Done b \<and> presents fs' b raw (pm_entries ?pm)"
    by (rule finish_open_presents[where pre = current and rest = "mb @ ?hdr @ sg @ pk"])
      (use z ext raw(2) within keep stored bs(1) in \<open>simp_all add: empty_bundle_def\<close>)
  then obtain b where fin: "finish_open cap z payload ?pm b' = Done b" "presents fs' b raw entries"
    by auto
  have "bundle_open cap c z fs' p = Done b"
    using stored t parsed chk(1) fin(1) bs(1) by (simp add: bundle_open_def t_def)
  then show ?thesis
    using fin(2) finish_open_keeps[OF fin(1)] chk keep by (auto simp: empty_bundle_def)
qed

text \<open>Entries of a valid bundle.\<close>

lemma opened_entry:
  assumes "opened cap c z p b f t parsed b'" and "valid b" and "length f < 2 ^ 64"
    and "map_of (index b) name = Some e"
  shows "payload_offset b = t_payload_offset t" "path b = p"
    "within (if compression b = ascii ''zstd'' then length (decompressed_payload b) else t_payload_size t) e"
proof -
  let ?pl = "take (t_payload_size t) (drop (t_payload_offset t) f)"
  obtain mf where t: "read_trailer f = Some t" and chk: "check_signature c t ?pl mf parsed
      ((empty_bundle p)\<lparr>payload_offset := t_payload_offset t, compression := pm_compression parsed,
         payload_sha256 := pm_payload_sha256 parsed, fonts := pm_fonts parsed\<rparr>) = (b', True)"
    and fin: "finish_open cap z ?pl parsed b' = Done b"
    using assms(1) unfolding opened_def Let_def by blast
  note keep = check_signature_keeps[OF chk] finish_open_keeps[OF fin]
  then show "payload_offset b = t_payload_offset t" "path b = p" by (simp_all add: empty_bundle_def)
  have "index b' = []" "names b' = []" "\<not> valid b'" using keep by (simp_all add: empty_bundle_def)
  from finish_open_index[OF fin assms(2) this(3,1,2)] assms(4) map_of_SomeD
  have "within (if compression b' = ascii ''zstd'' then length (decompressed_payload b) else length ?pl) e"
    by (force simp: list_all_iff)
  moreover have "length ?pl = t_payload_size t" using read_trailer_tiles[OF t assms(3)] by simp
  ultimately show "within (if compression b = ascii ''zstd'' then length (decompressed_payload b) else t_payload_size t) e"
    unfolding keep(10) by (simp only:)
qed

text \<open>What a valid bundle reads are pieces of its payload region, which is decompressed when the manifest says so.\<close>

lemma opened_presents:
  fixes f :: bytes
  assumes "opened cap c z p b f t parsed b'" and "valid b" and "length f < 2 ^ 64" "files fs p = Some f"
  defines "payload \<equiv> take (t_payload_size t) (drop (t_payload_offset t) f)"
  shows "\<exists>raw. (if pm_compression parsed = ascii ''zstd'' then decompress_payload cap z payload = Done raw
      else raw = payload) \<and> presents fs b raw (pm_entries parsed)"
proof -
  obtain mf where t: "read_trailer f = Some t" and chk: "check_signature c t payload mf parsed
      ((empty_bundle p)\<lparr>payload_offset := t_payload_offset t, compression := pm_compression parsed,
         payload_sha256 := pm_payload_sha256 parsed, fonts := pm_fonts parsed\<rparr>) = (b', True)"
    and fin: "finish_open cap z payload parsed b' = Done b"
    using assms(1) unfolding opened_def Let_def payload_def by blast
  note keep = check_signature_keeps[OF chk]
  have b': "compression b' = pm_compression parsed" "index b' = []" "names b' = []" "\<not> valid b'" "path b' = p"
    "payload_offset b' = t_payload_offset t"
    using keep by (simp_all add: empty_bundle_def)
  note tiles = read_trailer_tiles[OF t assms(3)]
  have f: "files fs (path b') = Some (take (t_payload_offset t) f @ payload @ drop (t_manifest_offset t) f)"
    using assms(4) b'(5) tiles(1) unfolding payload_def
    by (metis add.commute append_take_drop_id drop_drop)
  have off: "payload_offset b' = length (take (t_payload_offset t) f)" using b'(6) tiles by simp
  show ?thesis
  proof (cases "pm_compression parsed = ascii ''zstd''")
    case True
    then obtain raw where raw: "decompress_payload cap z payload = Done raw"
      "b = index_entries (length raw) (pm_entries parsed) (b'\<lparr>decompressed_payload := raw\<rparr>)"
      using fin b'(1,4) assms(2) by (auto simp: finish_open_def split: outcome.splits)
    have w: "list_all (\<lambda>e. within (length raw) (snd e)) (pm_entries parsed)"
      using index_entries_valid[of "length raw" "pm_entries parsed"] assms(2) b'(4) raw(2) by simp
    show ?thesis using presents_zstd[OF w _ b'(2,3)] True b'(1) raw by auto
  next
    case False
    then have b: "compression b' = ascii ''none''" "b = index_entries (length payload) (pm_entries parsed) b'"
      using fin b'(1,4) assms(2) by (auto simp: finish_open_def split: if_splits)
    have w: "list_all (\<lambda>e. within (length payload) (snd e)) (pm_entries parsed)"
      using index_entries_valid[of "length payload" "pm_entries parsed"] assms(2) b'(4) b(2) by simp
    show ?thesis using presents_none[OF w b(1) b'(2,3) f off] False b(2) by auto
  qed
qed

lemma gather_length:
  "gather fs inputs raw entries = Inr (raw', entries') \<Longrightarrow>
   length raw' = length raw + sum_list (map (\<lambda>i. length (the (files fs (fst i)))) inputs)"
  by (induction fs inputs raw entries rule: gather.induct) (auto split: option.splits)

section \<open>A sample archive\<close>

text \<open>Stand-ins for the libraries that keep their promises, and a small signed archive of two
  files; the witnesses below are evaluated on it.\<close>

definition sample_crypto :: crypto where
  "sample_crypto = \<lparr>sha256 = (\<lambda>bs. [17]), base642bin = (\<lambda>s. Some (s, length s)),
     sk_to_pk = (\<lambda>sk. Some (replicate 32 (hd sk))), sign_detached = (\<lambda>m sk. Some (replicate 63 (hd sk) @ [last m])),
     verify_detached = (\<lambda>sg m pk. hd sg = hd pk \<and> last sg = last m)\<rparr>"

definition sample_zstd :: zstd where
  "sample_zstd = \<lparr>has_zstd = False, zstd_compress = (\<lambda>_. None), zstd_content_size = (\<lambda>_. None),
     zstd_decompress = (\<lambda>_ _. None)\<rparr>"

definition sample_fs :: file_system where
  "sample_fs = \<lparr>files = [[1] \<mapsto> [9, 9], [2] \<mapsto> [5, 6, 7], [3] \<mapsto> [8]], can_append = (\<lambda>_. True),
     written = (\<lambda>bs. (bs, True))\<rparr>"

definition sample_meta :: manifest_metadata where
  "sample_meta = \<lparr>app_name = [], version = [], entry_point = [], created_at = [], meta_compression = [],
     update_url = [], public_key = [], channel = [], signer_secret_key_b64 = [], signer_public_key_b64 = [],
     meta_fonts = [\<lparr>family = [102], virtual_path = [97], weight = 400, style = [78]\<rparr>]\<rparr>"

definition sample_opts :: pack_options where
  "sample_opts = \<lparr>sign = True, secret_key_b64 = replicate 64 4, public_key_b64 = [], compress = True\<rparr>"

definition sample_inputs :: "(bytes \<times> bytes) list" where
  "sample_inputs = [([2], [97]), ([3], [98])]"

lemmas sample_defs = sample_crypto_def sample_zstd_def sample_fs_def sample_meta_def sample_opts_def
  sample_inputs_def

lemma sample_laws:
  "zstd_ok sample_zstd" "crypto_ok sample_crypto" "keys_agree sample_crypto sample_meta sample_opts"
  "list_all font_ok (meta_fonts sample_meta)" "written sample_fs bs = (bs, True)"
  by (simp_all add: zstd_ok_def crypto_ok_def keys_agree_def manifest_public_key_def font_ok_def sample_defs)

lemma sample_packs:
  "\<exists>fs' f. pack_files sample_crypto sample_zstd sample_fs [1] sample_inputs sample_meta sample_opts = (None, fs') \<and>
     files fs' [1] = Some f \<and> length f \<le> 1000"
proof -
  have "fst (pack_files sample_crypto sample_zstd sample_fs [1] sample_inputs sample_meta sample_opts) = None"
    by code_simp
  moreover have "case files (snd (pack_files sample_crypto sample_zstd sample_fs [1] sample_inputs sample_meta sample_opts)) [1] of
      None \<Rightarrow> False | Some f \<Rightarrow> length f \<le> 1000"
    by code_simp
  ultimately show ?thesis
    by (cases "pack_files sample_crypto sample_zstd sample_fs [1] sample_inputs sample_meta sample_opts")
      (auto split: option.splits)
qed

lemma sample_opened:
  "\<exists>fs' b f. bundle_open 1000 sample_crypto sample_zstd fs' [1] = Done b \<and> valid b \<and> signature_verified b \<and>
     files fs' [1] = Some f \<and> length f < 2 ^ 64 \<and> bundle_read fs' b [97] = Some [5, 6, 7] \<and>
     signed_archive b \<and> fonts b = manifest_fonts sample_meta"
proof -
  obtain fs' f where p: "pack_files sample_crypto sample_zstd sample_fs [1] sample_inputs sample_meta sample_opts = (None, fs')"
    "files fs' [1] = Some f" "length f \<le> 1000"
    using sample_packs by blast
  obtain bs where bs: "pack_bytes sample_crypto sample_zstd sample_fs [1] sample_inputs sample_meta sample_opts = Inr bs"
    "files fs' [1] = Some ([9, 9] @ bs)"
    using p(1) by (auto simp: pack_files_def Let_def sample_laws(5) split: sum.splits if_splits)
      (simp add: sample_fs_def)
  have cur: "files sample_fs [1] = Some [9, 9]" by (simp add: sample_fs_def)
  have raw: "gather sample_fs sample_inputs [] [] =
      Inr ([5, 6, 7, 8], [([97], \<lparr>entry_offset = 0, entry_size = 3\<rparr>), ([98], \<lparr>entry_offset = 3, entry_size = 1\<rparr>)])"
    by (simp add: sample_defs)
  from pack_open[OF bs(1) cur bs(2) sample_laws(1-4) raw, of 1000] p(2,3) bs(2)
  obtain b where "bundle_open 1000 sample_crypto sample_zstd fs' [1] = Done b" "signature_verified b"
    "signed_archive b" "fonts b = manifest_fonts sample_meta"
    "presents fs' b [5, 6, 7, 8] [([97], \<lparr>entry_offset = 0, entry_size = 3\<rparr>), ([98], \<lparr>entry_offset = 3, entry_size = 1\<rparr>)]"
    by (auto simp: sample_opts_def)
  then show ?thesis
    using p(2,3) by (intro exI[of _ fs'] exI[of _ b] exI[of _ f]) (simp add: presents_def cut_def)
qed

section \<open>Properties\<close>

text \<open>
  The regions an accepted trailer announces tile the file: the payload ends where the
  manifest starts and the manifest where the trailer starts, although the checks add in 64 bits.\<close>

theorem fxa_regions_tile:
  assumes "read_trailer f = Some t" and "length f < 2 ^ 64"
  shows "f = take (t_payload_offset t) f @ take (t_payload_size t) (drop (t_payload_offset t) f) @
      take (t_manifest_size t) (drop (t_manifest_offset t) f) @ drop (length f - k_trailer_size) f \<and>
    t_payload_offset t + t_payload_size t = t_manifest_offset t \<and>
    t_manifest_offset t + t_manifest_size t + k_trailer_size = length f"
  using split_file[OF read_trailer_tiles[OF assms]] read_trailer_tiles[OF assms] by blast

theorem fxa_regions_tile_witness:
  "\<exists>t. read_trailer ([1, 2, 3] @ make_signed_prefix 0 2 1 0 2 @ replicate 96 0) = Some t \<and>
     t_payload_offset t + t_payload_size t = t_manifest_offset t"
proof -
  let ?f = "[] @ [1, 2] @ [3] @ make_signed_prefix 0 (length ([] :: bytes) + length [1, 2 :: u8]) (length [3 :: u8])
    (length ([] :: bytes)) (length [1, 2 :: u8]) @ replicate 64 0 @ replicate 32 0"
  have "read_trailer ?f \<noteq> None"
    by (subst read_trailer_written[OF refl]) simp_all
  then obtain t where "read_trailer ?f = Some t" by blast
  moreover have "?f = [1, 2, 3] @ make_signed_prefix 0 2 1 0 2 @ replicate 96 0"
    by (simp add: replicate_add[symmetric] numeral_2_eq_2)
  ultimately have t: "read_trailer ([1, 2, 3] @ make_signed_prefix 0 2 1 0 2 @ replicate 96 0) = Some t" by simp
  then show ?thesis using fxa_regions_tile[OF t] by simp
qed

text \<open>C4: A verified signature covers everything of the archive. The message it was checked against
  is the trailer up to the signature, the manifest and the payload, whole, as the regions that the
  trailer announces hold them, and the key and the signature are those of the trailer: nothing of the file
  from the start of the payload on is left out. The index is parsed from that manifest, and what a valid
  bundle reads are pieces of that payload, or of its decompression.\<close>

theorem fxa_signature_covers:
  assumes "bundle_open cap c z fs p = Done b" and "signature_verified b"
    and "files fs p = Some f" and "length f < 2 ^ 64"
  shows "\<exists>t parsed payload manifest hdr. read_trailer f = Some t \<and>
    payload = take (t_payload_size t) (drop (t_payload_offset t) f) \<and> length payload = t_payload_size t \<and>
    manifest = take (t_manifest_size t) (drop (t_manifest_offset t) f) \<and> length manifest = t_manifest_size t \<and>
    f = take (t_payload_offset t) f @ payload @ manifest @ hdr @ t_signature t @ t_signer t \<and>
    length hdr = 48 \<and> length (t_signature t) = 64 \<and> length (t_signer t) = 32 \<and>
    verify_detached c (t_signature t) (hdr @ manifest @ payload) (t_signer t) \<and> signer_pubkey b = t_signer t \<and>
    parse_manifest cap manifest = Done parsed \<and>
    (valid b \<longrightarrow> (\<exists>raw. (if pm_compression parsed = ascii ''zstd'' then decompress_payload cap z payload = Done raw
        else raw = payload) \<and>
      (\<forall>name. bundle_read fs b name = map_option (cut raw) (map_of (pm_entries parsed) name))))"
proof -
  obtain t parsed b' where o: "opened cap c z p b f t parsed b'"
    using bundle_open_stages[OF assms(1)] assms(2,3) by auto
  note t = o[unfolded opened_def, THEN conjunct1]
  note tiles = read_trailer_tiles[OF t assms(4)]
  let ?pl = "take (t_payload_size t) (drop (t_payload_offset t) f)"
  let ?mf = "take (t_manifest_size t) (drop (t_manifest_offset t) f)"
  let ?t = "drop (length f - k_trailer_size) f"
  have check: "check_signature c t ?pl ?mf parsed
      ((empty_bundle p)\<lparr>payload_offset := t_payload_offset t, compression := pm_compression parsed,
         payload_sha256 := pm_payload_sha256 parsed, fonts := pm_fonts parsed\<rparr>) = (b', True)"
    and fin: "finish_open cap z ?pl parsed b' = Done b" and mf: "parse_manifest cap ?mf = Done parsed"
    using o unfolding opened_def Let_def tiles(1) by blast+
  have "signature_verified b'" using finish_open_keeps[OF fin] assms(2) by simp
  then have ver: "verify_detached c (t_signature t) (make_signed_prefix (t_flags t) (t_manifest_offset t)
      (t_manifest_size t) (t_payload_offset t) (t_payload_size t) @ ?mf @ ?pl) (t_signer t)"
    and pk: "signer_pubkey b = t_signer t"
    using check finish_open_keeps(6)[OF fin]
    by (auto simp: check_signature_def Let_def empty_bundle_def split: if_splits)
  have len: "length ?t = 144" using read_trailer_SomeD(1)[OF t] by (simp add: k_trailer_size_def)
  have sg: "t_signature t = take 64 (drop 48 ?t)" "t_signer t = take 32 (drop 112 ?t)"
    by (simp_all only: read_trailer_fields(3)[OF t refl] trailer.simps)
  have f: "f = take (t_payload_offset t) f @ ?pl @ ?mf @ (take 48 ?t @ t_signature t @ t_signer t)"
    unfolding sg by (rule trans[OF split_file[OF tiles] arg_cong[OF split_trailer[OF len],
        of "\<lambda>x. take (t_payload_offset t) f @ ?pl @ ?mf @ x"]])
  have lens: "length (take 48 ?t) = 48" "length (t_signature t) = 64" "length (t_signer t) = 32"
    using len unfolding sg by simp_all
  have "length ?pl = t_payload_size t" "length ?mf = t_manifest_size t" using tiles by simp_all
  moreover have "verify_detached c (t_signature t) (take 48 ?t @ ?mf @ ?pl) (t_signer t)"
    using ver unfolding prefix_of_trailer[OF t assms(4)] .
  moreover have "valid b \<longrightarrow> (\<exists>raw. (if pm_compression parsed = ascii ''zstd'' then decompress_payload cap z ?pl = Done raw
      else raw = ?pl) \<and> (\<forall>name. bundle_read fs b name = map_option (cut raw) (map_of (pm_entries parsed) name)))"
    using opened_presents[OF o _ assms(4,3)] unfolding presents_def by blast
  ultimately show ?thesis using t f lens pk mf by blast
qed

theorem fxa_signature_covers_witness:
  "\<exists>fs' b f t manifest payload hdr. bundle_open 1000 sample_crypto sample_zstd fs' [1] = Done b \<and> signature_verified b \<and>
     files fs' [1] = Some f \<and> read_trailer f = Some t \<and>
     payload = take (t_payload_size t) (drop (t_payload_offset t) f) \<and> (\<exists>i. take 3 (drop i payload) = [5, 6, 7]) \<and>
     f = take (t_payload_offset t) f @ payload @ manifest @ hdr @ t_signature t @ t_signer t \<and>
     hd (t_signature t) = hd (t_signer t) \<and> last (t_signature t) = last payload"
proof -
  obtain fs' b f where s: "bundle_open 1000 sample_crypto sample_zstd fs' [1] = Done b" "signature_verified b"
    "files fs' [1] = Some f" "length f < 2 ^ 64" and v: "valid b" "bundle_read fs' b [97] = Some [5, 6, 7]"
    using sample_opened by auto
  from fxa_signature_covers[OF s] obtain t parsed payload manifest hdr where w: "read_trailer f = Some t"
      "payload = take (t_payload_size t) (drop (t_payload_offset t) f)"
      "f = take (t_payload_offset t) f @ payload @ manifest @ hdr @ t_signature t @ t_signer t"
      "verify_detached sample_crypto (t_signature t) (hdr @ manifest @ payload) (t_signer t)"
      "parse_manifest 1000 manifest = Done parsed"
    and r: "valid b \<longrightarrow> (\<exists>raw. (if pm_compression parsed = ascii ''zstd''
          then decompress_payload 1000 sample_zstd payload = Done raw else raw = payload) \<and>
        (\<forall>name. bundle_read fs' b name = map_option (cut raw) (map_of (pm_entries parsed) name)))"
    by blast
  have "decompress_payload 1000 sample_zstd payload \<noteq> Done raw" for raw
    by (simp add: decompress_payload_def sample_zstd_def)
  then have "bundle_read fs' b [97] = map_option (cut payload) (map_of (pm_entries parsed) [97])"
    using r v(1) by (auto split: if_splits)
  then obtain e where e: "cut payload e = [5, 6, 7]"
    using v(2) by (cases "map_of (pm_entries parsed) [97]") auto
  then have "take 3 (take (entry_size e) (drop (entry_offset e) payload)) = [5, 6, 7]" "payload \<noteq> []"
    by (auto simp: cut_def)
  moreover have "3 \<le> entry_size e" using arg_cong[OF e, of length] by (simp add: cut_def)
  ultimately have "take 3 (drop (entry_offset e) payload) = [5, 6, 7]" by (simp add: min_def)
  moreover have "hd (t_signature t) = hd (t_signer t) \<and> last (t_signature t) = last payload"
    using w(4) \<open>payload \<noteq> []\<close> by (simp add: sample_crypto_def)
  ultimately show ?thesis using s(1-3) w(1-3) by blast
qed

text \<open>
  In a valid bundle every indexed entry lies inside the payload, so reading it succeeds and
  returns as many bytes as the index says, none of them from the manifest or the trailer.\<close>

theorem fxa_entries_in_bounds:
  assumes "bundle_open cap c z fs p = Done b" and "valid b" and "files fs p = Some f" "length f < 2 ^ 64"
    and "map_of (index b) name = Some e"
  shows "(\<exists>body. bundle_read fs b name = Some body \<and> length body = entry_size e) \<and>
    (compression b = ascii ''zstd'' \<or> payload_offset b + entry_offset e + entry_size e + k_trailer_size \<le> length f)"
proof -
  obtain t parsed b' where o: "opened cap c z p b f t parsed b'"
    using bundle_open_stages[OF assms(1)] assms(2,3) by auto
  note e = opened_entry[OF o assms(2,4,5)]
  have "read_trailer f = Some t" using o by (simp add: opened_def)
  from read_trailer_tiles[OF this assms(4)]
  have len: "t_payload_offset t + t_payload_size t + k_trailer_size \<le> length f" by linarith
  show ?thesis
  proof (cases "compression b = ascii ''zstd''")
    case True
    then show ?thesis using e assms(2,5) by (simp add: bundle_read_def within_def)
  next
    case False
    then have "payload_offset b + entry_offset e + entry_size e + k_trailer_size \<le> length f"
      using e len by (simp add: within_def)
    with False show ?thesis using e assms(2,3,5) by (auto simp: bundle_read_def Let_def)
  qed
qed

theorem fxa_entries_in_bounds_witness:
  "\<exists>fs' b e body. bundle_open 1000 sample_crypto sample_zstd fs' [1] = Done b \<and>
     map_of (index b) [97] = Some e \<and> bundle_read fs' b [97] = Some body \<and> length body = entry_size e"
proof -
  obtain fs' b f where s: "bundle_open 1000 sample_crypto sample_zstd fs' [1] = Done b" "valid b"
    "files fs' [1] = Some f" "length f < 2 ^ 64" and r: "bundle_read fs' b [97] \<noteq> None"
    using sample_opened by auto
  then obtain e where e: "map_of (index b) [97] = Some e"
    by (auto simp: bundle_read_def split: option.splits)
  from fxa_entries_in_bounds[OF s e] show ?thesis using s(1) e by auto
qed

text \<open>C33: Packing files into a binary and opening the result gives the files back: the bundle is
  valid, lists the archive names in order, reads every name as the contents of the first file
  packed under it, carries the fonts, and is signed and verified exactly when signing was asked
  for, with or without compression.\<close>

theorem fxa_pack_open_read:
  assumes "pack_files c z fs p inputs meta opts = (None, fs')"
    and "\<And>bs. written fs bs = (bs, True)"
    and "zstd_ok z" and "crypto_ok c" and "keys_agree c meta opts" and "list_all font_ok (meta_fonts meta)"
    and "files fs' p = Some f" "length f \<le> cap" "cap < 2 ^ 64"
    and "sum_list (map (\<lambda>i. length (the (files fs (fst i)))) inputs) \<le> cap"
  shows "\<exists>b. bundle_open cap c z fs' p = Done b \<and> valid b \<and> bundle_list b = map snd inputs \<and>
    (\<forall>name. bundle_read fs' b name = packed_file fs inputs name) \<and>
    signed_archive b = sign opts \<and> signature_verified b = sign opts \<and> fonts b = manifest_fonts meta"
proof -
  obtain bs where bs: "pack_bytes c z fs p inputs meta opts = Inr bs"
    and fs': "files fs' = (files fs)(p \<mapsto> (case files fs p of None \<Rightarrow> [] | Some x \<Rightarrow> x) @ bs)"
    using assms(1,2) by (auto simp: pack_files_def Let_def split: sum.splits if_splits)
  obtain raw entries payload codec current where raw: "gather fs inputs [] [] = Inr (raw, entries)"
    and cur: "files fs p = Some current"
    using pack_bytes_parts[OF bs] by metis
  have f: "files fs' p = Some (current @ bs)" "f = current @ bs" using fs' cur assms(7) by simp_all
  have "length raw \<le> cap" using gather_length[OF raw] assms(10) by simp
  from pack_open[OF bs cur f(1) assms(3-6) raw this] assms(8,9) f(2)
  obtain b where b: "bundle_open cap c z fs' p = Done b" "presents fs' b raw entries"
    "signed_archive b = sign opts" "signature_verified b = sign opts" "fonts b = manifest_fonts meta"
    by blast
  note l = gather_entries[OF raw]
  show ?thesis
    using b packed_file_cut[OF l] cuts_out_names[OF l] by (intro exI[of _ b]) (simp add: presents_def bundle_list_def)
qed

lemma sample_input_size: "sum_list (map (\<lambda>i. length (the (files sample_fs (fst i)))) sample_inputs) = 4"
  by (simp add: sample_defs)

theorem fxa_pack_open_read_witness:
  "\<exists>fs' b. pack_files sample_crypto sample_zstd sample_fs [1] sample_inputs sample_meta sample_opts = (None, fs') \<and>
     bundle_open 1000 sample_crypto sample_zstd fs' [1] = Done b \<and> signature_verified b \<and>
     bundle_list b = [[97], [98]] \<and> bundle_read fs' b [97] = Some [5, 6, 7] \<and> bundle_read fs' b [99] = None"
proof -
  obtain fs' f where p: "pack_files sample_crypto sample_zstd sample_fs [1] sample_inputs sample_meta sample_opts = (None, fs')"
    "files fs' [1] = Some f" "length f \<le> 1000"
    using sample_packs by blast
  obtain b where b: "bundle_open 1000 sample_crypto sample_zstd fs' [1] = Done b"
    "bundle_list b = map snd sample_inputs" "\<forall>name. bundle_read fs' b name = packed_file sample_fs sample_inputs name"
    "signature_verified b = sign sample_opts"
    using fxa_pack_open_read[OF p(1) sample_laws(5,1-4) p(2,3)] sample_input_size by auto
  have "packed_file sample_fs sample_inputs [97] = Some [5, 6, 7]" "packed_file sample_fs sample_inputs [99] = None"
    "map snd sample_inputs = [[97], [98]]" "sign sample_opts"
    by (simp_all add: sample_defs)
  with p b show ?thesis by auto
qed

text \<open>The payload hash that the packer stores in the manifest is never checked: what opening a
  bundle yields does not depend on the hash function.\<close>

theorem fxa_open_ignores_payload_hash:
  "bundle_open cap (c\<lparr>sha256 := h\<rparr>) z fs p = bundle_open cap c z fs p"
proof -
  have "base64_decode (c\<lparr>sha256 := h\<rparr>) = base64_decode c" by (rule ext) (simp add: base64_decode_def)
  then have eq: "check_signature (c\<lparr>sha256 := h\<rparr>) = check_signature c"
    by (intro ext) (simp add: check_signature_def Let_def)
  show ?thesis unfolding bundle_open_def eq by (rule refl)
qed

end
