(* ===== verification/Bundle_Loader.thy ===== *)
theory Bundle_Loader
  imports Fxa_Correct
begin

text \<open>
  The process-wide bundle of \<^verbatim>\<open>src/runtime/bundle_loader.cpp\<close>: mounting the archive behind the
  executable once, the signature policy, name resolution and the choice of a bundled font with its
  byte cache. The globals are the record \<open>loader\<close>; the process environment, the build mode and the
  standard library's path resolution are the record \<open>host\<close>. The operations are put together as a
  step relation, and its reachable states are shown to honour the policy.
\<close>

section \<open>Definitions\<close>

record host =
  ndebug :: bool
  allow_unsigned_var :: "bytes option"
  is_relative :: "bytes \<Rightarrow> bool"
  weakly_canonical :: "bytes \<Rightarrow> bytes option"
  alloc_limit :: nat
  host_crypto :: crypto
  host_zstd :: zstd
  host_fs :: file_system

record loader =
  once_done :: bool
  g_bundle :: "fxa_bundle option"
  g_entry :: bytes
  g_signature_verified :: bool
  g_fonts :: "bundled_font list"
  g_font_bytes :: "(bytes \<times> bytes) list"

definition initial_loader :: loader where
  "initial_loader = \<lparr>once_done = False, g_bundle = None, g_entry = [], g_signature_verified = False,
     g_fonts = [], g_font_bytes = []\<rparr>"

definition normalize :: "bytes \<Rightarrow> bytes" where
  "normalize name = (if take 2 name = ascii ''./'' then drop 2 name else name)"

definition allow_unsigned_override :: "host \<Rightarrow> bool" where
  "allow_unsigned_override h \<longleftrightarrow> allow_unsigned_var h = Some (ascii ''1'')"

definition matches_ci :: "bytes \<Rightarrow> bytes \<Rightarrow> bool" where
  "matches_ci lhs rhs \<longleftrightarrow> lower_ascii lhs = lower_ascii rhs"

definition weight_distance :: "u32 \<Rightarrow> u32 \<Rightarrow> u32" where
  "weight_distance lhs rhs = (if lhs \<ge> rhs then lhs - rhs else rhs - lhs)"

definition resolve_argv0 :: "host \<Rightarrow> bytes \<Rightarrow> bytes" where
  "resolve_argv0 h p =
     (if is_relative h p
      then case weakly_canonical h p of
             Some a \<Rightarrow> if a \<noteq> [] then a else p
           | None \<Rightarrow> p
      else p)"

text \<open>Which bundles the policy lets in.\<close>

definition policy_admits :: "host \<Rightarrow> fxa_bundle \<Rightarrow> bool" where
  "policy_admits h b \<longleftrightarrow>
     (let allow_override = allow_unsigned_override h;
          needs_override = (\<not> signed_archive b \<or> \<not> signature_verified b);
          allow_unsigned = (if ndebug h then allow_override else \<not> signed_archive b \<or> allow_override)
      in \<not> (needs_override \<and> \<not> allow_unsigned))"

definition find_entry :: "host \<Rightarrow> fxa_bundle \<Rightarrow> bytes \<Rightarrow> bytes" where
  "find_entry h b old =
     (case bundle_read (host_fs h) b (ascii ''__entry__'') of
        Some e \<Rightarrow> e
      | None \<Rightarrow>
          if bundle_read (host_fs h) b (ascii ''main.ts'') \<noteq> None then ascii ''main.ts''
          else if bundle_read (host_fs h) b (ascii ''main.js'') \<noteq> None then ascii ''main.js''
          else old)"

text \<open>The callable of \<^verbatim>\<open>call_once\<close>. When it throws, the once flag stays unset and nothing else changed.\<close>

definition mount_once :: "host \<Rightarrow> bytes \<Rightarrow> loader \<Rightarrow> loader \<times> bool outcome" where
  "mount_once h argv0 s =
     (case bundle_open (alloc_limit h) (host_crypto h) (host_zstd h) (host_fs h) (resolve_argv0 h argv0) of
        Done b \<Rightarrow>
          (let s = s\<lparr>once_done := True\<rparr>
           in if \<not> valid b \<or> \<not> policy_admits h b then (s, Done False)
              else (s\<lparr>g_signature_verified := signature_verified b, g_fonts := fonts b, g_font_bytes := [],
                      g_entry := find_entry h b (g_entry s), g_bundle := Some b\<rparr>, Done True))
      | _ \<Rightarrow> (s, Exception))"

definition mount_bundle_from_argv0 :: "host \<Rightarrow> bytes option \<Rightarrow> loader \<Rightarrow> loader \<times> bool outcome" where
  "mount_bundle_from_argv0 h argv0 s =
     (case argv0 of
        None \<Rightarrow> (s, Done False)
      | Some a \<Rightarrow>
          if once_done s then (s, Done (g_bundle s \<noteq> None))
          else (case mount_once h a s of
             (s', Done ok) \<Rightarrow> (s', Done (ok \<or> g_bundle s' \<noteq> None))
           | (s', r) \<Rightarrow> (s', r)))"

definition bundle_mounted :: "loader \<Rightarrow> bool" where
  "bundle_mounted s \<longleftrightarrow> g_bundle s \<noteq> None"

definition bundle_fonts :: "loader \<Rightarrow> bundled_font list" where
  "bundle_fonts s = (if g_bundle s = None then [] else g_fonts s)"

text \<open>The index behind the last slash.\<close>

fun after_last_slash :: "bytes \<Rightarrow> bytes option" where
  "after_last_slash [] = None"
| "after_last_slash (c # s) =
     (case after_last_slash s of
        Some t \<Rightarrow> Some t
      | None \<Rightarrow> if c = 47 then Some s else None)"

definition read_virtual :: "host \<Rightarrow> loader \<Rightarrow> bytes \<Rightarrow> bytes option" where
  "read_virtual h s name =
     (case g_bundle s of
        None \<Rightarrow> None
      | Some b \<Rightarrow>
          (case bundle_read (host_fs h) b name of
             Some v \<Rightarrow> Some v
           | None \<Rightarrow>
               (let n = normalize name
                in case (if n \<noteq> name then bundle_read (host_fs h) b n else None) of
                     Some v \<Rightarrow> Some v
                   | None \<Rightarrow>
                       (case after_last_slash n of
                          Some base \<Rightarrow> bundle_read (host_fs h) b base
                        | None \<Rightarrow> None))))"

definition list_virtual :: "loader \<Rightarrow> bytes list" where
  "list_virtual s = (case g_bundle s of None \<Rightarrow> [] | Some b \<Rightarrow> bundle_list b)"

text \<open>The first loop of \<^verbatim>\<open>resolve_bundled_font\<close>: the best font so far with its distance.\<close>

definition closer :: "bytes \<Rightarrow> u32 \<Rightarrow> (bundled_font \<times> u32) option \<Rightarrow> bundled_font \<Rightarrow> (bundled_font \<times> u32) option" where
  "closer fam w best f =
     (if \<not> matches_ci (family f) fam then best
      else let distance = weight_distance (weight f) w
           in case best of
                None \<Rightarrow> Some (f, distance)
              | Some (_, best_distance) \<Rightarrow> if distance < best_distance then Some (f, distance) else best)"

record font_choice =
  exact_style :: "bundled_font option"
  normal_style :: "bundled_font option"
  fallback :: "bundled_font option"

definition first_of :: "bool \<Rightarrow> bundled_font \<Rightarrow> bundled_font option \<Rightarrow> bundled_font option" where
  "first_of c f old = (if c \<and> old = None then Some f else old)"

text \<open>The second loop.\<close>

definition note_font :: "bytes \<Rightarrow> u32 \<Rightarrow> bytes \<Rightarrow> u32 \<Rightarrow> font_choice \<Rightarrow> bundled_font \<Rightarrow> font_choice" where
  "note_font fam w st best_distance ch f =
     (if \<not> matches_ci (family f) fam \<or> weight_distance (weight f) w \<noteq> best_distance then ch
      else \<lparr>exact_style = first_of (matches_ci (style f) st) f (exact_style ch),
            normal_style = first_of (matches_ci (style f) (ascii ''normal'')) f (normal_style ch),
            fallback = first_of True f (fallback ch)\<rparr>)"

definition pick_font :: "bundled_font list \<Rightarrow> bytes \<Rightarrow> u32 \<Rightarrow> bytes \<Rightarrow> bundled_font option" where
  "pick_font fs fam w st =
     (let family_lc = lower_ascii fam; style_lc = lower_ascii st
      in case foldl (closer family_lc w) None fs of
           None \<Rightarrow> None
         | Some (_, best_distance) \<Rightarrow>
             (let ch = foldl (note_font family_lc w style_lc best_distance)
                         \<lparr>exact_style = None, normal_style = None, fallback = None\<rparr> fs
              in case exact_style ch of
                   Some f \<Rightarrow> Some f
                 | None \<Rightarrow> (case normal_style ch of Some f \<Rightarrow> Some f | None \<Rightarrow> fallback ch)))"

definition resolve_bundled_font :: "host \<Rightarrow> bytes \<Rightarrow> u32 \<Rightarrow> bytes \<Rightarrow> loader \<Rightarrow> loader \<times> (bytes \<times> bytes) option" where
  "resolve_bundled_font h fam w st s =
     (case g_bundle s of
        None \<Rightarrow> (s, None)
      | Some b \<Rightarrow>
          (case pick_font (g_fonts s) fam w st of
             None \<Rightarrow> (s, None)
           | Some f \<Rightarrow>
               (case map_of (g_font_bytes s) (virtual_path f) of
                  Some stored \<Rightarrow> (s, Some (virtual_path f, stored))
                | None \<Rightarrow>
                    (case bundle_read (host_fs h) b (virtual_path f) of
                       None \<Rightarrow> (s, None)
                     | Some bs \<Rightarrow>
                         (s\<lparr>g_font_bytes := (virtual_path f, bs) # g_font_bytes s\<rparr>,
                          Some (virtual_path f, bs))))))"

section \<open>The loader as a state machine\<close>

inductive loader_step :: "host \<Rightarrow> loader \<Rightarrow> loader \<Rightarrow> bool" for h where
  mount: "mount_bundle_from_argv0 h argv0 s = (s', r) \<Longrightarrow> loader_step h s s'"
| resolve: "resolve_bundled_font h fam w st s = (s', r) \<Longrightarrow> loader_step h s s'"

inductive loader_reachable :: "host \<Rightarrow> loader \<Rightarrow> bool" for h where
  start: "loader_reachable h initial_loader"
| step: "loader_reachable h s \<Longrightarrow> loader_step h s s' \<Longrightarrow> loader_reachable h s'"

inductive_cases loader_stepE: "loader_step h s s'"

text \<open>What the policy asks of a mounted bundle.\<close>

definition trusted :: "host \<Rightarrow> fxa_bundle \<Rightarrow> bool" where
  "trusted h b \<longleftrightarrow> signature_verified b \<and> signed_archive b \<or> allow_unsigned_override h \<or>
     \<not> ndebug h \<and> \<not> signed_archive b"

definition loader_inv :: "host \<Rightarrow> loader \<Rightarrow> bool" where
  "loader_inv h s \<longleftrightarrow>
     (case g_bundle s of
        None \<Rightarrow> \<not> g_signature_verified s \<and> g_font_bytes s = []
      | Some b \<Rightarrow> once_done s \<and> valid b \<and> trusted h b \<and> g_signature_verified s = signature_verified b \<and>
          g_fonts s = fonts b \<and>
          list_all (\<lambda>(k, v). bundle_read (host_fs h) b k = Some v) (g_font_bytes s))"

lemma policy_admits_trusted: "policy_admits h b \<longleftrightarrow> trusted h b"
  by (auto simp: policy_admits_def trusted_def Let_def)

lemma mount_inv:
  assumes "loader_inv h s"
  shows "loader_inv h (fst (mount_bundle_from_argv0 h argv0 s))"
proof (cases "argv0 = None \<or> once_done s")
  case False
  then have "g_bundle s = None" using assms by (auto simp: loader_inv_def split: option.splits)
  then show ?thesis
    using False assms
    by (auto simp: mount_bundle_from_argv0_def mount_once_def loader_inv_def Let_def policy_admits_trusted
        split: option.splits outcome.splits if_splits)
qed (use assms in \<open>auto simp: mount_bundle_from_argv0_def split: option.splits\<close>)

lemma resolve_inv:
  assumes "loader_inv h s"
  shows "loader_inv h (fst (resolve_bundled_font h fam w st s))"
  using assms by (auto simp: resolve_bundled_font_def loader_inv_def split: option.splits)

lemma loader_step_inv: "loader_step h s s' \<Longrightarrow> loader_inv h s \<Longrightarrow> loader_inv h s'"
  by (erule loader_stepE) (metis fst_conv mount_inv, metis fst_conv resolve_inv)

lemma loader_reachable_inv: "loader_reachable h s \<Longrightarrow> loader_inv h s"
  by (induction rule: loader_reachable.induct)
    (simp add: loader_inv_def initial_loader_def, rule loader_step_inv)

section \<open>Choosing a font\<close>

text \<open>The fonts of the wanted family that are nearest in weight.\<close>

definition nearest :: "bundled_font list \<Rightarrow> bytes \<Rightarrow> u32 \<Rightarrow> bundled_font set" where
  "nearest fs fam w = {f \<in> set fs. matches_ci (family f) fam \<and>
     (\<forall>g \<in> set fs. matches_ci (family g) fam \<longrightarrow> weight_distance (weight f) w \<le> weight_distance (weight g) w)}"

lemma matches_ci_lower [simp]: "matches_ci x (lower_ascii y) \<longleftrightarrow> matches_ci x y"
  by (simp add: matches_ci_def)

lemma closer_simps:
  "closer fam w None g = (if matches_ci (family g) fam then Some (g, weight_distance (weight g) w) else None)"
  "closer fam w (Some (f, d)) g =
     (if matches_ci (family g) fam \<and> weight_distance (weight g) w < d
      then Some (g, weight_distance (weight g) w) else Some (f, d))"
  by (simp_all add: closer_def Let_def)

lemma foldl_closer:
  "case foldl (closer fam w) None fs of
     None \<Rightarrow> (\<forall>f \<in> set fs. \<not> matches_ci (family f) fam)
   | Some (f, d) \<Rightarrow> f \<in> nearest fs fam w \<and> d = weight_distance (weight f) w"
proof (induction fs rule: rev_induct)
  case (snoc g fs)
  show ?case
  proof (cases "foldl (closer fam w) None fs")
    case None
    with snoc show ?thesis by (auto simp: closer_simps nearest_def Let_def)
  next
    case (Some fd)
    obtain f d where fd: "fd = (f, d)" by (cases fd)
    have f: "f \<in> nearest fs fam w" "d = weight_distance (weight f) w" using snoc Some fd by simp_all
    show ?thesis
    proof (cases "matches_ci (family g) fam \<and> weight_distance (weight g) w < d")
      case True
      with f Some fd show ?thesis
        by (auto simp: closer_simps nearest_def Let_def)
    next
      case False
      with f Some fd show ?thesis
        by (auto simp: closer_simps nearest_def not_less Let_def)
    qed
  qed
qed simp

lemma find_snoc: "find P (xs @ [x]) = (case find P xs of Some y \<Rightarrow> Some y | None \<Rightarrow> if P x then Some x else None)"
  by (induction xs) simp_all

lemma foldl_note_font:
  fixes fam w d
  defines "cand \<equiv> \<lambda>f. matches_ci (family f) fam \<and> weight_distance (weight f) w = d"
  shows "foldl (note_font fam w st d) \<lparr>exact_style = None, normal_style = None, fallback = None\<rparr> fs =
    \<lparr>exact_style = find (\<lambda>f. cand f \<and> matches_ci (style f) st) fs,
     normal_style = find (\<lambda>f. cand f \<and> matches_ci (style f) (ascii ''normal'')) fs,
     fallback = find cand fs\<rparr>"
  by (induction fs rule: rev_induct)
    (auto simp: note_font_def first_of_def find_snoc cand_def split: option.splits)

lemma find_SomeD: "find P xs = Some x \<Longrightarrow> x \<in> set xs \<and> P x"
  by (induction xs) (auto split: if_splits)

lemma nearest_iff:
  assumes "f \<in> nearest fs fam w"
  shows "g \<in> nearest fs fam w \<longleftrightarrow> g \<in> set fs \<and> matches_ci (family g) fam \<and>
    weight_distance (weight g) w = weight_distance (weight f) w"
  using assms by (fastforce simp: nearest_def)

lemma pick_font_find:
  assumes "f \<in> nearest fs fam w" and "foldl (closer (lower_ascii fam) w) None fs = Some (f, weight_distance (weight f) w)"
  shows "pick_font fs fam w st =
    (case find (\<lambda>g. g \<in> nearest fs fam w \<and> matches_ci (style g) st) fs of
       Some g \<Rightarrow> Some g
     | None \<Rightarrow> (case find (\<lambda>g. g \<in> nearest fs fam w \<and> matches_ci (style g) (ascii ''normal'')) fs of
         Some g \<Rightarrow> Some g
       | None \<Rightarrow> find (\<lambda>g. g \<in> nearest fs fam w) fs))"
proof -
  let ?c = "\<lambda>g. matches_ci (family g) fam \<and> weight_distance (weight g) w = weight_distance (weight f) w"
  have "find (\<lambda>g. ?c g \<and> Q g) fs = find (\<lambda>g. g \<in> nearest fs fam w \<and> Q g) fs" for Q
    using nearest_iff[OF assms(1)] by (intro find_cong) auto
  from this[of "\<lambda>g. matches_ci (style g) st"] this[of "\<lambda>g. matches_ci (style g) (ascii ''normal'')"]
    this[of "\<lambda>_. True"]
  show ?thesis
    unfolding pick_font_def Let_def assms(2) option.case prod.case foldl_note_font
    by (simp only: font_choice.simps matches_ci_lower simp_thms)
qed

section \<open>A sample run\<close>

definition sample_host :: "file_system \<Rightarrow> host" where
  "sample_host fs = \<lparr>ndebug = True, allow_unsigned_var = None, is_relative = (\<lambda>_. False),
     weakly_canonical = (\<lambda>_. None), alloc_limit = 1000, host_crypto = sample_crypto,
     host_zstd = sample_zstd, host_fs = fs\<rparr>"

lemma sample_mounted:
  "\<exists>fs s b. loader_reachable (sample_host fs) s \<and> g_bundle s = Some b \<and> g_fonts s = manifest_fonts sample_meta \<and>
     g_font_bytes s = [] \<and> bundle_read fs b [97] = Some [5, 6, 7]"
proof -
  obtain fs b where b: "bundle_open 1000 sample_crypto sample_zstd fs [1] = Done b" "valid b" "signature_verified b"
    "signed_archive b" "bundle_read fs b [97] = Some [5, 6, 7]" "fonts b = manifest_fonts sample_meta"
    using sample_opened by blast
  have "\<exists>s r. mount_bundle_from_argv0 (sample_host fs) (Some [1]) initial_loader = (s, r) \<and>
      g_bundle s = Some b \<and> g_fonts s = manifest_fonts sample_meta \<and> g_font_bytes s = []"
    using b by (simp add: mount_bundle_from_argv0_def mount_once_def initial_loader_def sample_host_def
        resolve_argv0_def policy_admits_trusted trusted_def Let_def)
  then show ?thesis using b(5) loader_reachable.intros loader_step.mount by metis
qed

section \<open>Properties\<close>

text \<open>C6: In a release build without the override variable, whatever sequence of mounts and font
  lookups ran, a mounted bundle is signed and its signature was verified, and the loader reports
  so; mounting never replaces a mounted bundle.\<close>

theorem loader_signature_policy:
  assumes "loader_reachable h s" and "ndebug h" and "\<not> allow_unsigned_override h" and "g_bundle s = Some b"
  shows "valid b \<and> signed_archive b \<and> signature_verified b \<and> g_signature_verified s \<and>
    g_bundle (fst (mount_bundle_from_argv0 h argv0 s)) = Some b"
proof -
  have inv: "loader_inv h s" by (rule loader_reachable_inv[OF assms(1)])
  then have "once_done s" using assms(4) by (simp add: loader_inv_def)
  then show ?thesis
    using inv assms(2-4) by (auto simp: loader_inv_def trusted_def mount_bundle_from_argv0_def split: option.splits)
qed

theorem loader_signature_policy_witness:
  "\<exists>fs s b. loader_reachable (sample_host fs) s \<and> g_bundle s = Some b \<and> signature_verified b"
proof -
  obtain fs s b where s: "loader_reachable (sample_host fs) s" "g_bundle s = Some b"
    using sample_mounted by blast
  have "ndebug (sample_host fs)" "\<not> allow_unsigned_override (sample_host fs)"
    by (simp_all add: sample_host_def allow_unsigned_override_def)
  from loader_signature_policy[OF s(1) this s(2), of None] s show ?thesis by blast
qed

text \<open>
  The font resolver returns a font of the wanted family (compared without case) nearest in
  weight; among those it prefers the wanted style, then the normal style; and it finds one whenever
  the family has any font.\<close>

theorem pick_font_best:
  "case pick_font fs fam w st of
     None \<Rightarrow> nearest fs fam w = {} \<and> list_all (\<lambda>f. \<not> matches_ci (family f) fam) fs
   | Some f \<Rightarrow> f \<in> nearest fs fam w \<and>
       (if list_ex (\<lambda>g. g \<in> nearest fs fam w \<and> matches_ci (style g) st) fs then matches_ci (style f) st
        else if list_ex (\<lambda>g. g \<in> nearest fs fam w \<and> matches_ci (style g) (ascii ''normal'')) fs
        then matches_ci (style f) (ascii ''normal'') else True)"
proof (cases "foldl (closer (lower_ascii fam) w) None fs")
  case None
  then show ?thesis
    using foldl_closer[where fam = "lower_ascii fam" and w = w and fs = fs] by (auto simp: pick_font_def nearest_def list_all_iff)
next
  case (Some fd)
  then obtain f where f: "foldl (closer (lower_ascii fam) w) None fs = Some (f, weight_distance (weight f) w)"
    "f \<in> nearest fs fam w"
    using foldl_closer[where fam = "lower_ascii fam" and w = w and fs = fs] by (cases fd) (auto simp: nearest_def)
  have "f \<in> set fs" using f(2) by (simp add: nearest_def)
  then have "find (\<lambda>g. g \<in> nearest fs fam w) fs \<noteq> None" using f(2) by (auto simp: find_None_iff)
  then show ?thesis
    unfolding pick_font_find[OF f(2,1)]
    by (auto simp: list_ex_iff find_None_iff dest!: find_SomeD split: option.splits)
qed

text \<open>
  Bytes served from the font cache are the bytes the archive holds: a lookup that hits the
  cache returns what reading the archive would.\<close>

theorem font_cache_coherent:
  assumes "loader_reachable h s" and "resolve_bundled_font h fam w st s = (s', Some (p, bs))"
  shows "\<exists>b f. g_bundle s = Some b \<and> pick_font (fonts b) fam w st = Some f \<and> p = virtual_path f \<and>
    bundle_read (host_fs h) b p = Some bs"
proof -
  have inv: "loader_inv h s" by (rule loader_reachable_inv[OF assms(1)])
  obtain b f where b: "g_bundle s = Some b" "pick_font (g_fonts s) fam w st = Some f" "p = virtual_path f"
    using assms(2) by (auto simp: resolve_bundled_font_def split: option.splits)
  moreover have "g_fonts s = fonts b" using inv b(1) by (simp add: loader_inv_def)
  moreover have "bundle_read (host_fs h) b p = Some bs"
    using assms(2) b inv map_of_SomeD[of "g_font_bytes s" p]
    by (auto simp: resolve_bundled_font_def loader_inv_def list_all_iff split: option.splits)
  ultimately show ?thesis by auto
qed

theorem font_cache_coherent_witness:
  "\<exists>fs s s' b. loader_reachable (sample_host fs) s \<and> g_bundle s = Some b \<and>
     resolve_bundled_font (sample_host fs) [70] 500 [] s = (s', Some ([97], [5, 6, 7])) \<and>
     bundle_read fs b [97] = Some [5, 6, 7]"
proof -
  obtain fs s b where s: "loader_reachable (sample_host fs) s" "g_bundle s = Some b"
    "g_fonts s = manifest_fonts sample_meta" "g_font_bytes s = []" "bundle_read fs b [97] = Some [5, 6, 7]"
    using sample_mounted by blast
  have "pick_font (manifest_fonts sample_meta) [70] 500 [] = Some \<lparr>family = [102], virtual_path = [97], weight = 400, style = [110]\<rparr>"
    by code_simp
  then obtain s' where r: "resolve_bundled_font (sample_host fs) [70] 500 [] s = (s', Some ([97], [5, 6, 7]))"
    using s(2-5) by (simp add: resolve_bundled_font_def sample_host_def)
  from font_cache_coherent[OF s(1) r] s r show ?thesis by (auto simp: sample_host_def)
qed

end
