(* ===== verification/Cookie_Jar.thy ===== *)
theory Cookie_Jar
  imports Ascii
begin

text \<open>
  The cookie jar of \<^verbatim>\<open>src/net/cookie_jar.cpp\<close>: URL and \<^verbatim>\<open>Set-Cookie\<close> parsing, domain and path matching,
  the jar's operations and its Netscape file. The clock is the argument \<open>now\<close>; \<^verbatim>\<open>std::get_time\<close> with
  \<^verbatim>\<open>timegm\<close> is the argument \<open>get_time\<close>, from the index of a format and a text to the seconds since the
  epoch; the disk is a map from paths to contents beside the predicate that says which paths can be
  written. The mutex makes the operations atomic, so they are functions on the jar.
\<close>

section \<open>Data\<close>

datatype cookie_same_site = Strict | Lax | SameSiteNone

record cookie =
  c_name :: bytes
  c_value :: bytes
  c_domain :: bytes
  c_path :: bytes
  expires :: int
  secure :: bool
  http_only :: bool
  host_only :: bool
  same_site :: cookie_same_site

definition default_cookie :: cookie where
  "default_cookie = \<lparr>c_name = [], c_value = [], c_domain = [], c_path = [47], expires = 0, secure = False,
     http_only = False, host_only = True, same_site = Lax\<rparr>"

record cookie_filter =
  f_name :: bytes
  f_domain :: bytes
  f_url :: bytes

record jar =
  persist_path :: bytes
  cookies :: "cookie list"
  disk :: "bytes \<Rightarrow> bytes option"
  writable :: "bytes \<Rightarrow> bool"

record parsed_url =
  u_scheme :: bytes
  u_host :: bytes
  u_path :: bytes

section \<open>Parsing\<close>

definition ascii_ieq :: "bytes \<Rightarrow> bytes \<Rightarrow> bool" where
  "ascii_ieq a b \<longleftrightarrow> length a = length b \<and> list_all2 (\<lambda>x y. tolower x = tolower y) a b"

definition url_host :: "bytes \<Rightarrow> bytes" where
  "url_host host_port =
     (let host_port = (case rfind_char 64 host_port of None \<Rightarrow> host_port | Some at \<Rightarrow> drop (at + 1) host_port)
      in if host_port \<noteq> [] \<and> hd host_port = 91
         then (case find_char 93 host_port of
                 None \<Rightarrow> host_port
               | Some stop \<Rightarrow> take (stop - 1) (drop 1 host_port))
         else (case rfind_char 58 host_port of
                 None \<Rightarrow> host_port
               | Some colon \<Rightarrow> take colon host_port))"

text \<open>The path part; the length \<^verbatim>\<open>path_end - path_pos\<close> wraps when the query starts before the slash.\<close>

definition url_path :: "bytes \<Rightarrow> nat option \<Rightarrow> nat \<Rightarrow> bytes" where
  "url_path url path_pos path_end =
     (case path_pos of
        None \<Rightarrow> [47]
      | Some p \<Rightarrow> (let t = take (sub64 path_end p) (drop p url) in if t = [] then [47] else t))"

definition parse_url :: "bytes \<Rightarrow> parsed_url" where
  "parse_url url =
     (let scheme_end = find_sub (ascii ''://'') url;
          authority = (case scheme_end of None \<Rightarrow> 0 | Some i \<Rightarrow> i + 3);
          path_pos = find_from 47 url authority;
          query_pos = find_from 63 url authority;
          frag_pos = find_from 35 url authority;
          stop = min (case query_pos of None \<Rightarrow> length url | Some q \<Rightarrow> q)
                     (case frag_pos of None \<Rightarrow> length url | Some q \<Rightarrow> q);
          path_start = (case path_pos of
              None \<Rightarrow> stop
            | Some p \<Rightarrow> if (case query_pos of None \<Rightarrow> False | Some q \<Rightarrow> q < p) \<or>
                            (case frag_pos of None \<Rightarrow> False | Some q \<Rightarrow> q < p) then stop else p);
          host_port = take (path_start - authority) (drop authority url);
          path = url_path url path_pos stop
      in \<lparr>u_scheme = (case scheme_end of None \<Rightarrow> [] | Some i \<Rightarrow> lower_ascii (take i url)),
          u_host = lower_ascii (url_host host_port), u_path = path\<rparr>)"

definition default_cookie_path :: "bytes \<Rightarrow> bytes" where
  "default_cookie_path request_path =
     (if request_path = [] \<or> hd request_path \<noteq> 47 then [47]
      else case rfind_char 47 request_path of
        None \<Rightarrow> [47]
      | Some l \<Rightarrow> if l = 0 then [47] else take l request_path)"

definition parse_int64 :: "bytes \<Rightarrow> int option" where
  "parse_int64 s =
     (let v = trim s
      in if v = [] then None else from_chars_i64 (if hd v = 43 then tl v else v))"

text \<open>The formats are tried in order, then a plain number.\<close>

definition parse_http_date :: "(nat \<Rightarrow> bytes \<Rightarrow> int option) \<Rightarrow> bytes \<Rightarrow> int option" where
  "parse_http_date get_time value_text =
     (let s = trim value_text
      in case get_time 0 s of Some t \<Rightarrow> Some t | None \<Rightarrow>
        (case get_time 1 s of Some t \<Rightarrow> Some t | None \<Rightarrow>
        (case get_time 2 s of Some t \<Rightarrow> Some t | None \<Rightarrow> parse_int64 s)))"

definition normalized_domain :: "bytes \<Rightarrow> bytes" where
  "normalized_domain d =
     (let d = lower_ascii (trim d);
          d = (if starts_with (ascii ''#httponly_'') d then drop 10 d else d);
          d = dropWhile (\<lambda>c. c = 46) d
      in if d \<noteq> [] \<and> last d = 46 then butlast d else d)"

definition domain_matches :: "bytes \<Rightarrow> bool \<Rightarrow> bytes \<Rightarrow> bool" where
  "domain_matches cookie_domain only_host host \<longleftrightarrow>
     (if cookie_domain = [] \<or> host = [] then False
      else if only_host then host = cookie_domain
      else if host = cookie_domain then True
      else length host > length cookie_domain \<and>
        drop (length host - length cookie_domain) host = cookie_domain \<and>
        host ! (length host - length cookie_domain - 1) = 46)"

definition path_matches :: "bytes \<Rightarrow> bytes \<Rightarrow> bool" where
  "path_matches cookie_path request_path \<longleftrightarrow>
     (let cookie_path = (if cookie_path = [] then [47] else cookie_path);
          request_path = (if request_path = [] then [47] else request_path)
      in if request_path = cookie_path then True
         else if length request_path < length cookie_path \<or> take (length cookie_path) request_path \<noteq> cookie_path
         then False
         else last cookie_path = 47 \<or> request_path ! length cookie_path = 47)"

text \<open>\<^verbatim>\<open>std::getline\<close> with a delimiter: the pieces between delimiters, with no piece after a final one.\<close>

function getlines :: "u8 \<Rightarrow> bytes \<Rightarrow> bytes list" where
  "getlines d s = (if s = [] then [] else before d s # getlines d (after d s))"
  by pat_completeness auto
termination
  by (relation "measure (\<lambda>(d, s). length s)") (auto simp: length_after)

declare getlines.simps [simp del]

definition parse_netscape_cookie_line :: "bytes \<Rightarrow> cookie option" where
  "parse_netscape_cookie_line line =
     (let http = starts_with (ascii ''#HttpOnly_'') line;
          fields = getlines 9 (if http then drop 10 line else line)
      in if \<not> http \<and> (line = [] \<or> hd line = 35) then None
         else if length fields < 7 then None
         else let c = \<lparr>c_name = fields ! 5, c_value = fields ! 6, c_domain = normalized_domain (fields ! 0),
                       c_path = (if fields ! 2 = [] then [47] else fields ! 2),
                       expires = (case parse_int64 (fields ! 4) of None \<Rightarrow> 0 | Some e \<Rightarrow> e),
                       secure = (fields ! 3 = ascii ''TRUE''), http_only = http,
                       host_only = (fields ! 1 \<noteq> ascii ''TRUE''), same_site = Lax\<rparr>
              in if c_domain c \<noteq> [] \<and> c_name c \<noteq> [] then Some c else None)"

definition cookie_same_site_name :: "cookie_same_site \<Rightarrow> bytes" where
  "cookie_same_site_name v =
     (case v of Strict \<Rightarrow> ascii ''Strict'' | Lax \<Rightarrow> ascii ''Lax'' | SameSiteNone \<Rightarrow> ascii ''None'')"

definition cookie_same_site_from_string :: "bytes \<Rightarrow> cookie_same_site" where
  "cookie_same_site_from_string v =
     (if ascii_ieq v (ascii ''strict'') then Strict
      else if ascii_ieq v (ascii ''none'') \<or> ascii_ieq v (ascii ''no_restriction'') then SameSiteNone
      else Lax)"

text \<open>What parsing a header can end in; adding a huge \<^verbatim>\<open>Max-Age\<close> to the clock overflows an \<^verbatim>\<open>i64\<close>.\<close>

datatype parsed_cookie = Overflow | No_cookie | Parsed cookie

text \<open>One attribute: \<open>None\<close> rejects the cookie.\<close>

definition apply_attr :: "(nat \<Rightarrow> bytes \<Rightarrow> int option) \<Rightarrow> int \<Rightarrow> bytes \<Rightarrow> bytes \<Rightarrow> bytes
    \<Rightarrow> cookie \<times> bool \<Rightarrow> parsed_cookie + (cookie \<times> bool)" where
  "apply_attr get_time now host k v st =
     (case st of (out, saw_max_age) \<Rightarrow>
        if k = ascii ''domain''
        then let domain = normalized_domain v
             in if domain = [] then Inl No_cookie
                else if host \<noteq> [] \<and> \<not> domain_matches domain False host then Inl No_cookie
                else Inr (out\<lparr>c_domain := domain, host_only := False\<rparr>, saw_max_age)
        else if k = ascii ''path''
        then Inr (out\<lparr>c_path := if v \<noteq> [] \<and> hd v = 47 then v else [47]\<rparr>, saw_max_age)
        else if k = ascii ''expires''
        then (if saw_max_age then Inr st
              else case parse_http_date get_time v of
                None \<Rightarrow> Inr st
              | Some t \<Rightarrow> Inr (out\<lparr>expires := t\<rparr>, saw_max_age))
        else if k = ascii ''max-age''
        then (case parse_int64 v of
                None \<Rightarrow> Inr st
              | Some delta \<Rightarrow>
                  if delta > 0 \<and> now + delta \<ge> 2 ^ 63 then Inl Overflow
                  else Inr (out\<lparr>expires := if delta \<le> 0 then 1 else now + delta\<rparr>, True))
        else if k = ascii ''secure'' then Inr (out\<lparr>secure := True\<rparr>, saw_max_age)
        else if k = ascii ''httponly'' then Inr (out\<lparr>http_only := True\<rparr>, saw_max_age)
        else if k = ascii ''samesite''
        then Inr (out\<lparr>same_site := cookie_same_site_from_string v\<rparr>, saw_max_age)
        else Inr st)"

function parse_attrs :: "(nat \<Rightarrow> bytes \<Rightarrow> int option) \<Rightarrow> int \<Rightarrow> bytes \<Rightarrow> bytes
    \<Rightarrow> cookie \<times> bool \<Rightarrow> parsed_cookie + (cookie \<times> bool)" where
  "parse_attrs get_time now host rest st =
     (if rest = [] then Inr st
      else let attr = trim (before 59 rest); rest' = after 59 rest
           in if attr = [] then parse_attrs get_time now host rest' st
              else case apply_attr get_time now host (lower_ascii (trim (before 61 attr))) (trim (after 61 attr)) st of
                     Inl r \<Rightarrow> Inl r
                   | Inr st' \<Rightarrow> parse_attrs get_time now host rest' st')"
  by pat_completeness auto
termination
  by (relation "measure (\<lambda>(_, _, _, rest, _). length rest)") (auto simp: length_after)

declare parse_attrs.simps [simp del]

definition parse_set_cookie :: "(nat \<Rightarrow> bytes \<Rightarrow> int option) \<Rightarrow> int \<Rightarrow> bytes \<Rightarrow> bytes \<Rightarrow> parsed_cookie" where
  "parse_set_cookie get_time now header url =
     (let parsed = parse_url url; pair = before 59 header; rest = after 59 header;
          c = default_cookie\<lparr>c_name := trim (before 61 pair), c_value := trim (after 61 pair),
                c_domain := u_host parsed, c_path := default_cookie_path (u_path parsed)\<rparr>
      in if 61 \<notin> set pair then No_cookie
         else if c_name c = [] then No_cookie
         else case parse_attrs get_time now (u_host parsed) rest (c, False) of
           Inl r \<Rightarrow> r
         | Inr (out, _) \<Rightarrow>
             if c_domain out = [] then No_cookie
             else if same_site out = SameSiteNone \<and> \<not> secure out then No_cookie
             else Parsed out)"

section \<open>The jar\<close>

definition expired :: "int \<Rightarrow> cookie \<Rightarrow> bool" where
  "expired now c \<longleftrightarrow> expires c > 0 \<and> expires c \<le> now"

definition purge_expired_locked :: "int \<Rightarrow> jar \<Rightarrow> jar" where
  "purge_expired_locked now j = j\<lparr>cookies := filter (\<lambda>c. \<not> expired now c) (cookies j)\<rparr>"

definition bool_field :: "bool \<Rightarrow> bytes" where
  "bool_field b = (if b then ascii ''TRUE'' else ascii ''FALSE'')"

definition cookie_line :: "cookie \<Rightarrow> bytes" where
  "cookie_line c =
     (if http_only c then ascii ''#HttpOnly_'' else []) @ c_domain c @ [9] @ bool_field (\<not> host_only c) @ [9] @
     (if c_path c = [] then [47] else c_path c) @ [9] @ bool_field (secure c) @ [9] @
     print_int (expires c) @ [9] @ c_name c @ [9] @ c_value c"

definition save_now_snapshot :: "cookie list \<Rightarrow> bytes \<Rightarrow> jar \<Rightarrow> jar" where
  "save_now_snapshot snapshot p j =
     (if p = [] \<or> \<not> writable j p then j
      else j\<lparr>disk := (disk j)(p \<mapsto> ascii ''# Netscape HTTP Cookie File'' @ [10] @
               concat (map (\<lambda>c. cookie_line c @ [10]) snapshot))\<rparr>)"

definition schedule_save_locked :: "jar \<Rightarrow> jar" where
  "schedule_save_locked j =
     (if persist_path j = [] then j else save_now_snapshot (cookies j) (persist_path j) j)"

definition same_key :: "cookie \<Rightarrow> cookie \<Rightarrow> bool" where
  "same_key c existing \<longleftrightarrow>
     c_name existing = c_name c \<and> c_domain existing = c_domain c \<and> c_path existing = c_path c"

text \<open>\<^verbatim>\<open>find_if\<close> followed by an overwrite or a \<^verbatim>\<open>push_back\<close>.\<close>

fun put_cookie :: "cookie \<Rightarrow> cookie list \<Rightarrow> cookie list" where
  "put_cookie c [] = [c]"
| "put_cookie c (x # xs) = (if same_key c x then c # xs else x # put_cookie c xs)"

definition clean_cookie :: "cookie \<Rightarrow> cookie" where
  "clean_cookie c = c\<lparr>c_name := trim (c_name c), c_domain := normalized_domain (c_domain c),
     c_path := if c_path c = [] \<or> hd (c_path c) \<noteq> 47 then [47] else c_path c\<rparr>"

definition set_locked :: "int \<Rightarrow> cookie \<Rightarrow> bool \<Rightarrow> jar \<Rightarrow> jar \<times> bool" where
  "set_locked now c schedule_save j =
     (let c = clean_cookie c
      in if c_name c = [] \<or> c_domain c = [] then (j, False)
         else if same_site c = SameSiteNone \<and> \<not> secure c then (j, False)
         else let j = purge_expired_locked now j
              in if expired now c
                 then let j' = j\<lparr>cookies := filter (\<lambda>x. \<not> same_key c x) (cookies j)\<rparr>
                      in (if schedule_save \<and> length (cookies j') \<noteq> length (cookies j)
                          then schedule_save_locked j' else j', True)
                 else let j' = j\<lparr>cookies := put_cookie c (cookies j)\<rparr>
                      in (if schedule_save then schedule_save_locked j' else j', True))"

definition jar_set :: "int \<Rightarrow> cookie \<Rightarrow> jar \<Rightarrow> jar \<times> bool" where
  "jar_set now c j = set_locked now c True j"

text \<open>\<^verbatim>\<open>set\<close> with separate fields.\<close>

definition jar_set_fields :: "int \<Rightarrow> bytes \<Rightarrow> bytes \<Rightarrow> bytes \<Rightarrow> bytes \<Rightarrow> int \<Rightarrow> bool \<Rightarrow> bool \<Rightarrow> jar \<Rightarrow> jar" where
  "jar_set_fields now domain name v p ex sec http j =
     fst (jar_set now (default_cookie\<lparr>c_domain := domain, c_name := name, c_value := v, c_path := p,
       expires := ex, secure := sec, http_only := http, host_only := domain = [] \<or> hd domain \<noteq> 46\<rparr>) j)"

text \<open>The outcome of \<^verbatim>\<open>set_from_header\<close>: \<open>None\<close> when the clock addition overflowed.\<close>

definition set_from_header :: "(nat \<Rightarrow> bytes \<Rightarrow> int option) \<Rightarrow> int \<Rightarrow> bytes \<Rightarrow> bytes \<Rightarrow> jar \<Rightarrow> (jar \<times> bool) option" where
  "set_from_header get_time now header url j =
     (case parse_set_cookie get_time now header url of
        Overflow \<Rightarrow> None
      | No_cookie \<Rightarrow> Some (j, False)
      | Parsed c \<Rightarrow> Some (jar_set now c j))"

definition eligible :: "int \<Rightarrow> parsed_url \<Rightarrow> cookie \<Rightarrow> bool" where
  "eligible now parsed c \<longleftrightarrow> \<not> expired now c \<and> \<not> (secure c \<and> u_scheme parsed \<noteq> ascii ''https'') \<and>
     domain_matches (c_domain c) (host_only c) (u_host parsed) \<and> path_matches (c_path c) (u_path parsed)"

text \<open>The cookies for a request: the eligible ones, stably sorted by falling path length.\<close>

definition request_cookies :: "int \<Rightarrow> bytes \<Rightarrow> jar \<Rightarrow> cookie list" where
  "request_cookies now url j =
     sort_key (\<lambda>c. - int (length (c_path c))) (filter (eligible now (parse_url url)) (cookies j))"

fun render_cookies :: "bytes \<Rightarrow> cookie list \<Rightarrow> bytes" where
  "render_cookies out [] = out"
| "render_cookies out (c # cs) =
     render_cookies (out @ (if out \<noteq> [] then [59, 32] else []) @ c_name c @ [61] @ c_value c) cs"

definition pick_for_request :: "int \<Rightarrow> bytes \<Rightarrow> jar \<Rightarrow> bytes" where
  "pick_for_request now url j = render_cookies [] (request_cookies now url j)"

definition get_all :: "int \<Rightarrow> cookie_filter \<Rightarrow> jar \<Rightarrow> cookie list" where
  "get_all now f j =
     filter (\<lambda>c. \<not> expired now c \<and> \<not> (f_name f \<noteq> [] \<and> c_name c \<noteq> f_name f) \<and>
         \<not> (f_domain f \<noteq> [] \<and> c_domain c \<noteq> normalized_domain (f_domain f)) \<and>
         \<not> (f_url f \<noteq> [] \<and> (\<not> domain_matches (c_domain c) (host_only c) (u_host (parse_url (f_url f))) \<or>
              \<not> path_matches (c_path c) (u_path (parse_url (f_url f))))))
       (cookies j)"

definition jar_remove :: "bytes \<Rightarrow> bytes \<Rightarrow> jar \<Rightarrow> jar \<times> bool" where
  "jar_remove name url j =
     (let parsed = parse_url url;
          doomed = (\<lambda>c. c_name c = name \<and> domain_matches (c_domain c) (host_only c) (u_host parsed) \<and>
                        path_matches (c_path c) (u_path parsed));
          removed = list_ex doomed (cookies j);
          j' = j\<lparr>cookies := filter (\<lambda>c. \<not> doomed c) (cookies j)\<rparr>
      in (if removed then schedule_save_locked j' else j', removed))"

definition jar_clear :: "jar \<Rightarrow> jar" where
  "jar_clear j = schedule_save_locked (j\<lparr>cookies := []\<rparr>)"

text \<open>The loop over the lines of a file or of an import.\<close>

fun load_lines :: "int \<Rightarrow> bytes list \<Rightarrow> jar \<Rightarrow> jar" where
  "load_lines now [] j = j"
| "load_lines now (line # lines) j =
     load_lines now lines
       (case parse_netscape_cookie_line line of
          None \<Rightarrow> j
        | Some c \<Rightarrow> fst (set_locked now c False j))"

definition load_from_disk :: "int \<Rightarrow> jar \<Rightarrow> jar" where
  "load_from_disk now j =
     (if persist_path j = [] then j
      else case disk j (persist_path j) of
        None \<Rightarrow> j
      | Some contents \<Rightarrow> load_lines now (getlines 10 contents) j)"

definition new_jar :: "int \<Rightarrow> bytes \<Rightarrow> (bytes \<Rightarrow> bytes option) \<Rightarrow> (bytes \<Rightarrow> bool) \<Rightarrow> jar" where
  "new_jar now p d w = load_from_disk now \<lparr>persist_path = p, cookies = [], disk = d, writable = w\<rparr>"

definition persist :: "int \<Rightarrow> bytes \<Rightarrow> jar \<Rightarrow> jar" where
  "persist now p j = load_from_disk now (j\<lparr>persist_path := p, cookies := []\<rparr>)"

definition import_netscape_lines :: "int \<Rightarrow> bytes list \<Rightarrow> jar \<Rightarrow> jar" where
  "import_netscape_lines now lines j =
     schedule_save_locked (load_lines now lines (j\<lparr>cookies := []\<rparr>))"

end
