(* ===== verification/Cookie_Correct.thy ===== *)
theory Cookie_Correct
  imports Cookie_Jar
begin

text \<open>
  Correctness of the cookie jar: its invariant over all operations, the abstract map it implements,
  which cookies a request carries, whose cookies a header can set, and what survives the Netscape
  file. Three theorems record behaviour that is hardly intended: the epoch as an expiry date, a
  cookie with an empty value on disk, and a slash inside a query.
\<close>

section \<open>The invariant\<close>

type_synonym cookie_key = "bytes \<times> bytes \<times> bytes"

definition key_of_cookie :: "cookie \<Rightarrow> cookie_key" where
  "key_of_cookie c = (c_name c, c_domain c, c_path c)"

lemma same_key_iff: "same_key c x \<longleftrightarrow> key_of_cookie x = key_of_cookie c"
  by (simp add: same_key_def key_of_cookie_def)

definition cookie_ok :: "cookie \<Rightarrow> bool" where
  "cookie_ok c \<longleftrightarrow> c_name c \<noteq> [] \<and> trim (c_name c) = c_name c \<and> c_domain c \<noteq> [] \<and>
     c_path c \<noteq> [] \<and> hd (c_path c) = 47 \<and> \<not> (same_site c = SameSiteNone \<and> \<not> secure c)"

definition jar_ok :: "jar \<Rightarrow> bool" where
  "jar_ok j \<longleftrightarrow> list_all cookie_ok (cookies j) \<and> distinct (map key_of_cookie (cookies j))"

lemma cookies_save [simp]: "cookies (schedule_save_locked j) = cookies j"
  by (simp add: schedule_save_locked_def save_now_snapshot_def)

lemma jar_ok_save [simp]: "jar_ok (schedule_save_locked j) \<longleftrightarrow> jar_ok j"
  by (simp add: jar_ok_def)

lemma keys_put_cookie: "map key_of_cookie (put_cookie c xs) =
    (if key_of_cookie c \<in> key_of_cookie ` set xs then map key_of_cookie xs else map key_of_cookie xs @ [key_of_cookie c])"
  by (induction xs) (auto simp: same_key_iff)

lemma set_put_cookie: "set (put_cookie c xs) \<subseteq> insert c (set xs)"
  by (induction xs) auto

lemma jar_ok_filter: "jar_ok j \<Longrightarrow> jar_ok (j\<lparr>cookies := filter P (cookies j)\<rparr>)"
  by (auto simp: jar_ok_def list_all_iff distinct_map_filter)

lemma jar_ok_put: "jar_ok j \<Longrightarrow> cookie_ok c \<Longrightarrow> jar_ok (j\<lparr>cookies := put_cookie c (cookies j)\<rparr>)"
  using set_put_cookie[of c "cookies j"]
  by (auto simp: jar_ok_def list_all_iff keys_put_cookie dest!: subsetD)

lemma clean_cookie_ok:
  "c_name (clean_cookie c) \<noteq> [] \<Longrightarrow> c_domain (clean_cookie c) \<noteq> [] \<Longrightarrow>
   \<not> (same_site (clean_cookie c) = SameSiteNone \<and> \<not> secure (clean_cookie c)) \<Longrightarrow> cookie_ok (clean_cookie c)"
  by (auto simp: cookie_ok_def clean_cookie_def)

lemma purge_ok [simp]: "jar_ok j \<Longrightarrow> jar_ok (purge_expired_locked now j)"
  by (simp add: purge_expired_locked_def jar_ok_filter)

lemma set_locked_ok: "jar_ok j \<Longrightarrow> jar_ok (fst (set_locked now c sv j))"
  by (auto simp: set_locked_def Let_def intro!: jar_ok_filter jar_ok_put clean_cookie_ok)

lemma set_locked_pair_ok: "set_locked now c sv j = (j', r) \<Longrightarrow> jar_ok j \<Longrightarrow> jar_ok j'"
  using set_locked_ok[of j now c sv] by simp

lemma load_lines_ok: "jar_ok j \<Longrightarrow> jar_ok (load_lines now ls j)"
  by (induction now ls j rule: load_lines.induct) (auto simp: set_locked_ok split: option.splits)

lemma jar_ok_empty [simp]: "cookies j = [] \<Longrightarrow> jar_ok j"
  by (simp add: jar_ok_def)

lemma load_from_disk_ok: "jar_ok j \<Longrightarrow> jar_ok (load_from_disk now j)"
  by (auto simp: load_from_disk_def load_lines_ok split: option.splits)

lemma jar_remove_ok: "jar_ok j \<Longrightarrow> jar_ok (fst (jar_remove n u j))"
  by (simp add: jar_remove_def Let_def jar_ok_filter)

text \<open>Everything that changes a jar, with the clock free at each step.\<close>

inductive jar_step :: "(nat \<Rightarrow> bytes \<Rightarrow> int option) \<Rightarrow> jar \<Rightarrow> jar \<Rightarrow> bool" for get_time where
  set: "jar_step get_time j (fst (jar_set now c j))"
| set_fields: "jar_step get_time j (jar_set_fields now d n v p e s h j)"
| set_header: "set_from_header get_time now header url j = Some (j', r) \<Longrightarrow> jar_step get_time j j'"
| remove: "jar_step get_time j (fst (jar_remove n u j))"
| clear: "jar_step get_time j (jar_clear j)"
| persist: "jar_step get_time j (Cookie_Jar.persist now p j)"
| import_lines: "jar_step get_time j (import_netscape_lines now ls j)"

inductive jar_reachable :: "(nat \<Rightarrow> bytes \<Rightarrow> int option) \<Rightarrow> jar \<Rightarrow> bool" for get_time where
  new: "jar_reachable get_time (new_jar now p d w)"
| step: "jar_reachable get_time j \<Longrightarrow> jar_step get_time j j' \<Longrightarrow> jar_reachable get_time j'"

inductive_cases jar_stepE: "jar_step get_time j j'"

lemma jar_step_ok: "jar_step get_time j j' \<Longrightarrow> jar_ok j \<Longrightarrow> jar_ok j'"
  by (erule jar_stepE)
    (auto simp: jar_set_def jar_set_fields_def set_locked_ok jar_remove_ok jar_clear_def
      Cookie_Jar.persist_def load_from_disk_ok import_netscape_lines_def load_lines_ok
      set_from_header_def split: parsed_cookie.splits intro: set_locked_pair_ok)

lemma jar_reachable_ok: "jar_reachable get_time j \<Longrightarrow> jar_ok j"
proof (induction rule: jar_reachable.induct)
  case (new now p d w)
  then show ?case by (simp add: new_jar_def load_from_disk_ok)
qed (rule jar_step_ok)

section \<open>The jar as a map\<close>

definition jar_abs :: "jar \<Rightarrow> cookie_key \<rightharpoonup> cookie" where
  "jar_abs j = map_of (map (\<lambda>c. (key_of_cookie c, c)) (cookies j))"

text \<open>The specification: drop what has expired, then write or delete one key.\<close>

definition unexpired :: "int \<Rightarrow> (cookie_key \<rightharpoonup> cookie) \<Rightarrow> cookie_key \<rightharpoonup> cookie" where
  "unexpired now m k = (case m k of None \<Rightarrow> None | Some c \<Rightarrow> if expired now c then None else Some c)"

lemma map_of_filter_distinct:
  "distinct (map key_of_cookie cs) \<Longrightarrow> map_of (map (\<lambda>c. (key_of_cookie c, c)) (filter P cs)) k =
     (case map_of (map (\<lambda>c. (key_of_cookie c, c)) cs) k of None \<Rightarrow> None | Some c \<Rightarrow> if P c then Some c else None)"
proof (induction cs)
  case (Cons c cs)
  have "map_of (map (\<lambda>c. (key_of_cookie c, c)) cs) (key_of_cookie c) = None"
    using Cons.prems by (force simp: map_of_eq_None_iff)
  with Cons show ?case by auto
qed simp

lemma map_of_put_cookie: "map_of (map (\<lambda>c. (key_of_cookie c, c)) (put_cookie c cs)) k =
    (if k = key_of_cookie c then Some c else map_of (map (\<lambda>c. (key_of_cookie c, c)) cs) k)"
  by (induction cs) (auto simp: same_key_iff)

lemma jar_abs_purge: "jar_ok j \<Longrightarrow> jar_abs (purge_expired_locked now j) = unexpired now (jar_abs j)"
  by (rule ext) (auto simp: jar_abs_def purge_expired_locked_def jar_ok_def map_of_filter_distinct unexpired_def
      split: option.splits)

lemma jar_abs_save [simp]: "jar_abs (schedule_save_locked j) = jar_abs j"
  by (simp add: jar_abs_def)

lemma jar_abs_put: "jar_abs (j\<lparr>cookies := put_cookie c (cookies j)\<rparr>) = (jar_abs j)(key_of_cookie c \<mapsto> c)"
  by (rule ext) (simp add: jar_abs_def map_of_put_cookie)

lemma jar_abs_delete:
  assumes "jar_ok j"
  shows "jar_abs (j\<lparr>cookies := filter (\<lambda>x. \<not> same_key c x) (cookies j)\<rparr>) = (jar_abs j)(key_of_cookie c := None)"
proof (rule ext)
  fix k
  have "map_of (map (\<lambda>c. (key_of_cookie c, c)) cs) k = Some x \<Longrightarrow> key_of_cookie x = k" for cs x
    by (induction cs) (auto split: if_splits)
  from this[of "cookies j"] show "jar_abs (j\<lparr>cookies := filter (\<lambda>x. \<not> same_key c x) (cookies j)\<rparr>) k =
      ((jar_abs j)(key_of_cookie c := None)) k"
    using assms
    by (cases "map_of (map (\<lambda>c. (key_of_cookie c, c)) (cookies j)) k")
      (auto simp: jar_abs_def jar_ok_def map_of_filter_distinct same_key_iff)
qed

section \<open>Matching\<close>

lemma domain_matches_suffix:
  assumes "domain_matches d only h"
  shows "d \<noteq> [] \<and> (only \<longrightarrow> h = d) \<and> (\<exists>sub. h = sub @ d \<and> (sub = [] \<or> last sub = 46))"
proof -
  have "\<exists>sub. h = sub @ d \<and> last sub = 46"
    if "drop (length h - length d) h = d" "h ! (length h - length d - 1) = 46" "length h > length d"
  proof (intro exI conjI)
    show "h = take (length h - length d) h @ d" using that(1) by (metis append_take_drop_id)
    show "last (take (length h - length d) h) = 46"
      using that(2,3) by (subst last_conv_nth) auto
  qed
  then show ?thesis using assms by (auto simp: domain_matches_def split: if_splits)
qed

lemma path_matches_prefix:
  assumes "path_matches p r" and "p \<noteq> []" and "r \<noteq> []"
  shows "\<exists>rest. r = p @ rest \<and> (rest = [] \<or> hd rest = 47 \<or> last p = 47)"
proof (cases "r = p")
  case False
  then have t: "take (length p) r = p" "last p = 47 \<or> r ! length p = 47"
    using assms by (auto simp: path_matches_def Let_def split: if_splits)
  then have "r = p @ drop (length p) r" by (metis append_take_drop_id)
  moreover have "drop (length p) r = [] \<or> hd (drop (length p) r) = r ! length p"
    by (metis drop_eq_Nil hd_drop_conv_nth not_le)
  ultimately show ?thesis using t(2) by metis
qed simp

lemma suffix_domain_matches:
  "d \<noteq> [] \<Longrightarrow> if only then h = d else \<exists>sub. h = sub @ d \<and> (sub = [] \<or> last sub = 46) \<Longrightarrow> domain_matches d only h"
  by (auto simp: domain_matches_def nth_append last_conv_nth split: if_splits)

lemma domain_matches_iff:
  assumes "d \<noteq> []"
  shows "domain_matches d only h \<longleftrightarrow> (if only then h = d else \<exists>sub. h = sub @ d \<and> (sub = [] \<or> last sub = 46))"
proof
  assume "domain_matches d only h"
  from domain_matches_suffix[OF this]
  show "if only then h = d else \<exists>sub. h = sub @ d \<and> (sub = [] \<or> last sub = 46)" by (cases only) simp_all
qed (rule suffix_domain_matches[OF assms])

lemma prefix_path_matches:
  "p \<noteq> [] \<Longrightarrow> r = p @ rest \<Longrightarrow> rest = [] \<or> hd rest = 47 \<or> last p = 47 \<Longrightarrow> path_matches p r"
  by (cases rest) (auto simp: path_matches_def Let_def)

lemma path_matches_iff:
  assumes "p \<noteq> []" "r \<noteq> []"
  shows "path_matches p r \<longleftrightarrow> (\<exists>rest. r = p @ rest \<and> (rest = [] \<or> hd rest = 47 \<or> last p = 47))"
  using path_matches_prefix[OF _ assms] prefix_path_matches[OF assms(1)] by blast

lemma parse_url_path: "u_path (parse_url url) \<noteq> []"
proof -
  have "url_path url pp pe \<noteq> []" for pp pe by (simp add: url_path_def Let_def split: option.split)
  then show ?thesis by (simp add: parse_url_def Let_def)
qed

section \<open>Headers\<close>

lemma apply_attr_domain:
  assumes "apply_attr get_time now host k v (c, s) = Inr (c', s')" and "host \<noteq> []"
    and "domain_matches (c_domain c) False host"
  shows "domain_matches (c_domain c') False host \<and> c_name c' = c_name c"
  using assms by (auto simp: apply_attr_def Let_def split: if_splits option.splits)

lemma parse_attrs_domain:
  assumes "parse_attrs get_time now host rest st = Inr st'" and "host \<noteq> []"
    and "domain_matches (c_domain (fst st)) False host"
  shows "domain_matches (c_domain (fst st')) False host \<and> c_name (fst st') = c_name (fst st)"
  using assms
proof (induction get_time now host rest st rule: parse_attrs.induct)
  case (1 get_time now host rest st)
  show ?case
  proof (cases "rest = []")
    case True
    then show ?thesis using "1.prems" by (simp add: parse_attrs.simps)
  next
    case False
    let ?attr = "trim (before 59 rest)"
    show ?thesis
    proof (cases "?attr = []")
      case True
      then show ?thesis
        using "1.IH"(1)[OF False refl refl True] "1.prems" False by (simp add: parse_attrs.simps[of get_time now host rest])
    next
      case ne: False
      obtain st1 where st1: "apply_attr get_time now host (lower_ascii (trim (before 61 ?attr))) (trim (after 61 ?attr)) st = Inr st1"
        "parse_attrs get_time now host (after 59 rest) st1 = Inr st'"
        using "1.prems"(1) False ne
        by (auto simp: parse_attrs.simps[of get_time now host rest] Let_def split: sum.splits)
      have "domain_matches (c_domain (fst st1)) False host \<and> c_name (fst st1) = c_name (fst st)"
        using apply_attr_domain[of get_time now host _ _ "fst st" "snd st" "fst st1" "snd st1"] st1(1) "1.prems"(2,3)
        by simp
      then show ?thesis
        using "1.IH"(2)[OF False refl refl ne st1(1) st1(2) "1.prems"(2)] by simp
    qed
  qed
qed

lemma parse_attrs_Inl: "parse_attrs get_time now host rest st = Inl r \<Longrightarrow> r \<noteq> Parsed c"
proof (induction get_time now host rest st rule: parse_attrs.induct)
  case (1 get_time now host rest st)
  have attr: "apply_attr get_time now host k v st = Inl r \<Longrightarrow> r \<noteq> Parsed c" for k v
    by (auto simp: apply_attr_def Let_def split: if_splits option.splits prod.splits)
  show ?case
  proof (cases "rest = []")
    case False
    then show ?thesis
      using "1.IH"[OF False refl refl] "1.prems" attr
      by (auto simp: parse_attrs.simps[of get_time now host rest] Let_def split: if_splits sum.splits)
  qed (use "1.prems" in \<open>simp add: parse_attrs.simps\<close>)
qed

section \<open>The Netscape file\<close>

lemma getlines_Nil [simp]: "getlines d [] = []"
  by (simp add: getlines.simps)

lemma getlines_cons [simp]: "d \<notin> set s \<Longrightarrow> getlines d (s @ d # t) = s # getlines d t"
  by (simp add: getlines.simps[of d "s @ d # t"])

lemma getlines_last [simp]: "d \<notin> set s \<Longrightarrow> s \<noteq> [] \<Longrightarrow> getlines d s = [s]"
  by (simp add: getlines.simps[of d s] after_def)

lemma getlines_lines: "list_all (\<lambda>l. d \<notin> set l) ls \<Longrightarrow> getlines d (concat (map (\<lambda>l. l @ [d]) ls)) = ls"
  by (induction ls) simp_all

definition no_breaks :: "bytes \<Rightarrow> bool" where
  "no_breaks s \<longleftrightarrow> 9 \<notin> set s \<and> 10 \<notin> set s"

text \<open>Cookies the file format can hold.\<close>

definition storable :: "cookie \<Rightarrow> bool" where
  "storable c \<longleftrightarrow> cookie_ok c \<and> no_breaks (c_name c) \<and> no_breaks (c_value c) \<and> no_breaks (c_domain c) \<and>
     no_breaks (c_path c) \<and> normalized_domain (c_domain c) = c_domain c \<and> hd (c_domain c) \<noteq> 35 \<and>
     - (2 ^ 63) \<le> expires c \<and> expires c < 2 ^ 63"

lemma print_int_clean: "no_breaks (print_int i)" "print_int i \<noteq> []" "hd (print_int i) \<noteq> 43" "trim (print_int i) = print_int i"
proof -
  have d: "list_all (\<lambda>c. \<not> is_ws c \<and> c \<noteq> 43 \<and> c \<noteq> 9 \<and> c \<noteq> 10) (print_int i)" "print_int i \<noteq> []"
    using digits_ok[of "nat i"] digits_ok[of "nat (- i)"]
    by (auto simp: print_int_def list_all_iff is_ws_def)
  then show "no_breaks (print_int i)" "print_int i \<noteq> []" "hd (print_int i) \<noteq> 43"
    using hd_in_set[of "print_int i"] by (auto simp: no_breaks_def list_all_iff)
  show "trim (print_int i) = print_int i"
    using d(1) by (intro trim_no_ws) (simp add: list_all_iff)
qed

lemma parse_int64_print: "- (2 ^ 63) \<le> i \<Longrightarrow> i < 2 ^ 63 \<Longrightarrow> parse_int64 (print_int i) = Some i"
  using print_int_clean[of i] from_chars_print_int[of i] by (simp add: parse_int64_def Let_def)

lemma bool_field_clean: "no_breaks (bool_field b)" "bool_field b = ascii ''TRUE'' \<longleftrightarrow> b"
proof -
  have "bool_field True = [84, 82, 85, 69]" "bool_field False = [70, 65, 76, 83, 69]"
    by (simp_all add: bool_field_def ascii_def)
  then show "no_breaks (bool_field b)" by (cases b) (simp_all add: no_breaks_def)
  show "bool_field b = ascii ''TRUE'' \<longleftrightarrow> b" by (simp add: bool_field_def)
qed

text \<open>The fields of a written line.\<close>

lemma getlines_fields:
  assumes "storable c"
  shows "getlines 9 (c_domain c @ [9] @ bool_field (\<not> host_only c) @ [9] @ c_path c @ [9] @ bool_field (secure c) @ [9] @
      print_int (expires c) @ [9] @ c_name c @ [9] @ v) =
    [c_domain c, bool_field (\<not> host_only c), c_path c, bool_field (secure c), print_int (expires c), c_name c] @ getlines 9 v"
  using assms bool_field_clean(1) print_int_clean(1)[of "expires c"]
  by (simp add: storable_def no_breaks_def)

lemma http_prefix: "length (ascii ''#HttpOnly_'') = 10" "ascii ''#HttpOnly_'' = 35 # ascii ''HttpOnly_''"
  by (simp_all add: ascii_def)

definition stored_cookie :: "cookie \<Rightarrow> cookie" where
  "stored_cookie c = c\<lparr>same_site := Lax\<rparr>"

lemma parse_written_line:
  assumes c: "storable c"
  shows "c_value c \<noteq> [] \<Longrightarrow> parse_netscape_cookie_line (cookie_line c) = Some (stored_cookie c)"
    and "c_value c = [] \<Longrightarrow> parse_netscape_cookie_line (cookie_line c) = None"
proof -
  let ?tail = "c_domain c @ [9] @ bool_field (\<not> host_only c) @ [9] @ c_path c @ [9] @ bool_field (secure c) @ [9] @
      print_int (expires c) @ [9] @ c_name c @ [9] @ c_value c"
  have ne: "c_domain c \<noteq> []" "c_path c \<noteq> []" "c_name c \<noteq> []" "hd (c_domain c) \<noteq> 35"
    using c by (simp_all add: storable_def cookie_ok_def)
  have line: "cookie_line c = (if http_only c then ascii ''#HttpOnly_'' else []) @ ?tail"
    using ne(2) by (simp add: cookie_line_def)
  have hd: "hd ?tail \<noteq> 35" "?tail \<noteq> []" using ne(1,4) by simp_all
  have sw: "starts_with (ascii ''#HttpOnly_'') (cookie_line c) = http_only c"
  proof (cases "http_only c")
    case True
    then show ?thesis unfolding line by (simp add: starts_with_iff)
  next
    case False
    have "\<not> starts_with (ascii ''#HttpOnly_'') ?tail"
    proof
      assume "starts_with (ascii ''#HttpOnly_'') ?tail"
      then obtain t where "?tail = 35 # (ascii ''HttpOnly_'' @ t)"
        unfolding starts_with_iff http_prefix(2) by auto
      then have "hd ?tail = 35" by (simp only: list.sel)
      with hd(1) show False by blast
    qed
    with False show ?thesis unfolding line by simp
  qed
  have cut: "(if http_only c then drop 10 (cookie_line c) else cookie_line c) = ?tail"
    unfolding line using http_prefix(1) by simp
  have fields: "getlines 9 (if http_only c then drop 10 (cookie_line c) else cookie_line c) =
      [c_domain c, bool_field (\<not> host_only c), c_path c, bool_field (secure c), print_int (expires c), c_name c] @
      getlines 9 (c_value c)"
    unfolding cut by (rule getlines_fields[OF c])
  have guard: "\<not> (\<not> http_only c \<and> (cookie_line c = [] \<or> hd (cookie_line c) = 35))"
    unfolding line using hd by simp
  have "normalized_domain (c_domain c) = c_domain c" "parse_int64 (print_int (expires c)) = Some (expires c)"
    "9 \<notin> set (c_value c)"
    using c parse_int64_print by (simp_all add: storable_def no_breaks_def)
  then show "c_value c \<noteq> [] \<Longrightarrow> parse_netscape_cookie_line (cookie_line c) = Some (stored_cookie c)"
    and "c_value c = [] \<Longrightarrow> parse_netscape_cookie_line (cookie_line c) = None"
    using ne guard unfolding parse_netscape_cookie_line_def Let_def sw fields
    by (simp_all add: bool_field_clean(2) stored_cookie_def)
qed

lemma no_newline_line: "storable c \<Longrightarrow> 10 \<notin> set (cookie_line c)"
proof -
  have "10 \<notin> set (ascii ''#HttpOnly_'')" by (simp add: ascii_def)
  moreover assume "storable c"
  ultimately show ?thesis
    using bool_field_clean(1) print_int_clean(1)[of "expires c"]
    by (auto simp: cookie_line_def storable_def no_breaks_def)
qed

lemma put_cookie_fresh: "key_of_cookie c \<notin> key_of_cookie ` set xs \<Longrightarrow> put_cookie c xs = xs @ [c]"
  by (induction xs) (auto simp: same_key_iff)

lemma set_locked_fresh:
  assumes "storable c" "\<not> expired now c" "list_all (\<lambda>x. \<not> expired now x) (cookies j)"
    and "key_of_cookie c \<notin> key_of_cookie ` set (cookies j)"
  shows "fst (set_locked now (stored_cookie c) False j) = j\<lparr>cookies := cookies j @ [stored_cookie c]\<rparr>"
proof -
  have clean: "clean_cookie (stored_cookie c) = stored_cookie c" "c_name (stored_cookie c) \<noteq> []"
    "c_domain (stored_cookie c) \<noteq> []" "same_site (stored_cookie c) = Lax" "expired now (stored_cookie c) = expired now c"
    using assms(1) by (auto simp: storable_def cookie_ok_def clean_cookie_def stored_cookie_def expired_def)
  have "purge_expired_locked now j = j"
    using assms(3) by (simp add: purge_expired_locked_def list_all_iff)
  moreover have "key_of_cookie (stored_cookie c) \<notin> key_of_cookie ` set (cookies j)"
    using assms(4) by (simp add: key_of_cookie_def stored_cookie_def)
  ultimately show ?thesis
    using clean assms(2) by (simp add: set_locked_def Let_def put_cookie_fresh)
qed

lemma load_written_lines:
  assumes "list_all (\<lambda>c. storable c \<and> c_value c \<noteq> [] \<and> \<not> expired now c) cs"
    and "distinct (map key_of_cookie (cookies j @ cs))" and "list_all (\<lambda>x. \<not> expired now x) (cookies j)"
  shows "load_lines now (map cookie_line cs) j = j\<lparr>cookies := cookies j @ map stored_cookie cs\<rparr>"
  using assms
proof (induction cs arbitrary: j)
  case (Cons c cs)
  let ?j = "j\<lparr>cookies := cookies j @ [stored_cookie c]\<rparr>"
  have "fst (set_locked now (stored_cookie c) False j) = ?j"
    using Cons.prems by (intro set_locked_fresh) auto
  moreover have "parse_netscape_cookie_line (cookie_line c) = Some (stored_cookie c)"
    using Cons.prems(1) parse_written_line(1) by simp
  moreover have "load_lines now (map cookie_line cs) ?j = ?j\<lparr>cookies := cookies ?j @ map stored_cookie cs\<rparr>"
  proof (rule Cons.IH)
    have "key_of_cookie (stored_cookie x) = key_of_cookie x" for x
      by (simp add: key_of_cookie_def stored_cookie_def)
    then show "distinct (map key_of_cookie (cookies ?j @ cs))"
      using Cons.prems(2) by auto
    show "list_all (\<lambda>x. \<not> expired now x) (cookies ?j)"
      using Cons.prems(1,3) by (simp add: expired_def stored_cookie_def)
  qed (use Cons.prems(1) in simp)
  ultimately show ?case by simp
qed simp

section \<open>Properties\<close>

text \<open>C38: Whatever operations ran on a jar, no two of its cookies agree on name, domain and path,
  every cookie has a trimmed name, a domain and an absolute path, and no cookie is marked
  \<^verbatim>\<open>SameSite=None\<close> without being secure.\<close>

theorem jar_invariant:
  assumes "jar_reachable get_time j"
  shows "distinct (map key_of_cookie (cookies j)) \<and> list_all cookie_ok (cookies j)"
  using jar_reachable_ok[OF assms] by (simp add: jar_ok_def)

theorem jar_invariant_witness:
  "jar_reachable (\<lambda>_ _. None) (fst (jar_set 0 (default_cookie\<lparr>c_name := [97], c_domain := [98]\<rparr>)
     (new_jar 0 [] (\<lambda>_. None) (\<lambda>_. True)))) \<and>
   list_all cookie_ok (cookies (fst (jar_set 0 (default_cookie\<lparr>c_name := [97], c_domain := [98]\<rparr>)
     (new_jar 0 [] (\<lambda>_. None) (\<lambda>_. True)))))"
proof -
  have r: "jar_reachable (\<lambda>_ _. None) (fst (jar_set 0 (default_cookie\<lparr>c_name := [97], c_domain := [98]\<rparr>)
     (new_jar 0 [] (\<lambda>_. None) (\<lambda>_. True))))"
    by (rule jar_reachable.step[OF jar_reachable.new jar_step.set])
  with jar_invariant[OF r] show ?thesis by blast
qed

text \<open>C37: Setting an acceptable cookie drops what has expired and then writes exactly its key, or
  deletes it when the new cookie has already expired; no other key changes.\<close>

theorem jar_set_refines_update:
  assumes "jar_ok j" and "c' = clean_cookie c" and "cookie_ok c'"
  shows "snd (jar_set now c j) \<and> jar_abs (fst (jar_set now c j)) =
    (if expired now c' then (unexpired now (jar_abs j))(key_of_cookie c' := None)
     else (unexpired now (jar_abs j))(key_of_cookie c' \<mapsto> c'))"
proof -
  have ok: "c_name c' \<noteq> []" "c_domain c' \<noteq> []" "\<not> (same_site c' = SameSiteNone \<and> \<not> secure c')"
    using assms(3) by (auto simp: cookie_ok_def)
  have p: "jar_ok (purge_expired_locked now j)" using assms(1) by simp
  show ?thesis
    using ok jar_abs_purge[OF assms(1), of now] jar_abs_delete[OF p, of c'] jar_abs_put[where j = "purge_expired_locked now j" and c = c']
    by (auto simp: jar_set_def set_locked_def Let_def assms(2)[symmetric])
qed

lemmas url_eval = parse_url_def url_path_def url_host_def ascii_def find_from_def starts_with_def sub64_def tolower_def

lemma sample_urls:
  "parse_url (ascii ''https://b.c/'') = \<lparr>u_scheme = ascii ''https'', u_host = ascii ''b.c'', u_path = [47]\<rparr>"
  "parse_url (ascii ''https://a.b.c/x'') = \<lparr>u_scheme = ascii ''https'', u_host = ascii ''a.b.c'', u_path = ascii ''/x''\<rparr>"
  "parse_url (ascii ''https://b.c?next=/admin'') =
     \<lparr>u_scheme = ascii ''https'', u_host = ascii ''b.c'', u_path = ascii ''/admin''\<rparr>"
  by (simp_all add: url_eval)

definition sample_cookie :: cookie where
  "sample_cookie = default_cookie\<lparr>c_name := [97], c_value := [49], c_domain := ascii ''b.c'', c_path := [47], host_only := False,
     secure := True\<rparr>"

definition sample_jar :: jar where
  "sample_jar = \<lparr>persist_path = [], cookies = [sample_cookie], disk = (\<lambda>_. None), writable = (\<lambda>_. False)\<rparr>"

lemma sample_cookie_ok: "cookie_ok sample_cookie" "clean_cookie sample_cookie = sample_cookie" "jar_ok sample_jar"
proof -
  show c: "cookie_ok sample_cookie" by code_simp
  show "clean_cookie sample_cookie = sample_cookie" by code_simp
  show "jar_ok sample_jar" using c by (simp add: jar_ok_def sample_jar_def)
qed

theorem jar_set_refines_update_witness:
  "jar_abs (fst (jar_set 5 sample_cookie sample_jar)) (key_of_cookie sample_cookie) = Some sample_cookie"
proof -
  have "\<not> expired 5 sample_cookie" by code_simp
  then show ?thesis
    using jar_set_refines_update[OF sample_cookie_ok(3) sample_cookie_ok(2)[symmetric] sample_cookie_ok(1), of 5]
    by simp
qed

text \<open>C11: A request carries exactly the cookies that belong to it, each once and longer paths first: those
  of the jar that have not expired; a secure one only over https; a host-only one only to its own host, any
  other to its domain and all its subdomains; and only below its path, which ends at a slash.\<close>

theorem request_cookies_scoped:
  assumes "jar_ok j" and "h = u_host (parse_url url)" and "r = u_path (parse_url url)"
  shows "(c \<in> set (request_cookies now url j) \<longleftrightarrow>
      c \<in> set (cookies j) \<and> \<not> (0 < expires c \<and> expires c \<le> now) \<and>
      (secure c \<longrightarrow> u_scheme (parse_url url) = ascii ''https'') \<and>
      (if host_only c then h = c_domain c else \<exists>sub. h = sub @ c_domain c \<and> (sub = [] \<or> last sub = 46)) \<and>
      (\<exists>rest. r = c_path c @ rest \<and> (rest = [] \<or> hd rest = 47 \<or> last (c_path c) = 47))) \<and>
    distinct (request_cookies now url j) \<and>
    sorted (map (\<lambda>c. - int (length (c_path c))) (request_cookies now url j))"
proof -
  have el: "eligible now (parse_url url) c \<longleftrightarrow> \<not> (0 < expires c \<and> expires c \<le> now) \<and>
      (secure c \<longrightarrow> u_scheme (parse_url url) = ascii ''https'') \<and>
      (if host_only c then h = c_domain c else \<exists>sub. h = sub @ c_domain c \<and> (sub = [] \<or> last sub = 46)) \<and>
      (\<exists>rest. r = c_path c @ rest \<and> (rest = [] \<or> hd rest = 47 \<or> last (c_path c) = 47))"
    if "c \<in> set (cookies j)"
  proof -
    have ne: "c_domain c \<noteq> []" "c_path c \<noteq> []"
      using that assms(1) by (auto simp: jar_ok_def list_all_iff cookie_ok_def)
    show ?thesis
      unfolding eligible_def expired_def assms(2,3) domain_matches_iff[OF ne(1)]
        path_matches_iff[OF ne(2) parse_url_path] by blast
  qed
  have "distinct (cookies j)" using assms(1) by (simp add: jar_ok_def distinct_map)
  then have "distinct (request_cookies now url j)" by (simp add: request_cookies_def)
  moreover have "sorted (map (\<lambda>c. - int (length (c_path c))) (request_cookies now url j))"
    unfolding request_cookies_def by (rule sorted_sort_key)
  moreover have "c \<in> set (request_cookies now url j) \<longleftrightarrow> c \<in> set (cookies j) \<and> eligible now (parse_url url) c"
    by (simp add: request_cookies_def)
  ultimately show ?thesis using el by blast
qed

theorem request_cookies_scoped_witness:
  "let c = sample_cookie\<lparr>c_path := ascii ''/x''\<rparr>; j = sample_jar\<lparr>cookies := [sample_cookie, c]\<rparr>
   in c \<in> set (request_cookies 5 (ascii ''https://a.b.c/x/y'') j) \<and>
     c \<notin> set (request_cookies 5 (ascii ''https://a.b.c/xy'') j) \<and>
     sample_cookie \<in> set (request_cookies 5 (ascii ''https://a.b.c/xy'') j)"
proof -
  let ?c = "sample_cookie\<lparr>c_path := ascii ''/x''\<rparr>"
  let ?j = "sample_jar\<lparr>cookies := [sample_cookie, ?c]\<rparr>"
  have urls: "parse_url (ascii ''https://a.b.c/x/y'') = \<lparr>u_scheme = ascii ''https'', u_host = ascii ''a.b.c'', u_path = ascii ''/x/y''\<rparr>"
    "parse_url (ascii ''https://a.b.c/xy'') = \<lparr>u_scheme = ascii ''https'', u_host = ascii ''a.b.c'', u_path = ascii ''/xy''\<rparr>"
    by (simp_all add: url_eval)
  have j: "jar_ok ?j" by code_simp
  have host: "ascii ''a.b.c'' = ascii ''a.'' @ ascii ''b.c''" "last (ascii ''a.'') = 46" by code_simp+
  have slash: "ascii ''/x/y'' = ascii ''/x'' @ ascii ''/y''" "hd (ascii ''/y'') = 47" "ascii ''/xy'' = [47] @ ascii ''xy''"
    by code_simp+
  have no: "\<nexists>rest. ascii ''/xy'' = ascii ''/x'' @ rest \<and> (rest = [] \<or> hd rest = 47 \<or> last (ascii ''/x'') = 47)"
    by (auto simp: url_eval)
  have fields: "expires sample_cookie = 0" "host_only sample_cookie = False" "c_domain sample_cookie = ascii ''b.c''"
    "c_path sample_cookie = [47]"
    by (simp_all add: sample_cookie_def default_cookie_def)
  note scoped = request_cookies_scoped[OF j refl refl, THEN conjunct1]
  have "?c \<in> set (request_cookies 5 (ascii ''https://a.b.c/x/y'') ?j)"
    unfolding scoped urls using host slash(1,2) by (auto simp: fields)
  moreover have "?c \<notin> set (request_cookies 5 (ascii ''https://a.b.c/xy'') ?j)"
    unfolding scoped urls using no by simp
  moreover have "sample_cookie \<in> set (request_cookies 5 (ascii ''https://a.b.c/xy'') ?j)"
    unfolding scoped urls using host slash(3) by (auto simp: fields)
  ultimately show ?thesis by (simp add: Let_def)
qed

text \<open>C39: A server can set cookies only for its own host or a parent domain of it.\<close>

theorem set_cookie_own_domain:
  assumes "parse_set_cookie get_time now header url = Parsed c" and "h = u_host (parse_url url)" and "h \<noteq> []"
  shows "c_name c \<noteq> [] \<and> (\<exists>sub. h = sub @ c_domain c \<and> (sub = [] \<or> last sub = 46)) \<and>
    \<not> (same_site c = SameSiteNone \<and> \<not> secure c)"
proof -
  let ?pair = "before 59 header"
  let ?c = "default_cookie\<lparr>c_name := trim (before 61 ?pair), c_value := trim (after 61 ?pair),
      c_domain := h, c_path := default_cookie_path (u_path (parse_url url))\<rparr>"
  obtain s where s: "parse_attrs get_time now h (after 59 header) (?c, False) = Inr (c, s)"
    "c_name ?c \<noteq> []" "\<not> (same_site c = SameSiteNone \<and> \<not> secure c)"
    using assms(1,2)
    by (auto simp: parse_set_cookie_def Let_def dest: parse_attrs_Inl split: if_splits sum.splits parsed_cookie.splits)
  have "domain_matches (c_domain (fst (?c, False))) False h"
    using assms(3) by (simp add: domain_matches_def)
  from parse_attrs_domain[OF s(1) assms(3) this] s(2,3) domain_matches_suffix show ?thesis by auto
qed

theorem set_cookie_own_domain_witness:
  "\<exists>c sub. parse_set_cookie (\<lambda>_ _. None) 0 (ascii ''id=1'') (ascii ''https://a.b.c/x'') = Parsed c \<and>
     ascii ''a.b.c'' = sub @ c_domain c \<and> (sub = [] \<or> last sub = 46)"
proof -
  have "before 59 (ascii ''id=1'') = ascii ''id=1''" "after 59 (ascii ''id=1'') = []" "61 \<in> set (ascii ''id=1'')"
    "trim (before 61 (ascii ''id=1'')) = ascii ''id''"
    by code_simp+
  then have "\<exists>c. parse_set_cookie (\<lambda>_ _. None) 0 (ascii ''id=1'') (ascii ''https://a.b.c/x'') = Parsed c"
    by (simp add: parse_set_cookie_def sample_urls parse_attrs.simps default_cookie_def)
  then obtain c where c: "parse_set_cookie (\<lambda>_ _. None) 0 (ascii ''id=1'') (ascii ''https://a.b.c/x'') = Parsed c"
    by blast
  have "ascii ''a.b.c'' = u_host (parse_url (ascii ''https://a.b.c/x''))" by (simp add: sample_urls)
  from set_cookie_own_domain[OF c this] c show ?thesis by auto
qed

text \<open>
  Saving and loading: cookies without tabs or newlines, with a non-empty value, come back
  from the Netscape file in order and unchanged, except that their \<^verbatim>\<open>SameSite\<close> mode is lost.\<close>

theorem netscape_round_trip:
  assumes "list_all (\<lambda>c. storable c \<and> c_value c \<noteq> [] \<and> \<not> expired now c) (cookies j)" and "jar_ok j"
    and "p \<noteq> []" and "writable j p" and "persist_path j = p"
  shows "cookies (new_jar now p (disk (schedule_save_locked j)) w) = map stored_cookie (cookies j)"
proof -
  let ?hd = "ascii ''# Netscape HTTP Cookie File''"
  let ?text = "?hd @ [10] @ concat (map (\<lambda>c. cookie_line c @ [10]) (cookies j))"
  have d: "disk (schedule_save_locked j) p = Some ?text"
    using assms(3-5) by (simp add: schedule_save_locked_def save_now_snapshot_def)
  have hd: "10 \<notin> set ?hd" "parse_netscape_cookie_line ?hd = None" by code_simp+
  have "list_all (\<lambda>l. 10 \<notin> set l) (map cookie_line (cookies j))"
    using assms(1) no_newline_line by (simp add: list_all_iff)
  from getlines_lines[OF this] have lines: "getlines 10 ?text = ?hd # map cookie_line (cookies j)"
    using getlines_cons[OF hd(1)] by (simp add: o_def)
  let ?j = "\<lparr>persist_path = p, cookies = [], disk = disk (schedule_save_locked j), writable = w\<rparr>"
  have "load_lines now (map cookie_line (cookies j)) ?j = ?j\<lparr>cookies := map stored_cookie (cookies j)\<rparr>"
    using load_written_lines[OF assms(1), of ?j] assms(2) by (simp add: jar_ok_def)
  then show ?thesis
    using assms(3) d hd(2) lines by (simp add: new_jar_def load_from_disk_def)
qed

theorem netscape_round_trip_witness:
  "cookies (new_jar 5 [112] (disk (schedule_save_locked (sample_jar\<lparr>persist_path := [112], writable := \<lambda>_. True\<rparr>))) (\<lambda>_. True))
   = [sample_cookie]"
proof -
  let ?j = "sample_jar\<lparr>persist_path := [112], writable := \<lambda>_. True\<rparr>"
  have "storable sample_cookie" "\<not> expired 5 sample_cookie" "c_value sample_cookie \<noteq> []" "stored_cookie sample_cookie = sample_cookie"
    by code_simp+
  moreover have "jar_ok ?j" using sample_cookie_ok(3) by (simp add: jar_ok_def)
  ultimately show ?thesis
    using netscape_round_trip[of 5 ?j "[112]" "\<lambda>_. True"] by (simp add: sample_jar_def)
qed

text \<open>A cookie with an empty value does not survive the file: the line written for it has only
  six fields and is skipped when it is read.\<close>

theorem empty_value_lost:
  assumes "storable c" and "c_value c = []"
  shows "parse_netscape_cookie_line (cookie_line c) = None"
  by (rule parse_written_line(2)[OF assms])

theorem empty_value_lost_witness:
  "parse_netscape_cookie_line (cookie_line (sample_cookie\<lparr>c_value := []\<rparr>)) = None"
proof -
  have "storable (sample_cookie\<lparr>c_value := []\<rparr>)" "c_value (sample_cookie\<lparr>c_value := []\<rparr>) = []" by code_simp+
  then show ?thesis by (rule empty_value_lost)
qed

text \<open>
  The usual way to delete a cookie does not: an expiry date at the epoch is stored as 0,
  which the jar takes for a session cookie and sends.\<close>

theorem epoch_expiry_keeps_cookie:
  assumes "get_time 0 (ascii ''Thu, 01 Jan 1970 00:00:00 GMT'') = Some 0"
  shows "\<exists>j. set_from_header get_time now (ascii ''id=x; Expires=Thu, 01 Jan 1970 00:00:00 GMT'') (ascii ''https://b.c/'')
      \<lparr>persist_path = [], cookies = [], disk = (\<lambda>_. None), writable = (\<lambda>_. True)\<rparr> = Some (j, True) \<and>
    pick_for_request now (ascii ''https://b.c/'') j = ascii ''id=x''"
proof -
  let ?c = "default_cookie\<lparr>c_name := ascii ''id'', c_value := ascii ''x'', c_domain := ascii ''b.c''\<rparr>"
  let ?url = "parse_url (ascii ''https://b.c/'')" and ?date = "ascii ''Thu, 01 Jan 1970 00:00:00 GMT''"
  have parts: "before 59 (ascii ''id=x; Expires=Thu, 01 Jan 1970 00:00:00 GMT'') = ascii ''id=x''"
    "after 59 (ascii ''id=x; Expires=Thu, 01 Jan 1970 00:00:00 GMT'') = ascii '' Expires=Thu, 01 Jan 1970 00:00:00 GMT''"
    "before 61 (ascii ''id=x'') = ascii ''id''" "after 61 (ascii ''id=x'') = ascii ''x''"
    "trim (ascii ''id'') = ascii ''id''" "trim (ascii ''x'') = ascii ''x''" "61 \<in> set (ascii ''id=x'')"
    by code_simp+
  have url: "?url = \<lparr>u_scheme = ascii ''https'', u_host = ascii ''b.c'', u_path = [47]\<rparr>" "default_cookie_path [47] = [47]"
    by (rule sample_urls) code_simp
  have attr: "trim (before 59 (ascii '' Expires=Thu, 01 Jan 1970 00:00:00 GMT'')) = ascii ''Expires=Thu, 01 Jan 1970 00:00:00 GMT''"
    "after 59 (ascii '' Expires=Thu, 01 Jan 1970 00:00:00 GMT'') = []"
    "lower_ascii (trim (before 61 (ascii ''Expires=Thu, 01 Jan 1970 00:00:00 GMT''))) = ascii ''expires''"
    "trim (after 61 (ascii ''Expires=Thu, 01 Jan 1970 00:00:00 GMT'')) = ?date" "trim ?date = ?date"
    by code_simp+
  have "apply_attr get_time now (ascii ''b.c'') (ascii ''expires'') ?date (?c, False) = Inr (?c, False)"
    using assms attr(5) by (simp add: apply_attr_def parse_http_date_def default_cookie_def)
  then have "parse_attrs get_time now (ascii ''b.c'') (ascii '' Expires=Thu, 01 Jan 1970 00:00:00 GMT'') (?c, False) = Inr (?c, False)"
    using attr by (simp add: parse_attrs.simps)
  then have p: "parse_set_cookie get_time now (ascii ''id=x; Expires=Thu, 01 Jan 1970 00:00:00 GMT'') (ascii ''https://b.c/'') = Parsed ?c"
    using parts url by (simp add: parse_set_cookie_def default_cookie_def)
  have c: "clean_cookie ?c = ?c" "eligible now ?url ?c" "\<not> expired now ?c"
    by (code_simp, simp_all add: url eligible_def domain_matches_def path_matches_def expired_def default_cookie_def)
  have "jar_set now ?c \<lparr>persist_path = [], cookies = [], disk = (\<lambda>_. None), writable = (\<lambda>_. True)\<rparr> =
      (\<lparr>persist_path = [], cookies = [?c], disk = (\<lambda>_. None), writable = (\<lambda>_. True)\<rparr>, True)"
    using c(1,3) by (simp add: jar_set_def set_locked_def purge_expired_locked_def schedule_save_locked_def default_cookie_def)
  moreover have "ascii ''id'' @ [61] @ ascii ''x'' = ascii ''id=x''" by code_simp
  ultimately show ?thesis
    using p c(2) by (simp add: set_from_header_def pick_for_request_def request_cookies_def)
qed

theorem epoch_expiry_keeps_cookie_witness:
  "\<exists>j. set_from_header (\<lambda>_ _. Some 0) 100 (ascii ''id=x; Expires=Thu, 01 Jan 1970 00:00:00 GMT'') (ascii ''https://b.c/'')
      \<lparr>persist_path = [], cookies = [], disk = (\<lambda>_. None), writable = (\<lambda>_. True)\<rparr> = Some (j, True) \<and>
    pick_for_request 100 (ascii ''https://b.c/'') j = ascii ''id=x''"
  by (rule epoch_expiry_keeps_cookie) (rule refl)

text \<open>
  A slash inside the query of a URL without a path is taken for its path: the length of the
  path wraps around and the rest of the query becomes the request path.\<close>

theorem query_slash_taken_as_path:
  "u_path (parse_url (ascii ''https://b.c?next=/admin'')) = ascii ''/admin'' \<and>
   path_matches (ascii ''/admin'') (u_path (parse_url (ascii ''https://b.c?next=/admin'')))"
  by (simp add: sample_urls path_matches_def)

end
