(* ===== verification/Source_Map.thy ===== *)
theory Source_Map
  imports Ascii
begin

text \<open>
  Source maps of \<^verbatim>\<open>src/js/source_map.cpp\<close>: the base64 VLQ decoder, the parser of the
  \<^verbatim>\<open>mappings\<close> string, the lookup of an original position and the bounded cache of decoders in
  recency order. A \<^verbatim>\<open>std::string\<close> is a byte list and a \<^verbatim>\<open>string_view\<close> with an index is the
  remaining suffix. A C++ \<^verbatim>\<open>int\<close> is an integer; where the code computes one without a check the
  model returns \<open>Overflowed\<close> outside the 32-bit range, since signed overflow has no defined result.
  Parameters: \<open>json_parse\<close> for \<^verbatim>\<open>nlohmann::json::parse\<close> and \<open>canonical\<close> for
  \<^verbatim>\<open>std::filesystem::weakly_canonical\<close>, which reads the disk (\<open>None\<close> is an error code).
\<close>

section \<open>Checked integers\<close>

datatype 'a ran = Overflowed | Ran 'a

definition in_int32 :: "int \<Rightarrow> bool" where
  "in_int32 x \<longleftrightarrow> - (2 ^ 31) \<le> x \<and> x < 2 ^ 31"

definition chk :: "int \<Rightarrow> (int \<Rightarrow> 'a ran) \<Rightarrow> 'a ran" where
  "chk x k = (if in_int32 x then k x else Overflowed)"

lemma chk_in [simp]: "in_int32 x \<Longrightarrow> chk x k = k x"
  by (simp add: chk_def)

section \<open>Base64 VLQ\<close>

definition base64_vlq_value :: "u8 \<Rightarrow> int" where
  "base64_vlq_value c =
     (if 65 \<le> c \<and> c \<le> 90 then uint c - 65
      else if 97 \<le> c \<and> c \<le> 122 then uint c - 97 + 26
      else if 48 \<le> c \<and> c \<le> 57 then uint c - 48 + 52
      else if c = 43 then 62
      else if c = 47 then 63
      else - 1)"

definition vlq_signed :: "int \<Rightarrow> int" where
  "vlq_signed v = (if v AND 1 \<noteq> 0 then - (drop_bit 1 v) else drop_bit 1 v)"

fun vlq_loop :: "nat \<Rightarrow> int \<Rightarrow> bool \<Rightarrow> bytes \<Rightarrow> (int \<times> bytes) option" where
  "vlq_loop shift v saw_digit [] = (if saw_digit then Some (vlq_signed v, []) else None)"
| "vlq_loop shift v saw_digit (c # cs) =
     (let digit = base64_vlq_value c in
      if digit < 0 then None
      else let v' = v OR push_bit shift (digit AND 31); shift' = shift + 5 in
        if shift' > 30 then None
        else if digit AND 32 \<noteq> 0 then vlq_loop shift' v' True cs
        else Some (vlq_signed v', cs))"

definition decode_vlq :: "bytes \<Rightarrow> (int \<times> bytes) option" where
  "decode_vlq s = vlq_loop 0 0 False s"

section \<open>Paths\<close>

definition normalize_slashes :: "bytes \<Rightarrow> bytes" where
  "normalize_slashes s = map (\<lambda>c. if c = 92 then 47 else c) s"

definition has_file_scheme :: "bytes \<Rightarrow> bool" where
  "has_file_scheme url = starts_with (ascii ''file://'') url"

definition strip_file_scheme :: "bytes \<Rightarrow> bytes" where
  "strip_file_scheme url =
     (if \<not> has_file_scheme url then url
      else let path = drop 7 url in
        if starts_with (ascii ''localhost/'') path then drop 9 path else path)"

text \<open>
  \<^verbatim>\<open>std::filesystem::path\<close> on POSIX: \<^verbatim>\<open>parent_path\<close>, \<^verbatim>\<open>operator/\<close> with a relative right-hand
  side, and \<^verbatim>\<open>lexically_normal\<close> over the elements between separators. \<open>norm_step\<close> keeps the
  elements seen so far, last first.
\<close>

definition parent_path :: "bytes \<Rightarrow> bytes" where
  "parent_path p =
     (case rfind_char 47 p of
        None \<Rightarrow> []
      | Some i \<Rightarrow> let dir = rev (dropWhile (\<lambda>c. c = 47) (rev (take i p)))
                 in if dir = [] then take (Suc i) p else dir)"

definition path_join :: "bytes \<Rightarrow> bytes \<Rightarrow> bytes" where
  "path_join p q = (if p = [] \<or> last p = 47 then p @ q else p @ 47 # q)"

fun path_elements :: "bytes \<Rightarrow> bytes list" where
  "path_elements [] = [[]]"
| "path_elements (c # s) =
     (if c = 47 then [] # path_elements s
      else case path_elements s of e # es \<Rightarrow> (c # e) # es | [] \<Rightarrow> [[c]])"

definition norm_step :: "bool \<Rightarrow> bytes list \<Rightarrow> bytes \<Rightarrow> bytes list" where
  "norm_step rooted st e =
     (if e = [] \<or> e = ascii ''.'' then st
      else if e = ascii ''..'' then
        (if st = [] then (if rooted then [] else [e])
         else if hd st = ascii ''..'' then e # st
         else tl st)
      else e # st)"

fun join_elements :: "bytes list \<Rightarrow> bytes" where
  "join_elements [] = []"
| "join_elements [e] = e"
| "join_elements (e # es) = e @ 47 # join_elements es"

definition render_path :: "bool \<Rightarrow> bytes list \<Rightarrow> bool \<Rightarrow> bytes" where
  "render_path rooted st slash =
     (if st = [] then (if rooted then [47] else ascii ''.'')
      else (if rooted then [47] else []) @ join_elements (rev st) @
        (if slash \<and> hd st \<noteq> ascii ''..'' then [47] else []))"

definition lexically_normal :: "bytes \<Rightarrow> bytes" where
  "lexically_normal p =
     (if p = [] then []
      else let rooted = (hd p = 47); es = path_elements p
        in render_path rooted (foldl (norm_step rooted) [] es)
             (last es \<in> {[], ascii ''.'', ascii ''..''}))"

definition fs_normal :: "(bytes \<Rightarrow> bytes option) \<Rightarrow> bytes \<Rightarrow> bytes" where
  "fs_normal canonical p =
     normalize_slashes (lexically_normal (case canonical p of Some q \<Rightarrow> q | None \<Rightarrow> p))"

definition resolve_source_path :: "(bytes \<Rightarrow> bytes option) \<Rightarrow> bytes \<Rightarrow> bytes \<Rightarrow> bytes" where
  "resolve_source_path canonical module_url source =
     (let source_text = normalize_slashes (strip_file_scheme source) in
      if source_text = [] then source_text
      else if starts_with [47] source_text \<or> starts_with [60] source_text then source_text
      else let module_path = strip_file_scheme module_url in
        if module_path = [] \<or> starts_with [60] module_path then source_text
        else fs_normal canonical (path_join (parent_path module_path) source_text))"

definition apply_source_root :: "bytes \<Rightarrow> bytes \<Rightarrow> bytes" where
  "apply_source_root source_root source =
     (if source_root = [] \<or> source = [] \<or> starts_with [47] source \<or> starts_with [60] source \<or>
         has_file_scheme source
      then source
      else let out = normalize_slashes source_root
        in (if out \<noteq> [] \<and> last out \<noteq> 47 then out @ [47] else out) @ source)"

definition normalize_source_map_url :: "(bytes \<Rightarrow> bytes option) \<Rightarrow> bytes \<Rightarrow> bytes" where
  "normalize_source_map_url canonical url =
     (let s = normalize_slashes (strip_file_scheme url)
      in if s = [] \<or> starts_with [60] s then s else fs_normal canonical s)"

section \<open>Parsing\<close>

text \<open>The JSON values the parser looks at; numbers, booleans and null are \<open>JOther\<close>.\<close>

datatype json = JString bytes | JArray "json list" | JObject "(bytes \<times> json) list" | JOther

fun json_find :: "json \<Rightarrow> bytes \<Rightarrow> json option" where
  "json_find (JObject kvs) k = map_of kvs k"
| "json_find _ k = None"

fun json_string :: "json \<Rightarrow> bytes option" where
  "json_string (JString s) = Some s"
| "json_string _ = None"

fun json_items :: "json option \<Rightarrow> json list" where
  "json_items (Some (JArray xs)) = xs"
| "json_items _ = []"

definition string_or_empty :: "json option \<Rightarrow> bytes" where
  "string_or_empty j = (case j of Some (JString s) \<Rightarrow> s | _ \<Rightarrow> [])"

record segment =
  generated_column :: int
  source_index :: int
  source_line :: int
  source_column :: int
  name_index :: int

definition default_segment :: segment where
  "default_segment =
     \<lparr>generated_column = 0, source_index = - 1, source_line = - 1, source_column = - 1, name_index = - 1\<rparr>"

record decoder =
  module_url :: bytes
  generated_line_offset :: int
  mappings :: "segment list list"
  sources :: "bytes list"
  names :: "bytes list"

text \<open>The running totals of the \<^verbatim>\<open>mappings\<close> loop.\<close>

record totals =
  t_index :: int
  t_line :: int
  t_column :: int
  t_name :: int
  t_gen :: int

definition zero_totals :: totals where
  "zero_totals = \<lparr>t_index = 0, t_line = 0, t_column = 0, t_name = 0, t_gen = 0\<rparr>"

definition at_separator :: "bytes \<Rightarrow> bool" where
  "at_separator s \<longleftrightarrow> s = [] \<or> hd s = 44 \<or> hd s = 59"

fun read_fields :: "nat \<Rightarrow> bytes \<Rightarrow> (int list \<times> bytes) option" where
  "read_fields 0 s = Some ([], s)"
| "read_fields (Suc n) s =
     (if at_separator s then Some ([], s)
      else case decode_vlq s of
          None \<Rightarrow> None
        | Some (v, r) \<Rightarrow>
            (case read_fields n r of None \<Rightarrow> None | Some (vs, r') \<Rightarrow> Some (v # vs, r')))"

definition apply_fields :: "totals \<Rightarrow> int list \<Rightarrow> (totals \<times> segment) ran" where
  "apply_fields t fs =
     chk (t_gen t + fs ! 0) (\<lambda>g.
       let t = t\<lparr>t_gen := g\<rparr>; seg = default_segment\<lparr>generated_column := g\<rparr> in
       if length fs \<ge> 4 then
         chk (t_index t + fs ! 1) (\<lambda>i. chk (t_line t + fs ! 2) (\<lambda>l. chk (t_column t + fs ! 3) (\<lambda>c.
           let t = t\<lparr>t_index := i, t_line := l, t_column := c\<rparr>;
               seg = seg\<lparr>source_index := i, source_line := l, source_column := c\<rparr> in
           if length fs = 5 then
             chk (t_name t + fs ! 4) (\<lambda>n. Ran (t\<lparr>t_name := n\<rparr>, seg\<lparr>name_index := n\<rparr>))
           else Ran (t, seg))))
       else Ran (t, seg))"

lemma vlq_loop_le: "vlq_loop k v b s = Some (x, r) \<Longrightarrow> length r \<le> length s"
proof (induction k v b s rule: vlq_loop.induct)
  case (2 k v b c cs)
  then show ?case by (auto simp: Let_def le_SucI split: if_splits)
qed (simp split: if_splits)

lemma decode_vlq_shorter: "decode_vlq s = Some (x, r) \<Longrightarrow> s \<noteq> [] \<Longrightarrow> length r < length s"
  by (cases s) (auto simp: decode_vlq_def Let_def less_Suc_eq_le split: if_splits dest: vlq_loop_le)

lemma read_fields_le: "read_fields n s = Some (fs, r) \<Longrightarrow> length r \<le> length s"
proof (induction n arbitrary: s fs)
  case (Suc n)
  show ?case
  proof (cases "at_separator s")
    case False
    then obtain v q fs' where "decode_vlq s = Some (v, q)" "read_fields n q = Some (fs', r)"
      using Suc.prems by (auto split: option.splits)
    then show ?thesis
      using Suc.IH decode_vlq_shorter False by (fastforce simp: at_separator_def)
  qed (use Suc.prems in simp)
qed simp

lemma read_fields_shorter:
  assumes "read_fields (Suc n) s = Some (fs, r)" and "\<not> at_separator s"
  shows "length r < length s"
proof -
  obtain v q fs' where "decode_vlq s = Some (v, q)" "read_fields n q = Some (fs', r)"
    using assms by (auto split: option.splits)
  then show ?thesis
    using read_fields_le[of n q fs' r] decode_vlq_shorter[of s v q] assms(2) by (simp add: at_separator_def)
qed

text \<open>
  The loop over the string, with the finished lines and the current line as accumulators:
  \<open>None\<close> is \<^verbatim>\<open>std::nullopt\<close>.
\<close>

function mappings_loop ::
    "segment list list \<Rightarrow> segment list \<Rightarrow> totals \<Rightarrow> bytes \<Rightarrow> segment list list option ran" where
  "mappings_loop done_lines line t s =
     (if at_separator s then
        (if s = [] then Ran (Some (done_lines @ [line]))
         else if hd s = 59 then mappings_loop (done_lines @ [line]) [] (t\<lparr>t_gen := 0\<rparr>) (tl s)
         else mappings_loop done_lines line t (tl s))
      else case read_fields 5 s of
          None \<Rightarrow> Ran None
        | Some (fs, r) \<Rightarrow>
            if length fs \<notin> {1, 4, 5} then Ran None
            else case apply_fields t fs of
                Overflowed \<Rightarrow> Overflowed
              | Ran (t', seg) \<Rightarrow> mappings_loop done_lines (line @ [seg]) t' r)"
  by pat_completeness auto
termination
  by (relation "measure (\<lambda>(d, l, t, s). length s)")
    (auto simp: at_separator_def eval_nat_numeral simp del: read_fields.simps intro!: read_fields_shorter)

declare mappings_loop.simps [simp del]

definition decode_mappings :: "bytes \<Rightarrow> segment list list option ran" where
  "decode_mappings s = mappings_loop [] [] zero_totals s"

definition parse_source_map ::
    "(bytes \<Rightarrow> bytes option) \<Rightarrow> (bytes \<Rightarrow> json option) \<Rightarrow> bytes \<Rightarrow> bytes \<Rightarrow> int \<Rightarrow> decoder option ran" where
  "parse_source_map canonical json_parse url source_map_json line_offset =
     (case json_parse source_map_json of
        None \<Rightarrow> Ran None
      | Some parsed \<Rightarrow>
          (case Option.bind (json_find parsed (ascii ''mappings'')) json_string of
             None \<Rightarrow> Ran None
           | Some s \<Rightarrow>
               let source_root = string_or_empty (json_find parsed (ascii ''sourceRoot''));
                   srcs = map (\<lambda>j. case j of JString x \<Rightarrow> apply_source_root source_root x | _ \<Rightarrow> [])
                            (json_items (json_find parsed (ascii ''sources'')));
                   nms = map (\<lambda>j. string_or_empty (Some j)) (json_items (json_find parsed (ascii ''names'')))
               in case decode_mappings s of
                    Overflowed \<Rightarrow> Overflowed
                  | Ran None \<Rightarrow> Ran None
                  | Ran (Some ls) \<Rightarrow>
                      if ls = [] \<or> srcs = [] then Ran None
                      else Ran (Some \<lparr>module_url = normalize_source_map_url canonical url,
                             generated_line_offset = max line_offset 0,
                             mappings = ls, sources = srcs, names = nms\<rparr>)))"

section \<open>Lookup\<close>

record source_mapped_position =
  pos_source :: bytes
  pos_line :: int
  pos_column :: int
  pos_name :: bytes

fun best_segment :: "int \<Rightarrow> segment option \<Rightarrow> segment list \<Rightarrow> segment option" where
  "best_segment col best [] = best"
| "best_segment col best (seg # segs) =
     (if generated_column seg \<le> col then best_segment col (Some seg) segs else best)"

definition segment_position ::
    "(bytes \<Rightarrow> bytes option) \<Rightarrow> decoder \<Rightarrow> segment \<Rightarrow> source_mapped_position option ran" where
  "segment_position canonical d best =
     (if source_index best < 0 \<or> source_line best < 0 \<or> source_column best < 0 then Ran None
      else let i = nat (source_index best) in
        if i \<ge> length (sources d) then Ran None
        else chk (source_line best + 1) (\<lambda>l. chk (source_column best + 1) (\<lambda>c.
          Ran (Some \<lparr>pos_source = resolve_source_path canonical (module_url d) (sources d ! i),
            pos_line = l, pos_column = c,
            pos_name = (if name_index best \<ge> 0 \<and> nat (name_index best) < length (names d)
                        then names d ! nat (name_index best) else [])\<rparr>))))"

definition decoder_position ::
    "(bytes \<Rightarrow> bytes option) \<Rightarrow> decoder \<Rightarrow> int \<Rightarrow> int \<Rightarrow> source_mapped_position option ran" where
  "decoder_position canonical d line column =
     chk (line - 1) (\<lambda>l. chk (l - generated_line_offset d) (\<lambda>zero_line.
       if zero_line < 0 then Ran None
       else if nat zero_line \<ge> length (mappings d) then Ran None
       else let segments = mappings d ! nat zero_line in
         if segments = [] then Ran None
         else chk (column - 1) (\<lambda>c.
           let best = (case best_segment (max c 0) None segments of Some b \<Rightarrow> b | None \<Rightarrow> hd segments)
           in segment_position canonical d best)))"

definition decoder_empty :: "decoder \<Rightarrow> bool" where
  "decoder_empty d \<longleftrightarrow> mappings d = [] \<or> sources d = []"

section \<open>The cache\<close>

record sm_cache =
  sm_capacity :: nat
  sm_entries :: "(bytes \<times> decoder) list"

definition new_sm_cache :: "nat \<Rightarrow> sm_cache" where
  "new_sm_cache cap = \<lparr>sm_capacity = (if cap = 0 then 1 else cap), sm_entries = []\<rparr>"

definition sm_erase :: "(bytes \<Rightarrow> bytes option) \<Rightarrow> bytes \<Rightarrow> sm_cache \<Rightarrow> sm_cache" where
  "sm_erase canonical url c =
     c\<lparr>sm_entries := filter (\<lambda>e. fst e \<noteq> normalize_source_map_url canonical url) (sm_entries c)\<rparr>"

definition sm_put :: "(bytes \<Rightarrow> bytes option) \<Rightarrow> bytes \<Rightarrow> decoder \<Rightarrow> sm_cache \<Rightarrow> sm_cache" where
  "sm_put canonical url d c =
     (let key = normalize_source_map_url canonical url in
      if key = [] \<or> decoder_empty d then c
      else let c = sm_erase canonical key c
        in c\<lparr>sm_entries := take (sm_capacity c) ((key, d) # sm_entries c)\<rparr>)"

definition sm_put_json ::
    "(bytes \<Rightarrow> bytes option) \<Rightarrow> (bytes \<Rightarrow> json option) \<Rightarrow> bytes \<Rightarrow> bytes \<Rightarrow> int \<Rightarrow> sm_cache \<Rightarrow> sm_cache ran" where
  "sm_put_json canonical json_parse url source_map_json line_offset c =
     (case parse_source_map canonical json_parse url source_map_json line_offset of
        Overflowed \<Rightarrow> Overflowed
      | Ran None \<Rightarrow> Ran c
      | Ran (Some d) \<Rightarrow> Ran (sm_put canonical url d c))"

definition sm_clear :: "sm_cache \<Rightarrow> sm_cache" where
  "sm_clear c = c\<lparr>sm_entries := []\<rparr>"

definition sm_position ::
    "(bytes \<Rightarrow> bytes option) \<Rightarrow> bytes \<Rightarrow> int \<Rightarrow> int \<Rightarrow> sm_cache \<Rightarrow>
       (source_mapped_position option \<times> sm_cache) ran" where
  "sm_position canonical url line column c =
     (let key = normalize_source_map_url canonical url in
      case filter (\<lambda>i. fst (sm_entries c ! i) = key) [0..<length (sm_entries c)] of
        [] \<Rightarrow> Ran (None, c)
      | i # _ \<Rightarrow>
          let e = sm_entries c ! i in
          (case decoder_position canonical (snd e) line column of
             Overflowed \<Rightarrow> Overflowed
           | Ran mapped \<Rightarrow>
               Ran (mapped, c\<lparr>sm_entries := e # take i (sm_entries c) @ drop (Suc i) (sm_entries c)\<rparr>)))"

definition source_maps :: sm_cache where
  "source_maps = new_sm_cache 64"

end
