(* ===== verification/Source_Map_Correct.thy ===== *)
theory Source_Map_Correct
  imports Source_Map
begin

text \<open>
  Correctness of the source map component. The first part writes a reference encoder for the
  \<^verbatim>\<open>mappings\<close> string and shows that the parser inverts it; the second part states what a lookup
  returns. Keys and states of the cache are the subject of \<^verbatim>\<open>Source_Map_Cache\<close>.
\<close>

section \<open>VLQ numbers\<close>

definition vlq_char :: "nat \<Rightarrow> u8" where
  "vlq_char n = of_nat
     (if n < 26 then 65 + n else if n < 52 then 71 + n else if n < 62 then n - 4
      else if n = 62 then 43 else 47)"

fun vlq_digits :: "nat \<Rightarrow> bytes" where
  "vlq_digits n = (if n < 32 then [vlq_char n] else vlq_char (32 + n mod 32) # vlq_digits (n div 32))"

declare vlq_digits.simps [simp del]

definition encode_vlq :: "int \<Rightarrow> bytes" where
  "encode_vlq v = vlq_digits (if v < 0 then nat (2 * (- v) + 1) else nat (2 * v))"

lemma int_and_masks:
  "list_all (\<lambda>n. int n AND 31 = int (n mod 32) \<and> (int n AND 32 \<noteq> 0 \<longleftrightarrow> 32 \<le> n)) [0..<64]"
  by code_simp

lemma unat_small: "n < 256 \<Longrightarrow> unat (of_nat n :: u8) = n"
  by (simp add: unsigned_of_nat take_bit_nat_eq_self_iff)

lemma vlq_char_value:
  assumes "n < 64"
  shows "base64_vlq_value (vlq_char n) = int n" "vlq_char n \<noteq> 44" "vlq_char n \<noteq> 59"
    "int n AND 31 = int (n mod 32)" "int n AND 32 \<noteq> 0 \<longleftrightarrow> 32 \<le> n"
proof -
  let ?m = "if n < 26 then 65 + n else if n < 52 then 71 + n else if n < 62 then n - 4
      else if n = 62 then 43 else 47"
  have u: "unat (vlq_char n) = ?m"
    unfolding vlq_char_def using assms by (intro unat_small) auto
  then have i: "uint (vlq_char n) = int ?m" unfolding uint_nat by (rule arg_cong)
  show "base64_vlq_value (vlq_char n) = int n"
    unfolding base64_vlq_value_def word_le_nat_alt word_unat_eq_iff i u using assms by (auto split: if_splits)
  show "vlq_char n \<noteq> 44" "vlq_char n \<noteq> 59"
    unfolding word_unat_eq_iff u using assms by auto
  show "int n AND 31 = int (n mod 32)" "int n AND 32 \<noteq> 0 \<longleftrightarrow> 32 \<le> n"
    using int_and_masks assms by (simp_all only: list_all_iff set_upt) simp_all
qed

lemma or_digits: "v OR push_bit k (int (n mod 32)) OR push_bit (k + 5) (int (n div 32)) = v OR push_bit k (int n)"
proof -
  have "int (n mod 32) OR push_bit 5 (int (n div 32)) = int n"
  proof -
    have "int (n mod 32) = take_bit 5 (int n)" "int (n div 32) = drop_bit 5 (int n)"
      by (simp_all add: take_bit_eq_mod drop_bit_eq_div zmod_int zdiv_int)
    then show ?thesis by (auto intro!: bit_eqI simp: bit_simps)
  qed
  then have "push_bit k (int (n mod 32)) OR push_bit (k + 5) (int (n div 32)) = push_bit k (int n)"
    by (metis push_bit_or push_bit_push_bit add.commute)
  then show ?thesis by (simp add: or.assoc)
qed

lemma vlq_loop_digits:
  "n < 2 ^ (30 - 5 * k) \<Longrightarrow> k \<le> 5 \<Longrightarrow>
   vlq_loop (5 * k) v b (vlq_digits n @ rest) = Some (vlq_signed (v OR push_bit (5 * k) (int n)), rest)"
proof (induction n arbitrary: k v b rule: vlq_digits.induct)
  case (1 n)
  show ?case
  proof (cases "n < 32")
    case True
    have "int n AND 31 = int n" using vlq_char_value(4)[of n] True by simp
    then show ?thesis
      using True "1.prems" vlq_char_value[of n] by (simp add: vlq_digits.simps[of n] Let_def)
  next
    case False
    have k: "k < 5"
    proof (rule ccontr)
      assume "\<not> k < 5"
      then have "k = 5" using "1.prems" by simp
      then show False using "1.prems" False by simp
    qed
    then have e: "30 - 5 * k = 5 + (30 - 5 * Suc k)" by simp
    have "n div 32 < 2 ^ (30 - 5 * Suc k)"
      using "1.prems"(1) unfolding e power_add by (simp add: less_mult_imp_div_less mult.commute)
    then have "vlq_loop (5 * Suc k) (v OR push_bit (5 * k) (int (n mod 32))) True (vlq_digits (n div 32) @ rest) =
        Some (vlq_signed ((v OR push_bit (5 * k) (int (n mod 32))) OR push_bit (5 * Suc k) (int (n div 32))), rest)"
      using "1.IH"[OF False, of "Suc k"] k by simp
    moreover have "5 * Suc k = 5 * k + 5" by simp
    moreover have "base64_vlq_value (vlq_char (32 + n mod 32)) = int (32 + n mod 32)"
      "int (32 + n mod 32) AND 31 = int (n mod 32)" "int (32 + n mod 32) AND 32 \<noteq> 0"
      using vlq_char_value[of "32 + n mod 32"] by simp_all
    ultimately show ?thesis
      using False k or_digits[of v "5 * k" n]
      by (simp add: vlq_digits.simps[of n] Let_def or.assoc add.commute[of _ 5] del: of_nat_add)
  qed
qed

lemma decode_encode_vlq [codec_simps]:
  assumes "\<bar>v\<bar> < 2 ^ 29"
  shows "decode_vlq (encode_vlq v @ rest) = Some (v, rest)"
proof (cases "v < 0")
  case True
  let ?n = "nat (2 * (- v) + 1)"
  have "vlq_signed (int ?n) = v"
    using True by (simp add: vlq_signed_def drop_bit_eq_div and_one_eq) presburger
  then show ?thesis
    using vlq_loop_digits[of ?n 0 0 False rest] True assms by (simp add: decode_vlq_def encode_vlq_def)
next
  case False
  let ?n = "nat (2 * v)"
  have "vlq_signed (int ?n) = v" using False by (simp add: vlq_signed_def drop_bit_eq_div and_one_eq)
  then show ?thesis
    using vlq_loop_digits[of ?n 0 0 False rest] False assms by (simp add: decode_vlq_def encode_vlq_def)
qed

interpretation vlq: prefix_codec encode_vlq decode_vlq "\<lambda>v. \<bar>v\<bar> < 2 ^ 29"
  by unfold_locales (rule decode_encode_vlq)

lemma encode_vlq_start [simp]: "\<not> at_separator (encode_vlq v @ rest)"
proof -
  have "\<not> at_separator (vlq_digits n @ rest)" for n
    using vlq_char_value(2,3)[of n] vlq_char_value(2,3)[of "32 + n mod 32"]
    by (simp add: at_separator_def vlq_digits.simps[of n])
  then show ?thesis by (simp add: encode_vlq_def)
qed

section \<open>The mappings string\<close>

text \<open>
  The reference encoder: a segment with \<open>source_index = -1\<close> has one field, one with
  \<open>name_index = -1\<close> four, any other five; every field is the difference to the running total.
\<close>

definition segment_fields :: "totals \<Rightarrow> segment \<Rightarrow> int list" where
  "segment_fields t s =
     (generated_column s - t_gen t) #
     (if source_index s = - 1 then []
      else [source_index s - t_index t, source_line s - t_line t, source_column s - t_column t] @
        (if name_index s = - 1 then [] else [name_index s - t_name t]))"

definition totals_after :: "totals \<Rightarrow> segment \<Rightarrow> totals" where
  "totals_after t s =
     (let t = t\<lparr>t_gen := generated_column s\<rparr> in
      if source_index s = - 1 then t
      else let t = t\<lparr>t_index := source_index s, t_line := source_line s, t_column := source_column s\<rparr>
        in if name_index s = - 1 then t else t\<lparr>t_name := name_index s\<rparr>)"

definition encode_segment :: "totals \<Rightarrow> segment \<Rightarrow> bytes" where
  "encode_segment t s = concat (map encode_vlq (segment_fields t s))"

fun encode_line :: "totals \<Rightarrow> segment list \<Rightarrow> bytes" where
  "encode_line t [] = []"
| "encode_line t [s] = encode_segment t s"
| "encode_line t (s # ss) = encode_segment t s @ 44 # encode_line (totals_after t s) ss"

fun encode_lines :: "totals \<Rightarrow> segment list list \<Rightarrow> bytes" where
  "encode_lines t [] = []"
| "encode_lines t [l] = encode_line t l"
| "encode_lines t (l # ls) = encode_line t l @ 59 # encode_lines ((foldl totals_after t l)\<lparr>t_gen := 0\<rparr>) ls"

definition encode_mappings :: "segment list list \<Rightarrow> bytes" where
  "encode_mappings ls = encode_lines zero_totals ls"

definition small :: "int \<Rightarrow> bool" where
  "small x \<longleftrightarrow> 0 \<le> x \<and> x < 2 ^ 28"

definition wf_segment :: "segment \<Rightarrow> bool" where
  "wf_segment s \<longleftrightarrow> small (generated_column s) \<and>
     (if source_index s = - 1 then source_line s = - 1 \<and> source_column s = - 1 \<and> name_index s = - 1
      else small (source_index s) \<and> small (source_line s) \<and> small (source_column s) \<and>
        (name_index s = - 1 \<or> small (name_index s)))"

definition wf_totals :: "totals \<Rightarrow> bool" where
  "wf_totals t \<longleftrightarrow> small (t_gen t) \<and> small (t_index t) \<and> small (t_line t) \<and> small (t_column t) \<and> small (t_name t)"

lemma small_diff: "small x \<Longrightarrow> small y \<Longrightarrow> \<bar>x - y\<bar> < 2 ^ 29"
  by (simp add: small_def abs_less_iff)

lemma small_int32: "small x \<Longrightarrow> in_int32 x"
  by (simp add: small_def in_int32_def)

lemma wf_totals_after: "wf_totals t \<Longrightarrow> wf_segment s \<Longrightarrow> wf_totals (totals_after t s)"
  by (auto simp: wf_totals_def wf_segment_def totals_after_def Let_def split: if_splits)

lemma wf_totals_foldl: "wf_totals t \<Longrightarrow> list_all wf_segment l \<Longrightarrow> wf_totals (foldl totals_after t l)"
  by (induction l arbitrary: t) (simp_all add: wf_totals_after)

lemma read_fields_encoded:
  "list_all (\<lambda>v. \<bar>v\<bar> < 2 ^ 29) vs \<Longrightarrow> length vs \<le> n \<Longrightarrow> at_separator rest \<Longrightarrow>
   read_fields n (concat (map encode_vlq vs) @ rest) = Some (vs, rest)"
proof (induction vs arbitrary: n)
  case Nil
  then show ?case by (cases n) simp_all
next
  case (Cons v vs)
  then obtain m where "n = Suc m" by (cases n) auto
  then show ?case using Cons by (simp add: decode_encode_vlq)
qed

lemma segment_fields_small:
  "wf_totals t \<Longrightarrow> wf_segment s \<Longrightarrow> list_all (\<lambda>v. \<bar>v\<bar> < 2 ^ 29) (segment_fields t s)"
  unfolding wf_totals_def wf_segment_def segment_fields_def
  by (auto simp del: power_numeral intro: small_diff split: if_splits)

lemma segment_fields_length: "length (segment_fields t s) \<in> {1, 4, 5}"
  by (simp add: segment_fields_def)

lemma apply_segment_fields:
  assumes "wf_segment s"
  shows "apply_fields t (segment_fields t s) = Ran (totals_after t s, s)"
proof -
  have i: "in_int32 (generated_column s)"
    "source_index s \<noteq> - 1 \<Longrightarrow> in_int32 (source_index s) \<and> in_int32 (source_line s) \<and> in_int32 (source_column s)"
    "source_index s \<noteq> - 1 \<Longrightarrow> name_index s \<noteq> - 1 \<Longrightarrow> in_int32 (name_index s)"
    using assms by (auto simp: wf_segment_def small_int32)
  show ?thesis
    using assms i
    by (cases "source_index s = - 1"; cases "name_index s = - 1")
      (simp_all add: apply_fields_def segment_fields_def totals_after_def default_segment_def wf_segment_def Let_def)
qed

lemma mappings_loop_segment:
  assumes "wf_totals t" "wf_segment s" "at_separator rest"
  shows "mappings_loop d l t (encode_segment t s @ rest) = mappings_loop d (l @ [s]) (totals_after t s) rest"
proof -
  have "\<not> at_separator (encode_segment t s @ rest)"
    by (simp add: encode_segment_def segment_fields_def)
  moreover have "length (segment_fields t s) \<le> 5" using segment_fields_length[of t s] by auto
  then have "read_fields 5 (encode_segment t s @ rest) = Some (segment_fields t s, rest)"
    unfolding encode_segment_def using assms by (intro read_fields_encoded segment_fields_small) auto
  ultimately show ?thesis
    using segment_fields_length[of t s] apply_segment_fields[OF assms(2), of t]
    by (subst mappings_loop.simps) (simp del: insert_iff)
qed

lemma mappings_loop_comma: "mappings_loop d l t (44 # s) = mappings_loop d l t s"
  by (subst mappings_loop.simps) (simp add: at_separator_def)

lemma mappings_loop_semicolon: "mappings_loop d l t (59 # s) = mappings_loop (d @ [l]) [] (t\<lparr>t_gen := 0\<rparr>) s"
  by (subst mappings_loop.simps) (simp add: at_separator_def)

lemma mappings_loop_end: "mappings_loop d l t [] = Ran (Some (d @ [l]))"
  by (subst mappings_loop.simps) (simp add: at_separator_def)

lemma mappings_loop_line:
  "wf_totals t \<Longrightarrow> list_all wf_segment ss \<Longrightarrow> at_separator rest \<Longrightarrow>
   mappings_loop d l t (encode_line t ss @ rest) = mappings_loop d (l @ ss) (foldl totals_after t ss) rest"
proof (induction t ss arbitrary: l rule: encode_line.induct)
  case (2 t s)
  then show ?case by (simp add: mappings_loop_segment)
next
  case (3 t s s' ss)
  let ?r = "44 # encode_line (totals_after t s) (s' # ss) @ rest"
  have "mappings_loop d l t (encode_line t (s # s' # ss) @ rest) = mappings_loop d l t (encode_segment t s @ ?r)"
    by simp
  also have "\<dots> = mappings_loop d (l @ [s]) (totals_after t s) ?r"
    using 3 by (intro mappings_loop_segment) (auto simp: at_separator_def)
  also have "\<dots> = mappings_loop d (l @ [s]) (totals_after t s) (encode_line (totals_after t s) (s' # ss) @ rest)"
    by (rule mappings_loop_comma)
  also have "\<dots> = mappings_loop d ((l @ [s]) @ s' # ss) (foldl totals_after (totals_after t s) (s' # ss)) rest"
    using 3 by (intro "3.IH") (auto simp: wf_totals_after)
  finally show ?case by simp
qed simp

lemma mappings_loop_lines:
  "ls \<noteq> [] \<Longrightarrow> wf_totals t \<Longrightarrow> list_all (list_all wf_segment) ls \<Longrightarrow>
   mappings_loop d [] t (encode_lines t ls) = Ran (Some (d @ ls))"
proof (induction t ls arbitrary: d rule: encode_lines.induct)
  case (2 t l)
  then show ?case
    using mappings_loop_line[of t l "[]" d "[]"] by (simp add: at_separator_def mappings_loop_end)
next
  case (3 t l l' ls)
  let ?t = "(foldl totals_after t l)\<lparr>t_gen := 0\<rparr>"
  have t: "wf_totals ?t" using wf_totals_foldl[of t l] 3 by (simp add: wf_totals_def small_def)
  have "mappings_loop d [] t (encode_lines t (l # l' # ls)) =
      mappings_loop d [] t (encode_line t l @ 59 # encode_lines ?t (l' # ls))" by simp
  also have "\<dots> = mappings_loop d l (foldl totals_after t l) (59 # encode_lines ?t (l' # ls))"
    using mappings_loop_line[of t l "59 # encode_lines ?t (l' # ls)" d "[]"] 3 by (simp add: at_separator_def)
  also have "\<dots> = mappings_loop (d @ [l]) [] ?t (encode_lines ?t (l' # ls))"
    by (rule mappings_loop_semicolon)
  also have "\<dots> = Ran (Some ((d @ [l]) @ l' # ls))"
    using 3 t by (intro "3.IH") auto
  finally show ?case by simp
qed simp

lemma decode_encode_mappings [codec_simps]:
  assumes "ls \<noteq> []" and "list_all (list_all wf_segment) ls"
  shows "decode_mappings (encode_mappings ls) = Ran (Some ls)"
  using mappings_loop_lines[of ls zero_totals "[]"] assms
  by (simp add: decode_mappings_def encode_mappings_def wf_totals_def zero_totals_def small_def)

text \<open>C32: the parser of the \<^verbatim>\<open>mappings\<close> string inverts the source map encoding: for any non-empty list
  of generated lines whose columns, indices and lines are below \<open>2^28\<close>, the encoded string is accepted, no
  running total overflows, and the decoded segments are the given ones, line by line.\<close>

theorem mappings_round_trip:
  assumes "ls \<noteq> []" and "list_all (list_all wf_segment) ls"
  shows "decode_mappings (encode_mappings ls) = Ran (Some ls)"
  using assms by (rule decode_encode_mappings)

definition sample_lines :: "segment list list" where
  "sample_lines =
     [[\<lparr>generated_column = 4, source_index = 0, source_line = 9, source_column = 2, name_index = 1\<rparr>,
       \<lparr>generated_column = 100, source_index = - 1, source_line = - 1, source_column = - 1, name_index = - 1\<rparr>],
      [], [\<lparr>generated_column = 0, source_index = 0, source_line = 3, source_column = 70, name_index = - 1\<rparr>]]"

lemma sample_lines_wf: "sample_lines \<noteq> []" "list_all (list_all wf_segment) sample_lines"
  by (simp_all add: sample_lines_def wf_segment_def small_def)

theorem mappings_round_trip_witness:
  "decode_mappings (encode_mappings sample_lines) = Ran (Some sample_lines)"
  using mappings_round_trip[OF sample_lines_wf] .

section \<open>Lookup\<close>

lemma best_segment_takeWhile:
  "best_segment col b segs =
     (let pre = takeWhile (\<lambda>s. generated_column s \<le> col) segs in if pre = [] then b else Some (last pre))"
  by (induction segs arbitrary: b) (simp_all add: Let_def)

lemma takeWhile_filter_sorted:
  "sorted (map f xs) \<Longrightarrow> takeWhile (\<lambda>x. f x \<le> c) xs = filter (\<lambda>x. f x \<le> c) xs" for c :: int
proof (induction xs)
  case (Cons x xs)
  have "filter (\<lambda>y. f y \<le> c) xs = []" if "\<not> f x \<le> c"
    using Cons.prems that by (fastforce simp: filter_empty_conv)
  then show ?case using Cons by simp
qed simp

lemma best_segment_sorted:
  assumes "sorted (map generated_column segs)" "filter (\<lambda>s. generated_column s \<le> col) segs = pre @ [seg]"
  shows "best_segment col None segs = Some seg"
  using assms by (simp add: best_segment_takeWhile takeWhile_filter_sorted Let_def)

text \<open>C26: a source map that encodes \<open>ls\<close> resolves every mapped generated position. For a generated
  line \<open>i\<close> whose segments are in column order, the lookup of one-based line \<open>i + 1 + off\<close> and
  one-based column \<open>col + 1\<close> answers with the last segment that starts at or before \<open>col\<close>: its
  source, joined with the source root and resolved against the module, and its one-based line, column and
  name.\<close>

theorem source_map_locates:
  assumes "json_parse txt = Some j"
    and "json_find j (ascii ''mappings'') = Some (JString (encode_mappings ls))"
    and "json_find j (ascii ''sources'') = Some (JArray (map JString srcs))"
    and "json_find j (ascii ''names'') = Some (JArray (map JString nms))"
    and "list_all (list_all wf_segment) ls" and "i < length ls"
    and "sorted (map generated_column (ls ! i))"
    and "filter (\<lambda>s. generated_column s \<le> col) (ls ! i) = pre @ [seg]"
    and "source_index seg \<noteq> - 1" and "nat (source_index seg) < length srcs"
    and "0 \<le> off" and "int i + 1 + off < 2 ^ 31" and "0 \<le> col" and "col + 1 < 2 ^ 31"
  shows "\<exists>d. parse_source_map canonical json_parse url txt off = Ran (Some d) \<and>
    decoder_position canonical d (int i + 1 + off) (col + 1) = Ran (Some
      \<lparr>pos_source = resolve_source_path canonical (normalize_source_map_url canonical url)
         (apply_source_root (string_or_empty (json_find j (ascii ''sourceRoot''))) (srcs ! nat (source_index seg))),
       pos_line = source_line seg + 1, pos_column = source_column seg + 1,
       pos_name = (if name_index seg \<noteq> - 1 \<and> nat (name_index seg) < length nms
                   then nms ! nat (name_index seg) else [])\<rparr>)"
proof -
  let ?root = "string_or_empty (json_find j (ascii ''sourceRoot''))"
  let ?d = "\<lparr>module_url = normalize_source_map_url canonical url, generated_line_offset = off,
    mappings = ls, sources = map (apply_source_root ?root) srcs, names = nms\<rparr>"
  have ne: "ls \<noteq> []" "srcs \<noteq> []" "ls ! i \<noteq> []" using assms(6,8,10) by auto
  have parse: "parse_source_map canonical json_parse url txt off = Ran (Some ?d)"
    using ne assms(1-5,11) decode_encode_mappings[OF ne(1) assms(5)]
    by (simp add: parse_source_map_def comp_def string_or_empty_def)
  have "seg \<in> set (filter (\<lambda>s. generated_column s \<le> col) (ls ! i))"
    unfolding assms(8) by simp
  then have "wf_segment seg" using assms(5,6) by (auto simp: list_all_iff)
  then have small: "0 \<le> source_index seg" "0 \<le> source_line seg" "source_line seg < 2 ^ 28"
      "0 \<le> source_column seg" "source_column seg < 2 ^ 28" "name_index seg = - 1 \<or> 0 \<le> name_index seg"
    using assms(9) by (auto simp: wf_segment_def small_def)
  have best: "best_segment (max col 0) None (ls ! i) = Some seg"
    using best_segment_sorted[OF assms(7,8)] assms(13) by simp
  have pos: "segment_position canonical ?d seg = Ran (Some
      \<lparr>pos_source = resolve_source_path canonical (module_url ?d) (sources ?d ! nat (source_index seg)),
       pos_line = source_line seg + 1, pos_column = source_column seg + 1,
       pos_name = (if name_index seg \<noteq> - 1 \<and> nat (name_index seg) < length nms
                   then nms ! nat (name_index seg) else [])\<rparr>)"
    using small assms(10) by (auto simp: segment_position_def in_int32_def)
  have "decoder_position canonical ?d (int i + 1 + off) (col + 1) = segment_position canonical ?d seg"
    using ne assms(6,11-14) best by (simp add: decoder_position_def in_int32_def)
  then show ?thesis using parse pos assms(10) by simp
qed

definition sample_map :: json where
  "sample_map = JObject
     [(ascii ''mappings'', JString (encode_mappings sample_lines)),
      (ascii ''sources'', JArray (map JString [ascii ''../src/app.ts''])),
      (ascii ''names'', JArray (map JString [ascii ''a'', ascii ''main'']))]"

theorem source_map_locates_witness:
  "\<exists>d. parse_source_map Some (\<lambda>_. Some sample_map) (ascii ''/app/dist/app.js'') [] 0 = Ran (Some d) \<and>
     decoder_position Some d 1 51 = Ran (Some
       \<lparr>pos_source = ascii ''/app/src/app.ts'', pos_line = 10, pos_column = 3, pos_name = ascii ''main''\<rparr>)"
proof -
  let ?seg = "\<lparr>generated_column = 4, source_index = 0, source_line = 9, source_column = 2, name_index = 1\<rparr>"
  have "resolve_source_path Some (normalize_source_map_url Some (ascii ''/app/dist/app.js'')) (ascii ''../src/app.ts'') =
      ascii ''/app/src/app.ts''"
    by code_simp
  then show ?thesis
    using source_map_locates[of "\<lambda>_. Some sample_map" "[]" sample_map sample_lines "[ascii ''../src/app.ts'']"
        "[ascii ''a'', ascii ''main'']" 0 50 "[]" ?seg 0 Some "ascii ''/app/dist/app.js''"] sample_lines_wf
    by (simp add: sample_map_def sample_lines_def string_or_empty_def apply_source_root_def)
qed

end
