(* ===== verification/Source_Map_Cache.thy ===== *)
theory Source_Map_Cache
  imports Source_Map_Correct "HOL-Library.Multiset"
begin

text \<open>
  Keys and states of the source map cache. \<^verbatim>\<open>lexically_normal\<close> is shown idempotent, which makes the
  normal forms of \<^verbatim>\<open>normalize_source_map_url\<close> stable (\<^verbatim>\<open>put\<close> normalises a key twice); with that, every
  reachable cache keeps its capacity and has one decoder per key.
\<close>

section \<open>Normal paths\<close>

text \<open>
  The elements \<^verbatim>\<open>lexically_normal\<close> leaves: names that are not empty, not a dot and hold no separator,
  and parent references only in front of a relative path.
\<close>

definition clean_elements :: "bool \<Rightarrow> bytes list \<Rightarrow> bool" where
  "clean_elements rooted st \<longleftrightarrow>
     (\<forall>e \<in> set st. e \<noteq> [] \<and> e \<noteq> ascii ''.'' \<and> 47 \<notin> set e) \<and>
     (\<exists>ns k. st = ns @ replicate k (ascii ''..'') \<and> ascii ''..'' \<notin> set ns \<and> (rooted \<longrightarrow> k = 0))"

lemma path_elements_ne [simp]: "path_elements p \<noteq> []"
  by (induction p) (auto split: list.splits)

lemma path_elements_no_sep: "e \<in> set (path_elements p) \<Longrightarrow> 47 \<notin> set e"
proof (induction p arbitrary: e)
  case (Cons c p)
  obtain x xs where "path_elements p = x # xs" by (cases "path_elements p") auto
  then show ?case using Cons by (auto split: if_splits)
qed simp

lemma path_elements_append: "47 \<notin> set e \<Longrightarrow> path_elements (e @ 47 # s) = e # path_elements s"
  by (induction e) (auto split: list.splits)

lemma path_elements_single: "47 \<notin> set e \<Longrightarrow> path_elements e = [e]"
  by (induction e) (auto split: list.splits)

lemma path_elements_join:
  "es \<noteq> [] \<Longrightarrow> \<forall>e \<in> set es. 47 \<notin> set e \<Longrightarrow> path_elements (join_elements es) = es"
  by (induction es rule: join_elements.induct) (auto simp: path_elements_single path_elements_append)

lemma path_elements_join_slash:
  "es \<noteq> [] \<Longrightarrow> \<forall>e \<in> set es. 47 \<notin> set e \<Longrightarrow> path_elements (join_elements es @ [47]) = es @ [[]]"
  by (induction es rule: join_elements.induct) (auto simp: path_elements_append)

lemma clean_elements_tl: "clean_elements r st \<Longrightarrow> clean_elements r (tl st)"
proof -
  assume c: "clean_elements r st"
  then obtain ns k where st: "st = ns @ replicate k (ascii ''..'')" "ascii ''..'' \<notin> set ns" "r \<longrightarrow> k = 0"
    by (auto simp: clean_elements_def)
  have "\<exists>ns' k'. tl st = ns' @ replicate k' (ascii ''..'') \<and> ascii ''..'' \<notin> set ns' \<and> (r \<longrightarrow> k' = 0)"
  proof (cases ns)
    case Nil
    show ?thesis
      using st Nil by (intro exI[of _ "[]"] exI[of _ "k - 1"]) (cases k, auto)
  next
    case (Cons a l)
    show ?thesis using st Cons by (intro exI[of _ l] exI[of _ k]) auto
  qed
  with c show ?thesis unfolding clean_elements_def by (metis list.set_sel(2) tl_Nil)
qed

lemma clean_elements_step:
  assumes c: "clean_elements r st" and e: "47 \<notin> set e"
  shows "clean_elements r (norm_step r st e)"
proof -
  obtain ns k where st: "st = ns @ replicate k (ascii ''..'')" "ascii ''..'' \<notin> set ns" "r \<longrightarrow> k = 0"
    using c by (auto simp: clean_elements_def)
  show ?thesis
  proof (cases "e = ascii ''..''")
    case True
    then have ne: "e \<noteq> []" "e \<noteq> ascii ''.''" by simp_all
    have push: "clean_elements r (e # st)" if "st = [] \<and> \<not> r \<or> st \<noteq> [] \<and> hd st = ascii ''..''"
    proof -
      have "ns = []" "\<not> r" using that st by (cases ns; cases k; auto)+
      then have "e # st = [] @ replicate (Suc k) (ascii ''..'')" using st True by simp
      then show ?thesis
        unfolding clean_elements_def using c e ne \<open>\<not> r\<close>
        by (intro conjI) (fastforce simp: clean_elements_def, metis empty_iff empty_set)
    qed
    show ?thesis using push clean_elements_tl[OF c] c True by (auto simp: norm_step_def clean_elements_def)
  next
    case False
    have "clean_elements r (e # st)" if "e \<noteq> []" "e \<noteq> ascii ''.''"
      unfolding clean_elements_def
    proof
      show "\<forall>x\<in>set (e # st). x \<noteq> [] \<and> x \<noteq> ascii ''.'' \<and> 47 \<notin> set x"
        using c e that by (auto simp: clean_elements_def)
      show "\<exists>ns' k'. e # st = ns' @ replicate k' (ascii ''..'') \<and> ascii ''..'' \<notin> set ns' \<and> (r \<longrightarrow> k' = 0)"
        using st False by (intro exI[of _ "e # ns"] exI[of _ k]) auto
    qed
    then show ?thesis using c False by (auto simp: norm_step_def)
  qed
qed

lemma clean_elements_foldl:
  "clean_elements r st \<Longrightarrow> \<forall>e \<in> set es. 47 \<notin> set e \<Longrightarrow> clean_elements r (foldl (norm_step r) st es)"
  by (induction es arbitrary: st) (simp_all add: clean_elements_step)

lemma foldl_norm_clean: "clean_elements r st \<Longrightarrow> foldl (norm_step r) [] (rev st) = st"
proof (induction st)
  case (Cons e st)
  have c: "clean_elements r st" using clean_elements_tl[OF Cons.prems] by simp
  have e: "e \<noteq> []" "e \<noteq> ascii ''.''" using Cons.prems by (auto simp: clean_elements_def)
  obtain ns k where es: "e # st = ns @ replicate k (ascii ''..'')" "ascii ''..'' \<notin> set ns" "r \<longrightarrow> k = 0"
    using Cons.prems by (auto simp: clean_elements_def)
  have "norm_step r st e = e # st"
  proof (cases "e = ascii ''..''")
    case True
    then have "ns = []" using es by (cases ns) auto
    then have "\<not> r" "st = [] \<or> hd st = ascii ''..''" using es by (cases k; cases "k - 1"; auto)+
    then show ?thesis using True e by (auto simp: norm_step_def)
  qed (use e in \<open>simp add: norm_step_def\<close>)
  then show ?case using Cons.IH[OF c] by simp
qed simp

lemma join_elements_ne: "es \<noteq> [] \<Longrightarrow> \<forall>e \<in> set es. e \<noteq> [] \<and> 47 \<notin> set e \<Longrightarrow>
   join_elements es \<noteq> [] \<and> hd (join_elements es) \<noteq> 47"
  by (induction es rule: join_elements.induct) (auto simp: neq_Nil_conv)

lemma path_elements_render:
  assumes c: "clean_elements r st" and ne: "st \<noteq> []"
  shows "path_elements (render_path r st b) =
      (if r then [[]] else []) @ rev st @ (if b \<and> hd st \<noteq> ascii ''..'' then [[]] else [])"
    and "hd (render_path r st b) = 47 \<longleftrightarrow> r" and "render_path r st b \<noteq> []"
proof -
  have no: "\<forall>e \<in> set (rev st). e \<noteq> [] \<and> 47 \<notin> set e" using c by (auto simp: clean_elements_def)
  note j = join_elements_ne[of "rev st"] path_elements_join[of "rev st"] path_elements_join_slash[of "rev st"]
  show "path_elements (render_path r st b) =
      (if r then [[]] else []) @ rev st @ (if b \<and> hd st \<noteq> ascii ''..'' then [[]] else [])"
    using j no ne by (simp add: render_path_def)
  show "hd (render_path r st b) = 47 \<longleftrightarrow> r" "render_path r st b \<noteq> []"
    using j no ne by (simp_all add: render_path_def)
qed

lemma norm_step_empty [simp]: "norm_step r st [] = st"
  by (simp add: norm_step_def)

lemma lexically_normal_render:
  assumes c: "clean_elements r st"
  shows "lexically_normal (render_path r st b) = render_path r st b"
proof (cases "st = []")
  case True
  have "lexically_normal [47] = [47]" "lexically_normal (ascii ''.'') = ascii ''.''" by code_simp+
  then show ?thesis using True by (simp add: render_path_def)
next
  case False
  let ?p = "render_path r st b" and ?slash = "b \<and> hd st \<noteq> ascii ''..''"
  note e = path_elements_render[OF c False, of b]
  have "foldl (norm_step r) [] (path_elements ?p) = st"
    unfolding e using foldl_norm_clean[OF c] by (cases r) simp_all
  moreover have "last (path_elements ?p) = (if ?slash then [] else hd st)"
    unfolding e using False by (simp add: last_rev)
  moreover have "hd st \<noteq> []" "hd st \<noteq> ascii ''.''"
    using c False by (simp_all add: clean_elements_def)
  ultimately show ?thesis
    unfolding lexically_normal_def using e(2,3) by (auto simp: render_path_def Let_def)
qed

lemma render_no_scheme:
  assumes c: "clean_elements r st"
  shows "\<not> has_file_scheme (render_path r st b)"
proof
  assume f: "has_file_scheme (render_path r st b)"
  then obtain t where t: "render_path r st b = ascii ''file:'' @ 47 # 47 # t"
    unfolding has_file_scheme_def starts_with_iff by (auto simp: ascii_def)
  show False
  proof (cases "st = []")
    case True
    then show ?thesis using t by (auto simp: render_path_def ascii_def split: if_splits)
  next
    case False
    have "path_elements (render_path r st b) = ascii ''file:'' # [] # path_elements t"
      unfolding t by (subst path_elements_append) (simp_all add: ascii_def)
    moreover have "\<not> r" using path_elements_render(2)[OF c False, of b] t by (simp add: ascii_def)
    ultimately have *: "rev st @ (if b \<and> hd st \<noteq> ascii ''..'' then [[]] else []) =
        ascii ''file:'' # [] # path_elements t"
      using path_elements_render(1)[OF c False, of b] by simp
    have "[] \<notin> set (rev st)" using c by (auto simp: clean_elements_def)
    moreover obtain x xs where "path_elements t = x # xs" by (cases "path_elements t") auto
    ultimately show False
      using * by (cases "rev st"; cases "tl (rev st)") (auto split: if_splits)
  qed
qed

lemma lexically_normal_is_render:
  assumes "p \<noteq> []"
  shows "\<exists>r st b. clean_elements r st \<and> lexically_normal p = render_path r st b"
proof -
  have "clean_elements r []" for r by (auto simp: clean_elements_def)
  then have "clean_elements (hd p = 47) (foldl (norm_step (hd p = 47)) [] (path_elements p))"
    using path_elements_no_sep by (intro clean_elements_foldl) auto
  then show ?thesis using assms by (auto simp: lexically_normal_def Let_def)
qed

lemma lexically_normal_idem [simp]: "lexically_normal (lexically_normal p) = lexically_normal p"
  by (cases "p = []") (simp add: lexically_normal_def, metis lexically_normal_is_render lexically_normal_render)

lemma lexically_normal_no_scheme: "\<not> has_file_scheme (lexically_normal p)"
  by (cases "p = []")
    (simp add: lexically_normal_def has_file_scheme_def starts_with_def, metis lexically_normal_is_render render_no_scheme)

lemma render_path_ne: "clean_elements r st \<Longrightarrow> render_path r st b \<noteq> []"
  by (cases "st = []") (simp add: render_path_def, rule path_elements_render(3))

lemma lexically_normal_ne: "p \<noteq> [] \<Longrightarrow> lexically_normal p \<noteq> []"
  by (metis lexically_normal_is_render render_path_ne)

lemma set_path_elements: "e \<in> set (path_elements p) \<Longrightarrow> set e \<subseteq> set p"
proof (induction p arbitrary: e)
  case (Cons c p)
  obtain x xs where "path_elements p = x # xs" by (cases "path_elements p") auto
  then show ?case using Cons by (fastforce split: if_splits)
qed simp

lemma set_norm_step: "set (norm_step r st e) \<subseteq> insert e (set st)"
  by (cases st) (auto simp: norm_step_def)

lemma set_norm_foldl: "set (foldl (norm_step r) st es) \<subseteq> set st \<union> set es"
  by (induction es arbitrary: st) (use set_norm_step in fastforce)+

lemma set_join_elements: "set (join_elements es) \<subseteq> insert 47 (\<Union> (set ` set es))"
  by (induction es rule: join_elements.induct) auto

lemma lexically_normal_chars: "set (lexically_normal p) \<subseteq> {46, 47} \<union> set p"
proof -
  have j: "set (join_elements (rev (foldl (norm_step r) [] (path_elements p)))) \<subseteq> insert 47 (set p)" for r
    using set_join_elements[of "rev (foldl (norm_step r) [] (path_elements p))"]
      set_norm_foldl[of r "[]" "path_elements p"] set_path_elements[of _ p] by fastforce
  have "set (ascii ''.'') = {46}" by (simp add: ascii_def)
  then show ?thesis
    using j[of "hd p = 47"] by (auto simp: lexically_normal_def render_path_def Let_def)
qed


section \<open>Keys\<close>

text \<open>
  What the component relies on of \<^verbatim>\<open>std::filesystem::weakly_canonical\<close>, on a disk whose names hold
  no backslash and does not change: it succeeds, its result is in normal form, and a canonical path is
  canonical again.
\<close>

locale weak_canonical =
  fixes canonical :: "bytes \<Rightarrow> bytes option"
  assumes canonical_ok: "p \<noteq> [] \<Longrightarrow> 92 \<notin> set p \<Longrightarrow>
    \<exists>q. canonical p = Some q \<and> q \<noteq> [] \<and> 92 \<notin> set q \<and> lexically_normal q = q \<and> canonical q = Some q"
begin

lemma fs_normal_canonical:
  assumes "p \<noteq> []" and "92 \<notin> set p"
  shows "\<exists>q. fs_normal canonical p = q \<and> q \<noteq> [] \<and> 92 \<notin> set q \<and> lexically_normal q = q \<and> canonical q = Some q"
proof -
  obtain q where q: "canonical p = Some q" "q \<noteq> []" "92 \<notin> set q" "lexically_normal q = q" "canonical q = Some q"
    using canonical_ok[OF assms] by blast
  then have "normalize_slashes q = q" by (auto simp: normalize_slashes_def intro!: map_idI)
  then show ?thesis using q by (auto simp: fs_normal_def)
qed

lemma normalize_url_idem:
  "normalize_source_map_url canonical (normalize_source_map_url canonical url) = normalize_source_map_url canonical url"
proof -
  let ?s = "normalize_slashes (strip_file_scheme url)"
  have no: "92 \<notin> set ?s" by (auto simp: normalize_slashes_def)
  have id: "normalize_slashes p = p" if "92 \<notin> set p" for p
    using that by (auto simp: normalize_slashes_def intro!: map_idI)
  consider "?s = []" | "?s \<noteq> []" "starts_with [60] ?s" | "?s \<noteq> []" "\<not> starts_with [60] ?s" by blast
  then show ?thesis
  proof cases
    case 1
    then show ?thesis
      by (simp add: normalize_source_map_url_def strip_file_scheme_def has_file_scheme_def starts_with_def normalize_slashes_def)
  next
    case 2
    then have "strip_file_scheme ?s = ?s"
      by (cases ?s) (simp_all add: strip_file_scheme_def has_file_scheme_def starts_with_def ascii_def)
    then show ?thesis using 2 id[OF no] by (simp add: normalize_source_map_url_def)
  next
    case 3
    obtain q where q: "fs_normal canonical ?s = q" "q \<noteq> []" "92 \<notin> set q" "lexically_normal q = q" "canonical q = Some q"
      using fs_normal_canonical[OF 3(1) no] by blast
    have "strip_file_scheme q = q"
      using lexically_normal_no_scheme[of q] q(4) by (simp add: strip_file_scheme_def)
    moreover have "fs_normal canonical q = q" using q id by (simp add: fs_normal_def)
    ultimately show ?thesis using 3 q id[of q] by (simp add: normalize_source_map_url_def Let_def)
  qed
qed

end

text \<open>A disk on which no queried file exists: the canonical form is the lexical one.\<close>

definition lexical_canonical :: "bytes \<Rightarrow> bytes option" where
  "lexical_canonical p = Some (lexically_normal p)"

interpretation lexical: weak_canonical lexical_canonical
proof
  fix p :: bytes
  assume "p \<noteq> []" "92 \<notin> set p"
  then show "\<exists>q. lexical_canonical p = Some q \<and> q \<noteq> [] \<and> 92 \<notin> set q \<and> lexically_normal q = q \<and> lexical_canonical q = Some q"
    using lexically_normal_chars[of p] lexically_normal_ne[of p] by (auto simp: lexical_canonical_def)
qed

section \<open>The cache\<close>

inductive sm_reachable :: "(bytes \<Rightarrow> bytes option) \<Rightarrow> (bytes \<Rightarrow> json option) \<Rightarrow> nat \<Rightarrow> sm_cache \<Rightarrow> bool"
  for canonical json_parse cap where
  start: "sm_reachable canonical json_parse cap (new_sm_cache cap)"
| put: "sm_reachable canonical json_parse cap c \<Longrightarrow> sm_reachable canonical json_parse cap (sm_put canonical url d c)"
| put_json: "sm_reachable canonical json_parse cap c \<Longrightarrow>
    sm_put_json canonical json_parse url src off c = Ran c' \<Longrightarrow> sm_reachable canonical json_parse cap c'"
| erase: "sm_reachable canonical json_parse cap c \<Longrightarrow> sm_reachable canonical json_parse cap (sm_erase canonical url c)"
| clear: "sm_reachable canonical json_parse cap c \<Longrightarrow> sm_reachable canonical json_parse cap (sm_clear c)"
| position: "sm_reachable canonical json_parse cap c \<Longrightarrow>
    sm_position canonical url l col c = Ran (res, c') \<Longrightarrow> sm_reachable canonical json_parse cap c'"

definition sm_inv :: "(bytes \<Rightarrow> bytes option) \<Rightarrow> sm_cache \<Rightarrow> bool" where
  "sm_inv canonical c \<longleftrightarrow> 1 \<le> sm_capacity c \<and> length (sm_entries c) \<le> sm_capacity c \<and>
     distinct (map fst (sm_entries c)) \<and>
     (\<forall>(k, d) \<in> set (sm_entries c). k \<noteq> [] \<and> \<not> decoder_empty d \<and> normalize_source_map_url canonical k = k)"

lemma sm_inv_subset:
  assumes "sm_inv canonical c" "sm_capacity c' = sm_capacity c" "length (sm_entries c') \<le> length (sm_entries c)"
    "distinct (map fst (sm_entries c'))" "set (sm_entries c') \<subseteq> set (sm_entries c)"
  shows "sm_inv canonical c'"
  using assms by (auto simp: sm_inv_def)

lemma distinct_map_filter_fst: "distinct (map fst es) \<Longrightarrow> distinct (map fst (filter P es))"
  by (induction es) auto

lemma sm_inv_erase: "sm_inv canonical c \<Longrightarrow> sm_inv canonical (sm_erase canonical url c)"
  by (rule sm_inv_subset, assumption) (auto simp: sm_erase_def sm_inv_def distinct_map_filter_fst)

lemma sm_inv_clear: "sm_inv canonical c \<Longrightarrow> sm_inv canonical (sm_clear c)"
  by (rule sm_inv_subset, assumption) (auto simp: sm_clear_def)

lemma sm_position_moves:
  assumes "sm_position canonical url l col c = Ran (res, c')"
  shows "c' = c \<or> (\<exists>i. i < length (sm_entries c) \<and> fst (sm_entries c ! i) = normalize_source_map_url canonical url \<and>
    c' = c\<lparr>sm_entries := sm_entries c ! i # take i (sm_entries c) @ drop (Suc i) (sm_entries c)\<rparr>)"
proof (cases "filter (\<lambda>i. fst (sm_entries c ! i) = normalize_source_map_url canonical url) [0..<length (sm_entries c)]")
  case (Cons i rest)
  then have "i \<in> set (filter (\<lambda>i. fst (sm_entries c ! i) = normalize_source_map_url canonical url) [0..<length (sm_entries c)])"
    by simp
  then have "i < length (sm_entries c)" "fst (sm_entries c ! i) = normalize_source_map_url canonical url" by simp_all
  then show ?thesis using assms Cons by (auto simp: sm_position_def Let_def split: ran.splits)
qed (use assms in \<open>auto simp: sm_position_def\<close>)

lemma mset_move_front: "i < length xs \<Longrightarrow> mset (xs ! i # take i xs @ drop (Suc i) xs) = mset xs"
proof -
  assume "i < length xs"
  then have "xs = take i xs @ xs ! i # drop (Suc i) xs" by (rule id_take_nth_drop)
  then show ?thesis by (metis mset_append mset.simps(2) union_mset_add_mset_right)
qed

lemma sm_inv_position:
  assumes "sm_inv canonical c" "sm_position canonical url l col c = Ran (res, c')"
  shows "sm_inv canonical c'"
proof -
  have "c' = c \<or> sm_capacity c' = sm_capacity c \<and> mset (sm_entries c') = mset (sm_entries c)"
    using sm_position_moves[OF assms(2)] mset_move_front by fastforce
  then show ?thesis
  proof (elim disjE conjE)
    assume e: "sm_capacity c' = sm_capacity c" "mset (sm_entries c') = mset (sm_entries c)"
    then have "mset (map fst (sm_entries c')) = mset (map fst (sm_entries c))" by simp
    then have "distinct (map fst (sm_entries c'))"
      using assms(1) mset_eq_imp_distinct_iff unfolding sm_inv_def by blast
    then show ?thesis
      using e assms(1) mset_eq_setD[OF e(2)] mset_eq_length[OF e(2)] by (intro sm_inv_subset[OF assms(1)]) auto
  qed (use assms(1) in simp)
qed

context weak_canonical
begin

lemma sm_inv_put: "sm_inv canonical c \<Longrightarrow> sm_inv canonical (sm_put canonical url d c)"
proof -
  assume c: "sm_inv canonical c"
  let ?k = "normalize_source_map_url canonical url"
  let ?e = "sm_entries (sm_erase canonical ?k c)"
  show ?thesis
  proof (cases "?k = [] \<or> decoder_empty d")
    case False
    have inv: "sm_inv canonical (sm_erase canonical ?k c)" using c by (rule sm_inv_erase)
    have k: "?k \<notin> fst ` set ?e" by (auto simp: sm_erase_def normalize_url_idem)
    have "distinct (map fst (take n ((?k, d) # ?e)))" for n
      unfolding take_map[symmetric] using inv k by (intro distinct_take) (simp add: sm_inv_def)
    moreover have "set (take n ((?k, d) # ?e)) \<subseteq> insert (?k, d) (set ?e)" for n
      using set_take_subset[of n "(?k, d) # ?e"] by simp
    moreover have "sm_put canonical url d c = sm_erase canonical ?k c\<lparr>sm_entries := take (sm_capacity c) ((?k, d) # ?e)\<rparr>"
      using False by (simp add: sm_put_def Let_def sm_erase_def)
    ultimately show ?thesis
      using inv False c unfolding sm_inv_def by (fastforce simp: normalize_url_idem sm_erase_def)
  qed (use c in \<open>simp add: sm_put_def\<close>)
qed

lemma sm_reachable_inv: "sm_reachable canonical json_parse cap c \<Longrightarrow> sm_inv canonical c"
proof (induction rule: sm_reachable.induct)
  case start
  show ?case by (simp add: sm_inv_def new_sm_cache_def)
next
  case (put_json c url src off c')
  then show ?case by (auto simp: sm_put_json_def sm_inv_put split: ran.splits option.splits)
qed (blast intro: sm_inv_put sm_inv_erase sm_inv_clear sm_inv_position)+


lemma sm_position_hit:
  assumes "sm_entries c = (normalize_source_map_url canonical url, d) # es"
    and "decoder_position canonical d l col = Ran res"
  shows "sm_position canonical url l col c = Ran (res, c)"
  using assms by (simp add: sm_position_def upt_conv_Cons del: upt_Suc)

end

lemma sm_put_front:
  assumes "normalize_source_map_url canonical url \<noteq> []" "\<not> decoder_empty d" "1 \<le> sm_capacity c"
  shows "\<exists>es. sm_entries (sm_put canonical url d c) = (normalize_source_map_url canonical url, d) # es"
  using assms by (cases "sm_capacity c") (simp_all add: sm_put_def sm_erase_def Let_def)

text \<open>every cache reachable through its operations holds at most its capacity of decoders, under
  distinct, non-empty normal-form keys, none of them empty; and a decoder put under a URL is the one
  that answers the next lookup under any spelling of that URL with the same normal form.\<close>

theorem sm_cache_correct:
  assumes canonical: "weak_canonical canonical"
    and reach: "sm_reachable canonical json_parse cap c"
    and put: "normalize_source_map_url canonical url \<noteq> []" "\<not> decoder_empty d"
    and other: "normalize_source_map_url canonical url' = normalize_source_map_url canonical url"
    and res: "decoder_position canonical d l col = Ran res"
  shows "sm_inv canonical c \<and>
    (\<exists>c'. sm_position canonical url' l col (sm_put canonical url d c) = Ran (res, c') \<and> sm_inv canonical c')"
proof -
  have inv: "sm_inv canonical c" using weak_canonical.sm_reachable_inv[OF canonical reach] .
  then obtain es where "sm_entries (sm_put canonical url d c) = (normalize_source_map_url canonical url', d) # es"
    using sm_put_front[OF put, of c] other by (auto simp: sm_inv_def)
  then have "sm_position canonical url' l col (sm_put canonical url d c) = Ran (res, sm_put canonical url d c)"
    using weak_canonical.sm_position_hit[OF canonical] res by blast
  then show ?thesis using inv weak_canonical.sm_inv_put[OF canonical inv] by blast
qed

definition sample_decoder :: decoder where
  "sample_decoder = \<lparr>module_url = ascii ''/a.js'', generated_line_offset = 0,
     mappings = [[\<lparr>generated_column = 0, source_index = 0, source_line = 3, source_column = 7, name_index = - 1\<rparr>]],
     sources = [ascii ''/a.ts''], names = []\<rparr>"

theorem sm_cache_correct_witness:
  "\<exists>c'. sm_position lexical_canonical (ascii ''file:///x/../a.js'') 1 1
      (sm_put lexical_canonical (ascii ''/a.js'') sample_decoder source_maps) =
      Ran (Some \<lparr>pos_source = ascii ''/a.ts'', pos_line = 4, pos_column = 8, pos_name = []\<rparr>, c')"
proof -
  have n: "normalize_source_map_url lexical_canonical (ascii ''/a.js'') = ascii ''/a.js''"
    "normalize_source_map_url lexical_canonical (ascii ''file:///x/../a.js'') = ascii ''/a.js''"
    by code_simp+
  have p: "decoder_position lexical_canonical sample_decoder 1 1 =
      Ran (Some \<lparr>pos_source = ascii ''/a.ts'', pos_line = 4, pos_column = 8, pos_name = []\<rparr>)"
    by code_simp
  have "sm_reachable lexical_canonical (\<lambda>_. None) 64 source_maps"
    unfolding source_maps_def by (rule sm_reachable.start)
  moreover have "\<not> decoder_empty sample_decoder" by (simp add: decoder_empty_def sample_decoder_def)
  ultimately show ?thesis
    using sm_cache_correct[OF lexical.weak_canonical_axioms _ _ _ _ p, of "\<lambda>_. None" 64 source_maps
        "ascii ''/a.js''" "ascii ''file:///x/../a.js''"] n by auto
qed

end
