(* ===== verification/Cdp_Ws.thy ===== *)
theory Cdp_Ws
  imports Ascii
begin

text \<open>
  The WebSocket side of the debug server, \<^verbatim>\<open>src/debug/cdp_ws.cpp\<close>: the HTTP request parser, the
  handshake, the frame encoder and decoder, and the reader that assembles text messages from frames
  and answers control frames. The socket is a record: what successive \<^verbatim>\<open>recv\<close> calls deliver (no
  more chunks, or an empty chunk, is the end of the stream or an error), what the \<open>n\<close>-th \<^verbatim>\<open>send\<close> call
  returns for given bytes, the number of \<^verbatim>\<open>send\<close> calls made and the bytes sent. SHA-1 of mbedTLS and
  the base64 functions of libsodium are parameters. A function that returns \<^verbatim>\<open>false\<close> with an error
  text returns the text as \<open>Inl\<close>.
\<close>

section \<open>Sockets\<close>

record socket =
  inbound :: "bytes list"
  send_ret :: "nat \<Rightarrow> bytes \<Rightarrow> int"
  sends :: nat
  outbound :: bytes

text \<open>\<^verbatim>\<open>recv(s, buf, n, 0)\<close>: at most \<open>n\<close> bytes of the next chunk; \<open>None\<close> is a result of zero or less.\<close>

definition recv :: "nat \<Rightarrow> socket \<Rightarrow> (bytes \<times> socket) option" where
  "recv n s =
     (case inbound s of
        [] \<Rightarrow> None
      | c # cs \<Rightarrow>
          if c = [] then None
          else Some (take n c, s\<lparr>inbound := (if length c \<le> n then cs else drop n c # cs)\<rparr>))"

function send_all :: "socket \<Rightarrow> bytes \<Rightarrow> bool \<times> socket" where
  "send_all s p =
     (if p = [] then (True, s)
      else let n = send_ret s (sends s) p; s1 = s\<lparr>sends := sends s + 1\<rparr> in
        if n \<le> 0 then (False, s1)
        else send_all (s1\<lparr>outbound := outbound s @ take (nat n) p\<rparr>) (drop (nat n) p))"
  by pat_completeness auto
termination
  by (relation "measure (\<lambda>(s, p). length p)") auto

declare send_all.simps [simp del]

section \<open>Text helpers\<close>

definition kMagic :: bytes where
  "kMagic = ascii ''258EAFA5-E914-47DA-95CA-C5AB0DC85B11''"

definition is_line_ws :: "u8 \<Rightarrow> bool" where
  "is_line_ws c \<longleftrightarrow> c = 32 \<or> c = 9 \<or> c = 13"

definition trim_line :: "bytes \<Rightarrow> bytes" where
  "trim_line s = rev (dropWhile is_line_ws (rev (dropWhile is_line_ws s)))"

definition append_be16 :: "bytes \<Rightarrow> u16 \<Rightarrow> bytes" where
  "append_be16 out v = out @ [ucast (drop_bit 8 v AND 0xff), ucast (v AND 0xff)]"

definition append_be64 :: "bytes \<Rightarrow> u64 \<Rightarrow> bytes" where
  "append_be64 out v = out @ map (\<lambda>i. ucast (drop_bit (i * 8) v AND 0xff)) (rev [0..<8])"

definition read_exact_from_socket :: "socket \<Rightarrow> bytes \<Rightarrow> (bytes \<times> socket) option" where
  "read_exact_from_socket s into = map_option (\<lambda>(c, s'). (into @ c, s')) (recv 1 s)"

definition sha1_hex :: "(bytes \<Rightarrow> bytes) \<Rightarrow> bytes \<Rightarrow> bytes" where
  "sha1_hex sha1 s =
     concat (map (\<lambda>b. [ascii ''0123456789abcdef'' ! unat (drop_bit 4 b AND 0x0f),
                       ascii ''0123456789abcdef'' ! unat (b AND 0x0f)]) (sha1 s))"

section \<open>HTTP\<close>

record http_request =
  req_method :: bytes
  req_path :: bytes
  req_version :: bytes
  req_headers :: "bytes \<rightharpoonup> bytes"

definition header :: "http_request \<Rightarrow> bytes \<Rightarrow> bytes" where
  "header r name = (case req_headers r (lower_ascii name) of None \<Rightarrow> [] | Some v \<Rightarrow> v)"

abbreviation crlf :: bytes where
  "crlf \<equiv> [13, 10]"

definition add_header :: "bytes \<Rightarrow> (bytes \<rightharpoonup> bytes) \<Rightarrow> (bytes \<rightharpoonup> bytes)" where
  "add_header line hs =
     (case find_char 58 line of
        None \<Rightarrow> hs
      | Some colon \<Rightarrow> hs(lower_ascii (take colon line) \<mapsto> trim_line (drop (colon + 1) line)))"

lemma find_sub_lt: "find_sub p s = Some n \<Longrightarrow> p \<noteq> [] \<Longrightarrow> n < length s"
  by (induction s arbitrary: n) (auto split: if_splits)

text \<open>The header loop from a position on, given the text behind it.\<close>

function parse_headers :: "(bytes \<rightharpoonup> bytes) \<Rightarrow> bytes \<Rightarrow> (bytes \<rightharpoonup> bytes) option" where
  "parse_headers hs s =
     (if s = [] then Some hs
      else case find_sub crlf s of
          None \<Rightarrow> None
        | Some n \<Rightarrow>
            if n = 0 then Some hs
            else parse_headers (add_header (take n s) hs) (drop (n + 2) s))"
  by pat_completeness auto
termination
  by (relation "measure (\<lambda>(hs, s). length s)") (auto dest: find_sub_lt)

declare parse_headers.simps [simp del]

definition parse_http_request :: "bytes \<Rightarrow> http_request option" where
  "parse_http_request raw =
     (case find_sub crlf raw of
        None \<Rightarrow> None
      | Some first_end \<Rightarrow>
          let first = take first_end raw in
          (case find_char 32 first of
             None \<Rightarrow> None
           | Some sp1 \<Rightarrow>
               (case find_from 32 first (sp1 + 1) of
                  None \<Rightarrow> None
                | Some sp2 \<Rightarrow>
                    map_option
                      (\<lambda>hs. \<lparr>req_method = take sp1 first, req_path = take (sp2 - sp1 - 1) (drop (sp1 + 1) first),
                             req_version = drop (sp2 + 1) first, req_headers = hs\<rparr>)
                      (parse_headers Map.empty (drop (first_end + 2) raw)))))"

function read_http_loop :: "socket \<Rightarrow> bytes \<Rightarrow> (string + bytes) \<times> socket" where
  "read_http_loop s raw =
     (if find_sub (crlf @ crlf) raw \<noteq> None then (Inr raw, s)
      else if length raw \<ge> 65536 then (Inl ''HTTP request headers too large'', s)
      else case read_exact_from_socket s raw of
          None \<Rightarrow> (Inl ''socket closed while reading HTTP request'', s)
        | Some (raw', s') \<Rightarrow> read_http_loop s' raw')"
  by pat_completeness auto
termination
  by (relation "measure (\<lambda>(s, raw). 65536 - length raw)")
    (auto simp: read_exact_from_socket_def recv_def diff_less_mono2 split: list.splits if_splits)

declare read_http_loop.simps [simp del]

definition read_http_request :: "socket \<Rightarrow> (string + http_request) \<times> socket" where
  "read_http_request s =
     (case read_http_loop s [] of
        (Inl e, s') \<Rightarrow> (Inl e, s')
      | (Inr raw, s') \<Rightarrow>
          (case parse_http_request raw of
             None \<Rightarrow> (Inl ''malformed HTTP request'', s')
           | Some r \<Rightarrow> (Inr r, s')))"

definition http_response :: "int \<Rightarrow> bytes \<Rightarrow> bytes \<Rightarrow> bytes \<Rightarrow> bytes" where
  "http_response status reason content_type body =
     ascii ''HTTP/1.1 '' @ print_int status @ [32] @ reason @ crlf @
     ascii ''Content-Type: '' @ content_type @ crlf @
     ascii ''Connection: close'' @ crlf @ ascii ''Content-Length: '' @ print_int (int (length body)) @
     crlf @ crlf @ body"

section \<open>Handshake\<close>

text \<open>
  \<open>base642bin\<close> is the decoded text where \<^verbatim>\<open>sodium_base642bin\<close> returns zero, \<open>bin2base64\<close> the text
  \<^verbatim>\<open>sodium_bin2base64\<close> writes, without its terminator.
\<close>

definition websocket_accept ::
    "(bytes \<Rightarrow> bytes) \<Rightarrow> (bytes \<Rightarrow> bytes option) \<Rightarrow> (bytes \<Rightarrow> bytes) \<Rightarrow> bytes \<Rightarrow> bytes option" where
  "websocket_accept sha1 base642bin bin2base64 key =
     (if key = [] then None
      else if length key mod 4 \<noteq> 0 then None
      else case base642bin key of
          None \<Rightarrow> None
        | Some nonce \<Rightarrow>
            if length nonce \<noteq> 16 then None
            else Some (take 28 (bin2base64 (sha1 (key @ kMagic)))))"

definition switching_response :: "bytes \<Rightarrow> bytes" where
  "switching_response accept =
     ascii ''HTTP/1.1 101 Switching Protocols'' @ crlf @ ascii ''Upgrade: websocket'' @ crlf @
     ascii ''Connection: Upgrade'' @ crlf @ ascii ''Sec-WebSocket-Accept: '' @ accept @ crlf @ crlf"

definition handshake_response ::
    "(bytes \<Rightarrow> bytes) \<Rightarrow> (bytes \<Rightarrow> bytes option) \<Rightarrow> (bytes \<Rightarrow> bytes) \<Rightarrow> http_request \<Rightarrow> bytes" where
  "handshake_response sha1 base642bin bin2base64 req =
     (case websocket_accept sha1 base642bin bin2base64 (header req (ascii ''sec-websocket-key'')) of
        None \<Rightarrow> []
      | Some accept \<Rightarrow> switching_response accept)"

definition handshake ::
    "(bytes \<Rightarrow> bytes) \<Rightarrow> (bytes \<Rightarrow> bytes option) \<Rightarrow> (bytes \<Rightarrow> bytes) \<Rightarrow> socket \<Rightarrow> http_request \<Rightarrow>
       (string + unit) \<times> socket" where
  "handshake sha1 base642bin bin2base64 s req =
     (if req_method req \<noteq> ascii ''GET'' then (Inl ''WebSocket handshake requires GET'', s)
      else let upgrade = lower_ascii (header req (ascii ''upgrade''));
               connection = lower_ascii (header req (ascii ''connection'')) in
        if upgrade \<noteq> ascii ''websocket'' \<or> find_sub (ascii ''upgrade'') connection = None
        then (Inl ''missing WebSocket upgrade headers'', s)
        else if header req (ascii ''sec-websocket-version'') \<noteq> ascii ''13''
        then (Inl ''unsupported WebSocket version'', s)
        else let sec_key = header req (ascii ''sec-websocket-key'') in
          case websocket_accept sha1 base642bin bin2base64 sec_key of
            None \<Rightarrow> (Inl (if sec_key = [] then ''missing Sec-WebSocket-Key'' else ''invalid Sec-WebSocket-Key''), s)
          | Some accept \<Rightarrow>
              (case send_all s (switching_response accept) of
                 (False, s') \<Rightarrow> (Inl ''send WebSocket handshake failed'', s')
               | (True, s') \<Rightarrow> (Inr (), s')))"

section \<open>Frames\<close>

definition max_ws_frame_bytes :: nat where
  "max_ws_frame_bytes = 16 * 1024 * 1024"

record ws_frame =
  fin :: bool
  opcode :: u8
  payload :: bytes

text \<open>The exclusive or with the four key bytes, which both directions apply.\<close>

definition xor_mask :: "bytes \<Rightarrow> bytes \<Rightarrow> bytes" where
  "xor_mask key p = map (\<lambda>i. p ! i XOR key ! (i mod 4)) [0..<length p]"

definition mask_bytes :: "u32 \<Rightarrow> bytes" where
  "mask_bytes k = [ucast (drop_bit 24 k AND 0xff), ucast (drop_bit 16 k AND 0xff),
     ucast (drop_bit 8 k AND 0xff), ucast (k AND 0xff)]"

definition length_field :: "bool \<Rightarrow> nat \<Rightarrow> bytes" where
  "length_field masked len =
     (let mask_bit = (if masked then 0x80 else 0) :: u8 in
      if len \<le> 125 then [mask_bit OR of_nat len]
      else if len \<le> 65535 then append_be16 [mask_bit OR 126] (of_nat len)
      else append_be64 [mask_bit OR 127] (of_nat len))"

definition encode_frame :: "bytes \<Rightarrow> u8 \<Rightarrow> bool \<Rightarrow> u32 \<Rightarrow> bytes" where
  "encode_frame p op masked mask_key =
     [0x80 OR (op AND 0x0f)] @ length_field masked (length p) @
     (if masked then mask_bytes mask_key @ xor_mask (mask_bytes mask_key) p else p)"

datatype frame_result = Need_more | Frame_error string | Frame ws_frame bytes

text \<open>
  The length field at the front of \<open>s\<close> (the buffer behind its two header bytes): the length and the rest,
  \<open>Inl None\<close> when bytes are missing, \<open>Inl (Some e)\<close> for an error.
\<close>

definition frame_length :: "u8 \<Rightarrow> bytes \<Rightarrow> string option + u64 \<times> bytes" where
  "frame_length b1 s =
     (let len = ucast (b1 AND 0x7f) :: u64 in
      if len = 126 then
        (if length s < 2 then Inl None
         else Inr (push_bit 8 (ucast (s ! 0)) OR ucast (s ! 1), drop 2 s))
      else if len = 127 then
        (if length s < 8 then Inl None
         else let len = foldl (\<lambda>l b. push_bit 8 l OR ucast b) 0 (take 8 s) in
           if len AND push_bit 63 1 \<noteq> 0 then Inl (Some ''invalid WebSocket 64-bit length'')
           else Inr (len, drop 8 s))
      else Inr (len, s))"

text \<open>The rest of the decoder behind the length field.\<close>

definition frame_body :: "bool \<Rightarrow> u8 \<Rightarrow> bool \<Rightarrow> u64 \<Rightarrow> bytes \<Rightarrow> frame_result" where
  "frame_body f op masked len s =
     (if masked \<and> length s < 4 then Need_more
      else let key = (if masked then take 4 s else []); s = (if masked then drop 4 s else s) in
        if len > of_nat max_ws_frame_bytes then Frame_error ''WebSocket frame exceeds 16777216-byte limit''
        else if unat len > length s then Need_more
        else if op \<ge> 8 \<and> \<not> f then Frame_error ''fragmented WebSocket control frame''
        else if op \<ge> 8 \<and> len > 125 then Frame_error ''oversized WebSocket control frame''
        else let p = take (unat len) s in
          Frame \<lparr>fin = f, opcode = op, payload = (if masked then xor_mask key p else p)\<rparr> (drop (unat len) s))"

definition decode_frame_from_buffer :: "bytes \<Rightarrow> bool \<Rightarrow> frame_result" where
  "decode_frame_from_buffer buffer require_mask =
     (if length buffer < 2 then Need_more
      else let b0 = buffer ! 0; b1 = buffer ! 1 in
        if b0 AND 0x70 \<noteq> 0 then Frame_error ''reserved WebSocket bits set''
        else let f = (b0 AND 0x80 \<noteq> 0); op = b0 AND 0x0f; masked = (b1 AND 0x80 \<noteq> 0) in
          case frame_length b1 (drop 2 buffer) of
            Inl None \<Rightarrow> Need_more
          | Inl (Some e) \<Rightarrow> Frame_error e
          | Inr (len, s) \<Rightarrow>
              if require_mask \<and> \<not> masked then Frame_error ''client WebSocket frames must be masked''
              else frame_body f op masked len s)"

section \<open>Writing\<close>

definition default_mask_key :: u32 where
  "default_mask_key = 0x11223344"

definition write_text :: "socket \<Rightarrow> bytes \<Rightarrow> bool \<times> socket" where
  "write_text s p = send_all s (encode_frame p 1 False default_mask_key)"

definition write_close :: "socket \<Rightarrow> u16 \<Rightarrow> bytes \<Rightarrow> bool \<times> socket" where
  "write_close s code reason = send_all s (encode_frame (append_be16 [] code @ reason) 8 False default_mask_key)"

definition write_pong :: "socket \<Rightarrow> bytes \<Rightarrow> bool \<times> socket" where
  "write_pong s p = send_all s (encode_frame p 0xA False default_mask_key)"

section \<open>Reading messages\<close>

datatype read_result = Message bytes | Closed | Error string

record reader =
  require_mask :: bool
  buffer :: bytes
  fragmented :: bytes
  fragmented_opcode :: u8

definition new_reader :: "bool \<Rightarrow> reader" where
  "new_reader m = \<lparr>require_mask = m, buffer = [], fragmented = [], fragmented_opcode = 0\<rparr>"

text \<open>One frame: \<open>Inl\<close> is the result that \<^verbatim>\<open>read_text\<close> returns, \<open>Inr\<close> lets its loop go on.\<close>

definition handle_frame :: "reader \<Rightarrow> socket \<Rightarrow> ws_frame \<Rightarrow> (read_result \<times> reader \<times> socket) + (reader \<times> socket)" where
  "handle_frame r s fr =
     (if opcode fr = 0 then
        (if fragmented_opcode r = 0 then Inl (Error ''unexpected WebSocket continuation frame'', r, s)
         else if fin fr
         then Inl (Message (fragmented r @ payload fr), r\<lparr>fragmented := [], fragmented_opcode := 0\<rparr>, s)
         else Inr (r\<lparr>fragmented := fragmented r @ payload fr\<rparr>, s))
      else if opcode fr = 1 then
        (if fin fr then Inl (Message (payload fr), r, s)
         else if fragmented_opcode r \<noteq> 0 then Inl (Error ''nested WebSocket fragmented message'', r, s)
         else Inr (r\<lparr>fragmented_opcode := opcode fr, fragmented := payload fr\<rparr>, s))
      else if opcode fr = 8 then Inl (Closed, r, snd (write_close s 1000 []))
      else if opcode fr = 9 then Inr (r, snd (write_pong s (payload fr)))
      else if opcode fr = 0xA then Inr (r, s)
      else Inl (Error ''unsupported WebSocket opcode'', r, s))"

definition waiting :: "socket \<Rightarrow> nat" where
  "waiting s = length (concat (inbound s))"

lemma send_all_inbound [simp]: "inbound (snd (send_all s p)) = inbound s"
proof (induction s p rule: send_all.induct)
  case (1 s p)
  then show ?case by (subst send_all.simps) (simp add: Let_def)
qed

lemma handle_frame_keeps:
  assumes "handle_frame r s fr = Inr (r', s')"
  shows "buffer r' = buffer r" and "inbound s' = inbound s" and "require_mask r' = require_mask r"
  using assms by (auto simp: handle_frame_def write_pong_def split: if_splits)

lemma frame_length_shorter: "frame_length b1 s = Inr (len, s') \<Longrightarrow> length s' \<le> length s"
  by (auto simp: frame_length_def Let_def split: if_splits)

lemma frame_body_shorter: "frame_body f op masked len s = Frame fr s' \<Longrightarrow> length s' \<le> length s"
  by (auto simp: frame_body_def Let_def split: if_splits)

lemma decode_frame_shorter:
  assumes "decode_frame_from_buffer b m = Frame fr b'"
  shows "length b' < length b"
proof -
  obtain len s where b: "2 \<le> length b" "frame_length (b ! 1) (drop 2 b) = Inr (len, s)"
    "frame_body (b ! 0 AND 0x80 \<noteq> 0) (b ! 0 AND 0x0f) (b ! 1 AND 0x80 \<noteq> 0) len s = Frame fr b'"
    using assms by (auto simp: decode_frame_from_buffer_def Let_def split: if_splits sum.splits option.splits)
  then show ?thesis
    using frame_length_shorter[OF b(2)] frame_body_shorter[OF b(3)] by simp
qed

lemma recv_waiting: "recv n s = Some (c, s') \<Longrightarrow> waiting s = length c + waiting s'"
  by (auto simp: recv_def waiting_def split: list.splits if_splits)

lemma recv_nonempty: "recv (Suc n) s = Some (c, s') \<Longrightarrow> c \<noteq> []"
  by (auto simp: recv_def split: list.splits if_splits)

function read_text :: "reader \<Rightarrow> socket \<Rightarrow> read_result \<times> reader \<times> socket" where
  "read_text r s =
     (case decode_frame_from_buffer (buffer r) (require_mask r) of
        Frame_error e \<Rightarrow> (Error e, r, s)
      | Need_more \<Rightarrow>
          (case recv 4096 s of
             None \<Rightarrow> (Closed, r, s)
           | Some (chunk, s') \<Rightarrow> read_text (r\<lparr>buffer := buffer r @ chunk\<rparr>) s')
      | Frame fr rest \<Rightarrow>
          (case handle_frame (r\<lparr>buffer := rest\<rparr>) s fr of
             Inl res \<Rightarrow> res
           | Inr (r', s') \<Rightarrow> read_text r' s'))"
  by pat_completeness auto
termination
proof (relation "measures [\<lambda>(r, s). length (buffer r) + waiting s, \<lambda>(r, s). waiting s]", goal_cases)
  case (2 r s x chunk s')
  then have "recv (Suc 4095) s = Some (chunk, s')" by simp
  then show ?case using recv_waiting[of _ s chunk s'] recv_nonempty[of 4095 s chunk s'] by auto
next
  case (3 r s fr rest x r' s')
  then show ?case
    using decode_frame_shorter[OF 3(1)] handle_frame_keeps[of "r\<lparr>buffer := rest\<rparr>" s fr r' s'] by (auto simp: waiting_def)
qed simp

declare read_text.simps [simp del]

end
