(* ===== verification/Cdp_Correct.thy ===== *)
theory Cdp_Correct
  imports Cdp_Ws
begin

text \<open>
  Correctness of the debug server's WebSocket layer: more input never changes a decoded frame, so the
  reader does not depend on how bytes arrive; the frame decoder inverts the encoder; fragmented messages
  with control frames in between are delivered whole; a rendered HTTP request is parsed back.
\<close>

section \<open>Decoding is stable under more input\<close>

lemma frame_length_append:
  "frame_length b1 s = Inr (len, s') \<Longrightarrow> frame_length b1 (s @ x) = Inr (len, s' @ x)"
  "frame_length b1 s = Inl (Some e) \<Longrightarrow> frame_length b1 (s @ x) = Inl (Some e)"
  by (auto simp: frame_length_def Let_def nth_append split: if_splits)

lemma frame_body_append:
  "frame_body f op masked len s = Frame fr s' \<Longrightarrow> frame_body f op masked len (s @ x) = Frame fr (s' @ x)"
  "frame_body f op masked len s = Frame_error e \<Longrightarrow> frame_body f op masked len (s @ x) = Frame_error e"
  by (cases masked; auto simp: frame_body_def Let_def split: if_splits)+

lemma decode_frame_append:
  "decode_frame_from_buffer b m = Frame fr rest \<Longrightarrow> decode_frame_from_buffer (b @ x) m = Frame fr (rest @ x)"
  "decode_frame_from_buffer b m = Frame_error e \<Longrightarrow> decode_frame_from_buffer (b @ x) m = Frame_error e"
  by (auto simp: decode_frame_from_buffer_def Let_def nth_append frame_length_append frame_body_append
      split: if_splits sum.splits option.splits)

section \<open>Independence of the chunks\<close>

lemma send_all_frame:
  "send_all (s\<lparr>inbound := i\<rparr>) p = (fst (send_all s p), snd (send_all s p)\<lparr>inbound := i\<rparr>)"
proof (induction s p rule: send_all.induct)
  case (1 s p)
  show ?case
  proof (cases "p = [] \<or> send_ret s (sends s) p \<le> 0")
    case True
    then show ?thesis by (auto simp: send_all.simps[of s] send_all.simps[of "s\<lparr>inbound := i\<rparr>"] Let_def)
  next
    case False
    let ?n = "nat (send_ret s (sends s) p)"
    let ?s = "s\<lparr>sends := sends s + 1, outbound := outbound s @ take ?n p\<rparr>"
    have "send_all (?s\<lparr>inbound := i\<rparr>) (drop ?n p) =
        (fst (send_all ?s (drop ?n p)), snd (send_all ?s (drop ?n p))\<lparr>inbound := i\<rparr>)"
      using "1.IH"[OF _ refl refl] False by simp
    then show ?thesis
      using False by (cases s) (simp add: send_all.simps[of _ p] Let_def)
  qed
qed

lemma handle_frame_frame:
  "handle_frame (r\<lparr>buffer := b\<rparr>) (s\<lparr>inbound := i\<rparr>) fr =
     map_sum (\<lambda>(res, r', s'). (res, r'\<lparr>buffer := b\<rparr>, s'\<lparr>inbound := i\<rparr>))
       (\<lambda>(r', s'). (r'\<lparr>buffer := b\<rparr>, s'\<lparr>inbound := i\<rparr>)) (handle_frame r s fr)"
  by (simp add: handle_frame_def write_close_def write_pong_def send_all_frame)

lemma handle_frame_ends:
  assumes "handle_frame r s fr = Inl (res, r', s')"
  shows "buffer r' = buffer r" and "inbound s' = inbound s"
  using assms by (auto simp: handle_frame_def write_close_def split: if_splits)

definition whole :: "reader \<Rightarrow> socket \<Rightarrow> reader \<times> socket" where
  "whole r s = (r\<lparr>buffer := buffer r @ concat (inbound s)\<rparr>, s\<lparr>inbound := []\<rparr>)"

lemma read_text_whole:
  "[] \<notin> set (inbound s) \<Longrightarrow> read_text r s = (res, r', s') \<Longrightarrow>
   read_text (fst (whole r s)) (snd (whole r s)) = (res, whole r' s')"
proof (induction r s rule: read_text.induct)
  case (1 r s)
  let ?all = "buffer r @ concat (inbound s)"
  show ?case
  proof (cases "decode_frame_from_buffer (buffer r) (require_mask r)")
    case Need_more
    show ?thesis
    proof (cases "recv 4096 s")
      case None
      then have "inbound s = []" using "1.prems"(1) by (auto simp: recv_def split: list.splits if_splits)
      moreover have "(res, r', s') = (Closed, r, s)"
        using "1.prems"(2) Need_more None by (simp add: read_text.simps[of r s])
      ultimately show ?thesis
        using Need_more by (simp add: whole_def read_text.simps[of r "s\<lparr>inbound := []\<rparr>"] recv_def)
    next
      case (Some p)
      obtain c s1 where p: "p = (c, s1)" by force
      let ?r = "r\<lparr>buffer := buffer r @ c\<rparr>"
      have c: "c @ concat (inbound s1) = concat (inbound s)" "s1\<lparr>inbound := []\<rparr> = s\<lparr>inbound := []\<rparr>"
          "[] \<notin> set (inbound s1)"
        using Some p "1.prems"(1) by (auto simp: recv_def split: list.splits if_splits)
      have "read_text ?r s1 = (res, r', s')"
        using "1.prems"(2) Need_more Some p by (simp add: read_text.simps[of r s])
      then have "read_text (fst (whole ?r s1)) (snd (whole ?r s1)) = (res, whole r' s')"
        using "1.IH"(1)[OF Need_more Some p[symmetric] c(3)] by simp
      then show ?thesis using c by (simp add: whole_def)
    qed
  next
    case (Frame_error e)
    then have "res = Error e \<and> r' = r \<and> s' = s" using "1.prems"(2) by (simp add: read_text.simps[of r s])
    then show ?thesis
      using decode_frame_append(2)[OF Frame_error] by (simp add: whole_def read_text.simps[of "r\<lparr>buffer := ?all\<rparr>"])
  next
    case (Frame fr rest)
    let ?h = "handle_frame (r\<lparr>buffer := rest\<rparr>) s fr"
    have d: "decode_frame_from_buffer ?all (require_mask r) = Frame fr (rest @ concat (inbound s))"
      using decode_frame_append(1)[OF Frame] .
    have h: "handle_frame (r\<lparr>buffer := rest @ concat (inbound s)\<rparr>) (s\<lparr>inbound := []\<rparr>) fr =
        map_sum (\<lambda>(res, r', s'). (res, r'\<lparr>buffer := rest @ concat (inbound s)\<rparr>, s'\<lparr>inbound := []\<rparr>))
       (\<lambda>(r', s'). (r'\<lparr>buffer := rest @ concat (inbound s)\<rparr>, s'\<lparr>inbound := []\<rparr>)) ?h"
      using handle_frame_frame[where r = "r\<lparr>buffer := rest\<rparr>"] by simp
    show ?thesis
    proof (cases ?h)
      case (Inl q)
      then have q: "q = (res, r', s')" using "1.prems"(2) Frame by (simp add: read_text.simps[of r s])
      show ?thesis
        using d h Inl q handle_frame_ends[OF Inl[unfolded q]]
        by (simp add: whole_def read_text.simps[of "r\<lparr>buffer := ?all\<rparr>"])
    next
      case (Inr q)
      obtain r1 s1 where q: "q = (r1, s1)" by force
      note k = handle_frame_keeps[OF Inr[unfolded q]]
      have "read_text r1 s1 = (res, r', s')"
        using "1.prems"(2) Frame Inr q by (simp add: read_text.simps[of r s])
      then have "read_text (fst (whole r1 s1)) (snd (whole r1 s1)) = (res, whole r' s')"
        using "1.IH"(2)[OF Frame Inr q[symmetric]] k "1.prems"(1) by simp
      then show ?thesis
        using d h Inr q k by (simp add: whole_def read_text.simps[of "r\<lparr>buffer := ?all\<rparr>"])
    qed
  qed
qed

text \<open>how the operating system cuts the incoming bytes into chunks does not matter. For a stream of
  non-empty chunks, \<^verbatim>\<open>read_text\<close> gives the same result, the same reader state, the same unread bytes
  and sends the same bytes as when everything had already been in its buffer.\<close>

theorem read_text_chunks:
  assumes "[] \<notin> set (inbound s)" and "read_text r s = (res, r', s')"
  shows "read_text (r\<lparr>buffer := buffer r @ concat (inbound s)\<rparr>) (s\<lparr>inbound := []\<rparr>) =
    (res, r'\<lparr>buffer := buffer r' @ concat (inbound s')\<rparr>, s'\<lparr>inbound := []\<rparr>)"
  using read_text_whole[OF assms] by (simp add: whole_def)

definition chunked_socket :: socket where
  "chunked_socket =
     \<lparr>inbound = [[0x81], [0x02, 0x68], [0x69, 0x88]], send_ret = (\<lambda>_ _. 1), sends = 0, outbound = []\<rparr>"

theorem read_text_chunks_witness:
  "\<exists>r' s'. read_text (new_reader False) chunked_socket = (Message (ascii ''hi''), r', s') \<and>
    read_text (new_reader False\<lparr>buffer := [0x81, 0x02, 0x68, 0x69, 0x88]\<rparr>) (chunked_socket\<lparr>inbound := []\<rparr>) =
      (Message (ascii ''hi''), r'\<lparr>buffer := buffer r' @ concat (inbound s')\<rparr>, s'\<lparr>inbound := []\<rparr>)"
proof -
  have m: "fst (read_text (new_reader False) chunked_socket) = Message (ascii ''hi'')"
    by (simp add: read_text.simps recv_def chunked_socket_def new_reader_def decode_frame_from_buffer_def
        frame_length_def frame_body_def handle_frame_def max_ws_frame_bytes_def Let_def ascii_def)
  obtain r' s' where rd: "read_text (new_reader False) chunked_socket = (Message (ascii ''hi''), r', s')"
    using m by (metis fst_conv prod.collapse)
  show ?thesis
    using read_text_chunks[OF _ rd] rd by (auto simp: chunked_socket_def new_reader_def)
qed


section \<open>Frames round trip\<close>

lemma xor_mask_invol: "length key = 4 \<Longrightarrow> xor_mask key (xor_mask key p) = p"
  by (rule nth_equalityI) (simp_all add: xor_mask_def xor.assoc)

lemma length_xor_mask [simp]: "length (xor_mask key p) = length p"
  by (simp add: xor_mask_def)

lemma header_bits:
  fixes w :: u8
  shows "((0x80 OR (w AND 0x0f)) AND 0x70) = 0" "((0x80 OR (w AND 0x0f)) AND 0x80) \<noteq> 0"
    "((0x80 OR (w AND 0x0f)) AND 0x0f) = (w AND 0x0f)" "((w AND 0x0f) AND 0x70) = 0"
    "((w AND 0x0f) AND 0x80) = 0" "((w AND 0x0f) AND 0x0f) = (w AND 0x0f)"
  by (simp_all add: bit.conj_disj_distrib2 and.assoc)

lemma length_bits:
  fixes w :: u8
  assumes "w < 128"
  shows "(0x80 OR w) AND 0x7f = w" "(0x80 OR w) AND 0x80 \<noteq> 0" "w AND 0x7f = w" "w AND 0x80 = 0"
proof -
  have m: "(0x7f :: u8) = mask 7" by (simp add: mask_eq_exp_minus_1)
  have t: "take_bit 7 w = w" using assms by (simp add: take_bit_eq_mod word_mod_less_divisor mod_word_less)
  then show a: "w AND 0x7f = w" by (simp add: m flip: take_bit_eq_mask)
  show b: "w AND 0x80 = 0"
    by (subst a[symmetric]) (simp add: and.assoc)
  show "(0x80 OR w) AND 0x7f = w" using a by (simp add: bit.conj_disj_distrib2)
  show "(0x80 OR w) AND 0x80 \<noteq> 0" using b by (simp add: bit.conj_disj_distrib2)
qed


lemma be16_read:
  assumes "n \<le> 65535"
  shows "push_bit 8 (ucast (ucast (drop_bit 8 (of_nat n :: u16) AND 0xff) :: u8)) OR
    ucast (ucast ((of_nat n :: u16) AND 0xff) :: u8) = (of_nat n :: u64)"
proof -
  have f: "(0xff :: u16) = mask 8" by (simp add: mask_eq_exp_minus_1)
  have t: "take_bit 16 n = n" using assms by (simp add: take_bit_nat_eq_self_iff)
  have b: "bit n i \<Longrightarrow> i < 16" for i using t by (metis bit_take_bit_iff)
  show ?thesis
    unfolding f by (rule bit_word_eqI) (auto simp: bit_simps dest: b)
qed

lemma be64_bytes: "append_be64 out v = out @ rev (le_bytes 8 v)"
proof -
  have f: "(0xff :: u64) = mask 8" by (simp add: mask_eq_exp_minus_1)
  have "(ucast (w AND 0xff) :: u8) = ucast w" for w :: u64
    unfolding f by (rule bit_word_eqI) (auto simp: bit_simps)
  then show ?thesis by (simp add: append_be64_def le_bytes_def rev_map mult.commute)
qed

lemma top_bit_clear: "n < 2 ^ 63 \<Longrightarrow> (of_nat n :: u64) AND push_bit 63 1 = 0"
proof -
  assume "n < 2 ^ 63"
  then have "take_bit 63 n = n" by (simp add: take_bit_nat_eq_self_iff)
  then have "\<not> bit n 63" by (metis bit_take_bit_iff less_irrefl)
  then show ?thesis unfolding push_bit_of_1 and_exp_eq_0_iff_not_bit by (simp add: bit_simps)
qed

text \<open>The length field: its first byte carries the mask bit, and reading it gives the length back.\<close>

lemma length_field_read:
  assumes "n \<le> max_ws_frame_bytes"
  shows "\<exists>b1 bs. length_field masked n = b1 # bs \<and> (b1 AND 0x80 \<noteq> 0 \<longleftrightarrow> masked) \<and>
    frame_length b1 (bs @ rest) = Inr (of_nat n, rest)"
proof -
  have small: "(of_nat m :: u8) < 128 \<and> unat (of_nat m :: u8) = m" if "m < 128" for m
  proof -
    have "unat (of_nat m :: u8) = m" using that by (simp add: unsigned_of_nat take_bit_nat_eq_self_iff)
    then show ?thesis using that by (simp add: word_less_nat_alt)
  qed
  define b1 :: u8 where "b1 = (if masked then 0x80 else 0) OR of_nat (if n \<le> 125 then n else if n \<le> 65535 then 126 else 127)"
  have b1: "b1 AND 0x80 \<noteq> 0 \<longleftrightarrow> masked"
      "b1 AND 0x7f = of_nat (if n \<le> 125 then n else if n \<le> 65535 then 126 else 127)"
    using length_bits[of "of_nat (if n \<le> 125 then n else if n \<le> 65535 then 126 else 127)"]
      small[of "if n \<le> 125 then n else if n \<le> 65535 then 126 else 127"]
    by (auto simp: b1_def)
  consider "n \<le> 125" | "125 < n" "n \<le> 65535" | "65535 < n" by linarith
  then show ?thesis
  proof cases
    case 1
    have tb: "take_bit 8 n = n" "take_bit 64 n = n" using 1 by (simp_all add: take_bit_nat_eq_self_iff)
    then have u: "(ucast (of_nat n :: u8) :: u64) = of_nat n"
      by (intro word_unat_eq_iff[THEN iffD2]) (simp add: unsigned_ucast_eq unsigned_of_nat)
    have "(of_nat n :: u64) \<noteq> 126" "(of_nat n :: u64) \<noteq> 127"
      using 1 tb by (simp_all add: word_unat_eq_iff unsigned_of_nat)
    then have "frame_length b1 rest = Inr (of_nat n, rest)"
      using b1(2) 1 u by (simp add: frame_length_def)
    then show ?thesis using b1 1 by (auto simp: length_field_def b1_def)
  next
    case 2
    then show ?thesis
      using b1 be16_read[of n] by (simp add: length_field_def frame_length_def append_be16_def b1_def)
  next
    case 3
    have "foldl (\<lambda>l b. push_bit 8 l OR ucast b) 0 (rev (le_bytes 8 (of_nat n :: u64))) = (of_nat n :: u64)"
      by (simp only: foldl_rev_le_word) (simp add: codec_simps)
    moreover have "(of_nat n :: u64) AND push_bit 63 1 = 0"
      using assms by (intro top_bit_clear) (simp add: max_ws_frame_bytes_def)
    ultimately show ?thesis
      using b1 3 by (simp add: length_field_def frame_length_def be64_bytes b1_def)
  qed
qed


text \<open>A frame as a peer sends it, with the final bit as given; \<^verbatim>\<open>encode_frame\<close> always sets it.\<close>

definition frame_bytes :: "bool \<Rightarrow> u8 \<Rightarrow> bytes \<Rightarrow> bool \<Rightarrow> u32 \<Rightarrow> bytes" where
  "frame_bytes f op p masked key =
     (if f then encode_frame p op masked key else (op AND 0x0f) # tl (encode_frame p op masked key))"

lemma frame_body_read:
  assumes "length p \<le> max_ws_frame_bytes" and "8 \<le> op \<Longrightarrow> f \<and> length p \<le> 125"
  shows "frame_body f op masked (of_nat (length p))
      ((if masked then mask_bytes key @ xor_mask (mask_bytes key) p else p) @ rest) =
    Frame \<lparr>fin = f, opcode = op, payload = p\<rparr> rest"
proof -
  have u: "unat (of_nat n :: u64) = n" if "n \<le> max_ws_frame_bytes" for n
    using that by (simp add: unsigned_of_nat take_bit_nat_eq_self_iff max_ws_frame_bytes_def)
  have l: "\<not> (of_nat (length p) :: u64) > of_nat max_ws_frame_bytes"
      "(of_nat (length p) :: u64) > 125 \<longleftrightarrow> length p > 125"
    using u[OF assms(1)] u[OF order_refl] assms(1) by (simp_all add: word_less_nat_alt)
  have k: "length (mask_bytes key) = 4" by (simp add: mask_bytes_def)
  show ?thesis
    using l assms u[OF assms(1)] k xor_mask_invol[OF k, of p]
    by (cases masked) (auto simp: frame_body_def Let_def)
qed

lemma decode_frame_bytes [codec_simps]:
  assumes "length p \<le> max_ws_frame_bytes" and "8 \<le> op AND 0x0f \<Longrightarrow> f \<and> length p \<le> 125"
    and "m \<Longrightarrow> masked"
  shows "decode_frame_from_buffer (frame_bytes f op p masked key @ rest) m =
    Frame \<lparr>fin = f, opcode = op AND 0x0f, payload = p\<rparr> rest"
proof -
  let ?body = "if masked then mask_bytes key @ xor_mask (mask_bytes key) p else p"
  obtain b1 bs where b: "length_field masked (length p) = b1 # bs" "b1 AND 0x80 \<noteq> 0 \<longleftrightarrow> masked"
      "frame_length b1 (bs @ ?body @ rest) = Inr (of_nat (length p), ?body @ rest)"
    using length_field_read[OF assms(1), of masked "?body @ rest"] by blast
  let ?b0 = "if f then 0x80 OR (op AND 0x0f) else op AND 0x0f"
  have e: "frame_bytes f op p masked key @ rest = ?b0 # b1 # bs @ ?body @ rest"
    using b(1) by (simp add: frame_bytes_def encode_frame_def)
  have h: "?b0 AND 0x70 = 0" "?b0 AND 0x80 \<noteq> 0 \<longleftrightarrow> f" "?b0 AND 0x0f = op AND 0x0f"
    using header_bits[of op] by auto
  show ?thesis
    unfolding e decode_frame_from_buffer_def
    using frame_body_read[OF assms(1), of "op AND 0x0f" f masked key rest] assms b h
    by (auto simp: Let_def)
qed

text \<open>
  The frame decoder inverts the frame encoder, masked or not, for every payload up to the
  16 MiB limit (125 bytes for control opcodes), and leaves the bytes behind the frame in the buffer.\<close>

theorem ws_frame_round_trip:
  assumes "length p \<le> max_ws_frame_bytes" and "8 \<le> op AND 0x0f \<Longrightarrow> length p \<le> 125" and "m \<Longrightarrow> masked"
  shows "decode_frame_from_buffer (encode_frame p op masked key @ rest) m =
    Frame \<lparr>fin = True, opcode = op AND 0x0f, payload = p\<rparr> rest"
  using decode_frame_bytes[of p op True m masked key rest] assms by (simp add: frame_bytes_def)

theorem ws_frame_round_trip_witness:
  "decode_frame_from_buffer (encode_frame (replicate 300 7) 1 True default_mask_key @ [1, 2]) True =
    Frame \<lparr>fin = True, opcode = 1, payload = replicate 300 7\<rparr> [1, 2]"
  using ws_frame_round_trip[of "replicate 300 7" 1 True True default_mask_key "[1, 2]"]
  by (simp add: max_ws_frame_bytes_def word_le_nat_alt)

section \<open>Messages\<close>

lemma send_all_progress:
  "(\<And>k b. b \<noteq> [] \<Longrightarrow> 1 \<le> send_ret s k b) \<Longrightarrow>
   fst (send_all s p) \<and> outbound (snd (send_all s p)) = outbound s @ p \<and> send_ret (snd (send_all s p)) = send_ret s"
proof (induction s p rule: send_all.induct)
  case (1 s p)
  show ?case
  proof (cases "p = []")
    case False
    then have n: "\<not> send_ret s (sends s) p \<le> 0" using "1.prems"[of p "sends s"] by simp
    let ?n = "nat (send_ret s (sends s) p)"
    let ?s = "s\<lparr>sends := sends s + 1, outbound := outbound s @ take ?n p\<rparr>"
    have "send_all s p = send_all ?s (drop ?n p)" using False n by (simp add: send_all.simps[of s p] Let_def)
    then show ?thesis using "1.IH"[OF False refl refl n] "1.prems" by simp
  qed (simp add: send_all.simps)
qed

text \<open>
  A message as a client sends it: for each fragment, pings first, then a data frame, text for the first
  and continuation for the others, the last one final. Every frame has its own mask key.
\<close>

type_synonym fragment = "(u32 \<times> bytes) list \<times> u32 \<times> bytes"

fun message_bytes :: "bool \<Rightarrow> fragment list \<Rightarrow> bytes" where
  "message_bytes first [] = []"
| "message_bytes first ((pings, key, p) # fs) =
     concat (map (\<lambda>(k, q). frame_bytes True 9 q True k) pings) @
     frame_bytes (fs = []) (if first then 1 else 0) p True key @ message_bytes False fs"

definition message_text :: "fragment list \<Rightarrow> bytes" where
  "message_text fs = concat (map (\<lambda>(pings, key, p). p) fs)"

definition message_pongs :: "fragment list \<Rightarrow> bytes" where
  "message_pongs fs =
     concat (map (\<lambda>(pings, key, p). concat (map (\<lambda>(k, q). encode_frame q 0xA False default_mask_key) pings)) fs)"

definition wf_fragment :: "fragment \<Rightarrow> bool" where
  "wf_fragment = (\<lambda>(pings, key, p). list_all (\<lambda>(k, q). length q \<le> 125) pings \<and> length p \<le> max_ws_frame_bytes)"

lemma read_text_frame:
  assumes "buffer r = frame_bytes f op p True key @ rest" "op = op AND 0x0f"
    and "length p \<le> max_ws_frame_bytes" "8 \<le> op \<Longrightarrow> f \<and> length p \<le> 125"
  shows "read_text r s = (case handle_frame (r\<lparr>buffer := rest\<rparr>) s \<lparr>fin = f, opcode = op, payload = p\<rparr> of
    Inl res \<Rightarrow> res | Inr (r', s') \<Rightarrow> read_text r' s')"
  using decode_frame_bytes[of p op f "require_mask r" True key rest] assms
  by (simp add: read_text.simps[of r s])

lemma read_text_pings:
  assumes "buffer r = concat (map (\<lambda>(k, q). frame_bytes True 9 q True k) pings) @ rest"
    and "list_all (\<lambda>(k, q). length q \<le> 125) pings"
    and "\<And>k b. b \<noteq> [] \<Longrightarrow> 1 \<le> send_ret s k b"
  shows "\<exists>s'. read_text r s = read_text (r\<lparr>buffer := rest\<rparr>) s' \<and> inbound s' = inbound s \<and> send_ret s' = send_ret s \<and>
    outbound s' = outbound s @ concat (map (\<lambda>(k, q). encode_frame q 0xA False default_mask_key) pings)"
  using assms
proof (induction pings arbitrary: r s)
  case Nil
  then have "r\<lparr>buffer := rest\<rparr> = r" by simp
  then show ?case by (intro exI[of _ s]) simp
next
  case (Cons kq pings)
  obtain k q where kq: "kq = (k, q)" by force
  let ?more = "concat (map (\<lambda>(k, q). frame_bytes True 9 q True k) pings) @ rest"
  let ?s = "snd (write_pong s q)"
  have "read_text r s = read_text (r\<lparr>buffer := ?more\<rparr>) ?s"
    using read_text_frame[of r True 9 q k ?more s] Cons.prems kq
    by (simp add: handle_frame_def max_ws_frame_bytes_def)
  moreover have s: "outbound ?s = outbound s @ encode_frame q 0xA False default_mask_key"
      "send_ret ?s = send_ret s" "inbound ?s = inbound s"
    using send_all_progress[OF Cons.prems(3), of "encode_frame q 0xA False default_mask_key"]
    by (simp_all add: write_pong_def)
  moreover obtain s' where "read_text (r\<lparr>buffer := ?more\<rparr>) ?s = read_text (r\<lparr>buffer := rest\<rparr>) s'"
      "inbound s' = inbound ?s" "send_ret s' = send_ret ?s"
      "outbound s' = outbound ?s @ concat (map (\<lambda>(k, q). encode_frame q 0xA False default_mask_key) pings)"
    using Cons.IH[of "r\<lparr>buffer := ?more\<rparr>" ?s] Cons.prems s by auto
  ultimately show ?case using kq by auto
qed


lemma read_text_message:
  "fs \<noteq> [] \<Longrightarrow> list_all wf_fragment fs \<Longrightarrow> buffer r = message_bytes first fs @ rest \<Longrightarrow>
   (fragmented_opcode r = 0 \<longleftrightarrow> first) \<Longrightarrow> (\<And>k b. b \<noteq> [] \<Longrightarrow> 1 \<le> send_ret s k b) \<Longrightarrow>
   \<exists>r' s'. read_text r s = (Message ((if first then [] else fragmented r) @ message_text fs), r', s') \<and>
     buffer r' = rest \<and> fragmented_opcode r' = 0 \<and> inbound s' = inbound s \<and>
     outbound s' = outbound s @ message_pongs fs"
proof (induction fs arbitrary: first r s)
  case (Cons fr fs)
  obtain pings key p where fr: "fr = (pings, key, p)" by (cases fr)
  let ?op = "if first then 1 else 0 :: u8"
  let ?more = "message_bytes False fs @ rest"
  let ?frame = "frame_bytes (fs = []) ?op p True key @ ?more"
  have wf: "list_all (\<lambda>(k, q). length q \<le> 125) pings" "length p \<le> max_ws_frame_bytes" "list_all wf_fragment fs"
    using Cons.prems(2) fr by (simp_all add: wf_fragment_def)
  obtain s1 where s1: "read_text r s = read_text (r\<lparr>buffer := ?frame\<rparr>) s1" "inbound s1 = inbound s"
      "send_ret s1 = send_ret s"
      "outbound s1 = outbound s @ concat (map (\<lambda>(k, q). encode_frame q 0xA False default_mask_key) pings)"
    using read_text_pings[of r pings ?frame s] Cons.prems(3,5) wf(1) fr by auto
  have op: "?op = ?op AND 0x0f" "\<not> 8 \<le> ?op" by (simp_all add: word_le_nat_alt)
  have step: "read_text (r\<lparr>buffer := ?frame\<rparr>) s1 =
      (case handle_frame (r\<lparr>buffer := ?more\<rparr>) s1 \<lparr>fin = (fs = []), opcode = ?op, payload = p\<rparr> of
         Inl res \<Rightarrow> res | Inr (r', s') \<Rightarrow> read_text r' s')"
    using read_text_frame[of "r\<lparr>buffer := ?frame\<rparr>" "fs = []" ?op p key ?more s1] op wf(2) by simp
  show ?case
  proof (cases "fs = []")
    case True
    then show ?thesis
      using s1 step Cons.prems(4) fr by (auto simp: handle_frame_def message_text_def message_pongs_def)
  next
    case False
    let ?r = "if first then r\<lparr>buffer := ?more, fragmented_opcode := 1, fragmented := p\<rparr>
      else r\<lparr>buffer := ?more, fragmented := fragmented r @ p\<rparr>"
    have "read_text (r\<lparr>buffer := ?frame\<rparr>) s1 = read_text ?r s1"
      using step Cons.prems(4) False by (simp add: handle_frame_def)
    moreover obtain r' s' where "read_text ?r s1 = (Message (fragmented ?r @ message_text fs), r', s')"
        "buffer r' = rest" "fragmented_opcode r' = 0" "inbound s' = inbound s1"
        "outbound s' = outbound s1 @ message_pongs fs"
      using Cons.IH[of ?r False s1] False wf(3) Cons.prems(4,5) s1 by auto
    ultimately show ?thesis using s1 fr by (auto simp: message_text_def message_pongs_def)
  qed
qed simp

text \<open>C12: a text message is received as it was sent. However the message is split into fragments,
  however pings are put between them and however the bytes arrive, \<^verbatim>\<open>read_text\<close> returns the
  concatenated text, leaves exactly the bytes behind the message unread, is ready for the next
  message, and has answered every ping, in order, with a pong of the same payload.\<close>

theorem ws_message_delivered:
  assumes "fs \<noteq> []" and "list_all wf_fragment fs" and "fragmented_opcode r = 0"
    and "[] \<notin> set (inbound s)" and "buffer r @ concat (inbound s) = message_bytes True fs @ rest"
    and "\<And>k b. b \<noteq> [] \<Longrightarrow> 1 \<le> send_ret s k b"
  shows "\<exists>r' s'. read_text r s = (Message (message_text fs), r', s') \<and>
    buffer r' @ concat (inbound s') = rest \<and> fragmented_opcode r' = 0 \<and>
    outbound s' = outbound s @ message_pongs fs"
proof -
  obtain res r' s' where rd: "read_text r s = (res, r', s')" by (cases "read_text r s")
  have w: "read_text (fst (whole r s)) (snd (whole r s)) = (res, whole r' s')"
    using read_text_whole[OF assms(4) rd] .
  obtain r2 s2 where "read_text (fst (whole r s)) (snd (whole r s)) = (Message (message_text fs), r2, s2)"
      "buffer r2 = rest" "fragmented_opcode r2 = 0" "outbound s2 = outbound s @ message_pongs fs"
    using read_text_message[OF assms(1,2), of "fst (whole r s)" True rest "snd (whole r s)"] assms(3,5,6)
    by (auto simp: whole_def)
  then have "res = Message (message_text fs)" "buffer r' @ concat (inbound s') = rest"
      "fragmented_opcode r' = 0" "outbound s' = outbound s @ message_pongs fs"
    using w by (auto simp: whole_def)
  then show ?thesis using rd by blast
qed

definition sample_message :: "fragment list" where
  "sample_message = [([], 7, ascii ''hel''), ([(9, ascii ''ping'')], 8, ascii ''lo'')]"

definition sample_socket :: "bytes \<Rightarrow> socket" where
  "sample_socket b = \<lparr>inbound = map (\<lambda>c. [c]) b, send_ret = (\<lambda>_ _. 1), sends = 0, outbound = []\<rparr>"

theorem ws_message_delivered_witness:
  "\<exists>r' s'. read_text (new_reader True) (sample_socket (message_bytes True sample_message)) =
      (Message (ascii ''hello''), r', s') \<and>
    outbound s' = encode_frame (ascii ''ping'') 0xA False default_mask_key"
proof -
  have t: "message_text sample_message = ascii ''hello''"
    "message_pongs sample_message = encode_frame (ascii ''ping'') 0xA False default_mask_key"
    by (simp_all add: message_text_def message_pongs_def sample_message_def ascii_def)
  have "sample_message \<noteq> []" "list_all wf_fragment sample_message"
    by (simp_all add: sample_message_def wf_fragment_def max_ws_frame_bytes_def)
  then show ?thesis
    using ws_message_delivered[of sample_message "new_reader True"
        "sample_socket (message_bytes True sample_message)" "[]"] t
    by (auto simp: new_reader_def sample_socket_def)
qed


section \<open>HTTP requests\<close>

text \<open>A request as a client writes it: the request line, header lines, an empty line and a body.\<close>

definition render_header :: "bytes \<times> bytes \<Rightarrow> bytes" where
  "render_header = (\<lambda>(name, v). name @ [58, 32] @ v @ crlf)"

definition render_request :: "bytes \<Rightarrow> bytes \<Rightarrow> bytes \<Rightarrow> (bytes \<times> bytes) list \<Rightarrow> bytes" where
  "render_request meth path version hs =
     meth @ [32] @ path @ [32] @ version @ crlf @ concat (map render_header hs) @ crlf"

definition wf_header :: "bytes \<times> bytes \<Rightarrow> bool" where
  "wf_header = (\<lambda>(name, v). 13 \<notin> set name \<and> 58 \<notin> set name \<and> 13 \<notin> set v \<and> trim_line v = v)"

lemma find_sub_crlf: "13 \<notin> set s \<Longrightarrow> find_sub crlf (s @ 13 # 10 # t) = Some (length s)"
  by (induction s) (auto simp: starts_with_def)

lemma drop_past: "drop (length s + 2) (s @ a # b # t) = t"
  by simp

lemma trim_line_space: "trim_line (32 # v) = trim_line v"
  by (simp add: trim_line_def is_line_ws_def)

lemma parse_headers_line:
  assumes "wf_header (name, v)"
  shows "parse_headers hs (render_header (name, v) @ t) = parse_headers (hs(lower_ascii name \<mapsto> v)) t"
proof -
  let ?line = "name @ 58 # 32 # v"
  have e: "render_header (name, v) @ t = ?line @ 13 # 10 # t" by (simp add: render_header_def)
  have f: "find_sub crlf (?line @ 13 # 10 # t) = Some (length ?line)"
    using assms by (intro find_sub_crlf) (auto simp: wf_header_def)
  have "find_char 58 ?line = Some (length name)"
    using assms by (intro find_char_append) (simp add: wf_header_def)
  then have a: "add_header ?line hs = hs(lower_ascii name \<mapsto> v)"
    using assms by (simp add: add_header_def trim_line_space wf_header_def)
  have c: "take (length ?line) (?line @ 13 # 10 # t) = ?line" "drop (length ?line + 2) (?line @ 13 # 10 # t) = t"
    using drop_past[of ?line] by simp_all
  show ?thesis
    unfolding e by (subst parse_headers.simps) (simp only: f option.case c a, simp)
qed

lemma parse_headers_all:
  "list_all wf_header hl \<Longrightarrow>
   parse_headers hs (concat (map render_header hl) @ crlf @ body) =
     Some (hs ++ map_of (rev (map (\<lambda>(n, v). (lower_ascii n, v)) hl)))"
proof (induction hl arbitrary: hs)
  case Nil
  show ?case by (subst parse_headers.simps) (simp add: starts_with_def)
next
  case (Cons h hl)
  obtain n v where "h = (n, v)" by force
  then show ?case
    using Cons.prems Cons.IH[of "hs(lower_ascii n \<mapsto> v)"] parse_headers_line[of n v hs]
    by (auto simp: fun_upd_def map_add_def intro!: ext split: option.splits)
qed

text \<open>
  A well-formed HTTP request is parsed into its parts, whatever body follows it, and a header
  is found under every spelling of its name in upper and lower case.\<close>

theorem http_request_parsed:
  assumes "13 \<notin> set (meth @ path @ version)" and "32 \<notin> set (meth @ path)"
    and "list_all wf_header hl" and "distinct (map (\<lambda>(n, v). lower_ascii n) hl)"
  shows "\<exists>r. parse_http_request (render_request meth path version hl @ body) = Some r \<and>
    req_method r = meth \<and> req_path r = path \<and> req_version r = version \<and>
    (\<forall>(n, v) \<in> set hl. \<forall>n'. lower_ascii n' = lower_ascii n \<longrightarrow> header r n' = v)"
proof -
  let ?first = "meth @ 32 # path @ 32 # version"
  let ?hs = "map (\<lambda>(n, v). (lower_ascii n, v)) hl"
  let ?tail = "concat (map render_header hl) @ crlf @ body"
  have e: "render_request meth path version hl @ body = ?first @ 13 # 10 # ?tail"
    by (simp add: render_request_def)
  have f: "find_sub crlf (?first @ 13 # 10 # ?tail) = Some (length ?first)"
    using assms(1) by (intro find_sub_crlf) auto
  have c: "take (length ?first) (?first @ 13 # 10 # ?tail) = ?first"
      "drop (length ?first + 2) (?first @ 13 # 10 # ?tail) = ?tail"
    using drop_past[of ?first] by (simp, blast)
  have sp1: "find_char 32 ?first = Some (length meth)"
    using assms(2) by (intro find_char_append) simp
  have sp2: "find_from 32 ?first (length meth + 1) = Some (length meth + 1 + length path)"
    using assms(2) by (simp add: find_from_def find_char_append)
  have p: "parse_http_request (render_request meth path version hl @ body) = Some
      \<lparr>req_method = meth, req_path = path, req_version = version, req_headers = map_of (rev ?hs)\<rparr>"
    unfolding e parse_http_request_def f option.case c Let_def sp1 sp2 parse_headers_all[OF assms(3)] by simp
  have "map_of (rev ?hs) (lower_ascii n) = Some v" if "(n, v) \<in> set hl" for n v
    using that assms(4) by (intro map_of_is_SomeI) (auto simp: comp_def case_prod_unfold rev_map[symmetric] intro: rev_image_eqI)
  then show ?thesis using p by (auto simp: header_def)
qed

theorem http_request_parsed_witness:
  "\<exists>r. parse_http_request (render_request (ascii ''GET'') (ascii ''/json'') (ascii ''HTTP/1.1'')
        [(ascii ''Upgrade'', ascii ''websocket''), (ascii ''Host'', ascii ''localhost'')] @ [1, 2]) = Some r \<and>
    req_path r = ascii ''/json'' \<and> header r (ascii ''upgrade'') = ascii ''websocket''"
proof -
  have "trim_line (ascii ''websocket'') = ascii ''websocket''" "trim_line (ascii ''localhost'') = ascii ''localhost''"
    by (simp_all add: trim_line_def is_line_ws_def ascii_def)
  then have "list_all wf_header [(ascii ''Upgrade'', ascii ''websocket''), (ascii ''Host'', ascii ''localhost'')]"
    by (simp add: wf_header_def) (simp add: ascii_def)
  moreover have "lower_ascii (ascii ''upgrade'') = lower_ascii (ascii ''Upgrade'')"
    by (simp add: ascii_def tolower_def word_le_nat_alt)
  moreover have "13 \<notin> set (ascii ''GET'' @ ascii ''/json'' @ ascii ''HTTP/1.1'')" "32 \<notin> set (ascii ''GET'' @ ascii ''/json'')"
    by (simp_all add: ascii_def)
  moreover have "distinct (map (\<lambda>(n, v). lower_ascii n)
      [(ascii ''Upgrade'', ascii ''websocket''), (ascii ''Host'', ascii ''localhost'')])"
    by (simp add: ascii_def tolower_def)
  ultimately show ?thesis
    using http_request_parsed[of "ascii ''GET''" "ascii ''/json''" "ascii ''HTTP/1.1''"
        "[(ascii ''Upgrade'', ascii ''websocket''), (ascii ''Host'', ascii ''localhost'')]" "[1, 2]"] by fastforce
qed

end
