(* ===== verification/Atlas.thy ===== *)
theory Atlas
  imports Prelude
begin

text \<open>
  The page atlas of \<^verbatim>\<open>src/font/atlas.cpp\<close>: a shelf packer over a pixel page that doubles up to a
  maximum size. A \<^verbatim>\<open>u32\<close> is a natural number whose wrap-around is written out with \<open>wrap32\<close>; sizes of
  buffers are \<^verbatim>\<open>usize\<close> products of two \<^verbatim>\<open>u32\<close> and a pixel size, written as plain products. The loops
  of \<^verbatim>\<open>grow_\<close> and \<^verbatim>\<open>reserve\<close> are partial functions: \<open>None\<close> is a loop that does not end. \<^verbatim>\<open>memcpy\<close>
  of a row is \<open>blit\<close>, which agrees with it where the row lies inside the buffer.
\<close>

datatype pixel_format = Grayscale | Bgra

record atlas_region =
  rg_ok :: bool
  rg_x :: nat
  rg_y :: nat

record atlas =
  at_format :: pixel_format
  at_w :: nat
  at_h :: nat
  at_max :: nat
  at_initial :: nat
  at_cx :: nat
  at_cy :: nat
  at_row_h :: nat
  at_pad :: nat
  at_gen :: nat
  at_layout_gen :: nat
  at_pixels :: bytes

definition format_bpp :: "pixel_format \<Rightarrow> nat" where
  "format_bpp f = (case f of Grayscale \<Rightarrow> 1 | Bgra \<Rightarrow> 4)"

definition bytes_per_pixel :: "atlas \<Rightarrow> nat" where
  "bytes_per_pixel a = format_bpp (at_format a)"

definition bump_gen :: "atlas \<Rightarrow> atlas" where
  "bump_gen a = a\<lparr>at_gen := wrap64 (at_gen a + 1)\<rparr>"

definition bump_layout :: "atlas \<Rightarrow> atlas" where
  "bump_layout a = a\<lparr>at_gen := wrap64 (at_gen a + 1), at_layout_gen := wrap64 (at_layout_gen a + 1)\<rparr>"

definition new_atlas :: "pixel_format \<Rightarrow> nat \<Rightarrow> nat \<Rightarrow> atlas" where
  "new_atlas f initial_size max_size =
     bump_layout \<lparr>at_format = f, at_w = initial_size, at_h = initial_size, at_max = max_size,
       at_initial = initial_size, at_cx = 1, at_cy = 1, at_row_h = 0, at_pad = 1, at_gen = 0,
       at_layout_gen = 0, at_pixels = replicate (initial_size * initial_size * format_bpp f) 0\<rparr>"

definition reset_empty :: "atlas \<Rightarrow> atlas" where
  "reset_empty a =
     (let n = max (at_initial a) 1 in
      a\<lparr>at_w := n, at_h := n, at_cx := at_pad a, at_cy := at_pad a, at_row_h := 0,
        at_pixels := replicate (n * n * bytes_per_pixel a) 0\<rparr>)"

definition atlas_clear :: "atlas \<Rightarrow> atlas" where
  "atlas_clear a = bump_layout (reset_empty a)"

text \<open>The direct write access: the caller's bytes replace the page.\<close>

definition mutable_pixels :: "atlas \<Rightarrow> (bytes \<Rightarrow> bytes) \<Rightarrow> atlas" where
  "mutable_pixels a write = bump_gen (a\<lparr>at_pixels := write (at_pixels a)\<rparr>)"

section \<open>Growing\<close>

definition blit :: "'a list \<Rightarrow> nat \<Rightarrow> 'a list \<Rightarrow> 'a list" where
  "blit xs off ys = take off xs @ ys @ drop (off + length ys) xs"

text \<open>The row loop of \<^verbatim>\<open>grow_\<close> and \<^verbatim>\<open>copy_into_\<close>: \<open>h\<close> rows of \<open>w\<close> pixels into a page that is \<open>dst_w\<close> wide.\<close>

definition copy_rows :: "nat \<Rightarrow> nat \<Rightarrow> bytes \<Rightarrow> nat \<Rightarrow> nat \<Rightarrow> nat \<Rightarrow> nat \<Rightarrow> bytes \<Rightarrow> bytes" where
  "copy_rows bpp dst_w dst x y w h src =
     foldl (\<lambda>d j. blit d (((y + j) * dst_w + x) * bpp) (take (w * bpp) (drop (j * w * bpp) src))) dst [0..<h]"

text \<open>The row loop that reads a rectangle back (\<^verbatim>\<open>extract_pixels\<close> in \<^verbatim>\<open>src/font/glyph_cache.cpp\<close>).\<close>

definition read_rows :: "nat \<Rightarrow> nat \<Rightarrow> bytes \<Rightarrow> nat \<Rightarrow> nat \<Rightarrow> nat \<Rightarrow> nat \<Rightarrow> bytes" where
  "read_rows bpp src_w src x y w h =
     concat (map (\<lambda>j. take (w * bpp) (drop (((y + j) * src_w + x) * bpp) src)) [0..<h])"

partial_function (option) double_until :: "nat \<Rightarrow> nat \<Rightarrow> nat \<Rightarrow> nat option" where
  "double_until lo hi n = (if n < lo \<and> n < hi then double_until lo hi (wrap32 (n * 2)) else Some n)"

declare double_until.simps [code]

definition grow :: "atlas \<Rightarrow> nat \<Rightarrow> nat \<Rightarrow> (bool \<times> atlas) option" where
  "grow a min_w min_h =
     Option.bind (double_until min_w (at_max a) (max (at_w a) 1)) (\<lambda>new_w.
     Option.bind (double_until min_h (at_max a) (max (at_h a) 1)) (\<lambda>new_h.
       if new_w = at_w a \<and> new_h = at_h a then Some (False, a)
       else if new_w > at_max a \<or> new_h > at_max a then Some (False, a)
       else let bpp = bytes_per_pixel a;
                grown = copy_rows bpp new_w (replicate (new_w * new_h * bpp) 0) 0 0 (at_w a) (at_h a) (at_pixels a)
         in Some (True, bump_layout (a\<lparr>at_w := new_w, at_h := new_h, at_pixels := grown\<rparr>))))"

definition copy_into :: "atlas \<Rightarrow> nat \<Rightarrow> nat \<Rightarrow> nat \<Rightarrow> nat \<Rightarrow> bytes \<Rightarrow> atlas" where
  "copy_into a x y w h src =
     bump_gen (a\<lparr>at_pixels := copy_rows (bytes_per_pixel a) (at_w a) (at_pixels a) x y w h src\<rparr>)"

section \<open>Packing\<close>

definition no_region :: atlas_region where
  "no_region = \<lparr>rg_ok = False, rg_x = 0, rg_y = 0\<rparr>"

text \<open>The wrap to a new shelf when the row is full.\<close>

definition next_shelf :: "nat \<Rightarrow> atlas \<Rightarrow> atlas" where
  "next_shelf w a =
     (if wrap32 (at_cx a + w + at_pad a) > at_w a
      then a\<lparr>at_cx := at_pad a, at_cy := wrap32 (at_cy a + (at_row_h a + at_pad a)), at_row_h := 0\<rparr>
      else a)"

definition place :: "nat \<Rightarrow> nat \<Rightarrow> atlas \<Rightarrow> atlas_region \<times> atlas" where
  "place w h a =
     (\<lparr>rg_ok = True, rg_x = at_cx a, rg_y = at_cy a\<rparr>,
      a\<lparr>at_cx := wrap32 (at_cx a + (w + at_pad a)), at_row_h := max (at_row_h a) h\<rparr>)"

partial_function (option) reserve_loop :: "nat \<Rightarrow> nat \<Rightarrow> atlas \<Rightarrow> (atlas_region \<times> atlas) option" where
  "reserve_loop w h a =
     (if wrap32 (w + at_pad a * 2) > at_w a \<or> wrap32 (h + at_pad a * 2) > at_h a then
        Option.bind (grow a (max (wrap32 (at_w a * 2)) (wrap32 (w + at_pad a * 2)))
                            (max (wrap32 (at_h a * 2)) (wrap32 (h + at_pad a * 2))))
          (\<lambda>ga. if fst ga then reserve_loop w h (snd ga) else Some (no_region, snd ga))
      else if wrap32 (at_cy (next_shelf w a) + h + at_pad a) > at_h a then
        Option.bind (grow (next_shelf w a) (at_w a) (wrap32 (at_h a * 2)))
          (\<lambda>ga. if fst ga then reserve_loop w h (snd ga) else Some (no_region, snd ga))
      else Some (place w h (next_shelf w a)))"

declare reserve_loop.simps [code]

definition clamp_cursor :: "atlas \<Rightarrow> atlas" where
  "clamp_cursor a = a\<lparr>at_cx := max (at_cx a) (at_pad a), at_cy := max (at_cy a) (at_pad a)\<rparr>"

definition reserve :: "atlas \<Rightarrow> nat \<Rightarrow> nat \<Rightarrow> (atlas_region \<times> atlas) option" where
  "reserve a w h =
     (if w = 0 \<or> h = 0 then Some (\<lparr>rg_ok = True, rg_x = 0, rg_y = 0\<rparr>, a)
      else reserve_loop w h (clamp_cursor a))"

text \<open>\<open>None\<close> for the bytes is a null pointer.\<close>

definition pack :: "atlas \<Rightarrow> nat \<Rightarrow> nat \<Rightarrow> bytes option \<Rightarrow> (atlas_region \<times> atlas) option" where
  "pack a w h bs =
     Option.bind (reserve a w h) (\<lambda>(r, a').
       case bs of
         None \<Rightarrow> Some (r, a')
       | Some src \<Rightarrow>
           if \<not> rg_ok r \<or> w = 0 \<or> h = 0 then Some (r, a')
           else Some (r, copy_into a' (rg_x r) (rg_y r) w h src))"

text \<open>
  \<^verbatim>\<open>rebuild_from_live\<close> over items that name the glyph they belong to (\<open>None\<close> is a null pointer). The
  result lists the new positions in the order they were written.
\<close>

record 'k repack_item =
  ri_glyph :: "'k option"
  ri_pixels :: bytes
  ri_w :: nat
  ri_h :: nat

fun repack :: "atlas \<Rightarrow> 'k repack_item list \<Rightarrow> (bool \<times> ('k \<times> nat \<times> nat) list \<times> atlas) option" where
  "repack a [] = Some (True, [], a)"
| "repack a (item # live) =
     (case ri_glyph item of
        None \<Rightarrow> Some (False, [], a)
      | Some k \<Rightarrow>
          if ri_w item = 0 \<or> ri_h item = 0 then
            map_option (\<lambda>(ok, ps, a'). (ok, (k, 0, 0) # ps, a')) (repack a live)
          else if length (ri_pixels item) \<noteq> ri_w item * ri_h item * bytes_per_pixel a then Some (False, [], a)
          else Option.bind (pack a (ri_w item) (ri_h item) (Some (ri_pixels item))) (\<lambda>(r, a').
            if \<not> rg_ok r then Some (False, [], a')
            else map_option (\<lambda>(ok, ps, a''). (ok, (k, rg_x r, rg_y r) # ps, a'')) (repack a' live)))"

definition rebuild_from_live ::
    "atlas \<Rightarrow> 'k repack_item list \<Rightarrow> (bool \<times> ('k \<times> nat \<times> nat) list \<times> atlas) option" where
  "rebuild_from_live a live = repack (bump_layout (reset_empty a)) live"

end
