(* ===== verification/Glyph_Cache.thy ===== *)
theory Glyph_Cache
  imports Complex_Main Atlas
begin

text \<open>
  The glyph cache of \<^verbatim>\<open>src/font/glyph_cache.cpp\<close>: rendered glyphs in recency order with two atlas
  pages, eviction under a budget, and rebuilding of a page from the retained bitmaps. The
  \<^verbatim>\<open>unordered_map\<close> is a map and the list iterator an entry keeps (\<^verbatim>\<open>lru_pos\<close>) is the place of its key
  in the recency list. A \<^verbatim>\<open>Face\<close> is an abstract class with several backends, so its methods are the
  fields of a record. Positions and sizes are naturals; the \<^verbatim>\<open>float\<close> offsets of a glyph are only
  copied and stand as their bits; the sub-pixel position and the pixel size are rational numbers, on
  which the operations used (fraction, scaling by a power of two) are exact. \<open>None\<close> is a loop that
  does not end, from the atlas or from the cache.
\<close>

section \<open>Data\<close>

record glyph =
  gl_x :: nat
  gl_y :: nat
  gl_w :: nat
  gl_h :: nat
  gl_offset_x :: u32
  gl_offset_y :: u32
  gl_advance_x :: u32
  gl_format :: pixel_format

definition empty_glyph :: glyph where
  "empty_glyph = \<lparr>gl_x = 0, gl_y = 0, gl_w = 0, gl_h = 0, gl_offset_x = 0, gl_offset_y = 0,
     gl_advance_x = 0, gl_format = Grayscale\<rparr>"

record glyph_key =
  gk_face :: u64
  gk_glyph :: u32
  gk_size_q :: u32
  gk_subpixel :: u8
  gk_hint :: u8

record render_recipe =
  rr_face :: u64
  rr_glyph :: u32
  rr_size_q :: u32
  rr_hint :: u8
  rr_sub_x_bin :: u8

record entry =
  en_glyph :: glyph
  en_pixels :: bytes
  en_format :: nat
  en_w :: nat
  en_h :: nat
  en_recipe :: render_recipe

record budget =
  bd_initial :: nat
  bd_max :: nat
  bd_mask_count :: nat
  bd_color_count :: nat
  bd_mask_bytes :: nat
  bd_color_bytes :: nat

definition default_budget :: budget where
  "default_budget = \<lparr>bd_initial = 256, bd_max = 8192, bd_mask_count = 4096, bd_color_count = 1024,
     bd_mask_bytes = 16 * 1024 * 1024, bd_color_bytes = 16 * 1024 * 1024\<rparr>"

record face =
  fc_id :: u64
  fc_pixel_size :: rat
  fc_render :: "u32 \<Rightarrow> atlas \<Rightarrow> atlas \<Rightarrow> u8 \<Rightarrow> rat \<Rightarrow> glyph \<times> atlas \<times> atlas"

record gcache =
  gc_budget :: budget
  gc_mask :: atlas
  gc_color :: atlas
  gc_map :: "glyph_key \<rightharpoonup> entry"
  gc_lru :: "glyph_key list"
  gc_counts :: "pixel_format \<Rightarrow> nat"
  gc_evictions :: "pixel_format \<Rightarrow> nat"
  gc_warned :: "u64 set"

section \<open>Helpers\<close>

definition fnv_mix :: "u64 \<Rightarrow> u64 \<Rightarrow> u64" where
  "fnv_mix h v = (h XOR v) * 1099511628211"

definition warning_key :: "glyph_key \<Rightarrow> u64" where
  "warning_key k = fnv_mix (fnv_mix 14695981039346656037 (gk_face k)) (ucast (gk_size_q k))"

definition extract_pixels :: "atlas \<Rightarrow> glyph \<Rightarrow> bytes" where
  "extract_pixels a g =
     (if gl_w g = 0 \<or> gl_h g = 0 then []
      else if wrap32 (gl_x g + gl_w g) > at_w a \<or> wrap32 (gl_y g + gl_h g) > at_h a then []
      else read_rows (bytes_per_pixel a) (at_w a) (at_pixels a) (gl_x g) (gl_y g) (gl_w g) (gl_h g))"

definition sanitize :: "budget \<Rightarrow> budget" where
  "sanitize b = (let n = max (bd_initial b) 1 in b\<lparr>bd_initial := n, bd_max := max (bd_max b) n\<rparr>)"

definition reset_atlases :: "gcache \<Rightarrow> gcache" where
  "reset_atlases g =
     g\<lparr>gc_mask := new_atlas Grayscale (bd_initial (gc_budget g)) (bd_max (gc_budget g)),
       gc_color := new_atlas Bgra (bd_initial (gc_budget g)) (bd_max (gc_budget g))\<rparr>"

definition atlas_for :: "pixel_format \<Rightarrow> gcache \<Rightarrow> atlas" where
  "atlas_for f g = (case f of Bgra \<Rightarrow> gc_color g | Grayscale \<Rightarrow> gc_mask g)"

text \<open>A write through the reference \<^verbatim>\<open>atlas_for\<close> returns.\<close>

definition set_atlas :: "pixel_format \<Rightarrow> atlas \<Rightarrow> gcache \<Rightarrow> gcache" where
  "set_atlas f a g = (case f of Bgra \<Rightarrow> g\<lparr>gc_color := a\<rparr> | Grayscale \<Rightarrow> g\<lparr>gc_mask := a\<rparr>)"

definition max_count :: "pixel_format \<Rightarrow> gcache \<Rightarrow> nat" where
  "max_count f g = (case f of Bgra \<Rightarrow> bd_color_count (gc_budget g) | Grayscale \<Rightarrow> bd_mask_count (gc_budget g))"

definition max_bytes :: "pixel_format \<Rightarrow> gcache \<Rightarrow> nat" where
  "max_bytes f g = (case f of Bgra \<Rightarrow> bd_color_bytes (gc_budget g) | Grayscale \<Rightarrow> bd_mask_bytes (gc_budget g))"

definition atlas_bytes :: "pixel_format \<Rightarrow> gcache \<Rightarrow> nat" where
  "atlas_bytes f g =
     wrap64 (at_w (atlas_for f g) * at_h (atlas_for f g) * bytes_per_pixel (atlas_for f g))"

definition promote :: "glyph_key \<Rightarrow> gcache \<Rightarrow> gcache" where
  "promote k g = g\<lparr>gc_lru := k # remove1 k (gc_lru g)\<rparr>"

section \<open>Eviction and rebuilding\<close>

definition evictable :: "pixel_format \<Rightarrow> glyph_key \<Rightarrow> gcache \<Rightarrow> glyph_key \<Rightarrow> bool" where
  "evictable f protected_key g k =
     (case gc_map g k of None \<Rightarrow> False | Some e \<Rightarrow> gl_format (en_glyph e) = f \<and> k \<noteq> protected_key)"

definition drop_entry :: "pixel_format \<Rightarrow> glyph_key \<Rightarrow> gcache \<Rightarrow> gcache" where
  "drop_entry f k g =
     g\<lparr>gc_map := (gc_map g)(k := None),
       gc_counts := (gc_counts g)(f := sub64 (gc_counts g f) 1),
       gc_evictions := (gc_evictions g)(f := wrap64 (gc_evictions g f + 1))\<rparr>"

definition evict_one_lru :: "pixel_format \<Rightarrow> glyph_key \<Rightarrow> gcache \<Rightarrow> bool \<times> gcache" where
  "evict_one_lru f protected_key g =
     (case List.find (evictable f protected_key g) (rev (gc_lru g)) of
        None \<Rightarrow> (False, g)
      | Some victim \<Rightarrow> (True, (drop_entry f victim g)\<lparr>gc_lru := rev (remove1 victim (rev (gc_lru g)))\<rparr>))"

definition live_item :: "pixel_format \<Rightarrow> gcache \<Rightarrow> glyph_key \<Rightarrow> glyph_key repack_item option" where
  "live_item f g k =
     (case gc_map g k of
        None \<Rightarrow> None
      | Some e \<Rightarrow>
          if gl_format (en_glyph e) \<noteq> f then None
          else Some \<lparr>ri_glyph = Some k, ri_pixels = en_pixels e, ri_w = en_w e, ri_h = en_h e\<rparr>)"

definition live_items :: "pixel_format \<Rightarrow> gcache \<Rightarrow> glyph_key repack_item list" where
  "live_items f g = List.map_filter (live_item f g) (gc_lru g)"

definition move_glyph :: "entry \<Rightarrow> nat \<Rightarrow> nat \<Rightarrow> entry" where
  "move_glyph e x y = e\<lparr>en_glyph := (en_glyph e)\<lparr>gl_x := x, gl_y := y\<rparr>\<rparr>"

definition move_in_map :: "glyph_key \<times> nat \<times> nat \<Rightarrow> (glyph_key \<rightharpoonup> entry) \<Rightarrow> (glyph_key \<rightharpoonup> entry)" where
  "move_in_map = (\<lambda>(k, x, y) m. m(k := map_option (\<lambda>e. move_glyph e x y) (m k)))"

definition rebuild :: "pixel_format \<Rightarrow> gcache \<Rightarrow> (bool \<times> gcache) option" where
  "rebuild f g =
     map_option (\<lambda>(ok, ps, a). (ok, set_atlas f a (g\<lparr>gc_map := fold move_in_map ps (gc_map g)\<rparr>)))
       (rebuild_from_live (atlas_for f g) (live_items f g))"

definition over_budget :: "pixel_format \<Rightarrow> gcache \<Rightarrow> bool" where
  "over_budget f g \<longleftrightarrow> gc_counts g f > max_count f g \<or> atlas_bytes f g > max_bytes f g"

partial_function (option) enforce_loop :: "pixel_format \<Rightarrow> glyph_key \<Rightarrow> bool \<Rightarrow> gcache \<Rightarrow> (bool \<times> gcache) option" where
  "enforce_loop f protected_key changed g =
     (if over_budget f g then
        (if \<not> fst (evict_one_lru f protected_key g) then Some (False, g)
         else Option.bind (rebuild f (snd (evict_one_lru f protected_key g)))
           (\<lambda>bg. if fst bg then enforce_loop f protected_key True (snd bg) else Some (False, snd bg)))
      else if changed then rebuild f g else Some (True, g))"

declare enforce_loop.simps [code]

definition enforce_budget :: "pixel_format \<Rightarrow> glyph_key \<Rightarrow> gcache \<Rightarrow> (bool \<times> gcache) option" where
  "enforce_budget f protected_key g = enforce_loop f protected_key False g"

fun evict_many :: "nat \<Rightarrow> pixel_format \<Rightarrow> glyph_key \<Rightarrow> bool \<Rightarrow> gcache \<Rightarrow> bool \<times> gcache" where
  "evict_many 0 f protected_key evicted g = (evicted, g)"
| "evict_many (Suc n) f protected_key evicted g =
     (case evict_one_lru f protected_key g of
        (False, g') \<Rightarrow> (evicted, g')
      | (True, g') \<Rightarrow> evict_many n f protected_key True g')"

definition recover_space_for_pack :: "pixel_format \<Rightarrow> glyph_key \<Rightarrow> gcache \<Rightarrow> (bool \<times> gcache) option" where
  "recover_space_for_pack f protected_key g =
     (let to_evict = max 1 (gc_counts g f div 4)
      in case evict_many to_evict f protected_key False g of
           (False, g') \<Rightarrow> Some (False, g')
         | (True, g') \<Rightarrow> rebuild f g')"

section \<open>Inserting\<close>

partial_function (option) pack_loop :: "glyph_key \<Rightarrow> entry \<Rightarrow> gcache \<Rightarrow> (bool \<times> entry \<times> gcache) option" where
  "pack_loop k e g =
     Option.bind (pack (atlas_for (gl_format (en_glyph e)) g) (en_w e) (en_h e) (Some (en_pixels e))) (\<lambda>ra.
       if rg_ok (fst ra)
       then Some (True, move_glyph e (rg_x (fst ra)) (rg_y (fst ra)), set_atlas (gl_format (en_glyph e)) (snd ra) g)
       else Option.bind (recover_space_for_pack (gl_format (en_glyph e)) k (set_atlas (gl_format (en_glyph e)) (snd ra) g))
         (\<lambda>bg. if fst bg then pack_loop k e (snd bg) else Some (False, e, snd bg)))"

declare pack_loop.simps [code]

definition pack_entry :: "glyph_key \<Rightarrow> entry \<Rightarrow> gcache \<Rightarrow> (bool \<times> entry \<times> gcache) option" where
  "pack_entry k e g =
     (if en_w e = 0 \<or> en_h e = 0 then Some (True, move_glyph e 0 0, g) else pack_loop k e g)"

definition warn_oversize_once :: "glyph_key \<Rightarrow> gcache \<Rightarrow> gcache" where
  "warn_oversize_once k g = g\<lparr>gc_warned := insert (warning_key k) (gc_warned g)\<rparr>"

definition new_entry :: "glyph_key \<Rightarrow> glyph \<Rightarrow> bytes \<Rightarrow> entry" where
  "new_entry k rendered px =
     \<lparr>en_glyph = rendered, en_pixels = px, en_format = (case gl_format rendered of Grayscale \<Rightarrow> 0 | Bgra \<Rightarrow> 1),
      en_w = min (gl_w rendered) 0xffff, en_h = min (gl_h rendered) 0xffff,
      en_recipe = \<lparr>rr_face = gk_face k, rr_glyph = gk_glyph k, rr_size_q = gk_size_q k,
        rr_hint = gk_hint k, rr_sub_x_bin = gk_subpixel k\<rparr>\<rparr>"

text \<open>
  The end of \<^verbatim>\<open>lookup\<close> once the entry has its place: \<open>None\<close> as the glyph is the reference to the
  empty fallback glyph.
\<close>

definition admit :: "glyph_key \<Rightarrow> entry \<Rightarrow> gcache \<Rightarrow> (glyph option \<times> gcache) option" where
  "admit k e g =
     (let f = gl_format (en_glyph e); g1 = g\<lparr>gc_lru := k # gc_lru g\<rparr> in
      case gc_map g1 k of
        Some old \<Rightarrow> Some (Some (en_glyph old), g1)
      | None \<Rightarrow>
          let g2 = g1\<lparr>gc_map := (gc_map g1)(k \<mapsto> e), gc_counts := (gc_counts g1)(f := wrap64 (gc_counts g1 f + 1))\<rparr> in
          Option.bind (enforce_budget f k g2) (\<lambda>(ok, g3).
            if \<not> ok then
              (case gc_map g3 k of
                 None \<Rightarrow> Some (None, warn_oversize_once k g3)
               | Some _ \<Rightarrow>
                   map_option (\<lambda>(_, g4). (None, warn_oversize_once k g4))
                     (rebuild f ((drop_entry f k g3)\<lparr>gc_lru := tl (gc_lru g3)\<rparr>)))
            else Some (map_option en_glyph (gc_map g3 k), g3)))"

definition insert_rendered :: "glyph_key \<Rightarrow> glyph \<Rightarrow> bytes \<Rightarrow> gcache \<Rightarrow> (glyph option \<times> gcache) option" where
  "insert_rendered k rendered px g =
     (if (gl_w rendered \<noteq> 0 \<or> gl_h rendered \<noteq> 0) \<and> px = [] then Some (None, warn_oversize_once k g)
      else if gl_w rendered > 0xffff \<or> gl_h rendered > 0xffff then Some (None, warn_oversize_once k g)
      else Option.bind (pack_entry k (new_entry k rendered px) g) (\<lambda>(ok, e, g1).
        if \<not> ok then Some (None, warn_oversize_once k g1) else admit k e g1))"

section \<open>The interface\<close>

text \<open>\<open>None\<close> as the position is a value that is not finite.\<close>

definition sub_bin :: "rat option \<Rightarrow> nat" where
  "sub_bin p =
     (let x = (case p of None \<Rightarrow> 0 | Some q \<Rightarrow> if q < 0 then 0 else q);
          x = (if x \<ge> 1 then x - of_int \<lfloor>x\<rfloor> else x)
      in nat \<lfloor>x * 4\<rfloor> mod 4)"

definition lround :: "rat \<Rightarrow> int" where
  "lround x = (if x \<ge> 0 then \<lfloor>x + 1 / 2\<rfloor> else - \<lfloor>1 / 2 - x\<rfloor>)"

definition lookup_key :: "face \<Rightarrow> u32 \<Rightarrow> rat option \<Rightarrow> u8 \<Rightarrow> glyph_key" where
  "lookup_key fc gid p hint =
     \<lparr>gk_face = fc_id fc, gk_glyph = gid, gk_size_q = of_int (lround (fc_pixel_size fc * 64)),
      gk_subpixel = of_nat (sub_bin p), gk_hint = hint\<rparr>"

definition lookup :: "face \<Rightarrow> u32 \<Rightarrow> rat option \<Rightarrow> u8 \<Rightarrow> gcache \<Rightarrow> (glyph option \<times> gcache) option" where
  "lookup fc gid p hint g =
     (let k = lookup_key fc gid p hint in
      case gc_map g k of
        Some e \<Rightarrow> Some (Some (en_glyph e), promote k g)
      | None \<Rightarrow>
          (case fc_render fc gid (new_atlas Grayscale 256 8192) (new_atlas Bgra 256 8192) hint (of_nat (sub_bin p) / 4) of
             (rendered, scratch_mask, scratch_color) \<Rightarrow>
               let scratch = (if gl_format rendered = Bgra then scratch_color else scratch_mask)
               in insert_rendered k rendered (extract_pixels scratch rendered) g))"

definition new_gcache :: "budget \<Rightarrow> gcache" where
  "new_gcache b = reset_atlases
     \<lparr>gc_budget = sanitize b, gc_mask = new_atlas Grayscale 256 8192, gc_color = new_atlas Bgra 256 8192,
      gc_map = Map.empty, gc_lru = [], gc_counts = (\<lambda>_. 0), gc_evictions = (\<lambda>_. 0), gc_warned = {}\<rparr>"

definition set_budget :: "budget \<Rightarrow> gcache \<Rightarrow> gcache" where
  "set_budget b g =
     reset_atlases (g\<lparr>gc_budget := sanitize b, gc_map := Map.empty, gc_lru := [], gc_counts := (\<lambda>_. 0)\<rparr>)"

definition gc_clear :: "gcache \<Rightarrow> gcache" where
  "gc_clear g = g\<lparr>gc_map := Map.empty, gc_lru := [], gc_counts := (\<lambda>_. 0),
     gc_mask := atlas_clear (gc_mask g), gc_color := atlas_clear (gc_color g)\<rparr>"

end
