(* ===== verification/Atlas_Correct.thy ===== *)
theory Atlas_Correct
  imports Atlas
begin

text \<open>
  Correctness of the atlas: every reservation ends, reserved rectangles lie inside the page with a
  margin and never touch each other, and every packed bitmap reads back unchanged after any later
  packing and growth.
\<close>

section \<open>Rows of pixels\<close>

lemma length_blit: "off + length ys \<le> length xs \<Longrightarrow> length (blit xs off ys) = length xs"
  by (simp add: blit_def)

lemma read_blit_same: "off + length ys \<le> length xs \<Longrightarrow> take (length ys) (drop off (blit xs off ys)) = ys"
  by (simp add: blit_def)

lemma read_blit_other:
  assumes "off + length ys \<le> length xs" and "k + n \<le> off \<or> off + length ys \<le> k"
  shows "take n (drop k (blit xs off ys)) = take n (drop k xs)"
proof (cases "k + n \<le> off")
  case True
  have "take n (drop k (blit xs off ys)) = drop k (take (k + n) (blit xs off ys))" by (simp add: take_drop add.commute)
  also have "take (k + n) (blit xs off ys) = take (k + n) xs"
    using True assms(1) by (simp add: blit_def min_def)
  also have "drop k \<dots> = take n (drop k xs)" by (simp add: take_drop add.commute)
  finally show ?thesis .
next
  case False
  then have "off + length ys \<le> k" using assms(2) by simp
  then have "drop k (blit xs off ys) = drop k xs"
    using assms(1) by (simp add: blit_def)
  then show ?thesis by simp
qed

lemma row_in_page:
  fixes H :: nat
  assumes "x + w \<le> W" and "r < H"
  shows "(r * W + x) * b + w * b \<le> W * H * b"
proof -
  have "r * W + x + w \<le> Suc r * W" using assms(1) by simp
  also have "\<dots> \<le> H * W" using assms(2) by (intro mult_le_mono1) simp
  finally have "(r * W + x + w) * b \<le> W * H * b" by (simp add: mult.commute)
  then show ?thesis by (simp add: add_mult_distrib)
qed

lemma rows_disjoint:
  assumes "x + w \<le> W" and "(r :: nat) < r'"
  shows "(r * W + x) * b + w * b \<le> (r' * W + x') * b"
proof -
  have "(r * W + x) * b + w * b \<le> W * r' * b" using row_in_page[OF assms] .
  also have "\<dots> \<le> (r' * W + x') * b" by (simp add: mult.commute)
  finally show ?thesis .
qed

lemma copy_rows_Suc:
  "copy_rows b W dst x y w (Suc h) src =
     blit (copy_rows b W dst x y w h src) (((y + h) * W + x) * b) (take (w * b) (drop (h * w * b) src))"
  by (simp add: copy_rows_def)

lemma copy_rows_0 [simp]: "copy_rows b W dst x y w 0 src = dst"
  by (simp add: copy_rows_def)

lemma src_row_length:
  fixes h :: nat
  assumes "w * h * b \<le> length src" and "j < h"
  shows "length (take (w * b) (drop (j * w * b) src)) = w * b"
proof -
  have "j * w * b + w * b = w * Suc j * b" by (simp add: algebra_simps)
  also have "\<dots> \<le> w * h * b" using assms(2) by (intro mult_le_mono1 mult_le_mono2) simp
  finally show ?thesis using assms(1) by simp
qed

lemma copy_rows_props:
  assumes "x + w \<le> W" and "length dst = W * H * b"
  shows "y + h \<le> H \<Longrightarrow> w * h * b \<le> length src \<Longrightarrow>
    length (copy_rows b W dst x y w h src) = length dst \<and>
    (\<forall>k n. (\<forall>j < h. k + n \<le> ((y + j) * W + x) * b \<or> ((y + j) * W + x) * b + w * b \<le> k) \<longrightarrow>
      take n (drop k (copy_rows b W dst x y w h src)) = take n (drop k dst)) \<and>
    (\<forall>j < h. take (w * b) (drop (((y + j) * W + x) * b) (copy_rows b W dst x y w h src)) =
      take (w * b) (drop (j * w * b) src))"
proof (induction h)
  case (Suc h)
  let ?off = "\<lambda>j. ((y + j) * W + x) * b"
  let ?c = "copy_rows b W dst x y w h src" and ?row = "take (w * b) (drop (h * w * b) src)"
  have row: "length ?row = w * b" using Suc.prems(2) by (intro src_row_length[of w "Suc h"]) auto
  have "w * h * b \<le> w * Suc h * b" by simp
  then have sub: "y + h \<le> H" "w * h * b \<le> length src" using Suc.prems by linarith+
  note IH = Suc.IH[OF sub]
  have fit: "?off h + length ?row \<le> length ?c"
    unfolding row IH[THEN conjunct1] assms(2) using Suc.prems(1) assms(1) by (intro row_in_page) auto
  have other: "take n (drop k (blit ?c (?off h) ?row)) = take n (drop k ?c)"
    if "k + n \<le> ?off h \<or> ?off h + w * b \<le> k" for k n
    using read_blit_other[OF fit] that row by simp
  have "take (w * b) (drop (?off j) (blit ?c (?off h) ?row)) = take (w * b) (drop (j * w * b) src)" if "j < Suc h" for j
  proof (cases "j = h")
    case True
    then show ?thesis using read_blit_same[OF fit] row by simp
  next
    case False
    then have "j < h" using that by simp
    then have "?off j + w * b \<le> ?off h" using assms(1) by (intro rows_disjoint) auto
    then show ?thesis using other IH \<open>j < h\<close> by simp
  qed
  moreover have "take n (drop k (blit ?c (?off h) ?row)) = take n (drop k dst)"
    if "\<forall>j < Suc h. k + n \<le> ?off j \<or> ?off j + w * b \<le> k" for k n
    using that other[of k n] IH by (metis less_Suc_eq)
  ultimately show ?case
    unfolding copy_rows_Suc using length_blit[OF fit] IH by auto
qed simp

text \<open>Reading a rectangle: what was copied there, what lies apart from the copy, and what a wider page holds.\<close>

lemma read_rows_cong:
  "(\<And>j. j < h \<Longrightarrow> take (w * b) (drop (((y + j) * W + x) * b) p) = take (w * b) (drop (((y + j) * W' + x) * b) p')) \<Longrightarrow>
   read_rows b W p x y w h = read_rows b W' p' x y w h"
  unfolding read_rows_def by (intro arg_cong[of _ _ concat] map_cong) auto

lemma concat_rows: "concat (map (\<lambda>j. take c (drop (j * c) src)) [0..<h]) = take (h * c) src"
proof (induction h)
  case (Suc h)
  have "take (Suc h * c) src = take (h * c) src @ take c (drop (h * c) src)"
    using take_add[of "h * c" c src] by (simp add: add.commute)
  then show ?case using Suc by simp
qed simp

lemma read_copied:
  assumes "x + w \<le> W" "y + h \<le> H" "length dst = W * H * b" "length src = w * h * b"
  shows "read_rows b W (copy_rows b W dst x y w h src) x y w h = src"
proof -
  have "read_rows b W (copy_rows b W dst x y w h src) x y w h =
      concat (map (\<lambda>j. take (w * b) (drop (j * (w * b)) src)) [0..<h])"
    unfolding read_rows_def
    using copy_rows_props[OF assms(1,3,2), of src] assms(4) by (intro arg_cong[of _ _ concat] map_cong) (auto simp: mult.assoc)
  also have "\<dots> = src" unfolding concat_rows using assms(4) by (simp add: ac_simps)
  finally show ?thesis .
qed

definition apart :: "nat \<times> nat \<times> nat \<times> nat \<Rightarrow> nat \<times> nat \<times> nat \<times> nat \<Rightarrow> bool" where
  "apart = (\<lambda>(x, y, w, h) (x', y', w', h').
     x + w + 1 \<le> x' \<or> x' + w' + 1 \<le> x \<or> y + h + 1 \<le> y' \<or> y' + h' + 1 \<le> y)"

lemma read_apart:
  assumes "x + w \<le> W" "y + h \<le> H" "length dst = W * H * b" "length src = w * h * b"
    and "apart (x', y', w', h') (x, y, w, h)" "x' + w' \<le> W"
  shows "read_rows b W (copy_rows b W dst x y w h src) x' y' w' h' = read_rows b W dst x' y' w' h'"
proof (rule read_rows_cong)
  fix i assume i: "i < h'"
  have "((y' + i) * W + x') * b + w' * b \<le> ((y + j) * W + x) * b \<or> ((y + j) * W + x) * b + w * b \<le> ((y' + i) * W + x') * b"
    if j: "j < h" for j
  proof -
    consider "y' + i < y + j" | "y + j < y' + i" | "y' + i = y + j" by linarith
    then show ?thesis
    proof cases
      case 3
      then have "x' + w' + 1 \<le> x \<or> x + w + 1 \<le> x'" using assms(5) i j by (auto simp: apart_def)
      then have "x' + w' \<le> x \<or> x + w \<le> x'" by auto
      then have "(x' + w') * b \<le> x * b \<or> (x + w) * b \<le> x' * b" by (meson mult_le_mono1)
      then show ?thesis unfolding 3 by (auto simp: add_mult_distrib)
    qed (use assms(1,6) rows_disjoint in blast)+
  qed
  then show "take (w' * b) (drop (((y' + i) * W + x') * b) (copy_rows b W dst x y w h src)) =
      take (w' * b) (drop (((y' + i) * W + x') * b) dst)"
    using copy_rows_props[OF assms(1,3,2), of src] assms(4) by simp
qed

lemma read_grown:
  assumes "W \<le> W'" "H \<le> H'" "length src = W * H * b" "x + w \<le> W" "y + h \<le> H"
  shows "read_rows b W' (copy_rows b W' (replicate (W' * H' * b) 0) 0 0 W H src) x y w h = read_rows b W src x y w h"
proof (rule read_rows_cong)
  fix j assume j: "j < h"
  let ?g = "copy_rows b W' (replicate (W' * H' * b) 0) 0 0 W H src"
  have r: "y + j < H" using j assms(5) by simp
  have row: "take (W * b) (drop ((y + j) * W' * b) ?g) = take (W * b) (drop ((y + j) * W * b) src)"
    using copy_rows_props[of 0 W W' "replicate (W' * H' * b) 0" H' b 0 H src] assms(1-3) r by auto
  have sub: "take (w * b) (drop (k + x * b) p) = take (w * b) (drop (x * b) (take (W * b) (drop k p)))" for k and p :: bytes
  proof -
    have "x * b + w * b \<le> W * b" using assms(4) by (metis add_mult_distrib mult_le_mono1)
    then have "min (w * b) (W * b - x * b) = w * b" by simp
    then show ?thesis by (simp add: drop_take add.commute)
  qed
  show "take (w * b) (drop (((y + j) * W' + x) * b) ?g) = take (w * b) (drop (((y + j) * W + x) * b) src)"
    unfolding add_mult_distrib[of _ x b] sub row ..
qed


section \<open>The shelf invariant\<close>

definition atlas_inv :: "atlas \<Rightarrow> bool" where
  "atlas_inv a \<longleftrightarrow> at_pad a = 1 \<and> at_max a < 2 ^ 31 \<and> at_initial a < 2 ^ 31 \<and> at_w a < 2 ^ 31 \<and> at_h a < 2 ^ 31 \<and>
     length (at_pixels a) = at_w a * at_h a * bytes_per_pixel a \<and> 1 \<le> at_cx a \<and> 1 \<le> at_cy a \<and>
     (if at_row_h a = 0 then at_cx a = 1 \<and> at_cy a \<le> at_h a + 1
      else at_cx a \<le> at_w a \<and> at_cy a + at_row_h a + 1 \<le> at_h a)"

text \<open>A rectangle on a finished shelf or on the current one, with its margin inside the page.\<close>

definition on_shelf :: "atlas \<Rightarrow> nat \<times> nat \<times> nat \<times> nat \<Rightarrow> bool" where
  "on_shelf a = (\<lambda>(x, y, w, h). 1 \<le> x \<and> 1 \<le> y \<and> x + w + 1 \<le> at_w a \<and> y + h + 1 \<le> at_h a \<and>
     (y + h + 1 \<le> at_cy a \<or> y = at_cy a \<and> x + w + 1 \<le> at_cx a \<and> h \<le> at_row_h a))"

definition content :: "atlas \<Rightarrow> nat \<times> nat \<times> nat \<times> nat \<Rightarrow> bytes" where
  "content a = (\<lambda>(x, y, w, h). read_rows (bytes_per_pixel a) (at_w a) (at_pixels a) x y w h)"

text \<open>The fixed parameters stay, and every rectangle stays where it is with its pixels.\<close>

definition extends :: "atlas \<Rightarrow> atlas \<Rightarrow> bool" where
  "extends a a' \<longleftrightarrow> at_format a' = at_format a \<and> at_max a' = at_max a \<and> at_initial a' = at_initial a \<and>
     (\<forall>q. on_shelf a q \<longrightarrow> on_shelf a' q \<and> content a' q = content a q)"

lemma extends_refl [simp]: "extends a a"
  by (simp add: extends_def)

lemma extends_trans: "extends a b \<Longrightarrow> extends b c \<Longrightarrow> extends a c"
  by (auto simp: extends_def)

lemma bump_simps [simp]:
  "atlas_inv (bump_layout a) = atlas_inv a" "atlas_inv (bump_gen a) = atlas_inv a"
  "on_shelf (bump_layout a) = on_shelf a" "on_shelf (bump_gen a) = on_shelf a"
  "content (bump_layout a) = content a" "content (bump_gen a) = content a"
  "bytes_per_pixel (bump_layout a) = bytes_per_pixel a" "bytes_per_pixel (bump_gen a) = bytes_per_pixel a"
  "extends b (bump_layout a) = extends b a" "extends b (bump_gen a) = extends b a"
  by (simp_all add: bump_layout_def bump_gen_def atlas_inv_def on_shelf_def content_def bytes_per_pixel_def extends_def)

lemma new_atlas_inv: "n < 2 ^ 31 \<Longrightarrow> m < 2 ^ 31 \<Longrightarrow> atlas_inv (new_atlas f n m)"
  by (simp add: new_atlas_def) (simp add: atlas_inv_def bytes_per_pixel_def)

lemma reset_empty_inv: "atlas_inv a \<Longrightarrow> atlas_inv (reset_empty a)"
  by (auto simp: atlas_inv_def reset_empty_def Let_def bytes_per_pixel_def)

section \<open>Growing\<close>

lemma double_until_ends:
  assumes "hi < 2 ^ 31" and "1 \<le> n"
  shows "\<exists>m. double_until lo hi n = Some m \<and> n \<le> m \<and> (m = n \<or> m < 2 * hi) \<and> \<not> (m < lo \<and> m < hi)"
  using assms(2)
proof (induction "hi - n" arbitrary: n rule: less_induct)
  case less
  show ?case
  proof (cases "n < lo \<and> n < hi")
    case True
    then have w: "wrap32 (n * 2) = n * 2" using assms(1) by (simp add: wrap_simps)
    have "hi - n * 2 < hi - n" "1 \<le> n * 2" using True less.prems by linarith+
    then obtain m where "double_until lo hi (n * 2) = Some m" "n * 2 \<le> m" "m = n * 2 \<or> m < 2 * hi" "\<not> (m < lo \<and> m < hi)"
      using less.hyps by blast
    then show ?thesis using True w by (subst double_until.simps) auto
  qed (subst double_until.simps, auto)
qed

lemma grow_spec:
  assumes inv: "atlas_inv a"
  shows "\<exists>g a'. grow a mw mh = Some (g, a') \<and> (\<not> g \<longrightarrow> a' = a) \<and>
    (g \<longrightarrow> atlas_inv a' \<and> extends a a' \<and> at_w a \<le> at_w a' \<and> at_h a \<le> at_h a' \<and>
       at_w a + at_h a < at_w a' + at_h a' \<and> at_w a' \<le> at_max a \<and> at_h a' \<le> at_max a \<and> at_row_h a' = at_row_h a)"
proof -
  have max: "at_max a < 2 ^ 31" using inv by (simp add: atlas_inv_def)
  obtain nw where nw: "double_until mw (at_max a) (max (at_w a) 1) = Some nw" "max (at_w a) 1 \<le> nw"
    using double_until_ends[OF max, of "max (at_w a) 1" mw] by auto
  obtain nh where nh: "double_until mh (at_max a) (max (at_h a) 1) = Some nh" "max (at_h a) 1 \<le> nh"
    using double_until_ends[OF max, of "max (at_h a) 1" mh] by auto
  show ?thesis
  proof (cases "nw = at_w a \<and> nh = at_h a \<or> nw > at_max a \<or> nh > at_max a")
    case True
    then have "grow a mw mh = Some (False, a)" using nw nh by (auto simp: grow_def)
    then show ?thesis by blast
  next
    case False
    let ?b = "bytes_per_pixel a"
    let ?g = "copy_rows ?b nw (replicate (nw * nh * ?b) 0) 0 0 (at_w a) (at_h a) (at_pixels a)"
    let ?a = "a\<lparr>at_w := nw, at_h := nh, at_pixels := ?g\<rparr>"
    have le: "at_w a \<le> nw" "at_h a \<le> nh" using nw nh by simp_all
    have px: "length (at_pixels a) = at_w a * at_h a * ?b" using inv by (simp add: atlas_inv_def)
    have len: "length ?g = nw * nh * ?b"
      using copy_rows_props[of 0 "at_w a" nw "replicate (nw * nh * ?b) 0" nh ?b 0 "at_h a" "at_pixels a"] le px by simp
    have b: "bytes_per_pixel ?a = ?b" by (simp add: bytes_per_pixel_def)
    have "atlas_inv ?a"
      using inv le len False b max by (auto simp: atlas_inv_def split: if_splits)
    moreover have "extends a ?a"
      unfolding extends_def
    proof (intro conjI allI impI)
      fix q assume q: "on_shelf a q"
      show "on_shelf ?a q" using q le by (auto simp: on_shelf_def)
      show "content ?a q = content a q"
        using q read_grown[OF le px] b by (auto simp: on_shelf_def content_def)
    qed simp_all
    moreover have "grow a mw mh = Some (True, bump_layout ?a)"
      using nw nh False by (simp add: grow_def Let_def)
    moreover have "at_w (bump_layout ?a) = nw" "at_h (bump_layout ?a) = nh" "at_row_h (bump_layout ?a) = at_row_h a"
      by (simp_all add: bump_layout_def)
    ultimately show ?thesis using le False by fastforce
  qed
qed

section \<open>Reserving\<close>

lemma next_shelf_spec:
  assumes "atlas_inv a" and "w + 2 \<le> at_w a"
  shows "atlas_inv (next_shelf w a)" "extends a (next_shelf w a)" "at_cx (next_shelf w a) + w + 1 \<le> at_w a"
    "at_w (next_shelf w a) = at_w a" "at_h (next_shelf w a) = at_h a"
    "at_max (next_shelf w a) = at_max a" "at_pad (next_shelf w a) = 1"
proof -
  have "at_cx a + w + 1 < 2 ^ 32" using assms by (auto simp: atlas_inv_def split: if_splits)
  then have cx: "wrap32 (at_cx a + w + at_pad a) = at_cx a + w + 1"
    using assms(1) by (simp add: wrap_simps atlas_inv_def)
  have row: "at_row_h a \<noteq> 0" if "at_cx a + w + 1 > at_w a"
    using assms that by (auto simp: atlas_inv_def split: if_splits)
  have cy: "wrap32 (at_cy a + (at_row_h a + at_pad a)) = at_cy a + at_row_h a + 1" if "at_row_h a \<noteq> 0"
    using assms(1) that by (simp add: wrap_simps atlas_inv_def)
  have eq: "next_shelf w a = (if at_cx a + w + 1 > at_w a
      then a\<lparr>at_cx := 1, at_cy := at_cy a + at_row_h a + 1, at_row_h := 0\<rparr> else a)"
    using cx cy row assms(1) by (simp add: next_shelf_def atlas_inv_def)
  show "atlas_inv (next_shelf w a)" "at_cx (next_shelf w a) + w + 1 \<le> at_w a"
    "at_w (next_shelf w a) = at_w a" "at_h (next_shelf w a) = at_h a"
    "at_max (next_shelf w a) = at_max a" "at_pad (next_shelf w a) = 1"
    using assms row unfolding eq by (auto simp: atlas_inv_def bytes_per_pixel_def)
  show "extends a (next_shelf w a)"
    unfolding eq by (auto simp: extends_def on_shelf_def content_def bytes_per_pixel_def)
qed

lemma place_spec:
  assumes inv: "atlas_inv a" and fit: "at_cx a + w + 1 \<le> at_w a" "at_cy a + h + 1 \<le> at_h a" and h: "0 < h"
  shows "\<exists>a'. place w h a = (\<lparr>rg_ok = True, rg_x = at_cx a, rg_y = at_cy a\<rparr>, a') \<and> atlas_inv a' \<and> extends a a' \<and>
    on_shelf a' (at_cx a, at_cy a, w, h) \<and> (\<forall>q. on_shelf a q \<longrightarrow> apart q (at_cx a, at_cy a, w, h))"
proof -
  have "at_w a < 2 ^ 31" using inv by (simp add: atlas_inv_def)
  then have cx: "wrap32 (at_cx a + (w + at_pad a)) = at_cx a + w + 1"
    using inv fit(1) by (simp add: wrap_simps atlas_inv_def)
  let ?a = "a\<lparr>at_cx := at_cx a + w + 1, at_row_h := max (at_row_h a) h\<rparr>"
  have "atlas_inv ?a" using inv fit h by (auto simp: atlas_inv_def bytes_per_pixel_def max_def split: if_splits)
  moreover have "extends a ?a" by (auto simp: extends_def on_shelf_def content_def bytes_per_pixel_def)
  moreover have "on_shelf ?a (at_cx a, at_cy a, w, h)" using inv fit by (auto simp: on_shelf_def atlas_inv_def)
  moreover have "apart q (at_cx a, at_cy a, w, h)" if "on_shelf a q" for q
    using that by (auto simp: on_shelf_def apart_def)
  ultimately show ?thesis using cx by (simp add: place_def)
qed

text \<open>What one reservation does: it ends, keeps the invariant and every earlier rectangle, and a granted
  rectangle is new, in the page and apart from all earlier ones.\<close>

definition reserved :: "atlas \<Rightarrow> nat \<Rightarrow> nat \<Rightarrow> atlas_region \<Rightarrow> atlas \<Rightarrow> bool" where
  "reserved a w h r a' \<longleftrightarrow> atlas_inv a' \<and> extends a a' \<and>
     (rg_ok r \<longrightarrow> on_shelf a' (rg_x r, rg_y r, w, h) \<and> (\<forall>q. on_shelf a q \<longrightarrow> apart q (rg_x r, rg_y r, w, h)))"

lemma reserved_extends: "extends a b \<Longrightarrow> reserved b w h r a' \<Longrightarrow> reserved a w h r a'"
  unfolding reserved_def using extends_trans by (auto simp: extends_def)

lemma reserve_loop_ends:
  assumes "0 < w" "0 < h" "w < 2 ^ 31" "h < 2 ^ 31"
  shows "atlas_inv a \<Longrightarrow> \<exists>r a'. reserve_loop w h a = Some (r, a') \<and> reserved a w h r a'"
proof (induction "(at_max a - at_w a) + (at_max a - at_h a)" arbitrary: a rule: less_induct)
  case less
  note inv = less.prems
  have pad: "at_pad a = 1" using inv by (simp add: atlas_inv_def)
  have need: "wrap32 (w + at_pad a * 2) = w + 2" "wrap32 (h + at_pad a * 2) = h + 2"
    using assms pad by (simp_all add: wrap_simps)
  have retry: "\<exists>r a'. Option.bind (grow b mw mh)
      (\<lambda>ga. if fst ga then reserve_loop w h (snd ga) else Some (no_region, snd ga)) = Some (r, a') \<and> reserved a w h r a'"
    if b: "atlas_inv b" "extends a b" "at_w b = at_w a" "at_h b = at_h a" "at_max b = at_max a" for b mw mh
  proof -
    obtain g c where gr: "grow b mw mh = Some (g, c)" "\<not> g \<longrightarrow> c = b"
      "g \<longrightarrow> atlas_inv c \<and> extends b c \<and> at_w b \<le> at_w c \<and> at_h b \<le> at_h c \<and>
         at_w b + at_h b < at_w c + at_h c \<and> at_w c \<le> at_max b \<and> at_h c \<le> at_max b \<and> at_row_h c = at_row_h b"
      using grow_spec[OF b(1)] by blast
    show ?thesis
    proof (cases g)
      case False
      then show ?thesis using gr b by (simp add: reserved_def no_region_def)
    next
      case True
      then have c: "atlas_inv c" "extends b c" "at_max c = at_max a" using gr b by (auto simp: extends_def)
      have "(at_max c - at_w c) + (at_max c - at_h c) < (at_max a - at_w a) + (at_max a - at_h a)"
        using gr True b c by auto
      then obtain r a' where "reserve_loop w h c = Some (r, a')" "reserved c w h r a'"
        using less.hyps[OF _ c(1)] by blast
      then show ?thesis
        using gr True reserved_extends[OF extends_trans[OF b(2) c(2)]] by auto
    qed
  qed
  show ?case
  proof (cases "w + 2 > at_w a \<or> h + 2 > at_h a")
    case True
    then show ?thesis using need retry[OF inv extends_refl refl refl refl] by (subst reserve_loop.simps) auto
  next
    case False
    then have fit: "w + 2 \<le> at_w a" "h + 2 \<le> at_h a" by simp_all
    note n = next_shelf_spec[OF inv fit(1)]
    let ?n = "next_shelf w a"
    have "at_cy ?n \<le> at_h a + 1" "at_h a < 2 ^ 31"
      using n(1,5) inv by (auto simp: atlas_inv_def split: if_splits)
    then have cy: "wrap32 (at_cy ?n + h + at_pad a) = at_cy ?n + h + 1"
      using fit(2) pad by (simp add: wrap_simps)
    show ?thesis
    proof (cases "at_cy ?n + h + 1 > at_h a")
      case True
      then show ?thesis
        using need fit cy retry[OF n(1,2,4,5,6)] by (subst reserve_loop.simps) auto
    next
      case False
      obtain a' where p: "place w h ?n = (\<lparr>rg_ok = True, rg_x = at_cx ?n, rg_y = at_cy ?n\<rparr>, a')"
          "atlas_inv a'" "extends ?n a'" "on_shelf a' (at_cx ?n, at_cy ?n, w, h)"
          "\<forall>q. on_shelf ?n q \<longrightarrow> apart q (at_cx ?n, at_cy ?n, w, h)"
        using place_spec[OF n(1), of w h] n(3,4,5) False assms(2) by auto
      then have "reserved ?n w h \<lparr>rg_ok = True, rg_x = at_cx ?n, rg_y = at_cy ?n\<rparr> a'"
        by (simp add: reserved_def)
      then have "reserved a w h \<lparr>rg_ok = True, rg_x = at_cx ?n, rg_y = at_cy ?n\<rparr> a'"
        using reserved_extends[OF n(2)] by blast
      moreover have "reserve_loop w h a = Some (place w h ?n)"
        using need fit cy False by (subst reserve_loop.simps) simp
      ultimately show ?thesis using p(1) by auto
    qed
  qed
qed


lemma reserve_ends:
  assumes "atlas_inv a" "w < 2 ^ 31" "h < 2 ^ 31"
  shows "\<exists>r a'. reserve a w h = Some (r, a') \<and> atlas_inv a' \<and> extends a a' \<and>
    (0 < w \<and> 0 < h \<longrightarrow> reserved a w h r a')"
proof (cases "w = 0 \<or> h = 0")
  case False
  have "clamp_cursor a = a" using assms(1) by (simp add: clamp_cursor_def atlas_inv_def)
  then show ?thesis
    using reserve_loop_ends[of w h a] assms False by (auto simp: reserve_def reserved_def)
qed (use assms(1) in \<open>auto simp: reserve_def\<close>)

text \<open>Packing: as a reservation, and the rectangle then holds the bitmap.\<close>

lemma pack_spec:
  assumes inv: "atlas_inv a" and wh: "0 < w" "w < 2 ^ 31" "0 < h" "h < 2 ^ 31"
    and src: "length src = w * h * bytes_per_pixel a"
  shows "\<exists>r a'. pack a w h (Some src) = Some (r, a') \<and> reserved a w h r a' \<and>
    (rg_ok r \<longrightarrow> content a' (rg_x r, rg_y r, w, h) = src)"
proof -
  obtain r b where r: "reserve a w h = Some (r, b)" "reserved a w h r b"
    using reserve_ends[OF inv wh(2,4)] wh(1,3) by auto
  show ?thesis
  proof (cases "rg_ok r")
    case False
    then show ?thesis using r wh by (simp add: pack_def)
  next
    case True
    let ?q = "(rg_x r, rg_y r, w, h)" and ?b = "bytes_per_pixel b"
    let ?c = "copy_into b (rg_x r) (rg_y r) w h src"
    have b: "atlas_inv b" "extends a b" "on_shelf b ?q" "\<And>q. on_shelf a q \<Longrightarrow> apart q ?q"
      using r(2) True by (auto simp: reserved_def)
    have fit: "rg_x r + w \<le> at_w b" "rg_y r + h \<le> at_h b" using b(3) by (auto simp: on_shelf_def)
    have bpp: "bytes_per_pixel b = bytes_per_pixel a" using b(2) by (simp add: extends_def bytes_per_pixel_def)
    have px: "length (at_pixels b) = at_w b * at_h b * ?b" using b(1) by (simp add: atlas_inv_def)
    have src': "length src = w * h * ?b" using src bpp by simp
    let ?p = "copy_rows ?b (at_w b) (at_pixels b) (rg_x r) (rg_y r) w h src"
    have c: "?c = bump_gen (b\<lparr>at_pixels := ?p\<rparr>)" by (simp add: copy_into_def)
    have len: "length ?p = length (at_pixels b)"
      using copy_rows_props[OF fit(1) px fit(2), of src] src' by simp
    have inv': "atlas_inv ?c" using b(1) len unfolding c bump_simps by (simp add: atlas_inv_def bytes_per_pixel_def split: if_splits)
    have shelf: "on_shelf ?c = on_shelf b" unfolding c bump_simps by (simp add: on_shelf_def)
    have "content ?c ?q = src"
      using read_copied[OF fit px src'] unfolding c bump_simps by (simp add: content_def bytes_per_pixel_def)
    moreover have "content ?c q = content a q" if q: "on_shelf a q" for q
    proof -
      obtain x y w' h' where qq: "q = (x, y, w', h')" by (cases q)
      have "on_shelf b q" "content b q = content a q" using b(2) q unfolding extends_def by blast+
      then have "x + w' \<le> at_w b" using qq by (simp add: on_shelf_def)
      then have "content ?c q = content b q"
        using read_apart[OF fit px src'] b(4)[OF q] unfolding c bump_simps qq by (simp add: content_def bytes_per_pixel_def)
      then show ?thesis using \<open>content b q = content a q\<close> by simp
    qed
    then have "extends a ?c"
      using b(2) shelf unfolding extends_def by (simp add: c bump_gen_def)
    ultimately have "reserved a w h r ?c \<and> content ?c ?q = src"
      using inv' shelf b True by (simp add: reserved_def)
    then show ?thesis using r(1) True wh by (simp add: pack_def)
  qed
qed

section \<open>Pages\<close>

text \<open>
  The states of a page: created, cleared, packed. The list holds the rectangles granted since the
  last clear, each with its bitmap.
\<close>

type_synonym packed_item = "(nat \<times> nat \<times> nat \<times> nat) \<times> bytes"

inductive page :: "pixel_format \<Rightarrow> nat \<Rightarrow> nat \<Rightarrow> atlas \<Rightarrow> packed_item list \<Rightarrow> bool"
  for f initial max_size where
  create: "page f initial max_size (new_atlas f initial max_size) []"
| clear: "page f initial max_size a items \<Longrightarrow> page f initial max_size (atlas_clear a) []"
| packed: "page f initial max_size a items \<Longrightarrow> 0 < w \<Longrightarrow> w < 2 ^ 31 \<Longrightarrow> 0 < h \<Longrightarrow> h < 2 ^ 31 \<Longrightarrow>
    length src = w * h * bytes_per_pixel a \<Longrightarrow> pack a w h (Some src) = Some (r, a') \<Longrightarrow>
    page f initial max_size a' (if rg_ok r then ((rg_x r, rg_y r, w, h), src) # items else items)"

definition page_ok :: "atlas \<Rightarrow> packed_item list \<Rightarrow> bool" where
  "page_ok a items \<longleftrightarrow> atlas_inv a \<and> (\<forall>(q, src) \<in> set items. on_shelf a q \<and> content a q = src) \<and>
     sorted_wrt (\<lambda>p q. apart (fst q) (fst p)) items"

lemma atlas_clear_inv: "atlas_inv a \<Longrightarrow> atlas_inv (atlas_clear a)"
  by (simp add: atlas_clear_def reset_empty_inv)

lemma page_pack:
  assumes ok: "page_ok a items" and wh: "0 < w" "w < 2 ^ 31" "0 < h" "h < 2 ^ 31"
    and src: "length src = w * h * bytes_per_pixel a" and p: "pack a w h (Some src) = Some (r, a')"
  shows "page_ok a' (if rg_ok r then ((rg_x r, rg_y r, w, h), src) # items else items)"
proof -
  have inv: "atlas_inv a" using ok by (simp add: page_ok_def)
  have r: "reserved a w h r a'" "rg_ok r \<Longrightarrow> content a' (rg_x r, rg_y r, w, h) = src"
    using pack_spec[OF inv wh src] p by auto
  then have ext: "extends a a'" "atlas_inv a'" by (simp_all add: reserved_def)
  then have old: "\<forall>(q, src) \<in> set items. on_shelf a' q \<and> content a' q = src"
    using ok by (fastforce simp: page_ok_def extends_def)
  moreover have "on_shelf a' (rg_x r, rg_y r, w, h) \<and> (\<forall>(q, src) \<in> set items. apart q (rg_x r, rg_y r, w, h))" if "rg_ok r"
    using that r(1) ok by (auto simp: reserved_def page_ok_def)
  ultimately show ?thesis using ext(2) r(2) ok by (auto simp: page_ok_def)
qed

lemma page_is_ok: "page f initial max_size a items \<Longrightarrow> initial < 2 ^ 31 \<Longrightarrow> max_size < 2 ^ 31 \<Longrightarrow> page_ok a items"
proof (induction rule: page.induct)
  case create
  then show ?case by (simp add: page_ok_def new_atlas_inv)
next
  case (clear a items)
  then show ?case by (simp add: page_ok_def atlas_clear_inv)
next
  case (packed a items w h src r a')
  then show ?case using page_pack[of a items w h src r a'] by blast
qed

text \<open>C22: bitmaps in an atlas page never disturb each other. In every state reached by creating,
  clearing and packing, each rectangle granted since the last clear lies in the page with a pixel of
  margin, reads back exactly the bitmap that was packed, and is at least one pixel away from every other.\<close>

theorem atlas_page_keeps_bitmaps:
  assumes "page f initial max_size a items" and "initial < 2 ^ 31" and "max_size < 2 ^ 31"
  shows "(\<forall>((x, y, w, h), src) \<in> set items. 1 \<le> x \<and> 1 \<le> y \<and> x + w + 1 \<le> at_w a \<and> y + h + 1 \<le> at_h a \<and>
      read_rows (bytes_per_pixel a) (at_w a) (at_pixels a) x y w h = src) \<and>
    (\<forall>i < length items. \<forall>j < length items. i \<noteq> j \<longrightarrow> apart (fst (items ! i)) (fst (items ! j)))"
proof -
  have ok: "page_ok a items" using page_is_ok[OF assms] .
  have sym: "apart p q \<Longrightarrow> apart q p" for p q by (auto simp: apart_def)
  have "apart (fst (items ! i)) (fst (items ! j))" if "i < length items" "j < length items" "i \<noteq> j" for i j
  proof (cases "i < j")
    case True
    then show ?thesis using ok that sym by (auto simp: page_ok_def sorted_wrt_iff_nth_less)
  next
    case False
    then have "j < i" using that by simp
    then show ?thesis using ok that by (auto simp: page_ok_def sorted_wrt_iff_nth_less)
  qed
  then show ?thesis using ok by (fastforce simp: page_ok_def on_shelf_def content_def)
qed

text \<open>Two bitmaps on a page that starts at three pixels a side: the first one makes it grow.\<close>

lemmas page_eval = pack_def reserve_def clamp_cursor_def reserve_loop.simps grow_def double_until.simps next_shelf_def
  place_def copy_into_def copy_rows_def blit_def bump_layout_def bump_gen_def new_atlas_def bytes_per_pixel_def format_bpp_def
  wrap32_def wrap64_def read_rows_def no_region_def

lemma sample_page_eval:
  "\<exists>a. pack (new_atlas Grayscale 3 8) 2 2 (Some [1, 2, 3, 4]) = Some (\<lparr>rg_ok = True, rg_x = 1, rg_y = 1\<rparr>, a) \<and>
     bytes_per_pixel a = 1 \<and> at_w a = 6 \<and>
     (\<exists>b. pack a 2 1 (Some [5, 6]) = Some (\<lparr>rg_ok = True, rg_x = 1, rg_y = 4\<rparr>, b))"
  by (simp add: page_eval Let_def max_def)

theorem atlas_page_keeps_bitmaps_witness:
  "\<exists>a. page Grayscale 3 8 a [((1, 4, 2, 1), [5, 6]), ((1, 1, 2, 2), [1, 2, 3, 4])] \<and>
     read_rows (bytes_per_pixel a) (at_w a) (at_pixels a) 1 1 2 2 = [1, 2, 3, 4] \<and>
     apart (1, 4, 2, 1) (1, 1, 2, 2)"
proof -
  obtain a b where e: "pack (new_atlas Grayscale 3 8) 2 2 (Some [1, 2, 3, 4]) = Some (\<lparr>rg_ok = True, rg_x = 1, rg_y = 1\<rparr>, a)"
      "bytes_per_pixel a = 1" "pack a 2 1 (Some [5, 6]) = Some (\<lparr>rg_ok = True, rg_x = 1, rg_y = 4\<rparr>, b)"
    using sample_page_eval by blast
  have "bytes_per_pixel (new_atlas Grayscale 3 8) = 1" by (simp add: page_eval)
  then have "page Grayscale 3 8 a [((1, 1, 2, 2), [1, 2, 3, 4])]"
    using page.packed[OF page.create[of Grayscale 3 8] _ _ _ _ _ e(1)] by simp
  then have pg: "page Grayscale 3 8 b [((1, 4, 2, 1), [5, 6]), ((1, 1, 2, 2), [1, 2, 3, 4])]"
    using page.packed[OF _ _ _ _ _ _ e(3)] e(2) by fastforce
  show ?thesis
    using atlas_page_keeps_bitmaps[OF pg] pg by (intro exI[of _ b]) (auto simp: less_Suc_eq)
qed

text \<open>
  Every reservation ends. For a page and a maximum below \<open>2^31\<close> pixels a side, and a rectangle
  below \<open>2^31\<close> a side, the loops of \<^verbatim>\<open>reserve\<close> and \<^verbatim>\<open>grow_\<close> reach a result in every state of the page.\<close>

theorem atlas_reserve_ends:
  assumes "page f initial max_size a items" and "initial < 2 ^ 31" and "max_size < 2 ^ 31"
    and "w < 2 ^ 31" and "h < 2 ^ 31"
  shows "\<exists>r a'. reserve a w h = Some (r, a') \<and> at_w a' * at_h a' * bytes_per_pixel a' = length (at_pixels a')"
proof -
  have "atlas_inv a" using page_is_ok[OF assms(1-3)] by (simp add: page_ok_def)
  then obtain r a' where "reserve a w h = Some (r, a')" "atlas_inv a'"
    using reserve_ends[OF _ assms(4,5)] by blast
  then show ?thesis by (auto simp: atlas_inv_def)
qed

theorem atlas_reserve_ends_witness:
  "\<exists>r a'. reserve (new_atlas Bgra 16 64) 100 10 = Some (r, a') \<and>
     at_w a' * at_h a' * bytes_per_pixel a' = length (at_pixels a')"
  using atlas_reserve_ends[OF page.create, of 16 64 100 10 Bgra] by simp

lemma double_until_zero:
  assumes "double_until lo hi n = Some m" and "n = 0"
  shows "lo = 0 \<or> hi = 0"
proof -
  have "n = 0 \<longrightarrow> lo = 0 \<or> hi = 0"
    by (rule double_until.raw_induct[OF _ assms(1), where P = "\<lambda>lo hi n m. n = 0 \<longrightarrow> lo = 0 \<or> hi = 0"])
      (fastforce split: if_splits)
  then show ?thesis using assms(2) by simp
qed

text \<open>The size bound matters. On a page of \<open>2^31\<close> pixels a side, doubling wraps to zero and the
  loop of \<^verbatim>\<open>grow_\<close> never ends.\<close>

theorem grow_loop_wraps:
  assumes "2 ^ 31 < max_size" and "2 ^ 31 < need"
  shows "double_until need max_size (2 ^ 31) = None"
proof -
  have "double_until need max_size (2 ^ 31) = double_until need max_size (wrap32 (2 ^ 31 * 2))"
    using assms by (subst double_until.simps) simp
  also have "wrap32 (2 ^ 31 * 2) = 0" by (simp add: wrap32_def)
  also have "double_until need max_size 0 = None"
    using double_until_zero[of need max_size 0] assms by (metis not_None_eq not_less0)
  finally show ?thesis .
qed


end
