(* ===== verification/Glyph_Correct.thy ===== *)
theory Glyph_Correct
  imports Glyph_Cache Atlas_Correct "HOL-Library.Multiset"
begin

text \<open>
  Correctness of the glyph cache: the loops of packing, eviction and rebuilding end, counters and recency
  list agree with the map, budgets hold, and a glyph that is handed out can be drawn from its page.
  The last section shows why a rebuild can fail.
\<close>

section \<open>Repacking a page\<close>

definition item_at :: "atlas \<Rightarrow> 'k repack_item \<Rightarrow> 'k \<times> nat \<times> nat \<Rightarrow> bool" where
  "item_at a = (\<lambda>item (k, x, y). ri_glyph item = Some k \<and>
     (0 < ri_w item \<and> 0 < ri_h item \<longrightarrow>
        on_shelf a (x, y, ri_w item, ri_h item) \<and> content a (x, y, ri_w item, ri_h item) = ri_pixels item))"

lemma item_at_extends: "extends a b \<Longrightarrow> item_at a item p \<Longrightarrow> item_at b item p"
  by (auto simp: item_at_def extends_def)

lemma repack_spec:
  "atlas_inv a \<Longrightarrow> \<forall>item \<in> set items. ri_w item < 2 ^ 31 \<and> ri_h item < 2 ^ 31 \<Longrightarrow>
   \<exists>ok ps a'. repack a items = Some (ok, ps, a') \<and> atlas_inv a' \<and> extends a a' \<and>
     list_all2 (item_at a') (take (length ps) items) ps \<and> (ok \<longrightarrow> length ps = length items)"
proof (induction items arbitrary: a)
  case (Cons item items)
  show ?case
  proof (cases "ri_glyph item")
    case None
    then show ?thesis using Cons.prems(1) by auto
  next
    case (Some k)
    have more: "\<exists>ok ps a'. map_option (\<lambda>(ok, ps, a''). (ok, (k, x, y) # ps, a'')) (repack b items) = Some (ok, ps, a') \<and>
        atlas_inv a' \<and> extends a a' \<and> list_all2 (item_at a') (take (length ps) (item # items)) ps \<and>
        (ok \<longrightarrow> length ps = length (item # items))"
      if b: "atlas_inv b" "extends a b" "item_at b item (k, x, y)" for b x y
    proof -
      obtain ok ps a' where r: "repack b items = Some (ok, ps, a')" "atlas_inv a'" "extends b a'"
          "list_all2 (item_at a') (take (length ps) items) ps" "ok \<longrightarrow> length ps = length items"
        using Cons.IH[OF b(1)] Cons.prems(2) by auto
      then show ?thesis
        using extends_trans[OF b(2) r(3)] item_at_extends[OF r(3) b(3)] by simp
    qed
    show ?thesis
    proof (cases "ri_w item = 0 \<or> ri_h item = 0")
      case True
      then show ?thesis using Some more[OF Cons.prems(1) extends_refl, of 0 0] by (auto simp: item_at_def)
    next
      case False
      show ?thesis
      proof (cases "length (ri_pixels item) = ri_w item * ri_h item * bytes_per_pixel a")
        case True
        then obtain r b where p: "pack a (ri_w item) (ri_h item) (Some (ri_pixels item)) = Some (r, b)"
            "reserved a (ri_w item) (ri_h item) r b"
            "rg_ok r \<longrightarrow> content b (rg_x r, rg_y r, ri_w item, ri_h item) = ri_pixels item"
          using pack_spec[OF Cons.prems(1), of "ri_w item" "ri_h item" "ri_pixels item"] False Cons.prems(2) by auto
        have b: "atlas_inv b" "extends a b" using p(2) by (simp_all add: reserved_def)
        show ?thesis
        proof (cases "rg_ok r")
          case True
          then have "item_at b item (k, rg_x r, rg_y r)" using p Some by (simp add: item_at_def reserved_def)
          then show ?thesis
            using more[OF b] p(1) Some True False \<open>length (ri_pixels item) = _\<close> by auto
        next
          case notok: False
          then show ?thesis using p(1) b Some False \<open>length (ri_pixels item) = _\<close> by auto
        qed
      next
        case bad: False
        then show ?thesis using Some False Cons.prems(1) by auto
      qed
    qed
  qed
qed auto

lemma rebuild_from_live_spec:
  assumes "atlas_inv a" and "\<forall>item \<in> set items. ri_w item < 2 ^ 31 \<and> ri_h item < 2 ^ 31"
  shows "\<exists>ok ps a'. rebuild_from_live a items = Some (ok, ps, a') \<and> atlas_inv a' \<and> at_format a' = at_format a \<and>
     list_all2 (item_at a') (take (length ps) items) ps \<and> (ok \<longrightarrow> length ps = length items)"
proof -
  let ?a = "bump_layout (reset_empty a)"
  have "atlas_inv ?a" using reset_empty_inv[OF assms(1)] by simp
  moreover have "at_format ?a = at_format a" by (simp add: bump_layout_def reset_empty_def Let_def)
  ultimately show ?thesis
    using repack_spec[OF _ assms(2), of ?a] unfolding rebuild_from_live_def extends_def by fastforce
qed

section \<open>Well-formed caches\<close>

definition entry_ok :: "entry \<Rightarrow> bool" where
  "entry_ok e \<longleftrightarrow> en_w e = gl_w (en_glyph e) \<and> en_h e = gl_h (en_glyph e) \<and> en_w e \<le> 65535 \<and> en_h e \<le> 65535 \<and>
     (0 < en_w e \<and> 0 < en_h e \<longrightarrow> length (en_pixels e) = en_w e * en_h e * format_bpp (gl_format (en_glyph e)))"

definition of_format :: "pixel_format \<Rightarrow> gcache \<Rightarrow> glyph_key \<Rightarrow> bool" where
  "of_format f g k \<longleftrightarrow> (case gc_map g k of None \<Rightarrow> False | Some e \<Rightarrow> gl_format (en_glyph e) = f)"

definition gc_wf :: "gcache \<Rightarrow> bool" where
  "gc_wf g \<longleftrightarrow> (\<forall>f. atlas_inv (atlas_for f g) \<and> at_format (atlas_for f g) = f) \<and>
     distinct (gc_lru g) \<and> set (gc_lru g) = dom (gc_map g) \<and>
     (\<forall>k e. gc_map g k = Some e \<longrightarrow> entry_ok e) \<and>
     (\<forall>f. gc_counts g f = length (filter (of_format f g) (gc_lru g)) \<and>
       length (filter (of_format f g) (gc_lru g)) < 2 ^ 64)"

text \<open>Every cached glyph of a format is on its page, and its rectangle holds the retained bitmap.\<close>

definition entry_placed :: "atlas \<Rightarrow> entry \<Rightarrow> bool" where
  "entry_placed a e \<longleftrightarrow> (0 < en_w e \<and> 0 < en_h e \<longrightarrow>
     (let q = (gl_x (en_glyph e), gl_y (en_glyph e), en_w e, en_h e) in on_shelf a q \<and> content a q = en_pixels e))"

definition coherent :: "pixel_format \<Rightarrow> gcache \<Rightarrow> bool" where
  "coherent f g \<longleftrightarrow> (\<forall>k e. gc_map g k = Some e \<longrightarrow> gl_format (en_glyph e) = f \<longrightarrow> entry_placed (atlas_for f g) e)"

lemma atlas_for_simps [simp]:
  "atlas_for f (set_atlas h a g) = (if f = h then a else atlas_for f g)"
  "gc_map (set_atlas h a g) = gc_map g" "gc_lru (set_atlas h a g) = gc_lru g"
  "gc_counts (set_atlas h a g) = gc_counts g" "gc_budget (set_atlas h a g) = gc_budget g"
  "max_count f (set_atlas h a g) = max_count f g"
  by (cases f; cases h; simp add: atlas_for_def set_atlas_def max_count_def)+

lemma atlas_for_update [simp]:
  "atlas_for f (g\<lparr>gc_map := m\<rparr>) = atlas_for f g" "atlas_for f (g\<lparr>gc_lru := l\<rparr>) = atlas_for f g"
  "atlas_for f (g\<lparr>gc_counts := c\<rparr>) = atlas_for f g" "atlas_for f (drop_entry h k g) = atlas_for f g"
  "atlas_for f (warn_oversize_once k g) = atlas_for f g"
  by (cases f; simp add: atlas_for_def drop_entry_def warn_oversize_once_def)+

text \<open>Positions aside, a rebuild leaves the entries alone.\<close>

definition strip :: "entry \<Rightarrow> entry" where
  "strip e = move_glyph e 0 0"

lemma strip_simps [simp]:
  "strip (move_glyph e x y) = strip e" "en_w (move_glyph e x y) = en_w e" "en_h (move_glyph e x y) = en_h e"
  "en_pixels (move_glyph e x y) = en_pixels e" "gl_format (en_glyph (move_glyph e x y)) = gl_format (en_glyph e)"
  "gl_w (en_glyph (move_glyph e x y)) = gl_w (en_glyph e)" "gl_h (en_glyph (move_glyph e x y)) = gl_h (en_glyph e)"
  "gl_x (en_glyph (move_glyph e x y)) = x" "gl_y (en_glyph (move_glyph e x y)) = y"
  by (simp_all add: strip_def move_glyph_def)

lemma strip_eqD:
  assumes "strip e = strip e'"
  shows "en_w e = en_w e'" "en_h e = en_h e'" "en_pixels e = en_pixels e'"
    "gl_format (en_glyph e) = gl_format (en_glyph e')" "entry_ok e = entry_ok e'"
proof -
  have f: "F (strip e) = F (strip e')" for F :: "entry \<Rightarrow> 'z" using assms by simp
  show "en_w e = en_w e'" "en_h e = en_h e'" "en_pixels e = en_pixels e'"
    "gl_format (en_glyph e) = gl_format (en_glyph e')"
    using f[of en_w] f[of en_h] assms by (simp_all add: strip_def) (metis strip_simps(4,5))+
  moreover have "gl_w (en_glyph e) = gl_w (en_glyph e')" "gl_h (en_glyph e) = gl_h (en_glyph e')"
    using assms by (metis strip_def strip_simps(6), metis strip_def strip_simps(7))
  ultimately show "entry_ok e = entry_ok e'" by (simp add: entry_ok_def)
qed

definition same_entries :: "(glyph_key \<rightharpoonup> entry) \<Rightarrow> (glyph_key \<rightharpoonup> entry) \<Rightarrow> bool" where
  "same_entries m m' \<longleftrightarrow> (\<forall>k. map_option strip (m k) = map_option strip (m' k))"

lemma fold_move_same: "same_entries m (fold move_in_map ps m)"
proof (induction ps arbitrary: m)
  case (Cons p ps)
  have "same_entries m (move_in_map p m)"
    by (auto simp: same_entries_def move_in_map_def option.map_comp comp_def split: prod.splits)
  then show ?case using Cons[of "move_in_map p m"] by (simp add: same_entries_def)
qed (simp add: same_entries_def)

lemma fold_move_other: "k \<notin> fst ` set ps \<Longrightarrow> fold move_in_map ps m k = m k"
  by (induction ps arbitrary: m) (auto simp: move_in_map_def)

lemma fold_move_at:
  "distinct (map fst ps) \<Longrightarrow> (k, x, y) \<in> set ps \<Longrightarrow> fold move_in_map ps m k = map_option (\<lambda>e. move_glyph e x y) (m k)"
proof (induction ps arbitrary: m)
  case (Cons p ps)
  show ?case
  proof (cases "p = (k, x, y)")
    case True
    then have "k \<notin> fst ` set ps" using Cons.prems(1) by simp
    then show ?thesis using True fold_move_other[of k ps] by (simp add: move_in_map_def)
  next
    case False
    then have "(k, x, y) \<in> set ps" using Cons.prems(2) by auto
    moreover have "k \<in> fst ` set ps" using \<open>(k, x, y) \<in> set ps\<close> by force
    then have "fst p \<noteq> k" using Cons.prems(1) by auto
    ultimately show ?thesis using Cons by (auto simp: move_in_map_def split: prod.splits)
  qed
qed simp


section \<open>Rebuilding\<close>

text \<open>What the operations on one page keep: recency order, counts, budget and the other page.\<close>

definition kept :: "pixel_format \<Rightarrow> gcache \<Rightarrow> gcache \<Rightarrow> bool" where
  "kept f g g' \<longleftrightarrow> gc_lru g' = gc_lru g \<and> gc_counts g' = gc_counts g \<and> gc_budget g' = gc_budget g \<and>
     same_entries (gc_map g) (gc_map g') \<and>
     (\<forall>h. h \<noteq> f \<longrightarrow> atlas_for h g' = atlas_for h g \<and> (coherent h g \<longrightarrow> coherent h g'))"

lemma same_entries_format:
  "same_entries (gc_map g) (gc_map g') \<Longrightarrow> of_format f g' = of_format f g"
proof
  fix k
  assume "same_entries (gc_map g) (gc_map g')"
  then have "map_option strip (gc_map g k) = map_option strip (gc_map g' k)" by (simp add: same_entries_def)
  then show "of_format f g' k = of_format f g k"
    by (cases "gc_map g k"; cases "gc_map g' k") (auto simp: of_format_def dest: strip_eqD(4))
qed

lemma same_entries_dom: "same_entries m m' \<Longrightarrow> dom m' = dom m"
  unfolding same_entries_def dom_def by (metis option.map_disc_iff)

lemma same_entries_SomeD:
  assumes "same_entries m m'" and "m' k = Some e'"
  obtains e where "m k = Some e" "strip e' = strip e"
  using assms unfolding same_entries_def by (metis map_option_eq_Some)

lemma kept_wf:
  assumes wf: "gc_wf g" and k: "kept f g g'" and a: "atlas_inv (atlas_for f g')" "at_format (atlas_for f g') = f"
  shows "gc_wf g'"
proof -
  have se: "same_entries (gc_map g) (gc_map g')" using k by (simp add: kept_def)
  have "entry_ok e'" if "gc_map g' k = Some e'" for k e'
    using same_entries_SomeD[OF se that] strip_eqD(5) wf by (metis gc_wf_def)
  moreover have "atlas_inv (atlas_for h g') \<and> at_format (atlas_for h g') = h" for h
    using a wf k by (cases "h = f") (auto simp: gc_wf_def kept_def)
  ultimately show ?thesis
    using wf k same_entries_format[OF se] same_entries_dom[OF se] unfolding gc_wf_def kept_def by auto
qed

lemma live_item_key: "live_item f g k = Some item \<Longrightarrow> ri_glyph item = Some k"
  by (auto simp: live_item_def split: option.splits if_splits)

lemma live_items_keys:
  "map ri_glyph (live_items f g) = map Some (filter (of_format f g) (gc_lru g))"
proof -
  have "map ri_glyph (List.map_filter (live_item f g) l) = map Some (filter (of_format f g) l)" for l
  proof (induction l)
    case (Cons k l)
    then show ?case
      by (auto simp: map_filter_simps of_format_def live_item_def split: option.splits)
  qed (simp add: map_filter_simps)
  then show ?thesis by (simp add: live_items_def)
qed

lemma live_items_mem: "item \<in> set (live_items f g) \<longleftrightarrow> (\<exists>k \<in> set (gc_lru g). live_item f g k = Some item)"
  by (force simp: live_items_def map_filter_def image_iff)

lemma rebuild_spec:
  assumes wf: "gc_wf g"
  shows "\<exists>ok g'. rebuild f g = Some (ok, g') \<and> kept f g g' \<and> gc_wf g' \<and> (ok \<longrightarrow> coherent f g')"
proof -
  let ?items = "live_items f g"
  have small: "\<forall>item \<in> set ?items. ri_w item < 2 ^ 31 \<and> ri_h item < 2 ^ 31"
  proof
    fix item assume "item \<in> set ?items"
    then obtain k e where "gc_map g k = Some e" "ri_w item = en_w e" "ri_h item = en_h e"
      unfolding live_items_mem by (auto simp: live_item_def split: option.splits if_splits)
    then show "ri_w item < 2 ^ 31 \<and> ri_h item < 2 ^ 31" using wf by (fastforce simp: gc_wf_def entry_ok_def)
  qed
  obtain ok ps a where r: "rebuild_from_live (atlas_for f g) ?items = Some (ok, ps, a)" "atlas_inv a"
      "at_format a = at_format (atlas_for f g)" "list_all2 (item_at a) (take (length ps) ?items) ps"
      "ok \<longrightarrow> length ps = length ?items"
    using rebuild_from_live_spec[OF _ small] wf unfolding gc_wf_def by blast
  let ?m = "fold move_in_map ps (gc_map g)"
  let ?g = "set_atlas f a (g\<lparr>gc_map := ?m\<rparr>)"
  have keys: "map (Some \<circ> fst) ps = take (length ps) (map ri_glyph ?items)"
    using r(4) unfolding take_map
    by (auto simp: list_all2_conv_all_nth item_at_def case_prod_unfold intro!: nth_equalityI)
  have other: "?m k = gc_map g k" if "gc_map g k = Some e" "gl_format (en_glyph e) \<noteq> f" for k e
  proof (rule fold_move_other)
    have "Some k \<notin> set (map ri_glyph ?items)"
      unfolding live_items_keys using that by (auto simp: of_format_def)
    then have "Some k \<notin> set (map (Some \<circ> fst) ps)" unfolding keys by (auto dest: in_set_takeD)
    then show "k \<notin> fst ` set ps" by auto
  qed
  have coh: "coherent h ?g" if h: "h \<noteq> f" "coherent h g" for h
    unfolding coherent_def
  proof (intro allI impI)
    fix k e assume e: "gc_map ?g k = Some e" "gl_format (en_glyph e) = h"
    obtain e0 where "gc_map g k = Some e0" "strip e = strip e0"
      using same_entries_SomeD[OF fold_move_same[of "gc_map g" ps], of k e] e(1) by auto
    moreover from this have "?m k = gc_map g k" using other[of k e0] e(2) h(1) strip_eqD(4) by metis
    ultimately show "entry_placed (atlas_for h ?g) e" using e h by (auto simp: coherent_def)
  qed
  have k: "kept f g ?g" using fold_move_same[of "gc_map g" ps] coh by (simp add: kept_def)
  have "coherent f ?g" if ok
    unfolding coherent_def
  proof (intro allI impI)
    fix k e assume e: "gc_map ?g k = Some e" "gl_format (en_glyph e) = f"
    obtain e0 where e0: "gc_map g k = Some e0" "strip e = strip e0"
      using same_entries_SomeD[OF fold_move_same[of "gc_map g" ps], of k e] e(1) by auto
    let ?i = "\<lparr>ri_glyph = Some k, ri_pixels = en_pixels e0, ri_w = en_w e0, ri_h = en_h e0\<rparr>"
    have "live_item f g k = Some ?i" using e0 e(2) strip_eqD(4)[OF e0(2)] by (simp add: live_item_def)
    moreover have "k \<in> set (gc_lru g)" using wf e0(1) by (auto simp: gc_wf_def)
    ultimately have "?i \<in> set ?items" unfolding live_items_mem by blast
    then obtain n where n: "n < length ?items" "?items ! n = ?i" by (metis in_set_conv_nth)
    have len: "length ps = length ?items" using r(5) that by simp
    then have "item_at a ?i (ps ! n)" using list_all2_nthD2[OF r(4), of n] n by simp
    then obtain x y where xy: "ps ! n = (k, x, y)" "item_at a ?i (k, x, y)" by (auto simp: item_at_def split: prod.splits)
    have "map Some (map fst ps) = map Some (filter (of_format f g) (gc_lru g))"
      using keys len by (simp add: live_items_keys) (metis length_map live_items_keys order_refl)
    then have "map fst ps = filter (of_format f g) (gc_lru g)" using inj_map_eq_map[OF inj_Some] by blast
    then have "distinct (map fst ps)" using wf by (simp add: gc_wf_def)
    moreover have "(k, x, y) \<in> set ps" using xy(1) n(1) len by (metis nth_mem)
    ultimately have "e = move_glyph e0 x y" using fold_move_at[of ps k x y "gc_map g"] e(1) e0(1) by simp
    then show "entry_placed (atlas_for f ?g) e" using xy(2) by (simp add: entry_placed_def item_at_def Let_def)
  qed
  moreover have "gc_wf ?g" using kept_wf[OF wf k] r(2,3) wf by (simp add: gc_wf_def)
  moreover have "rebuild f g = Some (ok, ?g)" using r(1) by (simp add: rebuild_def)
  ultimately show ?thesis using k by blast
qed


section \<open>Eviction\<close>

lemma drop_wf:
  assumes wf: "gc_wf g" and v: "gc_map g v = Some e" "gl_format (en_glyph e) = f"
  defines "g' \<equiv> (drop_entry f v g)\<lparr>gc_lru := filter (\<lambda>k. k \<noteq> v) (gc_lru g)\<rparr>"
  shows "gc_wf g'" "length (gc_lru g') < length (gc_lru g)" "gc_counts g' f + 1 = gc_counts g f"
    "h \<noteq> f \<Longrightarrow> gc_counts g' h = gc_counts g h" "coherent h g \<Longrightarrow> coherent h g'"
proof -
  have m: "gc_map g' = (gc_map g)(v := None)" "gc_lru g' = filter (\<lambda>k. k \<noteq> v) (gc_lru g)"
      "\<And>h. atlas_for h g' = atlas_for h g" "gc_counts g' = (gc_counts g)(f := sub64 (gc_counts g f) 1)"
    unfolding g'_def atlas_for_update by (simp_all add: drop_entry_def)
  have fmt: "of_format h g' k \<longleftrightarrow> k \<noteq> v \<and> of_format h g k" for h k by (simp add: of_format_def m)
  have lru: "distinct (gc_lru g)" "v \<in> set (gc_lru g)" using wf v by (auto simp: gc_wf_def)
  have flt: "filter (of_format h g') (gc_lru g') = removeAll v (filter (of_format h g) (gc_lru g))" for h
    by (auto simp: m(2) fmt removeAll_filter_not_eq intro: filter_cong)
  have len: "length (filter (of_format h g') (gc_lru g')) =
      (if h = f then gc_counts g h - 1 else gc_counts g h)" for h
  proof -
    have "v \<in> set (filter (of_format h g) (gc_lru g)) \<longleftrightarrow> h = f" using lru v by (auto simp: of_format_def)
    then show ?thesis
      unfolding flt using lru(1) wf by (simp add: length_remove1 gc_wf_def flip: distinct_remove1_removeAll)
  qed
  have pos: "1 \<le> gc_counts g f"
  proof -
    have "v \<in> set (filter (of_format f g) (gc_lru g))" using lru v by (auto simp: of_format_def)
    then have "1 \<le> length (filter (of_format f g) (gc_lru g))" by (metis Suc_leI One_nat_def length_pos_if_in_set)
    then show ?thesis using wf by (simp add: gc_wf_def)
  qed
  have b: "gc_counts g h < 2 ^ 64" for h using wf by (simp add: gc_wf_def)
  have c: "gc_counts g' h = (if h = f then gc_counts g h - 1 else gc_counts g h)" for h
    using pos b[of f] by (simp add: m(4) wrap_simps)
  show "gc_counts g' f + 1 = gc_counts g f" "h \<noteq> f \<Longrightarrow> gc_counts g' h = gc_counts g h" using c pos by auto
  have "(if h = f then gc_counts g h - 1 else gc_counts g h) < 2 ^ 64" for h using b[of h] by auto
  then show "gc_wf g'"
    using wf c len unfolding gc_wf_def m by auto
  show "length (gc_lru g') < length (gc_lru g)"
    using lru unfolding m(2) by (intro length_filter_less) auto
  show "coherent h g \<Longrightarrow> coherent h g'" by (auto simp: coherent_def m)
qed

text \<open>What a sequence of evictions and rebuilds of one format keeps.\<close>

definition steps :: "pixel_format \<Rightarrow> glyph_key \<Rightarrow> gcache \<Rightarrow> gcache \<Rightarrow> bool" where
  "steps f p g g' \<longleftrightarrow> gc_wf g' \<and> gc_budget g' = gc_budget g \<and> (\<forall>h. gc_counts g' h \<le> gc_counts g h) \<and>
     map_option strip (gc_map g' p) = map_option strip (gc_map g p) \<and>
     (\<forall>h. h \<noteq> f \<longrightarrow> coherent h g \<longrightarrow> coherent h g') \<and>
     (gc_lru g \<noteq> [] \<and> hd (gc_lru g) = p \<longrightarrow> gc_lru g' \<noteq> [] \<and> hd (gc_lru g') = p)"

lemma steps_refl: "gc_wf g \<Longrightarrow> steps f p g g"
  by (simp add: steps_def)

lemma steps_trans: "steps f p a b \<Longrightarrow> steps f p b c \<Longrightarrow> steps f p a c"
  unfolding steps_def by (metis le_trans)

lemma evict_spec:
  assumes wf: "gc_wf g"
  shows "\<exists>b g'. evict_one_lru f p g = (b, g') \<and> steps f p g g' \<and> (\<not> b \<longrightarrow> g' = g) \<and>
    (b \<longrightarrow> length (gc_lru g') < length (gc_lru g)) \<and> (coherent f g \<longrightarrow> coherent f g')"
proof (cases "List.find (evictable f p g) (rev (gc_lru g))")
  case None
  then show ?thesis using steps_refl[OF wf] by (auto simp: evict_one_lru_def)
next
  case (Some v)
  then have "evictable f p g v" by (auto simp: find_Some_iff)
  then obtain e where v: "gc_map g v = Some e" "gl_format (en_glyph e) = f" "v \<noteq> p"
    by (auto simp: evictable_def split: option.splits)
  let ?g = "(drop_entry f v g)\<lparr>gc_lru := filter (\<lambda>k. k \<noteq> v) (gc_lru g)\<rparr>"
  have d: "distinct (gc_lru g)" using wf by (simp add: gc_wf_def)
  then have "rev (remove1 v (rev (gc_lru g))) = filter (\<lambda>k. k \<noteq> v) (gc_lru g)"
    by (simp add: distinct_remove1_removeAll removeAll_filter_not_eq rev_filter[symmetric] eq_commute[of v])
  then have e: "evict_one_lru f p g = (True, ?g)" using Some by (simp add: evict_one_lru_def)
  note w = drop_wf[OF wf v(1,2)]
  have "gc_counts ?g h \<le> gc_counts g h" for h using w(3) w(4)[of h] by (cases "h = f") auto
  moreover have "gc_lru ?g \<noteq> [] \<and> hd (gc_lru ?g) = p" if "gc_lru g \<noteq> []" "hd (gc_lru g) = p"
    using that v(3) by (cases "gc_lru g") auto
  ultimately have "steps f p g ?g"
    using w(1,5) v(3) by (auto simp: steps_def drop_entry_def)
  then show ?thesis using e w(2,5) by auto
qed

lemma kept_steps: "gc_wf g' \<Longrightarrow> kept f g g' \<Longrightarrow> steps f p g g'"
  by (auto simp: kept_def steps_def same_entries_def)

lemma enforce_loop_spec:
  "gc_wf g \<Longrightarrow> \<exists>ok g'. enforce_loop f p changed g = Some (ok, g') \<and> steps f p g g' \<and>
     (ok \<longrightarrow> gc_counts g' f \<le> max_count f g \<and> (changed \<or> coherent f g \<longrightarrow> coherent f g'))"
proof (induction "length (gc_lru g)" arbitrary: g changed rule: less_induct)
  case less
  note wf = less.prems
  show ?case
  proof (cases "over_budget f g")
    case False
    then have c: "gc_counts g f \<le> max_count f g" by (simp add: over_budget_def)
    obtain ok g' where r: "rebuild f g = Some (ok, g')" "kept f g g'" "gc_wf g'" "ok \<longrightarrow> coherent f g'"
      using rebuild_spec[OF wf] by blast
    then have "steps f p g g'" "gc_counts g' = gc_counts g" using kept_steps by (auto simp: kept_def)
    then show ?thesis
      using False r c steps_refl[OF wf] by (subst enforce_loop.simps) auto
  next
    case True
    obtain b g1 where ev: "evict_one_lru f p g = (b, g1)" "steps f p g g1" "\<not> b \<longrightarrow> g1 = g"
        "b \<longrightarrow> length (gc_lru g1) < length (gc_lru g)"
      using evict_spec[OF wf] by blast
    show ?thesis
    proof (cases b)
      case notb: False
      then show ?thesis using True ev steps_refl[OF wf] by (subst enforce_loop.simps) auto
    next
      case b: True
      have wf1: "gc_wf g1" using ev(2) by (simp add: steps_def)
      obtain ok g2 where r: "rebuild f g1 = Some (ok, g2)" "kept f g1 g2" "gc_wf g2"
        using rebuild_spec[OF wf1] by blast
      have s: "steps f p g g2" using steps_trans[OF ev(2) kept_steps[OF r(3,2)]] .
      show ?thesis
      proof (cases ok)
        case False
        then show ?thesis using True ev b r s by (subst enforce_loop.simps) auto
      next
        case ok: True
        have "length (gc_lru g2) < length (gc_lru g)" using ev(4) b r(2) by (simp add: kept_def)
        then obtain ok' g' where i: "enforce_loop f p True g2 = Some (ok', g')" "steps f p g2 g'"
            "ok' \<longrightarrow> gc_counts g' f \<le> max_count f g2 \<and> coherent f g'"
          using less.hyps[of g2 True] r(3) by auto
        have "max_count f g2 = max_count f g" using s unfolding steps_def max_count_def by metis
        then show ?thesis
          using True ev b r ok i steps_trans[OF s i(2)] by (subst enforce_loop.simps) auto
      qed
    qed
  qed
qed

lemma evict_many_spec:
  "gc_wf g \<Longrightarrow> \<exists>b g'. evict_many n f p evicted g = (b, g') \<and> steps f p g g' \<and>
     (b \<and> \<not> evicted \<longrightarrow> length (gc_lru g') < length (gc_lru g)) \<and> length (gc_lru g') \<le> length (gc_lru g)"
proof (induction n arbitrary: evicted g)
  case (Suc n)
  obtain b g1 where ev: "evict_one_lru f p g = (b, g1)" "steps f p g g1" "\<not> b \<longrightarrow> g1 = g"
      "b \<longrightarrow> length (gc_lru g1) < length (gc_lru g)"
    using evict_spec[OF Suc.prems] by blast
  show ?case
  proof (cases b)
    case True
    obtain b' g' where "evict_many n f p True g1 = (b', g')" "steps f p g1 g'" "length (gc_lru g') \<le> length (gc_lru g1)"
      using Suc.IH[of g1 True] ev(2) by (auto simp: steps_def)
    then show ?thesis using ev True steps_trans[OF ev(2)] by auto
  qed (use ev in auto)
qed (auto simp: steps_refl)

lemma recover_spec:
  assumes wf: "gc_wf g"
  shows "\<exists>ok g'. recover_space_for_pack f p g = Some (ok, g') \<and> steps f p g g' \<and>
    (ok \<longrightarrow> coherent f g' \<and> length (gc_lru g') < length (gc_lru g))"
proof -
  obtain b g1 where e: "evict_many (max 1 (gc_counts g f div 4)) f p False g = (b, g1)" "steps f p g g1"
      "b \<longrightarrow> length (gc_lru g1) < length (gc_lru g)"
    using evict_many_spec[OF wf, of "max 1 (gc_counts g f div 4)" f p False] by auto
  obtain ok g2 where r: "rebuild f g1 = Some (ok, g2)" "kept f g1 g2" "gc_wf g2" "ok \<longrightarrow> coherent f g2"
    using rebuild_spec[of g1] e(2) unfolding steps_def by blast
  show ?thesis
    using e r steps_trans[OF e(2) kept_steps[OF r(3,2)]]
    by (cases b) (auto simp: recover_space_for_pack_def kept_def)
qed


section \<open>Insertion\<close>

lemma set_atlas_spec:
  assumes wf: "gc_wf g" and a: "atlas_inv a" "extends (atlas_for f g) a"
  shows "steps f p g (set_atlas f a g)" "coherent f g \<Longrightarrow> coherent f (set_atlas f a g)"
proof -
  have fmt: "at_format a = f" using a(2) wf by (simp add: extends_def gc_wf_def)
  have "of_format h (set_atlas f a g) = of_format h g" for h by (rule ext) (simp add: of_format_def)
  then have "gc_wf (set_atlas f a g)" using wf a(1) fmt by (simp add: gc_wf_def)
  moreover have "coherent h (set_atlas f a g) = coherent h g" if "h \<noteq> f" for h
    using that by (simp add: coherent_def)
  ultimately show "steps f p g (set_atlas f a g)" by (simp add: steps_def)
  show "coherent f g \<Longrightarrow> coherent f (set_atlas f a g)"
    using a(2) by (auto simp: coherent_def entry_placed_def extends_def Let_def)
qed

lemma pack_loop_spec:
  assumes e: "entry_ok e" "0 < en_w e" "0 < en_h e" "gl_format (en_glyph e) = f"
  shows "gc_wf g \<Longrightarrow> \<exists>ok e' g'. pack_loop k e g = Some (ok, e', g') \<and> steps f k g g' \<and>
    (ok \<longrightarrow> entry_placed (atlas_for f g') e' \<and> strip e' = strip e \<and> (coherent f g \<longrightarrow> coherent f g'))"
proof (induction "length (gc_lru g)" arbitrary: g rule: less_induct)
  case less
  note wf = less.prems
  have a: "atlas_inv (atlas_for f g)" "bytes_per_pixel (atlas_for f g) = format_bpp f"
    using wf by (auto simp: gc_wf_def bytes_per_pixel_def)
  obtain r b where p: "pack (atlas_for f g) (en_w e) (en_h e) (Some (en_pixels e)) = Some (r, b)"
      "reserved (atlas_for f g) (en_w e) (en_h e) r b"
      "rg_ok r \<longrightarrow> content b (rg_x r, rg_y r, en_w e, en_h e) = en_pixels e"
    using pack_spec[OF a(1), of "en_w e" "en_h e" "en_pixels e"] e a(2) by (auto simp: entry_ok_def)
  have b: "atlas_inv b" "extends (atlas_for f g) b" using p(2) by (simp_all add: reserved_def)
  let ?g = "set_atlas f b g"
  note s = set_atlas_spec(1)[OF wf b, of k] set_atlas_spec(2)[OF wf b]
  show ?case
  proof (cases "rg_ok r")
    case True
    have "entry_placed (atlas_for f ?g) (move_glyph e (rg_x r) (rg_y r))"
      using p True by (simp add: entry_placed_def reserved_def Let_def)
    then show ?thesis
      using p(1) True e(4) s by (subst pack_loop.simps) auto
  next
    case False
    have "gc_wf ?g" using s(1) by (simp add: steps_def)
    then obtain ok g2 where r2: "recover_space_for_pack f k ?g = Some (ok, g2)" "steps f k ?g g2"
        "ok \<longrightarrow> coherent f g2 \<and> length (gc_lru g2) < length (gc_lru ?g)"
      using recover_spec[of ?g f k] by blast
    note t = steps_trans[OF s(1) r2(2)]
    show ?thesis
    proof (cases ok)
      case notok: False
      then show ?thesis using p(1) False e(4) r2 t by (subst pack_loop.simps) auto
    next
      case ok: True
      then obtain ok' e' g' where i: "pack_loop k e g2 = Some (ok', e', g')" "steps f k g2 g'"
          "ok' \<longrightarrow> entry_placed (atlas_for f g') e' \<and> strip e' = strip e \<and> (coherent f g2 \<longrightarrow> coherent f g')"
        using less.hyps[of g2] r2 by (auto simp: steps_def)
      then show ?thesis
        using p(1) False e(4) r2 ok steps_trans[OF t i(2)] by (subst pack_loop.simps) auto
    qed
  qed
qed

lemma pack_entry_spec:
  assumes e: "entry_ok e" "gl_format (en_glyph e) = f" and wf: "gc_wf g"
  shows "\<exists>ok e' g'. pack_entry k e g = Some (ok, e', g') \<and> steps f k g g' \<and>
    (ok \<longrightarrow> entry_placed (atlas_for f g') e' \<and> strip e' = strip e \<and> (coherent f g \<longrightarrow> coherent f g'))"
proof (cases "en_w e = 0 \<or> en_h e = 0")
  case True
  then show ?thesis using steps_refl[OF wf] by (auto simp: pack_entry_def entry_placed_def)
next
  case False
  then show ?thesis using pack_loop_spec[OF e(1) _ _ e(2) wf, of k] by (simp add: pack_entry_def)
qed

lemma add_entry_wf:
  assumes wf: "gc_wf g" and k: "gc_map g k = None" and e: "entry_ok e" "gl_format (en_glyph e) = f"
    and room: "gc_counts g f + 1 < 2 ^ 64"
  defines "g2 \<equiv> g\<lparr>gc_lru := k # gc_lru g, gc_map := (gc_map g)(k \<mapsto> e),
    gc_counts := (gc_counts g)(f := wrap64 (gc_counts g f + 1))\<rparr>"
  shows "gc_wf g2" "gc_counts g2 = (gc_counts g)(f := gc_counts g f + 1)" "coherent h g \<Longrightarrow> h \<noteq> f \<Longrightarrow> coherent h g2"
    "coherent f g \<Longrightarrow> entry_placed (atlas_for f g) e \<Longrightarrow> coherent f g2"
proof -
  have m: "gc_map g2 = (gc_map g)(k \<mapsto> e)" "gc_lru g2 = k # gc_lru g" "\<And>h. atlas_for h g2 = atlas_for h g"
    unfolding g2_def atlas_for_update by simp_all
  show c: "gc_counts g2 = (gc_counts g)(f := gc_counts g f + 1)"
    using room by (simp add: g2_def wrap_simps)
  have "k \<notin> set (gc_lru g)" using wf k by (auto simp: gc_wf_def)
  then have "filter (of_format h g2) (gc_lru g) = filter (of_format h g) (gc_lru g)" for h
    by (intro filter_cong) (auto simp: of_format_def m)
  moreover have "of_format h g2 k \<longleftrightarrow> h = f" for h using e(2) by (auto simp: of_format_def m)
  ultimately have len: "length (filter (of_format h g2) (gc_lru g2)) = gc_counts g2 h" for h
    using wf by (simp add: m c gc_wf_def)
  have "gc_counts g2 h < 2 ^ 64" for h using room wf by (simp add: c gc_wf_def)
  then show "gc_wf g2"
    using wf e(1) len \<open>k \<notin> set (gc_lru g)\<close> unfolding gc_wf_def m by (auto simp: dom_def)
  show "coherent h g \<Longrightarrow> h \<noteq> f \<Longrightarrow> coherent h g2" using e(2) by (auto simp: coherent_def m)
  show "coherent f g \<Longrightarrow> entry_placed (atlas_for f g) e \<Longrightarrow> coherent f g2" by (auto simp: coherent_def m)
qed


section \<open>The cache as a whole\<close>

definition budget_ok :: "budget \<Rightarrow> bool" where
  "budget_ok b \<longleftrightarrow> bd_initial b < 2 ^ 31 \<and> bd_max b < 2 ^ 31 \<and>
     bd_mask_count b + 1 < 2 ^ 64 \<and> bd_color_count b + 1 < 2 ^ 64"

definition gc_ok :: "gcache \<Rightarrow> bool" where
  "gc_ok g \<longleftrightarrow> gc_wf g \<and> budget_ok (gc_budget g) \<and> (\<forall>f. gc_counts g f \<le> max_count f g)"

lemma max_count_bound: "budget_ok (gc_budget g) \<Longrightarrow> max_count f g + 1 < 2 ^ 64"
  by (cases f) (simp_all add: budget_ok_def max_count_def)

lemma max_count_cong: "gc_budget g' = gc_budget g \<Longrightarrow> max_count f g' = max_count f g"
  by (cases f) (simp_all add: max_count_def)

lemma steps_max_count: "steps f p g g' \<Longrightarrow> max_count h g' = max_count h g"
  by (rule max_count_cong) (simp add: steps_def)

lemma steps_ok: "steps f p g g' \<Longrightarrow> gc_ok g \<Longrightarrow> gc_ok g'"
  using steps_max_count[of f p g g'] by (auto simp: gc_ok_def steps_def intro: le_trans)

lemma warn_simps [simp]:
  "gc_ok (warn_oversize_once k g) = gc_ok g" "coherent f (warn_oversize_once k g) = coherent f g"
  "gc_map (warn_oversize_once k g) = gc_map g"
proof -
  have "of_format f (warn_oversize_once k g) = of_format f g" for f
    by (rule ext) (simp add: of_format_def warn_oversize_once_def)
  moreover have "max_count f (warn_oversize_once k g) = max_count f g" for f
    by (rule max_count_cong) (simp add: warn_oversize_once_def)
  moreover have "gc_lru (warn_oversize_once k g) = gc_lru g" "gc_counts (warn_oversize_once k g) = gc_counts g"
    "gc_budget (warn_oversize_once k g) = gc_budget g" "gc_map (warn_oversize_once k g) = gc_map g"
    by (simp_all add: warn_oversize_once_def)
  ultimately show "gc_ok (warn_oversize_once k g) = gc_ok g"
    by (simp add: gc_ok_def gc_wf_def)
  show "gc_map (warn_oversize_once k g) = gc_map g" by (simp add: warn_oversize_once_def)
  then show "coherent f (warn_oversize_once k g) = coherent f g" by (simp add: coherent_def)
qed

lemma admit_spec:
  assumes ok: "gc_ok g" and k: "gc_map g k = None" and e: "entry_ok e" "gl_format (en_glyph e) = f"
    and placed: "entry_placed (atlas_for f g) e"
  shows "\<exists>r g'. admit k e g = Some (r, g') \<and> gc_ok g' \<and> (\<forall>h. h \<noteq> f \<longrightarrow> coherent h g \<longrightarrow> coherent h g') \<and>
    (r \<noteq> None \<longrightarrow> (\<exists>e'. gc_map g' k = Some e' \<and> r = Some (en_glyph e') \<and> strip e' = strip e) \<and>
       (coherent f g \<longrightarrow> coherent f g'))"
proof -
  have wf: "gc_wf g" using ok by (simp add: gc_ok_def)
  have cnt: "gc_counts g h \<le> max_count h g" for h using ok by (simp add: gc_ok_def)
  have room: "gc_counts g f + 1 < 2 ^ 64"
    using cnt[of f] max_count_bound[of g f] ok unfolding gc_ok_def by linarith
  let ?g = "g\<lparr>gc_lru := k # gc_lru g, gc_map := (gc_map g)(k \<mapsto> e),
    gc_counts := (gc_counts g)(f := wrap64 (gc_counts g f + 1))\<rparr>"
  note a = add_entry_wf[OF wf k e room]
  obtain b g3 where en: "enforce_budget f k ?g = Some (b, g3)" "steps f k ?g g3"
      "b \<longrightarrow> gc_counts g3 f \<le> max_count f ?g \<and> (coherent f ?g \<longrightarrow> coherent f g3)"
    using enforce_loop_spec[OF a(1), of f k False] by (auto simp: enforce_budget_def)
  have max: "max_count h ?g = max_count h g" "gc_budget g3 = gc_budget g" for h
    using en(2) max_count_cong[of ?g g h] by (simp_all add: steps_def)
  have max3: "max_count h g3 = max_count h g" for h using steps_max_count[OF en(2)] max by simp
  have wf3: "gc_wf g3" using en(2) by (simp add: steps_def)
  have c3: "gc_counts g3 h \<le> (if h = f then max_count h g + 1 else max_count h g)" for h
  proof -
    have "gc_counts g3 h \<le> gc_counts ?g h" using en(2) by (simp add: steps_def)
    moreover have "gc_counts ?g h = (if h = f then gc_counts g f + 1 else gc_counts g h)" unfolding a(2) by simp
    ultimately show ?thesis using cnt[of h] by (simp split: if_splits)
  qed
  have other: "coherent h g \<Longrightarrow> h \<noteq> f \<Longrightarrow> coherent h g3" for h using a(3)[of h] en(2) by (simp add: steps_def)
  have "map_option strip (gc_map g3 k) = Some (strip e)" using en(2) by (simp add: steps_def)
  then obtain e3 where e3: "gc_map g3 k = Some e3" "strip e3 = strip e" by auto
  have adm: "admit k e g = Option.bind (enforce_budget f k ?g) (\<lambda>(ok, g3).
      if \<not> ok then
        (case gc_map g3 k of
           None \<Rightarrow> Some (None, warn_oversize_once k g3)
         | Some _ \<Rightarrow> map_option (\<lambda>(_, g4). (None, warn_oversize_once k g4))
             (rebuild f ((drop_entry f k g3)\<lparr>gc_lru := tl (gc_lru g3)\<rparr>)))
      else Some (map_option en_glyph (gc_map g3 k), g3))"
    using k e(2) by (simp add: admit_def Let_def)
  show ?thesis
  proof (cases b)
    case True
    have "gc_ok g3"
      unfolding gc_ok_def max3
    proof (intro conjI allI)
      show "gc_wf g3" "budget_ok (gc_budget g3)" using wf3 max(2) ok by (simp_all add: gc_ok_def)
      show "gc_counts g3 h \<le> max_count h g" for h
        using c3[of h] en(3) True max(1)[of f] by (cases "h = f") simp_all
    qed
    then show ?thesis
      using adm en(1,3) True e3 other a(4) placed by auto
  next
    case False
    have fmt: "gl_format (en_glyph e3) = f" using strip_eqD(4)[OF e3(2)] e(2) by simp
    have hd: "gc_lru g3 \<noteq> []" "hd (gc_lru g3) = k" using en(2) by (simp_all add: steps_def)
    moreover have "distinct (gc_lru g3)" using wf3 by (simp add: gc_wf_def)
    ultimately have tl: "tl (gc_lru g3) = filter (\<lambda>x. x \<noteq> k) (gc_lru g3)"
      by (cases "gc_lru g3") (auto intro!: filter_True[symmetric])
    let ?d = "(drop_entry f k g3)\<lparr>gc_lru := filter (\<lambda>x. x \<noteq> k) (gc_lru g3)\<rparr>"
    note d = drop_wf[OF wf3 e3(1) fmt]
    have "gc_budget ?d = gc_budget g" using max by (simp add: drop_entry_def)
    moreover have "max_count h ?d = max_count h g" for h using calculation by (rule max_count_cong)
    moreover have "gc_counts ?d h \<le> max_count h g" for h
      using d(3) d(4)[of h] c3[of h] by (cases "h = f") auto
    ultimately have okd: "gc_ok ?d" using d(1) ok by (simp add: gc_ok_def)
    obtain b4 g4 where r: "rebuild f ?d = Some (b4, g4)" "kept f ?d g4" "gc_wf g4"
      using rebuild_spec[OF d(1)] by blast
    have "gc_ok g4" using steps_ok[OF kept_steps[OF r(3,2)] okd] .
    moreover have "coherent h g4" if "coherent h g" "h \<noteq> f" for h
      using other[OF that] d(5)[of h] r(2) that(2) by (simp add: kept_def)
    moreover have "admit k e g = Some (None, warn_oversize_once k g4)"
      using adm en(1) False e3(1) tl r(1) by simp
    ultimately show ?thesis by auto
  qed
qed


lemma length_read_rows:
  assumes "x + w \<le> W" "y + h \<le> H" "length px = W * H * b"
  shows "length (read_rows b W px x y w h) = w * h * b"
proof -
  have "length (take (w * b) (drop (((y + j) * W + x) * b) px)) = w * b" if "j < h" for j
    using row_in_page[OF assms(1), of "y + j" H b] assms that by simp
  then have "map (\<lambda>j. length (take (w * b) (drop (((y + j) * W + x) * b) px))) [0..<h] = map (\<lambda>_. w * b) [0..<h]"
    by (intro map_cong) auto
  then show ?thesis unfolding read_rows_def length_concat map_map comp_def by (simp add: map_replicate_const sum_list_replicate)
qed

text \<open>
  What the cache relies on of a backend's \<^verbatim>\<open>render_glyph\<close>: the scratch page it drew on is a page of the
  glyph's format, and the glyph's rectangle does not wrap.
\<close>

definition render_ok :: "glyph \<times> atlas \<times> atlas \<Rightarrow> bool" where
  "render_ok = (\<lambda>(gl, m, c). let a = (if gl_format gl = Bgra then c else m) in
     length (at_pixels a) = at_w a * at_h a * bytes_per_pixel a \<and> at_format a = gl_format gl \<and>
     gl_x gl + gl_w gl < 2 ^ 32 \<and> gl_y gl + gl_h gl < 2 ^ 32)"

definition face_ok :: "face \<Rightarrow> bool" where
  "face_ok fc \<longleftrightarrow> (\<forall>gid hint x. render_ok
     (fc_render fc gid (new_atlas Grayscale 256 8192) (new_atlas Bgra 256 8192) hint x))"

lemma extract_length:
  assumes "length (at_pixels a) = at_w a * at_h a * bytes_per_pixel a" "at_format a = gl_format gl"
    "gl_x gl + gl_w gl < 2 ^ 32" "gl_y gl + gl_h gl < 2 ^ 32" "extract_pixels a gl \<noteq> []"
  shows "length (extract_pixels a gl) = gl_w gl * gl_h gl * format_bpp (gl_format gl)"
proof -
  have fit: "gl_x gl + gl_w gl \<le> at_w a" "gl_y gl + gl_h gl \<le> at_h a"
    using assms(3-5) by (auto simp: extract_pixels_def wrap_simps split: if_splits)
  have "extract_pixels a gl = read_rows (bytes_per_pixel a) (at_w a) (at_pixels a) (gl_x gl) (gl_y gl) (gl_w gl) (gl_h gl)"
    using assms(5) by (auto simp: extract_pixels_def split: if_splits)
  then show ?thesis using length_read_rows[OF fit assms(1)] assms(2) by (simp add: bytes_per_pixel_def)
qed

lemma insert_spec:
  assumes ok: "gc_ok g" and k: "gc_map g k = None"
    and px: "px \<noteq> [] \<Longrightarrow> length px = gl_w gl * gl_h gl * format_bpp (gl_format gl)"
  shows "\<exists>r g'. insert_rendered k gl px g = Some (r, g') \<and> gc_ok g' \<and>
    (r \<noteq> None \<longrightarrow> (\<exists>e. gc_map g' k = Some e \<and> r = Some (en_glyph e) \<and> strip e = strip (new_entry k gl px)) \<and>
       ((\<forall>h. coherent h g) \<longrightarrow> (\<forall>h. coherent h g')))"
proof (cases "(gl_w gl \<noteq> 0 \<or> gl_h gl \<noteq> 0) \<and> px = [] \<or> gl_w gl > 0xffff \<or> gl_h gl > 0xffff")
  case True
  then show ?thesis using ok by (auto simp: insert_rendered_def)
next
  case False
  let ?e = "new_entry k gl px" and ?f = "gl_format gl"
  have e: "entry_ok ?e" "gl_format (en_glyph ?e) = ?f"
    using False px by (auto simp: entry_ok_def new_entry_def)
  have wf: "gc_wf g" using ok by (simp add: gc_ok_def)
  obtain b e1 g1 where p: "pack_entry k ?e g = Some (b, e1, g1)" "steps ?f k g g1"
      "b \<longrightarrow> entry_placed (atlas_for ?f g1) e1 \<and> strip e1 = strip ?e \<and> (coherent ?f g \<longrightarrow> coherent ?f g1)"
    using pack_entry_spec[OF e wf] by blast
  have ok1: "gc_ok g1" using steps_ok[OF p(2) ok] .
  have k1: "gc_map g1 k = None" using p(2) k by (simp add: steps_def)
  show ?thesis
  proof (cases b)
    case True
    have e1: "entry_ok e1" "gl_format (en_glyph e1) = ?f"
      using p(3) True strip_eqD(4,5)[of e1 ?e] e by simp_all
    obtain r g' where a: "admit k e1 g1 = Some (r, g')" "gc_ok g'"
        "\<forall>h. h \<noteq> ?f \<longrightarrow> coherent h g1 \<longrightarrow> coherent h g'"
        "r \<noteq> None \<longrightarrow> (\<exists>e'. gc_map g' k = Some e' \<and> r = Some (en_glyph e') \<and> strip e' = strip e1) \<and>
          (coherent ?f g1 \<longrightarrow> coherent ?f g')"
      using admit_spec[OF ok1 k1 e1] p(3) True by blast
    have "coherent h g1" if "\<forall>h. coherent h g" for h
      using that p(2,3) True by (cases "h = ?f") (auto simp: steps_def)
    then have "coherent h g'" if "\<forall>h. coherent h g" "r \<noteq> None" for h
      using that a(3,4) by (cases "h = ?f") auto
    moreover have "insert_rendered k gl px g = Some (r, g')"
      using False p(1) True a(1) by (auto simp: insert_rendered_def)
    ultimately show ?thesis using a(2,4) p(3) True by auto
  next
    case notb: False
    then have "insert_rendered k gl px g = Some (None, warn_oversize_once k g1)"
      using False p(1) by (auto simp: insert_rendered_def)
    then show ?thesis using ok1 by simp
  qed
qed

lemma promote_spec:
  assumes "gc_ok g" and "gc_map g k = Some e"
  shows "gc_ok (promote k g)" "coherent h (promote k g) = coherent h g"
proof -
  have m: "gc_map (promote k g) = gc_map g" "gc_counts (promote k g) = gc_counts g"
      "gc_budget (promote k g) = gc_budget g" "\<And>h. atlas_for h (promote k g) = atlas_for h g"
    by (simp_all add: promote_def)
  have "k \<in> set (gc_lru g)" using assms by (auto simp: gc_ok_def gc_wf_def)
  then have ms: "mset (gc_lru (promote k g)) = mset (gc_lru g)" by (simp add: promote_def)
  have fmt: "of_format f (promote k g) = of_format f g" for f by (rule ext) (simp add: of_format_def m)
  have len: "length (filter P (gc_lru (promote k g))) = length (filter P (gc_lru g))" for P
    using ms by (metis mset_filter size_mset)
  have "distinct (gc_lru (promote k g)) = distinct (gc_lru g)" "set (gc_lru (promote k g)) = set (gc_lru g)"
    using ms mset_eq_imp_distinct_iff mset_eq_setD by blast+
  then have "gc_wf (promote k g)"
    using assms(1) unfolding gc_ok_def gc_wf_def m fmt len by simp
  then show "gc_ok (promote k g)"
    using assms(1) max_count_cong[OF m(3)] unfolding gc_ok_def m by simp
  show "coherent h (promote k g) = coherent h g" by (simp add: coherent_def m)
qed

lemma lookup_spec:
  assumes ok: "gc_ok g" and fc: "face_ok fc"
  shows "\<exists>r g'. lookup fc gid p hint g = Some (r, g') \<and> gc_ok g' \<and>
    (r \<noteq> None \<longrightarrow> (\<exists>e. gc_map g' (lookup_key fc gid p hint) = Some e \<and> r = Some (en_glyph e)) \<and>
       ((\<forall>h. coherent h g) \<longrightarrow> (\<forall>h. coherent h g')))"
proof (cases "gc_map g (lookup_key fc gid p hint)")
  case None
  obtain gl m c where rd: "fc_render fc gid (new_atlas Grayscale 256 8192) (new_atlas Bgra 256 8192) hint (of_nat (sub_bin p) / 4) = (gl, m, c)"
    by (cases "fc_render fc gid (new_atlas Grayscale 256 8192) (new_atlas Bgra 256 8192) hint (of_nat (sub_bin p) / 4)")
  let ?a = "if gl_format gl = Bgra then c else m"
  have "render_ok (gl, m, c)" using fc unfolding face_ok_def rd[symmetric] by blast
  then have px: "extract_pixels ?a gl \<noteq> [] \<Longrightarrow>
      length (extract_pixels ?a gl) = gl_w gl * gl_h gl * format_bpp (gl_format gl)"
    using extract_length[of ?a gl] unfolding render_ok_def by (simp add: Let_def)
  show ?thesis
    using insert_spec[OF ok None px] None rd by (auto simp: lookup_def Let_def)
next
  case (Some e)
  then show ?thesis
    using promote_spec[OF ok Some] by (auto simp: lookup_def promote_def Let_def)
qed


section \<open>Reachable caches\<close>

inductive gc_reachable :: "gcache \<Rightarrow> bool" where
  create: "budget_ok (sanitize b) \<Longrightarrow> gc_reachable (new_gcache b)"
| lookup: "gc_reachable g \<Longrightarrow> face_ok fc \<Longrightarrow> lookup fc gid p hint g = Some (r, g') \<Longrightarrow> gc_reachable g'"
| set_budget: "gc_reachable g \<Longrightarrow> budget_ok (sanitize b) \<Longrightarrow> gc_reachable (set_budget b g)"
| clear: "gc_reachable g \<Longrightarrow> gc_reachable (gc_clear g)"

lemma new_atlas_format: "at_format (new_atlas f n m) = f"
  by (simp add: new_atlas_def bump_layout_def)

lemma empty_ok:
  assumes "budget_ok (gc_budget g)" "gc_map g = Map.empty" "gc_lru g = []" "gc_counts g = (\<lambda>_. 0)"
    and "\<And>f. atlas_inv (atlas_for f g) \<and> at_format (atlas_for f g) = f"
  shows "gc_ok g" "coherent h g"
  using assms by (simp_all add: gc_ok_def gc_wf_def coherent_def)

lemma reset_atlases_pages:
  assumes "budget_ok (gc_budget g)"
  shows "atlas_inv (atlas_for f (reset_atlases g)) \<and> at_format (atlas_for f (reset_atlases g)) = f"
  using assms new_atlas_inv
  by (cases f) (simp_all add: reset_atlases_def atlas_for_def new_atlas_format budget_ok_def)

lemma new_gcache_ok: "budget_ok (sanitize b) \<Longrightarrow> gc_ok (new_gcache b) \<and> coherent h (new_gcache b)"
  unfolding new_gcache_def
  by (intro conjI empty_ok reset_atlases_pages) (simp_all add: reset_atlases_def)

lemma set_budget_ok: "budget_ok (sanitize b) \<Longrightarrow> gc_ok (set_budget b g)"
  unfolding set_budget_def
  by (intro empty_ok reset_atlases_pages) (simp_all add: reset_atlases_def)

lemma gc_clear_ok:
  assumes "gc_ok g"
  shows "gc_ok (gc_clear g)"
proof (rule empty_ok)
  fix f
  have "at_format (atlas_clear a) = at_format a" for a
    by (simp add: atlas_clear_def bump_layout_def reset_empty_def Let_def)
  moreover have "atlas_for f (gc_clear g) = atlas_clear (atlas_for f g)"
    by (cases f) (simp_all add: gc_clear_def atlas_for_def)
  ultimately show "atlas_inv (atlas_for f (gc_clear g)) \<and> at_format (atlas_for f (gc_clear g)) = f"
    using assms atlas_clear_inv by (simp add: gc_ok_def gc_wf_def)
qed (use assms in \<open>simp_all add: gc_clear_def gc_ok_def\<close>)

lemma gc_reachable_ok: "gc_reachable g \<Longrightarrow> gc_ok g"
proof (induction rule: gc_reachable.induct)
  case (lookup g fc gid p hint r g')
  then show ?case using lookup_spec[of g fc gid p hint] by auto
qed (simp_all add: new_gcache_ok set_budget_ok gc_clear_ok)

text \<open>every lookup ends and keeps the cache in order. In every reachable cache and for every backend
  that draws on its scratch page, \<^verbatim>\<open>lookup\<close> returns (its packing, eviction and rebuild loops end),
  and afterwards the recency list has every cached key exactly once, the two counters are the numbers of
  cached glyphs of their format, and neither exceeds its budget.\<close>

theorem glyph_lookup_ends:
  assumes "gc_reachable g" and "face_ok fc"
  shows "\<exists>r g'. lookup fc gid p hint g = Some (r, g') \<and> distinct (gc_lru g') \<and> set (gc_lru g') = dom (gc_map g') \<and>
    (\<forall>f. gc_counts g' f = length (filter (of_format f g') (gc_lru g')) \<and> gc_counts g' f \<le> max_count f g')"
proof -
  obtain r g' where "lookup fc gid p hint g = Some (r, g')" "gc_ok g'"
    using lookup_spec[OF gc_reachable_ok[OF assms(1)] assms(2)] by blast
  then show ?thesis unfolding gc_ok_def gc_wf_def by blast
qed

text \<open>C16: a glyph the cache hands out can be drawn. From a cache in which every glyph's rectangle holds
  its bitmap, a lookup that does not answer with the empty fallback returns the cached glyph of the key, and
  every cached glyph of both formats, this one included, still lies in its page and its rectangle reads
  back the retained bitmap, whatever was evicted, grown or rebuilt on the way.\<close>

theorem glyph_lookup_drawable:
  assumes "gc_reachable g" and "face_ok fc" and "\<forall>h. coherent h g"
    and "lookup fc gid p hint g = Some (Some gl, g')"
  shows "(\<exists>e. gc_map g' (lookup_key fc gid p hint) = Some e \<and> en_glyph e = gl) \<and> (\<forall>h. coherent h g') \<and>
    (\<forall>k e. gc_map g' k = Some e \<longrightarrow> 0 < en_w e \<and> 0 < en_h e \<longrightarrow>
       gl_x (en_glyph e) + en_w e < at_w (atlas_for (gl_format (en_glyph e)) g') \<and>
       gl_y (en_glyph e) + en_h e < at_h (atlas_for (gl_format (en_glyph e)) g') \<and>
       extract_pixels (atlas_for (gl_format (en_glyph e)) g') (en_glyph e) = en_pixels e)"
proof -
  have ok: "gc_ok g'" and l: "\<exists>e. gc_map g' (lookup_key fc gid p hint) = Some e \<and> gl = en_glyph e"
    and c: "\<forall>h. coherent h g'"
    using lookup_spec[OF gc_reachable_ok[OF assms(1)] assms(2), of gid p hint] assms(3,4) by auto
  have "gl_x (en_glyph e) + en_w e < at_w a \<and> gl_y (en_glyph e) + en_h e < at_h a \<and>
      extract_pixels a (en_glyph e) = en_pixels e"
    if e: "gc_map g' k = Some e" "0 < en_w e" "0 < en_h e" and "a = atlas_for (gl_format (en_glyph e)) g'" for k e a
  proof -
    have pl: "entry_placed a e" using c e(1) that(4) by (simp add: coherent_def)
    have eo: "entry_ok e" "atlas_inv a" using ok e(1) that(4) by (auto simp: gc_ok_def gc_wf_def)
    have sh: "gl_x (en_glyph e) + en_w e + 1 \<le> at_w a" "gl_y (en_glyph e) + en_h e + 1 \<le> at_h a"
      using pl e(2,3) by (simp_all add: entry_placed_def on_shelf_def Let_def)
    moreover have "at_w a < 2 ^ 31" "at_h a < 2 ^ 31" using eo(2) by (simp_all add: atlas_inv_def)
    ultimately have "extract_pixels a (en_glyph e) = content a (gl_x (en_glyph e), gl_y (en_glyph e), en_w e, en_h e)"
      using eo(1) e(2,3) by (simp add: extract_pixels_def content_def entry_ok_def wrap_simps)
    then show ?thesis using sh pl e(2,3) by (simp add: entry_placed_def Let_def)
  qed
  then show ?thesis using l c by auto
qed


text \<open>A backend whose every glyph is a bar of two pixels, and a small budget.\<close>

definition bar_page :: atlas where
  "bar_page = (new_atlas Grayscale 0 8)\<lparr>at_w := 2, at_h := 1, at_pixels := [7, 8]\<rparr>"

definition bar_glyph :: glyph where
  "bar_glyph = empty_glyph\<lparr>gl_w := 2, gl_h := 1\<rparr>"

definition bar_face :: face where
  "bar_face = \<lparr>fc_id = 1, fc_pixel_size = 12, fc_render = (\<lambda>_ _ c _ _. (bar_glyph, bar_page, c))\<rparr>"

definition small_budget :: budget where
  "small_budget = \<lparr>bd_initial = 8, bd_max = 16, bd_mask_count = 2, bd_color_count = 2, bd_mask_bytes = 256, bd_color_bytes = 256\<rparr>"

lemma bar_face_ok: "face_ok bar_face"
  by (simp add: face_ok_def render_ok_def bar_face_def bar_glyph_def bar_page_def empty_glyph_def Let_def page_eval)

lemma small_cache_reachable: "gc_reachable (new_gcache small_budget)"
  by (rule gc_reachable.create) (simp add: small_budget_def sanitize_def budget_ok_def)

theorem glyph_lookup_ends_witness:
  "\<exists>r g'. lookup bar_face 65 (Some (1 / 3)) 2 (new_gcache small_budget) = Some (r, g') \<and> distinct (gc_lru g')"
  using glyph_lookup_ends[OF small_cache_reachable bar_face_ok] by blast

lemma bar_lookup:
  "\<exists>gl g'. lookup bar_face 65 None 2 (new_gcache small_budget) = Some (Some gl, g')"
proof -
  have px: "extract_pixels bar_page bar_glyph = [7, 8]"
    by (simp add: extract_pixels_def bar_page_def bar_glyph_def empty_glyph_def page_eval)
  have "lookup bar_face 65 None 2 (new_gcache small_budget) =
      insert_rendered (lookup_key bar_face 65 None 2) bar_glyph (extract_pixels bar_page bar_glyph) (new_gcache small_budget)"
    by (simp add: lookup_def Let_def new_gcache_def reset_atlases_def)
      (simp add: bar_face_def bar_glyph_def empty_glyph_def)
  moreover have "\<exists>gl g'. insert_rendered k bar_glyph [7, 8] (new_gcache small_budget) = Some (Some gl, g')" for k
    by (simp add: insert_rendered_def bar_glyph_def empty_glyph_def new_gcache_def reset_atlases_def small_budget_def sanitize_def
        pack_entry_def new_entry_def pack_loop.simps atlas_for_def set_atlas_def admit_def enforce_budget_def
        enforce_loop.simps over_budget_def max_count_def max_bytes_def atlas_bytes_def move_glyph_def Let_def page_eval)
  ultimately show ?thesis using px by simp
qed

theorem glyph_lookup_drawable_witness:
  "\<exists>gl g'. lookup bar_face 65 None 2 (new_gcache small_budget) = Some (Some gl, g') \<and>
     (\<exists>e. gc_map g' (lookup_key bar_face 65 None 2) = Some e \<and> en_glyph e = gl)"
proof -
  obtain gl g' where l: "lookup bar_face 65 None 2 (new_gcache small_budget) = Some (Some gl, g')"
    using bar_lookup by blast
  have "\<forall>h. coherent h (new_gcache small_budget)"
    using new_gcache_ok[of small_budget] by (simp add: small_budget_def sanitize_def budget_ok_def)
  then show ?thesis
    using glyph_lookup_drawable[OF small_cache_reachable bar_face_ok _ l] l by blast
qed

section \<open>The order of repacking matters\<close>

text \<open>
  A page that holds two tall bitmaps and a wide one, packed in that order, has no room for them with the
  wide one in the middle. A rebuild takes the glyphs in recency order, not in the order they were
  packed, so it can fail for glyphs that were all cached; it stops at the glyph that does not fit, and
  that glyph and the ones behind it keep positions of the page before the reset.
\<close>

definition tall :: "nat \<Rightarrow> nat repack_item" where
  "tall k = \<lparr>ri_glyph = Some k, ri_pixels = replicate 8 9, ri_w = 2, ri_h = 4\<rparr>"

definition wide :: "nat \<Rightarrow> nat repack_item" where
  "wide k = \<lparr>ri_glyph = Some k, ri_pixels = replicate 6 9, ri_w = 6, ri_h = 1\<rparr>"

theorem repack_depends_on_order:
  "\<exists>ps a ps' a'. rebuild_from_live (new_atlas Grayscale 8 8) [tall 0, tall 1, wide 2] = Some (True, ps, a) \<and>
     rebuild_from_live (new_atlas Grayscale 8 8) [tall 0, wide 2, tall 1] = Some (False, ps', a') \<and>
     map fst ps' = [0, 2]"
  by (simp add: rebuild_from_live_def reset_empty_def tall_def wide_def page_eval Let_def)

end
