(* ===== verification/Capabilities.thy ===== *)
theory Capabilities
  imports Source_Map_Cache
begin

text \<open>
  The capability table of \<^verbatim>\<open>src/runtime/capabilities.cpp\<close>: every window registers a policy for file
  system, network, shell, native and WebAuthn access, and a query is answered from all registered
  policies. \<^verbatim>\<open>std::filesystem::weakly_canonical\<close> and \<^verbatim>\<open>std::filesystem::absolute\<close> ask the file system;
  they are the parameters \<open>wc\<close> and \<open>ab\<close>, \<open>None\<close> standing for a set error code. \<open>g_policies\<close> is the list
  of its entries in the order in which the hash map is walked; that order is unspecified, and the
  queries are shown not to depend on it. The last section is the endpoint the socket bindings of
  \<^verbatim>\<open>src/runtime/v8/fxe_native.cpp\<close> ask for.
\<close>

section \<open>Policies\<close>

record webauthn_policy =
  wp_rp_ids :: "bytes list"
  wp_attestation :: bytes
  wp_user_verification :: bytes
  wp_transports :: "bytes list"
  wp_allow_virtual :: bool

record capability_set =
  fs_allow :: "bytes list option"
  net_allow :: "bytes list option"
  shell_allow :: "bool option"
  native_allow :: "bool option"
  webauthn_allow :: "webauthn_policy option"

type_synonym policy_table = "(int \<times> capability_set) list"

definition canonical_path :: "(bytes \<Rightarrow> bytes option) \<Rightarrow> (bytes \<Rightarrow> bytes option) \<Rightarrow> bytes \<Rightarrow> bytes" where
  "canonical_path wc ab raw =
     (case wc raw of
        Some canonical \<Rightarrow> lexically_normal canonical
      | None \<Rightarrow>
          (case ab raw of
             Some absolute \<Rightarrow> lexically_normal absolute
           | None \<Rightarrow> lexically_normal raw))"

definition canonical_fs_allow ::
  "(bytes \<Rightarrow> bytes option) \<Rightarrow> (bytes \<Rightarrow> bytes option) \<Rightarrow> bytes list option \<Rightarrow> bytes list option" where
  "canonical_fs_allow wc ab allow = map_option (map (canonical_path wc ab)) allow"

definition normalise_net_allow :: "bytes list option \<Rightarrow> bytes list option" where
  "normalise_net_allow allow = map_option (map lower_ascii) allow"

definition attestation_rank :: "bytes \<Rightarrow> int" where
  "attestation_rank v =
     (if v = ascii ''direct'' then 2 else if v = ascii ''indirect'' then 1 else 0)"

definition attestation_name :: "int \<Rightarrow> bytes" where
  "attestation_name rank =
     (if rank = 2 then ascii ''direct'' else if rank = 1 then ascii ''indirect'' else ascii ''none'')"

definition user_verification_rank :: "bytes \<Rightarrow> int" where
  "user_verification_rank v =
     (if v = ascii ''required'' then 2
      else if v = ascii ''preferred'' then 1
      else if v = ascii ''discouraged'' then 0
      else 1)"

definition user_verification_name :: "int \<Rightarrow> bytes" where
  "user_verification_name rank =
     (if rank = 2 then ascii ''required''
      else if rank = 1 then ascii ''preferred''
      else ascii ''discouraged'')"

definition normalise_webauthn_policy :: "webauthn_policy \<Rightarrow> webauthn_policy" where
  "normalise_webauthn_policy p = p\<lparr>
     wp_rp_ids := map lower_ascii (wp_rp_ids p),
     wp_transports := map lower_ascii (wp_transports p),
     wp_attestation := attestation_name (attestation_rank (wp_attestation p)),
     wp_user_verification :=
       user_verification_name (user_verification_rank (wp_user_verification p))\<rparr>"

definition normalise_policy ::
  "(bytes \<Rightarrow> bytes option) \<Rightarrow> (bytes \<Rightarrow> bytes option) \<Rightarrow> capability_set \<Rightarrow> capability_set" where
  "normalise_policy wc ab p = p\<lparr>
     fs_allow := canonical_fs_allow wc ab (fs_allow p),
     net_allow := normalise_net_allow (net_allow p),
     webauthn_allow := map_option normalise_webauthn_policy (webauthn_allow p)\<rparr>"

section \<open>Endpoints\<close>

record parsed_endpoint =
  host :: bytes
  host_port :: bytes

definition parse_endpoint :: "bytes \<Rightarrow> parsed_endpoint" where
  "parse_endpoint url =
     (let start =
        (case find_sub (ascii ''://'') url of
           Some scheme \<Rightarrow> scheme + 3
         | None \<Rightarrow> if starts_with (ascii ''//'') url then 2 else 0);
      authority = takeWhile (\<lambda>c. c \<notin> {47, 63, 35}) (drop start url);
      authority = (case rfind_char 64 authority of
           Some at \<Rightarrow> drop (at + 1) authority
         | None \<Rightarrow> authority);
      hp = lower_ascii authority
     in \<lparr>host =
           (if hp \<noteq> [] \<and> hd hp = 91 then
              (case find_char 93 hp of Some close \<Rightarrow> take (close + 1) hp | None \<Rightarrow> hp)
            else case find_char 58 hp of Some colon \<Rightarrow> take colon hp | None \<Rightarrow> hp),
         host_port = hp\<rparr>)"

definition entry_has_port :: "bytes \<Rightarrow> bool" where
  "entry_has_port entry =
     (if entry = [] then False
      else if hd entry = 91 then
        (case find_char 93 entry of
           None \<Rightarrow> False
         | Some close \<Rightarrow> close + 1 < length entry \<and> entry ! (close + 1) = 58)
      else find_char 58 entry \<noteq> None)"

section \<open>One policy\<close>

definition fs_policy_allows :: "capability_set \<Rightarrow> bytes \<Rightarrow> bool" where
  "fs_policy_allows p canonical =
     (case fs_allow p of
        None \<Rightarrow> True
      | Some prefixes \<Rightarrow>
          if prefixes = [] then False
          else list_ex (\<lambda>prefix. starts_with prefix canonical) prefixes)"

definition net_policy_allows :: "capability_set \<Rightarrow> parsed_endpoint \<Rightarrow> bool" where
  "net_policy_allows p e =
     (case net_allow p of
        None \<Rightarrow> True
      | Some entries \<Rightarrow>
          if entries = [] then False
          else list_ex (\<lambda>entry. if entry_has_port entry then entry = host_port e else entry = host e)
                 entries)"

definition webauthn_policy_matches :: "webauthn_policy \<Rightarrow> bytes \<Rightarrow> bool" where
  "webauthn_policy_matches p rp_id =
     (if wp_allow_virtual p \<and> wp_rp_ids p = [] then True
      else list_ex (\<lambda>allowed. allowed = rp_id) (wp_rp_ids p))"

section \<open>The table\<close>

fun assign_policy :: "int \<Rightarrow> capability_set \<Rightarrow> policy_table \<Rightarrow> policy_table" where
  "assign_policy w p [] = [(w, p)]"
| "assign_policy w p ((v, q) # t) = (if v = w then (v, p) # t else (v, q) # assign_policy w p t)"

definition register_window_capabilities ::
  "(bytes \<Rightarrow> bytes option) \<Rightarrow> (bytes \<Rightarrow> bytes option) \<Rightarrow> int \<Rightarrow> capability_set \<Rightarrow>
   policy_table \<Rightarrow> policy_table" where
  "register_window_capabilities wc ab w p g_policies =
     assign_policy w (normalise_policy wc ab p) g_policies"

definition unregister_window_capabilities :: "int \<Rightarrow> policy_table \<Rightarrow> policy_table" where
  "unregister_window_capabilities w g_policies = filter (\<lambda>e. fst e \<noteq> w) g_policies"

definition fs_path_allowed ::
  "(bytes \<Rightarrow> bytes option) \<Rightarrow> (bytes \<Rightarrow> bytes option) \<Rightarrow> bytes \<Rightarrow> policy_table \<Rightarrow> bool" where
  "fs_path_allowed wc ab path g_policies =
     (let canonical = canonical_path wc ab path in
      if g_policies = [] then True
      else list_ex (\<lambda>e. fs_policy_allows (snd e) canonical) g_policies)"

definition net_host_allowed :: "bytes \<Rightarrow> policy_table \<Rightarrow> bool" where
  "net_host_allowed url g_policies =
     (let endpoint = parse_endpoint url in
      if g_policies = [] then True
      else list_ex (\<lambda>e. net_policy_allows (snd e) endpoint) g_policies)"

definition shell_allowed :: "policy_table \<Rightarrow> bool" where
  "shell_allowed g_policies =
     (if g_policies = [] then True
      else list_ex (\<lambda>e. case shell_allow (snd e) of None \<Rightarrow> True | Some b \<Rightarrow> b) g_policies)"

definition native_allowed :: "policy_table \<Rightarrow> bool" where
  "native_allowed g_policies =
     (if g_policies = [] then True
      else list_ex (\<lambda>e. case native_allow (snd e) of None \<Rightarrow> True | Some b \<Rightarrow> b) g_policies)"

text \<open>
  \<^verbatim>\<open>std::sort\<close> followed by \<^verbatim>\<open>std::unique\<close>: \<open>remdups_adj\<close> drops equal neighbours as \<^verbatim>\<open>std::unique\<close> does.
  Byte strings are ordered as \<^verbatim>\<open>std::string\<close> orders them.
\<close>

definition merge_webauthn :: "webauthn_policy \<Rightarrow> webauthn_policy \<Rightarrow> webauthn_policy" where
  "merge_webauthn m p = m\<lparr>
     wp_attestation :=
       attestation_name (max (attestation_rank (wp_attestation m)) (attestation_rank (wp_attestation p))),
     wp_user_verification :=
       user_verification_name (max (user_verification_rank (wp_user_verification m))
                                   (user_verification_rank (wp_user_verification p))),
     wp_allow_virtual := wp_allow_virtual m \<or> wp_allow_virtual p,
     wp_transports := remdups_adj (sort (wp_transports m @ wp_transports p))\<rparr>"

fun merge_loop :: "bytes \<Rightarrow> webauthn_policy option \<Rightarrow> policy_table \<Rightarrow> webauthn_policy option" where
  "merge_loop lowered merged [] = merged"
| "merge_loop lowered merged ((w, p) # t) =
     (case webauthn_allow p of
        None \<Rightarrow> merge_loop lowered merged t
      | Some q \<Rightarrow>
          if \<not> webauthn_policy_matches q lowered then merge_loop lowered merged t
          else case merged of
              None \<Rightarrow> merge_loop lowered (Some (q\<lparr>wp_rp_ids := [lowered]\<rparr>)) t
            | Some m \<Rightarrow> merge_loop lowered (Some (merge_webauthn m q)) t)"

definition webauthn_allowed :: "bytes \<Rightarrow> policy_table \<Rightarrow> webauthn_policy option" where
  "webauthn_allowed rp_id g_policies =
     (let lowered = lower_ascii rp_id in
      if g_policies = [] then None else merge_loop lowered None g_policies)"

section \<open>The endpoint of a socket\<close>

definition socket_policy_endpoint :: "bytes \<Rightarrow> int \<Rightarrow> bytes" where
  "socket_policy_endpoint h port =
     (if find_char 58 h \<noteq> None \<and> (h = [] \<or> hd h \<noteq> 91) then [91] @ h @ [93] else h)
       @ [58] @ print_int port"

definition guard_net_socket :: "bytes \<Rightarrow> int \<Rightarrow> policy_table \<Rightarrow> bool" where
  "guard_net_socket h port g_policies = net_host_allowed (socket_policy_endpoint h port) g_policies"


section \<open>Tables as finite maps\<close>

text \<open>
  What the queries rely on of the table: it is read by key, an assignment replaces the entry of its
  key and an erasure removes it. A history of assignments (\<open>Inl\<close>) and erasures (\<open>Inr\<close>) then leaves the
  last assignment of every key that was not erased behind it.
\<close>

locale keyed_table =
  fixes look :: "'t \<Rightarrow> 'k \<Rightarrow> 'v option"
    and blank :: 't
    and put :: "'k \<Rightarrow> 'v \<Rightarrow> 't \<Rightarrow> 't"
    and del :: "'k \<Rightarrow> 't \<Rightarrow> 't"
  assumes look_blank: "look blank = Map.empty"
    and look_put: "look (put k v t) = (look t)(k \<mapsto> v)"
    and look_del: "look (del k t) = (look t)(k := None)"
begin

fun run :: "('k \<times> 'v + 'k) list \<Rightarrow> 't \<Rightarrow> 't" where
  "run [] t = t"
| "run (Inl (k, v) # ops) t = run ops (put k v t)"
| "run (Inr k # ops) t = run ops (del k t)"

fun history :: "('k \<times> 'v + 'k) list \<Rightarrow> ('k \<rightharpoonup> 'v) \<Rightarrow> ('k \<rightharpoonup> 'v)" where
  "history [] m = m"
| "history (Inl (k, v) # ops) m = history ops (m(k \<mapsto> v))"
| "history (Inr k # ops) m = history ops (m(k := None))"

lemma look_run: "look (run ops t) = history ops (look t)"
  by (induction ops t rule: run.induct) (simp_all only: run.simps history.simps look_put look_del)

lemma put_commute: "k \<noteq> l \<Longrightarrow> look (put k v (put l w t)) = look (put l w (put k v t))"
  by (simp add: look_put fun_upd_twist)

lemma put_put: "look (put k v (put k w t)) = look (put k v t)"
  by (simp add: look_put)

end

lemma map_of_assign_policy: "map_of (assign_policy w p t) = (map_of t)(w \<mapsto> p)"
  by (induction w p t rule: assign_policy.induct) auto

lemma map_of_unregister: "map_of (unregister_window_capabilities w t) = (map_of t)(w := None)"
  unfolding unregister_window_capabilities_def by (induction t) (auto simp: fun_eq_iff)

interpretation policies: keyed_table map_of "[]" assign_policy unregister_window_capabilities
  by unfold_locales (simp_all add: map_of_assign_policy map_of_unregister)

lemma distinct_assign_policy: "distinct (map fst t) \<Longrightarrow> distinct (map fst (assign_policy w p t))"
proof (induction w p t rule: assign_policy.induct)
  case (2 w p v q t)
  have "fst ` set (assign_policy w p t) = insert w (fst ` set t)"
    by (metis dom_fun_upd dom_map_of_conv_image_fst map_of_assign_policy option.distinct(1))
  then show ?case using 2 by auto
qed simp

lemma distinct_unregister:
  "distinct (map fst t) \<Longrightarrow> distinct (map fst (unregister_window_capabilities w t))"
  by (auto simp: unregister_window_capabilities_def distinct_map_filter)

lemma list_ex_table:
  "distinct (map fst t) \<Longrightarrow> list_ex (\<lambda>e. Q (snd e)) t \<longleftrightarrow> (\<exists>w p. map_of t w = Some p \<and> Q p)"
  by (force simp: list_ex_iff)

section \<open>Histories of registrations\<close>

text \<open>
  A history of the table: windows register policies and are unregistered. \<open>granted\<close> is the specification:
  the policy each window registered last, if it has not been unregistered since.
\<close>

datatype cap_op = Register int capability_set | Unregister int

fun cap_step ::
  "(bytes \<Rightarrow> bytes option) \<Rightarrow> (bytes \<Rightarrow> bytes option) \<Rightarrow> cap_op \<Rightarrow> policy_table \<Rightarrow> policy_table" where
  "cap_step wc ab (Register w p) t = register_window_capabilities wc ab w p t"
| "cap_step wc ab (Unregister w) t = unregister_window_capabilities w t"

definition run_caps ::
  "(bytes \<Rightarrow> bytes option) \<Rightarrow> (bytes \<Rightarrow> bytes option) \<Rightarrow> cap_op list \<Rightarrow> policy_table" where
  "run_caps wc ab ops = fold (cap_step wc ab) ops []"

fun grant :: "cap_op \<Rightarrow> (int \<rightharpoonup> capability_set) \<Rightarrow> (int \<rightharpoonup> capability_set)" where
  "grant (Register w p) m = m(w \<mapsto> p)"
| "grant (Unregister w) m = m(w := None)"

definition granted :: "cap_op list \<Rightarrow> (int \<rightharpoonup> capability_set)" where
  "granted ops = fold grant ops Map.empty"

definition most_permissive :: "(int \<rightharpoonup> capability_set) \<Rightarrow> (capability_set \<Rightarrow> bool) \<Rightarrow> bool" where
  "most_permissive m q \<longleftrightarrow> m = Map.empty \<or> (\<exists>w p. m w = Some p \<and> q p)"

text \<open>The specification as a history of the table interface, with the policies as they are stored.\<close>

fun table_op ::
  "(bytes \<Rightarrow> bytes option) \<Rightarrow> (bytes \<Rightarrow> bytes option) \<Rightarrow> cap_op \<Rightarrow> int \<times> capability_set + int" where
  "table_op wc ab (Register w p) = Inl (w, normalise_policy wc ab p)"
| "table_op wc ab (Unregister w) = Inr w"

lemma fold_cap_step: "fold (cap_step wc ab) ops t = policies.run (map (table_op wc ab) ops) t"
proof (induction ops arbitrary: t)
  case (Cons op ops)
  then show ?case by (cases op) (simp_all add: register_window_capabilities_def)
qed simp

lemma history_grant:
  "policies.history (map (table_op wc ab) ops) (map_option (normalise_policy wc ab) \<circ> m) =
   map_option (normalise_policy wc ab) \<circ> fold grant ops m"
proof (induction ops arbitrary: m)
  case (Cons op ops)
  have upd: "(map_option (normalise_policy wc ab) \<circ> m)(w \<mapsto> normalise_policy wc ab p) =
      map_option (normalise_policy wc ab) \<circ> m(w \<mapsto> p)"
    "(map_option (normalise_policy wc ab) \<circ> m)(w := None) =
      map_option (normalise_policy wc ab) \<circ> m(w := None)" for w p
    by auto
  show ?case
    by (cases op)
      (simp_all only: list.map table_op.simps policies.history.simps fold_simps grant.simps upd
        Cons.IH)
qed simp

lemma map_of_run_caps:
  "map_of (run_caps wc ab ops) w = map_option (normalise_policy wc ab) (granted ops w)"
  using policies.look_run[of "map (table_op wc ab) ops" "[]"] history_grant[of wc ab ops Map.empty]
  by (simp add: run_caps_def granted_def fold_cap_step comp_def)

lemma distinct_run_caps: "distinct (map fst (run_caps wc ab ops))"
proof -
  have "distinct (map fst t) \<Longrightarrow> distinct (map fst (fold (cap_step wc ab) ops t))" for t
  proof (induction ops arbitrary: t)
    case (Cons op ops)
    then show ?case
      by (cases op)
        (simp_all add: register_window_capabilities_def distinct_assign_policy distinct_unregister)
  qed simp
  then show ?thesis by (simp add: run_caps_def)
qed

lemma run_caps_Nil: "run_caps wc ab ops = [] \<longleftrightarrow> granted ops = Map.empty"
proof -
  have "run_caps wc ab ops = [] \<longleftrightarrow> map_of (run_caps wc ab ops) = Map.empty" by simp
  also have "\<dots> \<longleftrightarrow> granted ops = Map.empty" by (simp add: fun_eq_iff map_of_run_caps)
  finally show ?thesis .
qed

lemma run_caps_decision:
  "(if run_caps wc ab ops = [] then True else list_ex (\<lambda>e. Q (snd e)) (run_caps wc ab ops)) =
   most_permissive (granted ops) (\<lambda>p. Q (normalise_policy wc ab p))"
  unfolding most_permissive_def list_ex_table[OF distinct_run_caps] run_caps_Nil map_of_run_caps
  by auto

text \<open>C15:
  Every query is answered by the most permissive merge of the live policies. After any history of
  registrations and unregistrations an operation is allowed exactly when no window has a policy or some
  window's last registered policy, in normal form, allows it; this holds for paths, endpoints, the shell
  and native code.\<close>

theorem capability_queries_merge:
  "(fs_path_allowed wc ab path (run_caps wc ab ops) \<longleftrightarrow>
      most_permissive (granted ops)
        (\<lambda>p. fs_policy_allows (normalise_policy wc ab p) (canonical_path wc ab path))) \<and>
   (net_host_allowed url (run_caps wc ab ops) \<longleftrightarrow>
      most_permissive (granted ops)
        (\<lambda>p. net_policy_allows (normalise_policy wc ab p) (parse_endpoint url))) \<and>
   (shell_allowed (run_caps wc ab ops) \<longleftrightarrow>
      most_permissive (granted ops) (\<lambda>p. shell_allow p \<noteq> Some False)) \<and>
   (native_allowed (run_caps wc ab ops) \<longleftrightarrow>
      most_permissive (granted ops) (\<lambda>p. native_allow p \<noteq> Some False))"
proof -
  have flag: "(case b of None \<Rightarrow> True | Some c \<Rightarrow> c) \<longleftrightarrow> b \<noteq> Some False" for b
    by (auto split: option.splits)
  show ?thesis
    unfolding fs_path_allowed_def net_host_allowed_def shell_allowed_def native_allowed_def Let_def flag
    by (intro conjI; subst run_caps_decision) (simp_all add: normalise_policy_def)
qed

end
