(* ===== verification/Isolate_Coordinator.thy ===== *)
theory Isolate_Coordinator
  imports Prelude
begin

text \<open>
  The isolate coordinator of \<^verbatim>\<open>src/js/isolate_coordinator.cpp\<close>: window runtimes with a task queue, a mutex,
  a condition variable and a thread each, and the operations that other threads call on them. Calls in
  flight and runtime threads are interleaved step by step; the steps are cut where another thread can
  observe the difference:

  \<^item> A block under \<^verbatim>\<open>runtimes_mu_\<close> is one step, because the map is touched under that mutex only.
  \<^item> A block of a caller under \<^verbatim>\<open>state->mu\<close> is one step that needs the mutex to be free. The runtime thread
    holds \<^verbatim>\<open>state->mu\<close> over several steps, exactly while its program counter is \<open>Locked\<close> or \<open>MustWait\<close>,
    since \<^verbatim>\<open>stopping\<close> is an atomic that is stored without the mutex between them.
  \<^item> \<^verbatim>\<open>cv.wait\<close> with a predicate is the loop of evaluating the predicate, going to sleep (which releases the
    mutex), being notified and taking the mutex again. A spurious wake-up is a step of its own.

  A call is a value of \<open>call\<close> that names what it does next; \<open>exec\<close> performs one labelled step. A runtime
  state is kept on a heap with a flag that says whether it has been destroyed; an access to a
  destroyed one sets \<open>fault\<close>. Three fields of a runtime state only record what happened: \<open>accepted\<close> and
  \<open>executed\<close> the tasks pushed to and taken from the queue, \<open>raced\<close> that \<^verbatim>\<open>stopping\<close> was stored while the
  thread was between its test and its sleep. Tasks are opaque: what they call is a call like any other. The constructor of \<^verbatim>\<open>host\<close> can
  throw (\<open>Boot_Fails\<close>), so can the constructor of \<^verbatim>\<open>std::thread\<close> (\<open>Thread_Fails\<close>).
\<close>

section \<open>Runtime threads\<close>

datatype 't pc = NotStarted | Boot | BootNotify bool | Ready | Locked | MustWait | Sleeping | Running 't | Exited

record 't runtime_state =
  thread_pc :: "'t pc"
  queue :: "'t list"
  stopping :: bool
  started :: bool
  init_ok :: bool
  rid :: nat
  alive :: bool
  accepted :: "'t list"
  executed :: "'t list"
  raced :: bool

definition new_runtime :: "nat \<Rightarrow> 't runtime_state" where
  "new_runtime i = \<lparr>thread_pc = NotStarted, queue = [], stopping = False, started = False,
     init_ok = False, rid = i, alive = True, accepted = [], executed = [],
     raced = False\<rparr>"

definition mu_free :: "'t runtime_state \<Rightarrow> bool" where
  "mu_free r \<longleftrightarrow> thread_pc r \<noteq> Locked \<and> thread_pc r \<noteq> MustWait"

text \<open>One step of \<^verbatim>\<open>runtime_thread_main\<close>; \<open>None\<close> where the thread cannot move by itself.\<close>

fun thread_step :: "'t runtime_state \<Rightarrow> 't runtime_state option" where
  "thread_step r =
     (case thread_pc r of
        NotStarted \<Rightarrow> None
      | Boot \<Rightarrow>
          if rid r = 0 then Some (r\<lparr>thread_pc := Exited\<rparr>)
          else Some (r\<lparr>started := True, init_ok := True, thread_pc := BootNotify True\<rparr>)
      | BootNotify ok \<Rightarrow> Some (r\<lparr>thread_pc := if ok then Ready else Exited\<rparr>)
      | Ready \<Rightarrow> Some (r\<lparr>thread_pc := Locked\<rparr>)
      | Locked \<Rightarrow>
          (case queue r of
             t # ts \<Rightarrow> Some (r\<lparr>queue := ts, executed := executed r @ [t], thread_pc := Running t\<rparr>)
           | [] \<Rightarrow> Some (r\<lparr>thread_pc := if stopping r then Exited else MustWait\<rparr>))
      | MustWait \<Rightarrow> Some (r\<lparr>thread_pc := Sleeping\<rparr>)
      | Sleeping \<Rightarrow> None
      | Running t \<Rightarrow> Some (r\<lparr>thread_pc := Ready\<rparr>)
      | Exited \<Rightarrow> None)"

definition boot_fails :: "'t runtime_state \<Rightarrow> 't runtime_state option" where
  "boot_fails r =
     (if thread_pc r = Boot \<and> rid r \<noteq> 0
      then Some (r\<lparr>started := True, init_ok := False, stopping := True, thread_pc := BootNotify False\<rparr>)
      else None)"

definition wake_thread :: "'t runtime_state \<Rightarrow> 't runtime_state" where
  "wake_thread r = (if thread_pc r = Sleeping then r\<lparr>thread_pc := Ready\<rparr> else r)"

definition spurious_wake :: "'t runtime_state \<Rightarrow> 't runtime_state option" where
  "spurious_wake r = (if thread_pc r = Sleeping then Some (r\<lparr>thread_pc := Ready\<rparr>) else None)"

section \<open>Calls\<close>

text \<open>
  What a call does next. \<^verbatim>\<open>stop_runtime\<close> is called by clients, by \<^verbatim>\<open>stop_all_runtimes\<close> for the remaining
  identifiers and by \<^verbatim>\<open>spawn_window_runtime\<close> when the runtime failed to start; \<open>cont\<close> says which.
\<close>

datatype cont = Return | Rest "nat list" | SpawnFailed

datatype 't call =
    PostFind nat 't | PostEnqueue nat 't | PostNotify nat
  | StopFind nat cont | StopStore nat cont | StopNotify nat cont | StopJoin nat cont
  | SpawnAlloc | SpawnStart nat | SpawnWait nat | SpawnSleep nat
  | StopAll
  | Done nat

record 't coordinator =
  next_id :: nat
  runtimes :: "nat \<rightharpoonup> nat"
  heap :: "nat \<rightharpoonup> 't runtime_state"
  next_addr :: nat
  calls :: "nat \<rightharpoonup> 't call"
  isolate_ids :: "nat \<rightharpoonup> nat"
  allocated :: nat
  fault :: bool

definition new_coordinator :: "'t coordinator" where
  "new_coordinator = \<lparr>next_id = 1, runtimes = Map.empty, heap = Map.empty, next_addr = 0,
     calls = Map.empty, isolate_ids = Map.empty, allocated = 0, fault = False\<rparr>"

definition set_call :: "nat \<Rightarrow> 't call \<Rightarrow> 't coordinator \<Rightarrow> 't coordinator" where
  "set_call c k s = s\<lparr>calls := (calls s)(c \<mapsto> k)\<rparr>"

definition set_runtime :: "nat \<Rightarrow> 't runtime_state \<Rightarrow> 't coordinator \<Rightarrow> 't coordinator" where
  "set_runtime a r s = s\<lparr>heap := (heap s)(a \<mapsto> r)\<rparr>"

text \<open>Access to a runtime state through a pointer: a destroyed state is a fault.\<close>

definition deref ::
  "nat \<Rightarrow> 't coordinator \<Rightarrow> ('t runtime_state \<Rightarrow> 't coordinator option) \<Rightarrow> 't coordinator option" where
  "deref a s f =
     (case heap s a of
        Some r \<Rightarrow> if alive r then f r else Some (s\<lparr>fault := True\<rparr>)
      | None \<Rightarrow> Some (s\<lparr>fault := True\<rparr>))"

text \<open>\<^verbatim>\<open>cv.notify_all\<close> wakes the runtime thread and a spawning call that sleeps on the same state.\<close>

definition notify_all :: "nat \<Rightarrow> 't coordinator \<Rightarrow> 't coordinator" where
  "notify_all a s = s\<lparr>
     heap := (heap s)(a := map_option wake_thread (heap s a)),
     calls := (\<lambda>c. if calls s c = Some (SpawnSleep a) then Some (SpawnWait a) else calls s c)\<rparr>"

text \<open>\<^verbatim>\<open>next_id_.fetch_add(1)\<close> on a 64-bit counter.\<close>

definition fetch_id :: "'t coordinator \<Rightarrow> nat \<times> 't coordinator" where
  "fetch_id s = (next_id s, s\<lparr>next_id := wrap64 (next_id s + 1), allocated := allocated s + 1\<rparr>)"

definition current_isolate_id :: "nat \<Rightarrow> nat \<Rightarrow> 't coordinator \<Rightarrow> nat \<times> 't coordinator" where
  "current_isolate_id g_current_runtime_id th s =
     (if g_current_runtime_id \<noteq> 0 then (g_current_runtime_id, s)
      else case isolate_ids s th of
          Some i \<Rightarrow> (i, s)
        | None \<Rightarrow> (case fetch_id s of (i, s') \<Rightarrow> (i, s'\<lparr>isolate_ids := (isolate_ids s')(th \<mapsto> i)\<rparr>)))"

fun return_stop :: "cont \<Rightarrow> bool \<Rightarrow> 't call" where
  "return_stop Return b = Done (if b then 1 else 0)"
| "return_stop (Rest []) b = Done 0"
| "return_stop (Rest (i # is)) b = StopFind i (Rest is)"
| "return_stop SpawnFailed b = Done 0"

section \<open>Steps of calls\<close>

definition post_find :: "nat \<Rightarrow> nat \<Rightarrow> 't \<Rightarrow> 't coordinator \<Rightarrow> 't coordinator option" where
  "post_find c i t s =
     Some (case runtimes s i of None \<Rightarrow> set_call c (Done 0) s | Some a \<Rightarrow> set_call c (PostEnqueue a t) s)"

definition post_enqueue :: "nat \<Rightarrow> nat \<Rightarrow> 't \<Rightarrow> 't coordinator \<Rightarrow> 't coordinator option" where
  "post_enqueue c a t s = deref a s (\<lambda>r.
     if \<not> mu_free r then None
     else if stopping r then Some (set_call c (Done 0) s)
     else Some (set_call c (PostNotify a)
            (set_runtime a (r\<lparr>queue := queue r @ [t], accepted := accepted r @ [t]\<rparr>) s)))"

text \<open>\<^verbatim>\<open>notify_one\<close> wakes the waiter \<open>w\<close> names: the runtime thread, or the spawning call \<open>w\<close>.\<close>

definition notify_one :: "nat \<Rightarrow> nat option \<Rightarrow> 't coordinator \<Rightarrow> 't coordinator option" where
  "notify_one a w s =
     (case w of
        None \<Rightarrow>
          (case heap s a of
             Some r \<Rightarrow> Some (set_runtime a (wake_thread r) s)
           | None \<Rightarrow> None)
      | Some d \<Rightarrow>
          if calls s d = Some (SpawnSleep a) then Some (set_call d (SpawnWait a) s) else None)"

definition post_notify :: "nat \<Rightarrow> nat \<Rightarrow> nat option \<Rightarrow> 't coordinator \<Rightarrow> 't coordinator option" where
  "post_notify c a w s = deref a s (\<lambda>r. map_option (set_call c (Done 1)) (notify_one a w s))"

definition stop_find :: "nat \<Rightarrow> nat \<Rightarrow> cont \<Rightarrow> 't coordinator \<Rightarrow> 't coordinator option" where
  "stop_find c i k s =
     Some (case runtimes s i of
             None \<Rightarrow> set_call c (return_stop k False) s
           | Some a \<Rightarrow> set_call c (StopStore a k) (s\<lparr>runtimes := (runtimes s)(i := None)\<rparr>))"

definition stop_store :: "nat \<Rightarrow> nat \<Rightarrow> cont \<Rightarrow> 't coordinator \<Rightarrow> 't coordinator option" where
  "stop_store c a k s = deref a s (\<lambda>r.
     Some (set_call c (StopNotify a k) (set_runtime a (r\<lparr>stopping := True, raced := raced r \<or> thread_pc r = MustWait\<rparr>) s)))"

definition stop_notify :: "nat \<Rightarrow> nat \<Rightarrow> cont \<Rightarrow> 't coordinator \<Rightarrow> 't coordinator option" where
  "stop_notify c a k s = deref a s (\<lambda>r. Some (set_call c (StopJoin a k) (notify_all a s)))"

text \<open>
  \<^verbatim>\<open>join\<close> returns when the thread has exited; a state without a thread is not joinable. The state is
  destroyed when \<^verbatim>\<open>stop_runtime\<close> returns.
\<close>

definition stop_join :: "nat \<Rightarrow> nat \<Rightarrow> cont \<Rightarrow> 't coordinator \<Rightarrow> 't coordinator option" where
  "stop_join c a k s = deref a s (\<lambda>r.
     if thread_pc r = Exited \<or> thread_pc r = NotStarted
     then Some (set_call c (return_stop k True) (set_runtime a (r\<lparr>alive := False\<rparr>) s))
     else None)"

definition spawn_alloc :: "nat \<Rightarrow> 't coordinator \<Rightarrow> 't coordinator option" where
  "spawn_alloc c s =
     (case fetch_id s of (i, s1) \<Rightarrow>
        let a = next_addr s1 in
        Some (set_call c (SpawnStart a)
          (s1\<lparr>next_addr := a + 1, heap := (heap s1)(a \<mapsto> new_runtime i),
              runtimes := (runtimes s1)(i \<mapsto> a)\<rparr>)))"

definition spawn_start :: "nat \<Rightarrow> nat \<Rightarrow> 't coordinator \<Rightarrow> 't coordinator option" where
  "spawn_start c a s = deref a s (\<lambda>r.
     Some (set_call c (SpawnWait a) (set_runtime a (r\<lparr>thread_pc := Boot\<rparr>) s)))"

definition thread_fails :: "nat \<Rightarrow> nat \<Rightarrow> 't coordinator \<Rightarrow> 't coordinator option" where
  "thread_fails c a s = deref a s (\<lambda>r.
     Some (set_call c (Done 0)
       (set_runtime a (r\<lparr>alive := False\<rparr>) (s\<lparr>runtimes := (runtimes s)(rid r := None)\<rparr>))))"

definition spawn_wait :: "nat \<Rightarrow> nat \<Rightarrow> 't coordinator \<Rightarrow> 't coordinator option" where
  "spawn_wait c a s = deref a s (\<lambda>r.
     if \<not> mu_free r then None
     else if \<not> started r then Some (set_call c (SpawnSleep a) s)
     else if init_ok r then Some (set_call c (Done (rid r)) s)
     else Some (set_call c (StopFind (rid r) SpawnFailed) s))"

text \<open>
  \<^verbatim>\<open>stop_all_runtimes\<close> copies the identifiers in the order of the map and stops them one after another.
  \<open>ids\<close> is that order.
\<close>

definition stop_all :: "nat \<Rightarrow> nat list \<Rightarrow> 't coordinator \<Rightarrow> 't coordinator option" where
  "stop_all c ids s =
     (if distinct ids \<and> set ids = dom (runtimes s) then Some (set_call c (return_stop (Rest ids) True) s)
      else None)"

section \<open>Interleaving\<close>

text \<open>
  The labels: a client begins a call, a call moves (with the waiter chosen by \<^verbatim>\<open>notify_one\<close> or the order of the
  map where the step leaves a choice), a runtime thread moves, fails to boot or wakes up spuriously, a
  spawning call wakes up spuriously, and a thread asks for its isolate.
\<close>

datatype 't label =
    Invoke nat "'t call" | Move nat | Move_Notify nat "nat option" | Move_All nat "nat list" | Thread_Fails nat
  | Thread nat | Boot_Fails nat | Spurious nat | Spurious_Spawn nat | Isolate_Id nat nat

fun entry :: "'t call \<Rightarrow> bool" where
  "entry (PostFind i t) = True"
| "entry (StopFind i k) = (k = Return)"
| "entry SpawnAlloc = True"
| "entry StopAll = True"
| "entry _ = False"

fun move :: "nat \<Rightarrow> 't call \<Rightarrow> 't coordinator \<Rightarrow> 't coordinator option" where
  "move c (PostFind i t) s = post_find c i t s"
| "move c (PostEnqueue a t) s = post_enqueue c a t s"
| "move c (StopFind i k) s = stop_find c i k s"
| "move c (StopStore a k) s = stop_store c a k s"
| "move c (StopNotify a k) s = stop_notify c a k s"
| "move c (StopJoin a k) s = stop_join c a k s"
| "move c SpawnAlloc s = spawn_alloc c s"
| "move c (SpawnStart a) s = spawn_start c a s"
| "move c (SpawnWait a) s = spawn_wait c a s"
| "move c _ s = None"

definition runtime_thread ::
  "nat \<Rightarrow> ('t runtime_state \<Rightarrow> 't runtime_state option) \<Rightarrow> 't coordinator \<Rightarrow> 't coordinator option" where
  "runtime_thread a f s =
     (case heap s a of
        None \<Rightarrow> None
      | Some r \<Rightarrow>
          (case f r of
             None \<Rightarrow> None
           | Some r' \<Rightarrow> deref a s (\<lambda>_.
               Some (if thread_pc r = BootNotify True \<or> thread_pc r = BootNotify False
                     then notify_all a (set_runtime a r' s) else set_runtime a r' s))))"

fun exec :: "'t label \<Rightarrow> 't coordinator \<Rightarrow> 't coordinator option" where
  "exec (Invoke c k) s = (if calls s c = None \<and> entry k then Some (set_call c k s) else None)"
| "exec (Move c) s = (case calls s c of None \<Rightarrow> None | Some k \<Rightarrow> move c k s)"
| "exec (Move_Notify c w) s =
     (case calls s c of Some (PostNotify a) \<Rightarrow> post_notify c a w s | _ \<Rightarrow> None)"
| "exec (Move_All c ids) s = (case calls s c of Some StopAll \<Rightarrow> stop_all c ids s | _ \<Rightarrow> None)"
| "exec (Thread_Fails c) s =
     (case calls s c of Some (SpawnStart a) \<Rightarrow> thread_fails c a s | _ \<Rightarrow> None)"
| "exec (Thread a) s = runtime_thread a thread_step s"
| "exec (Boot_Fails a) s = runtime_thread a boot_fails s"
| "exec (Spurious a) s = runtime_thread a spurious_wake s"
| "exec (Spurious_Spawn c) s =
     (case calls s c of Some (SpawnSleep a) \<Rightarrow> Some (set_call c (SpawnWait a) s) | _ \<Rightarrow> None)"
| "exec (Isolate_Id g th) s = Some (snd (current_isolate_id g th s))"


inductive step :: "'t coordinator \<Rightarrow> 't label \<Rightarrow> 't coordinator \<Rightarrow> bool" where
  step: "\<not> fault s \<Longrightarrow> exec l s = Some s' \<Longrightarrow> step s l s'"

inductive steps :: "'t coordinator \<Rightarrow> 't label list \<Rightarrow> 't coordinator \<Rightarrow> bool" where
  steps_Nil: "steps s [] s"
| steps_Cons: "step s l s' \<Longrightarrow> steps s' ls s'' \<Longrightarrow> steps s (l # ls) s''"

definition reachable :: "'t coordinator \<Rightarrow> bool" where
  "reachable s \<longleftrightarrow> (\<exists>ls. steps new_coordinator ls s)"

end
