(* ===== verification/Isolate_Invariants.thy ===== *)
theory Isolate_Invariants
  imports Isolate_Coordinator
begin

text \<open>
  Invariants of the isolate coordinator over all interleavings. The steps are first sorted by their effect;
  each invariant is then kept by every effect: fresh addresses, the phases and queue of a runtime, pending
  notifications, the owner of a runtime state, and identifiers.
\<close>

declare thread_step.simps [simp del]

section \<open>Runs\<close>

inductive_cases step_elim: "step s l s'"
inductive_cases steps_NilE: "steps s [] s'"
inductive_cases steps_ConsE: "steps s (l # ls) s'"

lemma steps_append: "steps s ls s' \<Longrightarrow> steps s' ms s'' \<Longrightarrow> steps s (ls @ ms) s''"
  by (induction rule: steps.induct) (auto intro: steps.intros)

text \<open>
  An invariant of a transition system: it holds at the start and every step keeps it. Steps may be
  restricted to those that start in states with an invariant \<open>J\<close> that is already known.
\<close>

locale coordinator_invariant =
  fixes J I :: "'t coordinator \<Rightarrow> bool"
  assumes known: "reachable s \<Longrightarrow> J s"
    and init: "I new_coordinator"
    and keep: "J s \<Longrightarrow> I s \<Longrightarrow> \<not> fault s \<Longrightarrow> exec l s = Some s' \<Longrightarrow> I s'"
begin

lemma steps_keep: "steps s ls s' \<Longrightarrow> reachable s \<Longrightarrow> I s \<Longrightarrow> I s'"
proof (induction rule: steps.induct)
  case (steps_Cons s l s' ls s'')
  then have e: "\<not> fault s" "exec l s = Some s'" by (auto elim: step_elim)
  have "reachable s'"
    using steps_Cons.prems(1) steps_Cons.hyps(1) unfolding reachable_def
    by (meson steps.intros steps_append)
  then show ?case using steps_Cons.IH steps_Cons.prems keep[OF known _ e] by blast
qed

lemma invariant: "reachable s \<Longrightarrow> I s"
proof -
  assume "reachable s"
  then obtain ls where "steps new_coordinator ls s" by (auto simp: reachable_def)
  moreover have "reachable new_coordinator" unfolding reachable_def by (blast intro: steps_Nil)
  ultimately show ?thesis using steps_keep init by blast
qed

end

section \<open>What a step does to the runtime states\<close>

text \<open>The changes of one runtime state.\<close>

inductive rt_step :: "'t runtime_state \<Rightarrow> 't runtime_state \<Rightarrow> bool" where
  rt_thread: "thread_step r = Some r' \<Longrightarrow> rt_step r r'"
| rt_boot_fails: "boot_fails r = Some r' \<Longrightarrow> rt_step r r'"
| rt_wake: "thread_pc r = Sleeping \<Longrightarrow> rt_step r (r\<lparr>thread_pc := Ready\<rparr>)"
| rt_push: "mu_free r \<Longrightarrow> \<not> stopping r \<Longrightarrow>
    rt_step r (r\<lparr>queue := queue r @ [t], accepted := accepted r @ [t]\<rparr>)"
| rt_stop: "rt_step r (r\<lparr>stopping := True, raced := raced r \<or> thread_pc r = MustWait\<rparr>)"
| rt_destroy: "thread_pc r = Exited \<or> thread_pc r = NotStarted \<Longrightarrow> rt_step r (r\<lparr>alive := False\<rparr>)"
| rt_start: "thread_pc r = NotStarted \<Longrightarrow> alive r \<Longrightarrow> rt_step r (r\<lparr>thread_pc := Boot\<rparr>)"

text \<open>Addresses are fresh, and a state whose thread has not been started yet has one spawning call.\<close>

definition alloc_inv :: "'t coordinator \<Rightarrow> bool" where
  "alloc_inv s \<longleftrightarrow>
     (\<forall>a. next_addr s \<le> a \<longrightarrow> heap s a = None) \<and>
     (\<forall>c a. calls s c = Some (SpawnStart a) \<longrightarrow> a < next_addr s) \<and>
     (\<forall>c a r. calls s c = Some (SpawnStart a) \<longrightarrow> heap s a = Some r \<longrightarrow> thread_pc r = NotStarted) \<and>
     (\<forall>c d a. calls s c = Some (SpawnStart a) \<longrightarrow> calls s d = Some (SpawnStart a) \<longrightarrow> c = d)"

lemmas call_defs = post_find_def post_enqueue_def post_notify_def notify_one_def stop_find_def
  stop_store_def stop_notify_def stop_join_def spawn_alloc_def spawn_start_def thread_fails_def
  spawn_wait_def stop_all_def runtime_thread_def current_isolate_id_def fetch_id_def

lemmas state_defs = set_call_def set_runtime_def notify_all_def deref_def wake_thread_def

lemma return_stop_neq [simp]:
  "return_stop k b \<noteq> SpawnStart a" "return_stop k b \<noteq> PostNotify a" "return_stop k b \<noteq> StopJoin a j"
  "return_stop k b \<noteq> StopNotify a j" "return_stop k b \<noteq> SpawnSleep a" "return_stop k b \<noteq> PostEnqueue a t"
  "return_stop k b \<noteq> StopStore a j" "return_stop k b \<noteq> SpawnWait a"
  by (cases "(k, b)" rule: return_stop.cases; simp)+

declare return_stop_neq [symmetric, simp]

section \<open>Steps by effect\<close>

text \<open>
  The steps of \<open>exec\<close> sorted by what they change: \<open>quiet\<close> are those of a call that change nothing but the
  call; \<open>effect\<close> adds those that touch a runtime state, the map or the counter.
\<close>

inductive quiet :: "'t coordinator \<Rightarrow> 't call option \<Rightarrow> 't call \<Rightarrow> bool" for s where
  q_invoke: "entry k \<Longrightarrow> quiet s None k"
| q_not_found: "quiet s (Some (PostFind i t)) (Done 0)"
| q_found: "runtimes s i = Some a \<Longrightarrow> quiet s (Some (PostFind i t)) (PostEnqueue a t)"
| q_rejected: "quiet s (Some (PostEnqueue a t)) (Done 0)"
| q_stop_none: "quiet s (Some (StopFind i k)) (return_stop k False)"
| q_sleep: "heap s a = Some r \<Longrightarrow> mu_free r \<Longrightarrow> \<not> started r \<Longrightarrow> quiet s (Some (SpawnWait a)) (SpawnSleep a)"
| q_spawned: "heap s a = Some r \<Longrightarrow> started r \<Longrightarrow> init_ok r \<Longrightarrow> quiet s (Some (SpawnWait a)) (Done (rid r))"
| q_failed: "heap s a = Some r \<Longrightarrow> started r \<Longrightarrow> \<not> init_ok r \<Longrightarrow>
    quiet s (Some (SpawnWait a)) (StopFind (rid r) SpawnFailed)"
| q_stop_all: "quiet s (Some StopAll) (return_stop (Rest ids) True)"
| q_spurious: "quiet s (Some (SpawnSleep a)) (SpawnWait a)"

inductive effect :: "'t coordinator \<Rightarrow> 't label \<Rightarrow> 't coordinator \<Rightarrow> bool" for s l where
  e_fault: "effect s l (s\<lparr>fault := True\<rparr>)"
| e_same: "effect s l s"
| e_isolate: "isolate_ids s th = None \<Longrightarrow>
    effect s l (s\<lparr>next_id := wrap64 (next_id s + 1), allocated := allocated s + 1,
                isolate_ids := (isolate_ids s)(th \<mapsto> next_id s)\<rparr>)"
| e_quiet: "quiet s (calls s c) k \<Longrightarrow> effect s l (set_call c k s)"
| e_push: "calls s c = Some (PostEnqueue a t) \<Longrightarrow> heap s a = Some r \<Longrightarrow> alive r \<Longrightarrow> mu_free r \<Longrightarrow>
    \<not> stopping r \<Longrightarrow> effect s l (set_call c (PostNotify a)
      (set_runtime a (r\<lparr>queue := queue r @ [t], accepted := accepted r @ [t]\<rparr>) s))"
| e_notify_thread: "calls s c = Some (PostNotify a) \<Longrightarrow> heap s a = Some r \<Longrightarrow> alive r \<Longrightarrow>
    effect s l (set_call c (Done 1) (set_runtime a (wake_thread r) s))"
| e_notify_spawn: "calls s c = Some (PostNotify a) \<Longrightarrow> calls s d = Some (SpawnSleep a) \<Longrightarrow>
    effect s l (set_call c (Done 1) (set_call d (SpawnWait a) s))"
| e_take: "calls s c = Some (StopFind i k) \<Longrightarrow> runtimes s i = Some a \<Longrightarrow>
    effect s l (set_call c (StopStore a k) (s\<lparr>runtimes := (runtimes s)(i := None)\<rparr>))"
| e_store: "calls s c = Some (StopStore a k) \<Longrightarrow> heap s a = Some r \<Longrightarrow> alive r \<Longrightarrow>
    effect s l (set_call c (StopNotify a k)
      (set_runtime a (r\<lparr>stopping := True, raced := raced r \<or> thread_pc r = MustWait\<rparr>) s))"
| e_notify_all: "calls s c = Some (StopNotify a k) \<Longrightarrow> heap s a = Some r \<Longrightarrow> alive r \<Longrightarrow>
    effect s l (set_call c (StopJoin a k) (notify_all a s))"
| e_join: "calls s c = Some (StopJoin a k) \<Longrightarrow> heap s a = Some r \<Longrightarrow> alive r \<Longrightarrow>
    thread_pc r = Exited \<or> thread_pc r = NotStarted \<Longrightarrow>
    effect s l (set_call c (return_stop k True) (set_runtime a (r\<lparr>alive := False\<rparr>) s))"
| e_alloc: "calls s c = Some SpawnAlloc \<Longrightarrow>
    effect s l (set_call c (SpawnStart (next_addr s))
      (s\<lparr>next_id := wrap64 (next_id s + 1), allocated := allocated s + 1, next_addr := next_addr s + 1,
         heap := (heap s)(next_addr s \<mapsto> new_runtime (next_id s)),
         runtimes := (runtimes s)(next_id s \<mapsto> next_addr s)\<rparr>))"
| e_start: "calls s c = Some (SpawnStart a) \<Longrightarrow> heap s a = Some r \<Longrightarrow> alive r \<Longrightarrow>
    effect s l (set_call c (SpawnWait a) (set_runtime a (r\<lparr>thread_pc := Boot\<rparr>) s))"
| e_thread_fails: "calls s c = Some (SpawnStart a) \<Longrightarrow> heap s a = Some r \<Longrightarrow> alive r \<Longrightarrow>
    effect s l (set_call c (Done 0) (set_runtime a (r\<lparr>alive := False\<rparr>)
      (s\<lparr>runtimes := (runtimes s)(rid r := None)\<rparr>)))"
| e_thread: "heap s a = Some r \<Longrightarrow> alive r \<Longrightarrow> thread_step r = Some r' \<or> boot_fails r = Some r' \<Longrightarrow>
    thread_pc r \<noteq> BootNotify b \<Longrightarrow> thread_pc r \<noteq> BootNotify (\<not> b) \<Longrightarrow> effect s l (set_runtime a r' s)"
| e_booted: "heap s a = Some r \<Longrightarrow> alive r \<Longrightarrow> thread_pc r = BootNotify ok \<Longrightarrow>
    effect s l (notify_all a (set_runtime a (r\<lparr>thread_pc := if ok then Ready else Exited\<rparr>) s))"
| e_spurious: "l = Spurious a \<Longrightarrow> heap s a = Some r \<Longrightarrow> alive r \<Longrightarrow> thread_pc r = Sleeping \<Longrightarrow>
    effect s l (set_runtime a (r\<lparr>thread_pc := Ready\<rparr>) s)"

lemma deref_cases:
  assumes "deref a s f = Some s'"
  obtains "s' = s\<lparr>fault := True\<rparr>" | r where "heap s a = Some r" "alive r" "f r = Some s'"
  using assms unfolding deref_def by (auto split: option.splits if_splits)

lemma quiet_kinds:
  assumes "quiet s x k"
  shows "k \<noteq> SpawnStart a" "k \<noteq> PostNotify a" "k \<noteq> StopStore a j" "k \<noteq> StopNotify a j" "k \<noteq> StopJoin a j"
    "x \<noteq> Some (PostNotify a)" "x \<noteq> Some (StopStore a j)" "x \<noteq> Some (StopNotify a j)"
    "x \<noteq> Some (StopJoin a j)"
  using assms by (cases rule: quiet.cases; auto)+

lemma e_quiet_at: "calls s c = x \<Longrightarrow> quiet s x k \<Longrightarrow> effect s l (set_call c k s)"
  by (auto intro: e_quiet)

lemma move_effect:
  assumes k: "calls s c = Some k" and m: "move c k s = Some s'"
  shows "effect s l s'"
proof (cases k)
  case (PostFind i t)
  have "quiet s (calls s c) (Done 0)" "\<And>a. runtimes s i = Some a \<Longrightarrow> quiet s (calls s c) (PostEnqueue a t)"
    using k PostFind by (auto intro: quiet.intros)
  then show ?thesis using m PostFind by (auto simp: post_find_def intro: e_quiet split: option.splits)
next
  case (PostEnqueue a t)
  then have "deref a s (\<lambda>r. if \<not> mu_free r then None
     else if stopping r then Some (set_call c (Done 0) s)
     else Some (set_call c (PostNotify a)
            (set_runtime a (r\<lparr>queue := queue r @ [t], accepted := accepted r @ [t]\<rparr>) s))) = Some s'"
    using m by (simp add: post_enqueue_def)
  then show ?thesis
    using k PostEnqueue
    by (cases rule: deref_cases) (auto intro: e_fault e_push e_quiet_at q_rejected split: if_splits)
next
  case (StopFind i j)
  have "quiet s (calls s c) (return_stop j False)" using k StopFind by (auto intro: q_stop_none)
  then show ?thesis
    using m k StopFind by (auto simp: stop_find_def intro: e_quiet e_take split: option.splits)
next
  case (StopStore a j)
  then show ?thesis using m k by (auto simp: stop_store_def intro: e_fault e_store elim!: deref_cases)
next
  case (StopNotify a j)
  then show ?thesis using m k by (auto simp: stop_notify_def intro: e_fault e_notify_all elim!: deref_cases)
next
  case (StopJoin a j)
  then show ?thesis
    using m k by (auto simp: stop_join_def intro: e_fault e_join elim!: deref_cases split: if_splits)
next
  case SpawnAlloc
  then show ?thesis
    using m k e_alloc[of s c] by (simp add: spawn_alloc_def fetch_id_def Let_def)
next
  case (SpawnStart a)
  then show ?thesis using m k by (auto simp: spawn_start_def intro: e_fault e_start elim!: deref_cases)
next
  case (SpawnWait a)
  show ?thesis
  proof -
    have "deref a s (\<lambda>r. if \<not> mu_free r then None
      else if \<not> started r then Some (set_call c (SpawnSleep a) s)
      else if init_ok r then Some (set_call c (Done (rid r)) s)
      else Some (set_call c (StopFind (rid r) SpawnFailed) s)) = Some s'"
      using m SpawnWait by (simp add: spawn_wait_def)
    then show ?thesis
      using k SpawnWait
      by (cases rule: deref_cases)
        (auto intro: e_fault e_quiet_at q_sleep q_spawned q_failed split: if_splits)
  qed
qed (use m in simp_all)


lemma thread_effect:
  assumes h: "heap s a = Some r" "alive r" and f: "thread_step r = Some r' \<or> boot_fails r = Some r'"
  shows "effect s l (if thread_pc r = BootNotify True \<or> thread_pc r = BootNotify False
     then notify_all a (set_runtime a r' s) else set_runtime a r' s)"
proof (cases "\<exists>ok. thread_pc r = BootNotify ok")
  case True
  then obtain ok where ok: "thread_pc r = BootNotify ok" by blast
  then have "r' = r\<lparr>thread_pc := if ok then Ready else Exited\<rparr>" using f by (auto simp: thread_step.simps boot_fails_def)
  then show ?thesis using e_booted[OF h ok] ok by (cases ok) simp_all
next
  case False
  then show ?thesis using e_thread[OF h f, of True] by simp
qed

lemma runtime_thread_effect:
  assumes "runtime_thread a f s = Some s'"
    and f: "\<And>r r'. f r = Some r' \<Longrightarrow> thread_step r = Some r' \<or> boot_fails r = Some r'"
  shows "effect s l s'"
proof -
  obtain r r' where r: "heap s a = Some r" "f r = Some r'"
    "deref a s (\<lambda>_. Some (if thread_pc r = BootNotify True \<or> thread_pc r = BootNotify False
         then notify_all a (set_runtime a r' s) else set_runtime a r' s)) = Some s'"
    using assms(1) by (auto simp: runtime_thread_def split: option.splits)
  from r(3) show ?thesis
  proof (cases rule: deref_cases)
    case 1
    then show ?thesis by (simp add: e_fault)
  next
    case (2 q)
    then have "alive r" and s': "s' = (if thread_pc r = BootNotify True \<or> thread_pc r = BootNotify False
        then notify_all a (set_runtime a r' s) else set_runtime a r' s)"
      using r(1) by (simp_all only: option.inject)
    then show ?thesis using thread_effect[OF r(1) \<open>alive r\<close> f[OF r(2)]] by simp
  qed
qed

lemma exec_effect:
  assumes "exec l s = Some s'"
  shows "effect s l s'"
proof (cases l)
  case (Invoke c k)
  then show ?thesis using assms by (auto intro: e_quiet_at q_invoke split: if_splits)
next
  case (Move c)
  then show ?thesis using assms by (auto intro: move_effect split: option.splits)
next
  case (Move_Notify c w)
  then obtain a where a: "calls s c = Some (PostNotify a)" "post_notify c a w s = Some s'"
    using assms by (auto split: option.splits call.splits)
  then have "deref a s (\<lambda>r. map_option (set_call c (Done 1)) (notify_one a w s)) = Some s'"
    by (simp add: post_notify_def)
  then show ?thesis
    using a(1) by (cases rule: deref_cases)
      (auto simp: notify_one_def simp del: One_nat_def intro: e_fault e_notify_thread e_notify_spawn split: option.splits if_splits)
next
  case (Move_All c ids)
  then show ?thesis
    using assms by (auto simp: stop_all_def intro: e_quiet_at q_stop_all split: option.splits call.splits if_splits)
next
  case (Thread_Fails c)
  then show ?thesis
    using assms
    by (auto simp: thread_fails_def intro: e_fault e_thread_fails elim!: deref_cases
        split: option.splits call.splits)
next
  case (Thread a)
  then show ?thesis using assms runtime_thread_effect[of a _ s s'] by (auto)
next
  case (Boot_Fails a)
  then show ?thesis using assms runtime_thread_effect[of a _ s s'] by (auto)
next
  case (Spurious a)
  then show ?thesis
    using assms
    by (auto simp: runtime_thread_def deref_def spurious_wake_def intro: e_fault e_spurious
        split: option.splits if_splits)
next
  case (Spurious_Spawn c)
  then show ?thesis
    using assms by (auto intro: e_quiet_at q_spurious split: option.splits call.splits)
next
  case (Isolate_Id g th)
  then show ?thesis
    using assms e_same[of s] e_isolate[of s th]
    by (auto simp: current_isolate_id_def fetch_id_def split: option.splits)
qed

lemma alloc_inv_init: "alloc_inv new_coordinator"
  by (simp add: alloc_inv_def new_coordinator_def)

lemma thread_step_NotStarted [simp]: "thread_pc r = NotStarted \<Longrightarrow> thread_step r = None \<and> boot_fails r = None"
  by (simp add: thread_step.simps boot_fails_def)

lemma alloc_invD:
  "alloc_inv s \<Longrightarrow> calls s c = Some (SpawnStart a) \<Longrightarrow> heap s a = Some r \<Longrightarrow> thread_pc r = NotStarted"
  by (auto simp: alloc_inv_def)

lemma alloc_inv_update:
  assumes inv: "alloc_inv s" and n: "next_addr s' = next_addr s"
    and c: "\<And>c a. calls s' c = Some (SpawnStart a) \<Longrightarrow> calls s c = Some (SpawnStart a)"
    and h: "\<And>a r'. heap s' a = Some r' \<Longrightarrow> \<exists>r. heap s a = Some r \<and>
      (thread_pc r = NotStarted \<longrightarrow> thread_pc r' \<noteq> NotStarted \<longrightarrow> (\<forall>c. calls s' c \<noteq> Some (SpawnStart a)))"
  shows "alloc_inv s'"
proof -
  have "thread_pc r' = NotStarted" if k: "calls s' d = Some (SpawnStart a)" and r': "heap s' a = Some r'" for d a r'
    using h[OF r'] alloc_invD[OF inv c[OF k]] k by blast
  moreover have "heap s' a = None" if "next_addr s' \<le> a" for a
    using h[of a] inv n that by (cases "heap s' a") (auto simp: alloc_inv_def)
  ultimately show ?thesis using inv n c unfolding alloc_inv_def by metis
qed

lemma alloc_inv_keep:
  assumes inv: "alloc_inv s" and "exec l s = Some s'"
  shows "alloc_inv s'"
  using exec_effect[OF assms(2)]
proof cases
  case (e_quiet c k)
  then show ?thesis
    using quiet_kinds(1)[of s "calls s c" k]
    by (intro alloc_inv_update[OF inv]) (auto simp: set_call_def split: if_splits)
next
  case (e_alloc c)
  then show ?thesis using inv by (auto simp: alloc_inv_def set_call_def new_runtime_def intro: less_SucI)
next
  case (e_start c a r)
  then have "d \<noteq> c \<Longrightarrow> calls s d \<noteq> Some (SpawnStart a)" for d using inv unfolding alloc_inv_def by blast
  then show ?thesis
    using e_start by (intro alloc_inv_update[OF inv]) (auto simp: state_defs split: if_splits)
next
  case (e_thread a r r' b)
  then have "thread_pc r \<noteq> NotStarted" using thread_step_NotStarted[of r] by auto
  then show ?thesis
    using e_thread by (intro alloc_inv_update[OF inv]) (auto simp: state_defs split: if_splits)
qed (intro alloc_inv_update[OF inv]; auto simp: state_defs split: if_splits)+

interpretation alloc: coordinator_invariant "\<lambda>_. True" alloc_inv
  by unfold_locales (auto intro: alloc_inv_init alloc_inv_keep)

text \<open>Every step changes a runtime state by at most one local step.\<close>

lemma heap_effect:
  assumes "alloc_inv s" "exec l s = Some s'"
  shows "heap s' a = heap s a \<or>
    (heap s a = None \<and> heap s' a = Some (new_runtime (next_id s))) \<or>
    (\<exists>r r'. heap s a = Some r \<and> heap s' a = Some r' \<and> rt_step r r')"
  using exec_effect[OF assms(2)]
proof cases
  case (e_push c b t r)
  then show ?thesis by (auto simp: state_defs intro: rt_push)
next
  case (e_notify_thread c b r)
  then show ?thesis by (auto simp: state_defs intro: rt_wake)
next
  case (e_store c b k r)
  then show ?thesis by (auto simp: state_defs intro: rt_stop)
next
  case (e_notify_all c b k r)
  then show ?thesis by (auto simp: state_defs intro: rt_wake)
next
  case (e_join c b k r)
  then show ?thesis by (auto simp: state_defs intro: rt_destroy)
next
  case (e_alloc c)
  then show ?thesis using assms(1) by (auto simp: state_defs alloc_inv_def)
next
  case (e_start c b r)
  then show ?thesis using alloc_invD[OF assms(1)] by (auto simp: state_defs intro: rt_start)
next
  case (e_thread_fails c b r)
  then show ?thesis using alloc_invD[OF assms(1)] by (auto simp: state_defs intro: rt_destroy)
next
  case (e_thread b r r' ok)
  then show ?thesis by (auto simp: state_defs intro: rt_thread rt_boot_fails)
next
  case (e_booted b r ok)
  then have "thread_step r = Some (r\<lparr>thread_pc := if ok then Ready else Exited\<rparr>)"
    by (simp add: thread_step.simps)
  from rt_thread[OF this] show ?thesis using e_booted by (auto simp: state_defs)
next
  case (e_spurious b r)
  then show ?thesis by (auto simp: state_defs intro: rt_wake)
qed (auto simp: state_defs)

section \<open>Queues\<close>

text \<open>
  The phases of one runtime: what has been accepted is what has been executed followed by the queue; a
  thread is in its loop only after a successful start; a thread that left its loop has been told to stop
  and has an empty queue, and from then on nothing is accepted.
\<close>

definition loop_pc :: "'t pc \<Rightarrow> bool" where
  "loop_pc p \<longleftrightarrow> p \<noteq> NotStarted \<and> p \<noteq> Boot \<and> p \<noteq> Exited \<and> (\<forall>b. p \<noteq> BootNotify b)"

definition rt_inv :: "'t runtime_state \<Rightarrow> bool" where
  "rt_inv r \<longleftrightarrow>
     accepted r = executed r @ queue r \<and>
     (\<forall>t. thread_pc r = Running t \<longrightarrow> (\<exists>ts. executed r = ts @ [t])) \<and>
     (thread_pc r = NotStarted \<or> thread_pc r = Boot \<longrightarrow> \<not> started r \<and> \<not> init_ok r) \<and>
     (loop_pc (thread_pc r) \<or> thread_pc r = BootNotify True \<longrightarrow> started r \<and> init_ok r) \<and>
     (thread_pc r = BootNotify False \<longrightarrow> started r \<and> \<not> init_ok r \<and> stopping r) \<and>
     (thread_pc r = Exited \<and> init_ok r \<longrightarrow> stopping r \<and> queue r = []) \<and>
     (thread_pc r = MustWait \<longrightarrow> queue r = []) \<and>
     (thread_pc r = MustWait \<and> stopping r \<longrightarrow> raced r) \<and>
     (\<not> alive r \<longrightarrow> thread_pc r = Exited \<or> thread_pc r = NotStarted)"

lemma rt_inv_new: "rt_inv (new_runtime i)"
  by (simp add: rt_inv_def new_runtime_def loop_pc_def)

lemma rt_inv_thread: "rt_inv r \<Longrightarrow> thread_step r = Some r' \<Longrightarrow> rt_inv r'"
  by (cases "thread_pc r"; cases "queue r")
    (auto simp: rt_inv_def thread_step.simps loop_pc_def split: if_splits)

lemma rt_inv_step: "rt_step r r' \<Longrightarrow> rt_inv r \<Longrightarrow> rt_inv r'"
proof (induction rule: rt_step.induct)
  case (rt_thread r r')
  then show ?case by (blast intro: rt_inv_thread)
next
  case (rt_push r t)
  then show ?case by (auto simp: rt_inv_def mu_free_def)
qed (auto simp: rt_inv_def loop_pc_def boot_fails_def split: if_splits)

definition all_rt_inv :: "'t coordinator \<Rightarrow> bool" where
  "all_rt_inv s \<longleftrightarrow> (\<forall>a r. heap s a = Some r \<longrightarrow> rt_inv r)"

lemma all_rt_inv_init: "all_rt_inv new_coordinator"
  by (simp add: all_rt_inv_def new_coordinator_def)

lemma all_rt_inv_keep: "alloc_inv s \<Longrightarrow> all_rt_inv s \<Longrightarrow> exec l s = Some s' \<Longrightarrow> all_rt_inv s'"
  unfolding all_rt_inv_def
  by (metis heap_effect option.sel option.distinct(1) rt_inv_new rt_inv_step)

interpretation queues: coordinator_invariant alloc_inv all_rt_inv
  by unfold_locales
    (auto intro: alloc.invariant all_rt_inv_keep all_rt_inv_init)

lemma reachable_rt_inv: "reachable s \<Longrightarrow> heap s a = Some r \<Longrightarrow> rt_inv r"
  using queues.invariant by (auto simp: all_rt_inv_def)


lemma rt_step_mono: "rt_step r r' \<Longrightarrow> (stopping r \<longrightarrow> stopping r') \<and> (raced r \<longrightarrow> raced r')"
proof (induction rule: rt_step.induct)
  case (rt_thread r r')
  then show ?case
    by (cases "thread_pc r"; cases "queue r") (auto simp: thread_step.simps split: if_splits)
qed (auto simp: boot_fails_def split: if_splits)

text \<open>Notifications under way and what they are needed for.\<close>

definition flag_inv :: "'t coordinator \<Rightarrow> bool" where
  "flag_inv s \<longleftrightarrow> (\<forall>c a k. calls s c = Some (StopNotify a k) \<or> calls s c = Some (StopJoin a k) \<longrightarrow>
     (\<exists>r. heap s a = Some r \<and> stopping r))"

definition sleep_inv :: "'t coordinator \<Rightarrow> bool" where
  "sleep_inv s \<longleftrightarrow> (\<forall>c a. calls s c = Some (SpawnSleep a) \<longrightarrow>
     (\<exists>r. heap s a = Some r \<and> \<not> loop_pc (thread_pc r)))"

definition post_inv :: "'t coordinator \<Rightarrow> bool" where
  "post_inv s \<longleftrightarrow> (\<forall>a r. heap s a = Some r \<longrightarrow> thread_pc r = Sleeping \<longrightarrow> queue r \<noteq> [] \<longrightarrow>
     (\<exists>c. calls s c = Some (PostNotify a)))"

definition stop_inv :: "'t coordinator \<Rightarrow> bool" where
  "stop_inv s \<longleftrightarrow> (\<forall>a r. heap s a = Some r \<longrightarrow> thread_pc r = Sleeping \<longrightarrow> stopping r \<longrightarrow> \<not> raced r \<longrightarrow>
     (\<exists>c k. calls s c = Some (StopNotify a k)))"

lemma flag_inv_keep:
  assumes "alloc_inv s" "flag_inv s" "exec l s = Some s'"
  shows "flag_inv s'"
proof -
  have mono: "\<exists>r'. heap s' a = Some r' \<and> (stopping r \<longrightarrow> stopping r')" if "heap s a = Some r" for a r
    using heap_effect[OF assms(1,3), of a] rt_step_mono[of r] that by force
  have "calls s c = Some (StopNotify a k) \<or> calls s c = Some (StopJoin a k) \<or>
      (\<exists>r. heap s' a = Some r \<and> stopping r)"
    if "calls s' c = Some (StopNotify a k) \<or> calls s' c = Some (StopJoin a k)" for c a k
    using exec_effect[OF assms(3)]
  proof cases
    case (e_quiet d j)
    then show ?thesis
      using that quiet_kinds(4,5)[of s "calls s d" j a k] by (auto simp: set_call_def split: if_splits)
  qed (use that in \<open>auto simp: state_defs split: if_splits\<close>)
  then show ?thesis using assms(2) mono unfolding flag_inv_def by metis
qed


lemma flag_inv_init: "flag_inv new_coordinator"
  and sleep_inv_init: "sleep_inv new_coordinator"
  and post_inv_init: "post_inv new_coordinator"
  and stop_inv_init: "stop_inv new_coordinator"
  by (simp_all add: flag_inv_def sleep_inv_def post_inv_def stop_inv_def new_coordinator_def)

definition base_inv :: "'t coordinator \<Rightarrow> bool" where
  "base_inv s \<longleftrightarrow> alloc_inv s \<and> all_rt_inv s"

lemma base_inv_rt: "base_inv s \<Longrightarrow> heap s a = Some r \<Longrightarrow> rt_inv r"
  by (auto simp: base_inv_def all_rt_inv_def)

lemma not_loop_thread:
  "thread_step r = Some r' \<or> boot_fails r = Some r' \<Longrightarrow> \<not> loop_pc (thread_pc r) \<Longrightarrow>
   thread_pc r \<noteq> BootNotify True \<Longrightarrow> \<not> loop_pc (thread_pc r')"
  by (cases "thread_pc r"; cases "queue r")
    (auto simp: loop_pc_def thread_step.simps boot_fails_def split: if_splits)

lemma sleep_inv_keep:
  assumes base: "base_inv s" and inv: "sleep_inv s" and e: "exec l s = Some s'"
  shows "sleep_inv s'"
proof -
  have old: "\<exists>r. heap s a = Some r \<and> \<not> loop_pc (thread_pc r)" if "calls s c = Some (SpawnSleep a)" for c a
    using inv that by (auto simp: sleep_inv_def)
  have "\<exists>r. heap s' a = Some r \<and> \<not> loop_pc (thread_pc r)" if c: "calls s' c = Some (SpawnSleep a)" for c a
    using exec_effect[OF e]
  proof cases
    case (e_quiet d j)
    show ?thesis
    proof (cases "c = d")
      case True
      then have "quiet s (calls s d) (SpawnSleep a)" using e_quiet c by (simp add: set_call_def)
      then obtain r where "heap s a = Some r" "\<not> started r" by (cases rule: quiet.cases) auto
      then show ?thesis using base_inv_rt[OF base] e_quiet by (auto simp: rt_inv_def set_call_def)
    qed (use old c e_quiet in \<open>auto simp: set_call_def\<close>)
  next
    case (e_thread b r r' ok)
    then have "thread_pc r \<noteq> BootNotify True" by (cases ok) auto
    then show ?thesis using old[of c a] c e_thread not_loop_thread[of r r'] by (auto simp: set_runtime_def)
  next
    case (e_booted b r ok)
    then show ?thesis using old[of c a] c by (auto simp: state_defs split: if_splits)
  next
    case (e_alloc d)
    then show ?thesis using old[of c a] c by (auto simp: state_defs new_runtime_def loop_pc_def split: if_splits)
  qed (use old[of c a] c in \<open>auto simp: state_defs loop_pc_def split: if_splits\<close>)
  then show ?thesis by (auto simp: sleep_inv_def)
qed

text \<open>Where a sleeping thread comes from, and where a pending notification goes.\<close>

lemma sleeping_origin:
  assumes base: "base_inv s" and e: "effect s l s'"
    and r': "heap s' a = Some r'" "thread_pc r' = Sleeping"
  shows "heap s a = Some r' \<or> (\<exists>c. calls s' c = Some (PostNotify a) \<and>
      (\<exists>r. heap s a = Some r \<and> thread_pc r = Sleeping \<and> stopping r' = stopping r \<and> raced r' = raced r)) \<or>
    (\<exists>r c k. heap s a = Some r \<and> thread_pc r = Sleeping \<and> queue r = queue r' \<and>
      calls s' c = Some (StopNotify a k)) \<or>
    (queue r' = [] \<and> (stopping r' \<longrightarrow> raced r')) \<or>
    (\<exists>r. heap s a = Some r \<and> r' = r\<lparr>alive := False\<rparr>)"
  using e
proof cases
  case (e_push c b t r)
  then show ?thesis using r' by (auto simp: state_defs split: if_splits)
next
  case (e_store c b k r)
  then show ?thesis using r' by (auto simp: state_defs split: if_splits)
next
  case (e_thread b r q ok)
  then have "thread_pc q = Sleeping \<Longrightarrow> thread_pc r = MustWait \<and> q = r\<lparr>thread_pc := Sleeping\<rparr>"
    by (cases "thread_pc r"; cases "queue r")
      (auto simp: thread_step.simps boot_fails_def split: if_splits)
  then show ?thesis
    using r' e_thread base_inv_rt[OF base, of a] by (auto simp: set_runtime_def rt_inv_def split: if_splits)
qed (use r' in \<open>auto simp: state_defs new_runtime_def split: if_splits\<close>)


lemma notify_pending:
  assumes "effect s l s'"
  shows "calls s c = Some (PostNotify a) \<Longrightarrow> calls s' c = Some (PostNotify a) \<or>
      heap s' a = map_option wake_thread (heap s a) \<or> (\<exists>d. calls s d = Some (SpawnSleep a))"
    and "calls s c = Some (StopNotify a k) \<Longrightarrow> calls s' c = Some (StopNotify a k) \<or>
      heap s' a = map_option wake_thread (heap s a)"
proof -
  show "calls s' c = Some (PostNotify a) \<or> heap s' a = map_option wake_thread (heap s a) \<or>
      (\<exists>d. calls s d = Some (SpawnSleep a))" if c: "calls s c = Some (PostNotify a)"
    using assms
  proof cases
    case (e_quiet d j)
    then show ?thesis using c quiet_kinds(6)[of s "calls s d" j a] by (auto simp: set_call_def)
  qed (use c in \<open>auto simp: state_defs\<close>)
  show "calls s' c = Some (StopNotify a k) \<or> heap s' a = map_option wake_thread (heap s a)"
    if c: "calls s c = Some (StopNotify a k)"
    using assms
  proof cases
    case (e_quiet d j)
    then show ?thesis using c quiet_kinds(8)[of s "calls s d" j a k] by (auto simp: set_call_def)
  qed (use c in \<open>auto simp: state_defs\<close>)
qed

lemma wake_thread_awake [simp]: "thread_pc (wake_thread r) \<noteq> Sleeping"
  by (simp add: wake_thread_def)

lemma rt_inv_dead: "rt_inv r \<Longrightarrow> thread_pc r = Sleeping \<Longrightarrow> alive r"
  by (auto simp: rt_inv_def)

lemma post_inv_keep:
  assumes base: "base_inv s" and sl: "sleep_inv s" and inv: "post_inv s" and e: "exec l s = Some s'"
  shows "post_inv s'"
  unfolding post_inv_def
proof (intro allI impI)
  fix a r' assume r': "heap s' a = Some r'" "thread_pc r' = Sleeping" "queue r' \<noteq> []"
  have base': "base_inv s'"
    using base e alloc_inv_keep all_rt_inv_keep unfolding base_inv_def by blast
  then have al: "alive r'" using rt_inv_dead base_inv_rt r' by blast
  show "\<exists>c. calls s' c = Some (PostNotify a)"
  proof (rule ccontr)
    assume no: "\<nexists>c. calls s' c = Some (PostNotify a)"
    from sleeping_origin[OF base exec_effect[OF e] r'(1,2)] no al r'
    obtain r where r: "heap s a = Some r" "thread_pc r = Sleeping" "queue r \<noteq> []" by auto
    then obtain c where c: "calls s c = Some (PostNotify a)" using inv by (auto simp: post_inv_def)
    have "calls s d \<noteq> Some (SpawnSleep a)" for d
      using sl r by (fastforce simp: sleep_inv_def loop_pc_def)
    then show False using notify_pending(1)[OF exec_effect[OF e] c] no r' r by auto
  qed
qed

lemma stop_inv_keep:
  assumes base: "base_inv s" and inv: "stop_inv s" and e: "exec l s = Some s'"
  shows "stop_inv s'"
  unfolding stop_inv_def
proof (intro allI impI)
  fix a r' assume r': "heap s' a = Some r'" "thread_pc r' = Sleeping" "stopping r'" "\<not> raced r'"
  have base': "base_inv s'"
    using base e alloc_inv_keep all_rt_inv_keep unfolding base_inv_def by blast
  then have al: "alive r'" using rt_inv_dead base_inv_rt r' by blast
  show "\<exists>c k. calls s' c = Some (StopNotify a k)"
  proof (rule ccontr)
    assume no: "\<nexists>c k. calls s' c = Some (StopNotify a k)"
    from sleeping_origin[OF base exec_effect[OF e] r'(1,2)] no al r'
    obtain r where r: "heap s a = Some r" "thread_pc r = Sleeping" "stopping r" "\<not> raced r" by auto
    then obtain c k where c: "calls s c = Some (StopNotify a k)" using inv unfolding stop_inv_def by blast
    then show False using notify_pending(2)[OF exec_effect[OF e] c] no r' r by auto
  qed
qed

lemma base_inv_reachable: "reachable s \<Longrightarrow> base_inv s"
  using alloc.invariant queues.invariant by (auto simp: base_inv_def)

interpretation flag: coordinator_invariant base_inv flag_inv
  by unfold_locales (auto simp: base_inv_def intro: base_inv_reachable[unfolded base_inv_def]
      flag_inv_init flag_inv_keep dest: base_inv_reachable)

interpretation sleep: coordinator_invariant base_inv sleep_inv
  by unfold_locales (auto intro: base_inv_reachable sleep_inv_init sleep_inv_keep)

interpretation post: coordinator_invariant "\<lambda>s. base_inv s \<and> sleep_inv s" post_inv
  by unfold_locales (auto intro: base_inv_reachable sleep.invariant post_inv_init post_inv_keep)

interpretation stop: coordinator_invariant base_inv stop_inv
  by unfold_locales (auto intro: base_inv_reachable stop_inv_init stop_inv_keep)


section \<open>Owners and identifiers\<close>

text \<open>
  A runtime state is in the map under one identifier or in the hands of one stopping call, never both.
\<close>

definition holds :: "'t coordinator \<Rightarrow> nat \<Rightarrow> nat \<Rightarrow> bool" where
  "holds s c a \<longleftrightarrow> (\<exists>k. calls s c = Some (StopStore a k) \<or> calls s c = Some (StopNotify a k) \<or>
     calls s c = Some (StopJoin a k))"

definition owner_inv :: "'t coordinator \<Rightarrow> bool" where
  "owner_inv s \<longleftrightarrow>
     (\<forall>i a. runtimes s i = Some a \<longrightarrow> a < next_addr s) \<and> (\<forall>c a. holds s c a \<longrightarrow> a < next_addr s) \<and>
     (\<forall>i j a. runtimes s i = Some a \<longrightarrow> runtimes s j = Some a \<longrightarrow> i = j) \<and>
     (\<forall>c i a. holds s c a \<longrightarrow> runtimes s i \<noteq> Some a) \<and>
     (\<forall>c d a. holds s c a \<longrightarrow> holds s d a \<longrightarrow> c = d)"

lemma owner_inv_init: "owner_inv new_coordinator"
  by (simp add: owner_inv_def holds_def new_coordinator_def)

lemma owner_inv_less:
  assumes inv: "owner_inv s" and n: "next_addr s' = next_addr s"
    and m: "\<And>i a. runtimes s' i = Some a \<Longrightarrow> runtimes s i = Some a"
    and h: "\<And>c a. holds s' c a \<Longrightarrow> holds s c a"
  shows "owner_inv s'"
  using inv unfolding owner_inv_def n by - (intro conjI; blast dest: m h)

lemma owner_inv_keep:
  assumes inv: "owner_inv s" and e: "exec l s = Some s'"
  shows "owner_inv s'"
  using exec_effect[OF e]
proof cases
  case (e_quiet c k)
  then show ?thesis
    using quiet_kinds(3-5)[of s "calls s c" k]
    by (intro owner_inv_less[OF inv]) (auto simp: holds_def set_call_def split: if_splits)
next
  case (e_alloc c)
  have h: "holds s' d a \<Longrightarrow> holds s d a" for d a
    using e_alloc by (auto simp: holds_def set_call_def split: if_splits)
  have "runtimes s i \<noteq> Some (next_addr s)" "\<not> holds s d (next_addr s)" for i d
    using inv by (auto simp: owner_inv_def)
  moreover have "runtimes s' = (runtimes s)(next_id s \<mapsto> next_addr s)" "next_addr s' = next_addr s + 1"
    using e_alloc by (simp_all add: set_call_def)
  ultimately show ?thesis
    using inv unfolding owner_inv_def by (auto dest!: h intro: less_SucI)
next
  case (e_take c i k a)
  have h: "holds s' d b \<Longrightarrow> d = c \<and> b = a \<or> d \<noteq> c \<and> holds s d b" for d b
    using e_take by (auto simp: holds_def set_call_def split: if_splits)
  have m: "runtimes s' = (runtimes s)(i := None)" "next_addr s' = next_addr s"
    using e_take by (simp_all add: set_call_def)
  have no: "\<not> holds s d a" for d using inv e_take by (auto simp: owner_inv_def)
  show ?thesis
    unfolding owner_inv_def
  proof (intro conjI allI impI)
    fix d j b assume "holds s' d b"
    then show "runtimes s' j \<noteq> Some b"
      using h[of d b] inv e_take m unfolding owner_inv_def by (metis fun_upd_apply option.distinct(1))
  next
    fix d e b assume "holds s' d b" "holds s' e b"
    then show "d = e" using h[of d b] h[of e b] no inv unfolding owner_inv_def by blast
  next
    fix d b assume "holds s' d b"
    then show "b < next_addr s'" using h[of d b] inv e_take m unfolding owner_inv_def by metis
  qed (use inv m in \<open>auto simp: owner_inv_def split: if_splits\<close>)
qed (intro owner_inv_less[OF inv]; auto simp: holds_def state_defs split: if_splits)+

interpretation owner: coordinator_invariant "\<lambda>_. True" owner_inv
  by unfold_locales (auto intro: owner_inv_init owner_inv_keep)


text \<open>
  Identifiers, as long as the 64-bit counter has not come round: they lie between one and the number of
  allocations, no two runtimes and no two threads share one, and what the map holds is not destroyed.
\<close>

definition ids_ok :: "'t coordinator \<Rightarrow> bool" where
  "ids_ok s \<longleftrightarrow>
     next_id s = allocated s + 1 \<and>
     (\<forall>a r. heap s a = Some r \<longrightarrow> 0 < rid r \<and> rid r \<le> allocated s) \<and>
     (\<forall>th i. isolate_ids s th = Some i \<longrightarrow> 0 < i \<and> i \<le> allocated s) \<and>
     (\<forall>a b q r. heap s a = Some q \<longrightarrow> heap s b = Some r \<longrightarrow> rid q = rid r \<longrightarrow> a = b) \<and>
     (\<forall>t u i. isolate_ids s t = Some i \<longrightarrow> isolate_ids s u = Some i \<longrightarrow> t = u) \<and>
     (\<forall>a r t. heap s a = Some r \<longrightarrow> isolate_ids s t \<noteq> Some (rid r)) \<and>
     (\<forall>i a. runtimes s i = Some a \<longrightarrow> (\<exists>r. heap s a = Some r \<and> rid r = i \<and> alive r))"

definition id_inv :: "'t coordinator \<Rightarrow> bool" where
  "id_inv s \<longleftrightarrow> (allocated s + 1 < 2 ^ 64 \<longrightarrow> ids_ok s)"

lemma id_inv_init: "id_inv new_coordinator"
  by (simp add: id_inv_def ids_ok_def new_coordinator_def)

lemma ids_ok_update:
  assumes ok: "ids_ok s"
    and eq: "allocated s' = allocated s" "next_id s' = next_id s" "isolate_ids s' = isolate_ids s"
    and h: "\<And>a r'. heap s' a = Some r' \<Longrightarrow> \<exists>r. heap s a = Some r \<and> rid r' = rid r"
    and m: "\<And>i a. runtimes s' i = Some a \<Longrightarrow> runtimes s i = Some a"
    and l: "\<And>i a r. runtimes s' i = Some a \<Longrightarrow> heap s a = Some r \<Longrightarrow> rid r = i \<Longrightarrow> alive r \<Longrightarrow>
        \<exists>r'. heap s' a = Some r' \<and> rid r' = rid r \<and> alive r'"
  shows "ids_ok s'"
proof -
  note i = ok[unfolded ids_ok_def]
  have A: "\<forall>a r. heap s' a = Some r \<longrightarrow> 0 < rid r \<and> rid r \<le> allocated s" using i h by metis
  have C: "\<forall>a b q r. heap s' a = Some q \<longrightarrow> heap s' b = Some r \<longrightarrow> rid q = rid r \<longrightarrow> a = b"
    using i h by metis
  have E: "\<forall>a r t. heap s' a = Some r \<longrightarrow> isolate_ids s t \<noteq> Some (rid r)" using i h by metis
  have F: "\<exists>r. heap s' a = Some r \<and> rid r = j \<and> alive r" if j: "runtimes s' j = Some a" for j a
  proof -
    obtain r where "heap s a = Some r" "rid r = j" "alive r" using i m[OF j] by blast
    then show ?thesis using l[OF j] by auto
  qed
  show ?thesis unfolding ids_ok_def eq using i A C E F by blast
qed

lemma id_inv_update:
  assumes "id_inv s" "allocated s' = allocated s" "next_id s' = next_id s" "isolate_ids s' = isolate_ids s"
    and "\<And>a r'. heap s' a = Some r' \<Longrightarrow> \<exists>r. heap s a = Some r \<and> rid r' = rid r"
    and "\<And>i a. runtimes s' i = Some a \<Longrightarrow> runtimes s i = Some a"
    and "\<And>i a r. runtimes s' i = Some a \<Longrightarrow> heap s a = Some r \<Longrightarrow> rid r = i \<Longrightarrow> alive r \<Longrightarrow>
        \<exists>r'. heap s' a = Some r' \<and> rid r' = rid r \<and> alive r'"
  shows "id_inv s'"
  unfolding id_inv_def
proof
  assume "allocated s' + 1 < 2 ^ 64"
  then have "ids_ok s" using assms(1,2) by (simp add: id_inv_def)
  then show "ids_ok s'" by (rule ids_ok_update) (fact assms)+
qed

lemma rid_thread: "thread_step r = Some r' \<or> boot_fails r = Some r' \<Longrightarrow> rid r' = rid r \<and> alive r' = alive r"
  by (cases "thread_pc r"; cases "queue r")
    (auto simp: thread_step.simps boot_fails_def split: if_splits)

lemma ids_ok_fresh:
  assumes "ids_ok s"
  shows "heap s a = Some r \<Longrightarrow> rid r \<noteq> next_id s" "isolate_ids s t \<noteq> Some (next_id s)"
  using assms unfolding ids_ok_def by fastforce+

lemma ids_ok_isolate:
  assumes ok: "ids_ok s" and b: "allocated s + 2 < 2 ^ 64"
    and s': "s' = s\<lparr>next_id := wrap64 (next_id s + 1), allocated := allocated s + 1,
        isolate_ids := (isolate_ids s)(th \<mapsto> next_id s)\<rparr>"
  shows "ids_ok s'"
proof -
  have n: "next_id s = allocated s + 1" using ok by (simp add: ids_ok_def)
  have f: "next_id s' = allocated s + 2" "allocated s' = allocated s + 1" "heap s' = heap s"
    "runtimes s' = runtimes s" "isolate_ids s' = (isolate_ids s)(th \<mapsto> next_id s)"
    using b n by (simp_all add: s' wrap64_def)
  note fr = ids_ok_fresh[OF ok]
  note i = ok[unfolded ids_ok_def]
  have A: "\<forall>a r. heap s' a = Some r \<longrightarrow> 0 < rid r \<and> rid r \<le> allocated s'" using i f by fastforce
  have B: "\<forall>t j. isolate_ids s' t = Some j \<longrightarrow> 0 < j \<and> j \<le> allocated s'"
    using i f n by (auto simp: le_Suc_eq split: if_splits)
  have D: "\<forall>t u j. isolate_ids s' t = Some j \<longrightarrow> isolate_ids s' u = Some j \<longrightarrow> t = u"
    using i fr(2) f(5) by (metis fun_upd_apply option.inject)
  have E: "\<forall>a r t. heap s' a = Some r \<longrightarrow> isolate_ids s' t \<noteq> Some (rid r)"
    using i fr(1) f(3,5) by (metis fun_upd_apply option.inject)
  have nx: "next_id s' = allocated s' + 1" using f by simp
  show ?thesis using nx A B D E i unfolding ids_ok_def f by blast
qed

lemma ids_ok_spawn:
  assumes ok: "ids_ok s" and b: "allocated s + 2 < 2 ^ 64" and fresh: "heap s (next_addr s) = None"
    and f: "next_id s' = wrap64 (next_id s + 1)" "allocated s' = allocated s + 1"
      "heap s' = (heap s)(next_addr s \<mapsto> new_runtime (next_id s))"
      "runtimes s' = (runtimes s)(next_id s \<mapsto> next_addr s)" "isolate_ids s' = isolate_ids s"
  shows "ids_ok s'"
proof -
  have n: "next_id s = allocated s + 1" using ok by (simp add: ids_ok_def)
  have w: "wrap64 (next_id s + 1) = allocated s + 2" using b n by (simp add: wrap64_def)
  have r: "rid (new_runtime j) = j" "alive (new_runtime j)" for j by (simp_all add: new_runtime_def)
  note fr = ids_ok_fresh[OF ok]
  note i = ok[unfolded ids_ok_def]
  have A: "\<forall>a r. heap s' a = Some r \<longrightarrow> 0 < rid r \<and> rid r \<le> allocated s'" "\<forall>th i. isolate_ids s' th = Some i \<longrightarrow> 0 < i \<and> i \<le> allocated s'"
    using i n r f by (auto simp: le_Suc_eq)
  have C: "\<forall>a b q r. heap s' a = Some q \<longrightarrow> heap s' b = Some r \<longrightarrow> rid q = rid r \<longrightarrow> a = b"
    using i fr(1) r(1) f(3) by (metis fun_upd_apply option.inject)
  have E: "\<forall>a r t. heap s' a = Some r \<longrightarrow> isolate_ids s' t \<noteq> Some (rid r)"
    using i fr(2) r(1) f(3,5) by (metis fun_upd_apply option.inject)
  have F: "\<exists>r. heap s' a = Some r \<and> rid r = j \<and> alive r" if j: "runtimes s' j = Some a" for j a
  proof (cases "j = next_id s")
    case True
    then show ?thesis using j f(3,4) r by auto
  next
    case False
    then have "runtimes s j = Some a" using j f(4) by simp
    then obtain q where "heap s a = Some q" "rid q = j" "alive q" using i by blast
    then show ?thesis using f(3) fresh by auto
  qed
  have "next_id s' = allocated s' + 1" "\<forall>t u j. isolate_ids s' t = Some j \<longrightarrow> isolate_ids s' u = Some j \<longrightarrow> t = u"
    using i f w by simp_all
  then show ?thesis using A C E F unfolding ids_ok_def by blast
qed

lemma id_inv_keep:
  assumes al: "alloc_inv s" and ow: "owner_inv s" and inv: "id_inv s" and e: "exec l s = Some s'"
  shows "id_inv s'"
  using exec_effect[OF e]
proof cases
  case (e_isolate th)
  then show ?thesis using inv ids_ok_isolate[of s s' th] by (simp add: id_inv_def)
next
  case (e_alloc c)
  have "heap s (next_addr s) = None" using al by (auto simp: alloc_inv_def)
  then show ?thesis using inv ids_ok_spawn[of s s'] e_alloc by (simp add: id_inv_def set_call_def)
next
  case (e_join c a k r)
  then have "holds s c a" by (auto simp: holds_def)
  then have "runtimes s i \<noteq> Some a" for i using ow unfolding owner_inv_def by blast
  then show ?thesis
    using e_join by (intro id_inv_update[OF inv]) (auto simp: state_defs split: if_splits)
next
  case (e_thread a r r' b)
  then have "rid r' = rid r \<and> alive r' = alive r" by (intro rid_thread)
  then show ?thesis
    using e_thread by (intro id_inv_update[OF inv]) (auto simp: state_defs split: if_splits)
qed (intro id_inv_update[OF inv]; auto simp: state_defs split: if_splits)+

interpretation ids: coordinator_invariant "\<lambda>s. alloc_inv s \<and> owner_inv s" id_inv
  by unfold_locales (auto intro: alloc.invariant owner.invariant id_inv_init id_inv_keep)

end
