(* ===== verification/Isolate_Correct.thy ===== *)
theory Isolate_Correct
  imports Isolate_Invariants
begin

text \<open>
  Properties of the isolate coordinator over all interleavings: tasks are executed in the order in which
  they were accepted and none is lost, a runtime that exits has drained its queue, a posted task always
  has a wake-up on its way, identifiers are unique and the map holds no destroyed state. Two executions
  are exhibited that go wrong: \<^verbatim>\<open>stop_runtime\<close> can wait forever, and \<^verbatim>\<open>post_task\<close> can use a destroyed
  state.
\<close>

section \<open>Concrete executions\<close>

fun run :: "'t label list \<Rightarrow> 't coordinator \<Rightarrow> 't coordinator option" where
  "run [] s = Some s"
| "run (l # ls) s = (if fault s then None else case exec l s of None \<Rightarrow> None | Some s' \<Rightarrow> run ls s')"

lemma run_steps: "run ls s = Some s' \<Longrightarrow> steps s ls s'"
  by (induction ls arbitrary: s) (auto intro: steps.intros step.intros split: if_splits option.splits)

lemma run_reachable: "run ls new_coordinator = Some s \<Longrightarrow> reachable s"
  using run_steps unfolding reachable_def by blast

text \<open>A runtime is spawned: call 0 allocates it at address 0 with identifier 1, and its thread starts.\<close>

definition spawn_run :: "nat label list" where
  "spawn_run = [Invoke 0 SpawnAlloc, Move 0, Move 0, Thread 0, Thread 0, Move 0]"

definition ready_runtime :: "nat runtime_state" where
  "ready_runtime = \<lparr>thread_pc = Ready, queue = [], stopping = False, started = True, init_ok = True, rid = 1,
     alive = True, accepted = [], executed = [], raced = False\<rparr>"

definition spawned :: "nat coordinator" where
  "spawned = \<lparr>next_id = 2, runtimes = [1 \<mapsto> 0], heap = [0 \<mapsto> ready_runtime], next_addr = 1,
     calls = [0 \<mapsto> Done 1], isolate_ids = Map.empty, allocated = 1, fault = False\<rparr>"

lemmas run_defs = call_defs state_defs Let_def new_runtime_def mu_free_def thread_step.simps
  ready_runtime_def spawned_def

lemma run_spawn: "run spawn_run new_coordinator = Some spawned"
proof -
  have "wrap64 (Suc (Suc 0)) = 2" by (simp add: wrap64_def)
  then show ?thesis by (simp add: spawn_run_def new_coordinator_def run_defs fun_eq_iff)
qed

lemma run_from_spawned: "run ls spawned = Some s \<Longrightarrow> reachable s"
  using run_steps[OF run_spawn] run_steps[of ls spawned s] steps_append unfolding reachable_def by blast

text \<open>Task 7 is posted by call 1; the thread goes to sleep; call 2 stops the runtime.\<close>

definition post_run :: "nat label list" where
  "post_run = [Invoke 1 (PostFind 1 7), Move 1, Move 1]"

definition sleep_run :: "nat label list" where
  "sleep_run = [Thread 0, Thread 0, Thread 0]"

definition stop_run :: "nat label list" where
  "stop_run = [Invoke 2 (StopFind 1 Return), Move 2, Move 2, Move 2]"

section \<open>Properties\<close>

text \<open>C7:
  Tasks run in order and none is lost or run twice. In every reachable state of every interleaving, the
  tasks a runtime has accepted are, in this order, those its thread has taken out so far followed by those
  in the queue; and a runtime that started and whose thread has left its loop has been told to stop, holds
  no task and has executed everything it accepted, which is what the header promises of stopping.\<close>

theorem tasks_in_order_and_drained:
  assumes "reachable s" "heap s a = Some r"
  shows "accepted r = executed r @ queue r \<and>
    (thread_pc r = Exited \<and> init_ok r \<longrightarrow> stopping r \<and> queue r = [] \<and> executed r = accepted r)"
  using reachable_rt_inv[OF assms] by (auto simp: rt_inv_def)

theorem tasks_in_order_and_drained_witness:
  "\<exists>s r. reachable s \<and> heap s 0 = Some r \<and> thread_pc r = Exited \<and> init_ok r \<and>
     executed r = [7 :: nat] \<and> executed r = accepted r"
proof -
  obtain s r where s: "run (post_run @ [Move_Notify 1 None, Thread 0, Thread 0] @ stop_run @
      [Thread 0, Thread 0, Thread 0]) spawned = Some s" "heap s 0 = Some r"
    and r: "thread_pc r = Exited" "init_ok r" "executed r = [7]"
    by (simp add: post_run_def stop_run_def run_defs)
  then show ?thesis using tasks_in_order_and_drained[OF run_from_spawned[OF s(1)] s(2)] run_from_spawned by blast
qed

text \<open>C27:
  A posted task is never stranded: when the thread of a runtime sleeps although its queue is not empty, a
  call of \<^verbatim>\<open>post_task\<close> is still about to notify it, and no other waiter can take that notification.\<close>

theorem posted_task_wakes:
  assumes "reachable s" "heap s a = Some r" "thread_pc r = Sleeping" "queue r \<noteq> []"
  shows "(\<exists>c. calls s c = Some (PostNotify a)) \<and> (\<nexists>c. calls s c = Some (SpawnSleep a))"
proof
  show "\<exists>c. calls s c = Some (PostNotify a)"
    using post.invariant[OF assms(1)] assms unfolding post_inv_def by blast
  have "loop_pc (thread_pc r)" using assms by (simp add: loop_pc_def)
  then show "\<nexists>c. calls s c = Some (SpawnSleep a)"
    using sleep.invariant[OF assms(1)] assms(2) unfolding sleep_inv_def by force
qed

theorem posted_task_wakes_witness:
  "\<exists>s c. reachable (s :: nat coordinator) \<and> calls s c = Some (PostNotify 0)"
proof -
  obtain s r where s: "run (sleep_run @ post_run) spawned = Some s" "heap s 0 = Some r"
    and r: "thread_pc r = Sleeping" "queue r \<noteq> []"
    by (simp add: post_run_def sleep_run_def run_defs)
  then show ?thesis using posted_task_wakes[OF run_from_spawned[OF s(1)] s(2) r] run_from_spawned by blast
qed

text \<open>The steps a thread takes by itself.\<close>

fun thread_steps :: "nat \<Rightarrow> 't runtime_state \<Rightarrow> 't runtime_state option" where
  "thread_steps 0 r = Some r"
| "thread_steps (Suc n) r = (case thread_step r of None \<Rightarrow> None | Some r' \<Rightarrow> thread_steps n r')"

definition drains_in :: "nat \<Rightarrow> 't runtime_state \<Rightarrow> bool" where
  "drains_in n r \<longleftrightarrow> (\<exists>m r'. m \<le> n \<and> thread_steps m r = Some r' \<and> thread_pc r' = Exited \<and>
     accepted r' = accepted r \<and> (init_ok r' \<longrightarrow> executed r' = accepted r'))"

lemma drains_in_step:
  "thread_step r = Some r' \<Longrightarrow> accepted r' = accepted r \<Longrightarrow> drains_in n r' \<Longrightarrow> drains_in (Suc n) r"
proof -
  assume s: "thread_step r = Some r'" "accepted r' = accepted r" and "drains_in n r'"
  then obtain m q where "m \<le> n" "thread_steps m r' = Some q" "thread_pc q = Exited"
      "accepted q = accepted r'" "init_ok q \<longrightarrow> executed q = accepted q"
    by (auto simp: drains_in_def)
  then show "drains_in (Suc n) r" using s unfolding drains_in_def by (intro exI[of _ "Suc m"] exI[of _ q]) simp
qed

lemma drains_in_mono: "drains_in n r \<Longrightarrow> n \<le> k \<Longrightarrow> drains_in k r"
  unfolding drains_in_def by (meson le_trans)

lemma drains_in_exited: "rt_inv r \<Longrightarrow> thread_pc r = Exited \<Longrightarrow> drains_in n r"
  unfolding drains_in_def by (intro exI[of _ 0] exI[of _ r]) (auto simp: rt_inv_def)

lemma drains_locked:
  "thread_pc r = Locked \<Longrightarrow> stopping r \<Longrightarrow> rt_inv r \<Longrightarrow> drains_in (3 * length (queue r) + 1) r"
proof (induction "length (queue r)" arbitrary: r)
  case 0
  then have s: "thread_step r = Some (r\<lparr>thread_pc := Exited\<rparr>)" by (simp add: thread_step.simps)
  have "drains_in 0 (r\<lparr>thread_pc := Exited\<rparr>)"
    by (rule drains_in_exited) (use rt_inv_thread[OF 0(4) s] in simp_all)
  then show ?case using drains_in_step[OF s, of 0] 0 by simp
next
  case (Suc m)
  then obtain t ts where q: "queue r = t # ts" by (cases "queue r") auto
  let ?r1 = "r\<lparr>queue := ts, executed := executed r @ [t], thread_pc := Running t\<rparr>"
  let ?r2 = "?r1\<lparr>thread_pc := Ready\<rparr>" and ?r3 = "?r1\<lparr>thread_pc := Locked\<rparr>"
  have s1: "thread_step r = Some ?r1" using Suc.prems q by (simp add: thread_step.simps)
  have s2: "thread_step ?r1 = Some ?r2" by (simp add: thread_step.simps)
  have s3: "thread_step ?r2 = Some ?r3" by (simp add: thread_step.simps)
  have "rt_inv ?r3" using rt_inv_thread[OF rt_inv_thread[OF rt_inv_thread[OF Suc.prems(3) s1] s2] s3] .
  then have "drains_in (3 * length ts + 1) ?r3"
    using Suc.hyps(1)[of ?r3] Suc.hyps(2) Suc.prems q by simp
  from drains_in_step[OF s1 _ drains_in_step[OF s2 _ drains_in_step[OF s3 _ this]]]
  show ?case by (rule drains_in_mono) (simp_all add: q)
qed

lemma drains_ready:
  assumes "thread_pc r = Ready" "stopping r" "rt_inv r"
  shows "drains_in (3 * length (queue r) + 2) r"
proof -
  have s: "thread_step r = Some (r\<lparr>thread_pc := Locked\<rparr>)" using assms by (simp add: thread_step.simps)
  have "drains_in (3 * length (queue r) + 1) (r\<lparr>thread_pc := Locked\<rparr>)"
    using drains_locked[of "r\<lparr>thread_pc := Locked\<rparr>"] rt_inv_thread[OF assms(3) s] assms by simp
  then show ?thesis using drains_in_step[OF s, of "3 * length (queue r) + 1"] by simp
qed

lemma drains_boot_notify:
  assumes "thread_pc r = BootNotify ok" "stopping r" "rt_inv r"
  shows "drains_in (3 * length (queue r) + 3) r"
proof -
  let ?r = "r\<lparr>thread_pc := if ok then Ready else Exited\<rparr>"
  have s: "thread_step r = Some ?r" using assms by (simp add: thread_step.simps)
  have "drains_in (3 * length (queue r) + 2) ?r"
  proof (cases ok)
    case True
    then show ?thesis using drains_ready[of ?r] rt_inv_thread[OF assms(3) s] assms by simp
  next
    case False
    then show ?thesis using drains_in_exited[of ?r] rt_inv_thread[OF assms(3) s] by simp
  qed
  then show ?thesis using drains_in_step[OF s, of "3 * length (queue r) + 2"] by (simp add: numeral_3_eq_3)
qed

lemma drains:
  assumes inv: "rt_inv r" and st: "stopping r"
    and pc: "thread_pc r \<noteq> NotStarted" "thread_pc r \<noteq> Sleeping" "thread_pc r \<noteq> MustWait"
  shows "drains_in (3 * length (queue r) + 4) r"
proof (cases "thread_pc r")
  case Boot
  let ?r = "if rid r = 0 then r\<lparr>thread_pc := Exited\<rparr>
    else r\<lparr>started := True, init_ok := True, thread_pc := BootNotify True\<rparr>"
  have s: "thread_step r = Some ?r" using Boot by (simp add: thread_step.simps)
  have "drains_in (3 * length (queue r) + 3) ?r"
    using drains_boot_notify[of ?r True] drains_in_exited[of ?r] rt_inv_thread[OF inv s] st
    by (cases "rid r = 0") simp_all
  from drains_in_step[OF s _ this] show ?thesis by (simp add: eval_nat_numeral)
next
  case (BootNotify ok)
  then show ?thesis by (intro drains_in_mono[OF drains_boot_notify[OF _ st inv]]) auto
next
  case Ready
  then show ?thesis by (intro drains_in_mono[OF drains_ready[OF _ st inv]]) auto
next
  case Locked
  then show ?thesis by (intro drains_in_mono[OF drains_locked[OF _ st inv]]) auto
next
  case (Running t)
  let ?r = "r\<lparr>thread_pc := Ready\<rparr>"
  have s: "thread_step r = Some ?r" using Running by (simp add: thread_step.simps)
  have "drains_in (3 * length (queue r) + 2) ?r"
    using drains_ready[of ?r] rt_inv_thread[OF inv s] st by simp
  then have "drains_in (Suc (3 * length (queue r) + 2)) r" using drains_in_step[OF s] by simp
  then show ?thesis by (rule drains_in_mono) simp
next
  case Exited
  then show ?thesis by (rule drains_in_exited[OF inv])
qed (use pc in auto)

text \<open>C28:
  Stopping ends, unless the store of the flag fell between the thread's test and its sleep. When
  \<^verbatim>\<open>stop_runtime\<close> waits in \<^verbatim>\<open>join\<close> and the flag was not stored in that window, the thread needs nobody else: it
  exits after at most three steps per queued task and four more, having accepted nothing new and executed
  everything it had accepted, or it was never started and there is nothing to join.\<close>

theorem stop_runtime_drains:
  assumes "reachable s" "calls s c = Some (StopJoin a k)" "heap s a = Some r" "\<not> raced r"
  shows "thread_pc r = NotStarted \<or> drains_in (3 * length (queue r) + 4) r"
proof -
  have inv: "rt_inv r" by (rule reachable_rt_inv[OF assms(1,3)])
  have st: "stopping r" using flag.invariant[OF assms(1)] assms(2,3) unfolding flag_inv_def by fastforce
  have "thread_pc r \<noteq> MustWait" using inv st assms(4) by (auto simp: rt_inv_def)
  moreover have "thread_pc r \<noteq> Sleeping"
  proof
    assume "thread_pc r = Sleeping"
    then obtain d j where d: "calls s d = Some (StopNotify a j)"
      using stop.invariant[OF assms(1)] assms(3,4) st unfolding stop_inv_def by blast
    have "holds s c a" "holds s d a" using assms(2) d by (auto simp: holds_def)
    then have "c = d" using owner.invariant[OF assms(1)] unfolding owner_inv_def by blast
    then show False using d assms(2) by simp
  qed
  ultimately show ?thesis using drains[OF inv st] by blast
qed

theorem stop_runtime_drains_witness:
  "\<exists>s r. reachable s \<and> heap s 0 = Some (r :: nat runtime_state) \<and> drains_in 7 r"
proof -
  obtain s r where s: "run (post_run @ stop_run) spawned = Some s" "calls s 2 = Some (StopJoin 0 Return)"
      "heap s 0 = Some r"
    and r: "\<not> raced r" "thread_pc r = Ready" "queue r = [7]"
    by (simp add: post_run_def stop_run_def run_defs)
  then have "drains_in 7 r" using stop_runtime_drains[OF run_from_spawned[OF s(1)] s(2,3) r(1)] by simp
  then show ?thesis using run_from_spawned s by blast
qed

text \<open>
  Identifiers do not collide. Until the 64-bit counter comes round, every runtime and every thread that asked
  for its isolate has an identifier of its own, none is zero, and the runtime the map has under an
  identifier carries it and has not been destroyed.\<close>

theorem isolate_ids_unique:
  assumes "reachable s" "allocated s + 1 < 2 ^ 64"
  shows "inj_on (\<lambda>a. rid (the (heap s a))) (dom (heap s)) \<and> inj_on (isolate_ids s) (dom (isolate_ids s)) \<and>
    (\<forall>a r. heap s a = Some r \<longrightarrow> rid r \<noteq> 0 \<and> Some (rid r) \<notin> range (isolate_ids s)) \<and>
    (\<forall>i a. runtimes s i = Some a \<longrightarrow> (\<exists>r. heap s a = Some r \<and> rid r = i \<and> alive r))"
proof -
  have ok: "ids_ok s" using ids.invariant[OF assms(1)] assms(2) by (simp add: id_inv_def)
  note i = ok[unfolded ids_ok_def]
  have "inj_on (\<lambda>a. rid (the (heap s a))) (dom (heap s))"
  proof (rule inj_onI)
    fix x y assume "x \<in> dom (heap s)" "y \<in> dom (heap s)" "rid (the (heap s x)) = rid (the (heap s y))"
    then show "x = y" using i by (auto simp: dom_def)
  qed
  moreover have "inj_on (isolate_ids s) (dom (isolate_ids s))"
    using i unfolding inj_on_def by (metis domD)
  moreover have "\<forall>a r. heap s a = Some r \<longrightarrow> rid r \<noteq> 0 \<and> Some (rid r) \<notin> range (isolate_ids s)"
    using i by (metis bot_nat_0.not_eq_extremum imageE)
  ultimately show ?thesis using i by blast
qed


theorem isolate_ids_unique_witness:
  "reachable spawned \<and> (\<exists>r. heap spawned 0 = Some r \<and> rid r = 1 \<and> alive r)"
proof -
  have r: "reachable spawned" using run_from_spawned[of "[]"] by simp
  have a: "allocated spawned + 1 < 2 ^ 64" "runtimes spawned 1 = Some 0" by (simp_all add: spawned_def)
  from isolate_ids_unique[OF r a(1)] show ?thesis using r a(2) by blast
qed

section \<open>Executions that go wrong\<close>

text \<open>The runtime state a call is about to use.\<close>

fun target :: "'t call \<Rightarrow> nat option" where
  "target (PostEnqueue a t) = Some a"
| "target (PostNotify a) = Some a"
| "target (StopStore a k) = Some a"
| "target (StopNotify a k) = Some a"
| "target (StopJoin a k) = Some a"
| "target (SpawnStart a) = Some a"
| "target (SpawnWait a) = Some a"
| "target (SpawnSleep a) = Some a"
| "target _ = None"

lemma target_return_stop [simp]: "target (return_stop k b) = None"
  by (cases "(k, b)" rule: return_stop.cases) auto

lemma target_entry: "entry k \<Longrightarrow> target k = None"
  by (cases k) auto

text \<open>A stopping call that waits for a sleeping thread nobody will notify.\<close>

definition stuck :: "nat \<Rightarrow> nat \<Rightarrow> 't runtime_state \<Rightarrow> 't coordinator \<Rightarrow> bool" where
  "stuck c a r s \<longleftrightarrow> calls s c = Some (StopJoin a Return) \<and>
     heap s a = Some r \<and> thread_pc r = Sleeping \<and> a < next_addr s \<and>
     (\<forall>i. runtimes s i \<noteq> Some a) \<and>
     (\<forall>d k. d \<noteq> c \<longrightarrow> calls s d = Some k \<longrightarrow> target k \<noteq> Some a)"

lemma quiet_target:
  assumes "quiet s x k" "\<forall>i. runtimes s i \<noteq> Some a"
  shows "target k = Some a \<Longrightarrow> \<exists>j. x = Some j \<and> target j = Some a"
  using assms by (cases rule: quiet.cases) (auto simp: target_entry)

lemma stuck_keep:
  assumes st: "stuck c a r s" and e: "exec l s = Some s'" and l: "l \<noteq> Spurious a"
  shows "stuck c a r s'"
proof -
  have c: "calls s c = Some (StopJoin a Return)" and m: "\<forall>i. runtimes s i \<noteq> Some a"
    and n: "a < next_addr s"
    using st by (simp_all add: stuck_def)
  have r: "heap s a = Some r" "thread_pc r = Sleeping" using st by (simp_all add: stuck_def)
  have o: "calls s d = Some k \<Longrightarrow> target k = Some a \<Longrightarrow> d = c" for d k
    using st unfolding stuck_def by blast
  have no: "calls s d \<noteq> Some (PostEnqueue a t)" "calls s d \<noteq> Some (PostNotify a)"
    "calls s d \<noteq> Some (StopStore a k)" "calls s d \<noteq> Some (StopNotify a k)"
    "calls s d \<noteq> Some (SpawnStart a)" "calls s d \<noteq> Some (SpawnWait a)" "calls s d \<noteq> Some (SpawnSleep a)"
    for d t k using o[of d] c by fastforce+
  from exec_effect[OF e] show ?thesis
  proof cases
    case (e_quiet d k)
    then have "d \<noteq> c" using quiet_kinds(9)[of s "calls s d" k a Return] c by auto
    moreover have "target k \<noteq> Some a"
      using quiet_target[OF e_quiet(2) m] o[of d] \<open>d \<noteq> c\<close> by auto
    ultimately show ?thesis using st e_quiet by (auto simp: stuck_def set_call_def)
  next
    case (e_thread b q q' ok)
    then have "b \<noteq> a" using r by (auto simp: thread_step.simps boot_fails_def)
    then show ?thesis using st e_thread by (auto simp: stuck_def set_runtime_def)
  next
    case (e_booted b q ok)
    then have "b \<noteq> a" using r by auto
    then show ?thesis using st e_booted by (auto simp: stuck_def state_defs split: if_splits)
  next
    case (e_spurious b q)
    then have "b \<noteq> a" using l by auto
    then show ?thesis using st e_spurious by (auto simp: stuck_def state_defs)
  qed (use st c r n no m in \<open>auto simp: stuck_def state_defs split: if_splits\<close>)
qed


lemma stuck_steps: "steps s ls s' \<Longrightarrow> stuck c a r s \<Longrightarrow> Spurious a \<notin> set ls \<Longrightarrow> stuck c a r s'"
proof (induction rule: steps.induct)
  case (steps_Cons s l s' ls s'')
  then have "exec l s = Some s'" by (auto elim: step_elim)
  then have "stuck c a r s'" using steps_Cons.prems by (intro stuck_keep[of c a r s l s']) auto
  then show ?case using steps_Cons by simp
qed

text \<open>C19:
  Stopping can wait forever. The flag is stored and the notification sent without the runtime's mutex, so both
  can fall between the thread's test of the flag and its sleep. There is a reachable state without a fault in
  which the thread of an idle runtime sleeps although the flag is set and a call of \<^verbatim>\<open>stop_runtime\<close> waits for
  it in \<^verbatim>\<open>join\<close>. The rest of the program goes on from there, and spawns another runtime, without a fault; but
  whatever it does, the call keeps waiting and the runtime stays as it is. Only a spurious wake-up, which no
  implementation owes, could end it.\<close>

theorem stop_runtime_can_hang:
  "\<exists>s r. reachable (s :: nat coordinator) \<and> \<not> fault s \<and> heap s 0 = Some r \<and> alive r \<and>
     thread_pc r = Sleeping \<and> stopping r \<and> queue r = [] \<and> calls s 2 = Some (StopJoin 0 Return) \<and>
     (\<exists>ls s'. steps s ls s' \<and> Spurious 0 \<notin> set ls \<and> \<not> fault s' \<and> calls s 3 = None \<and> calls s' 3 = Some (Done 2)) \<and>
     (\<forall>ls s'. steps s ls s' \<and> Spurious 0 \<notin> set ls \<longrightarrow>
        calls s' 2 = Some (StopJoin 0 Return) \<and> heap s' 0 = Some r)"
proof -
  let ?ls = "[Thread 0, Thread 0] @ stop_run @ [Thread 0]"
    and ?more = "[Invoke 3 SpawnAlloc, Move 3, Move 3, Thread 1, Thread 1, Move 3]"
  have "\<exists>s. run ?ls spawned = Some s \<and> (\<exists>r. stuck 2 0 r s \<and> \<not> fault s \<and> alive r \<and> stopping r \<and> queue r = []) \<and>
      calls s 3 = None \<and> (\<exists>s'. run ?more s = Some s' \<and> \<not> fault s' \<and> calls s' 3 = Some (Done 2))"
    by (simp add: stop_run_def run_defs stuck_def fetch_id_def)
  then obtain s r where s: "run ?ls spawned = Some s" and st: "stuck 2 0 r s" and
    i: "\<not> fault s" "alive r" "stopping r" "queue r = []" "calls s 3 = None"
    and m: "\<exists>s'. run ?more s = Some s' \<and> \<not> fault s' \<and> calls s' 3 = Some (Done 2)" by blast
  have "calls s' 2 = Some (StopJoin 0 Return) \<and> heap s' 0 = Some r" if "steps s ls s'" "Spurious 0 \<notin> set ls" for ls s'
    using stuck_steps[OF that(1) st that(2)] by (simp add: stuck_def)
  moreover have "\<exists>ls s'. steps s ls s' \<and> Spurious 0 \<notin> set ls \<and> \<not> fault s' \<and> calls s 3 = None \<and> calls s' 3 = Some (Done 2)"
  proof -
    have "Spurious 0 \<notin> set ?more" by simp
    with m i(5) run_steps[of ?more s] show ?thesis by blast
  qed
  ultimately show ?thesis
    using run_from_spawned[OF s] i st unfolding stuck_def by (intro exI[of _ s] exI[of _ r]) blast
qed

theorem stop_runtime_can_hang_witness:
  "\<exists>s r. reachable (s :: nat coordinator) \<and> heap s 0 = Some r \<and> thread_pc r = Sleeping \<and> stopping r \<and>
     calls s 2 = Some (StopJoin 0 Return)"
  using stop_runtime_can_hang by blast

text \<open>
  Posting can use a destroyed runtime. \<^verbatim>\<open>post_task\<close> looks the runtime up under the mutex of the map but uses the
  pointer after releasing it; when \<^verbatim>\<open>stop_runtime\<close> completes in between, locking the mutex of the state is an
  access to a destroyed object.\<close>

theorem post_task_use_after_free:
  "\<exists>s s'. reachable (s :: nat coordinator) \<and> \<not> fault s \<and> calls s 2 = Some (Done 1) \<and>
     calls s 1 = Some (PostEnqueue 0 7) \<and> step s (Move 1) s' \<and> fault s'"
proof -
  obtain s where s: "run ([Invoke 1 (PostFind 1 7), Move 1] @ stop_run @ [Thread 0, Thread 0, Move 2]) spawned = Some s"
      "\<not> fault s" "calls s 2 = Some (Done 1)" "calls s 1 = Some (PostEnqueue 0 7)" and d: "\<exists>r. heap s 0 = Some r \<and> \<not> alive r"
    by (simp add: stop_run_def run_defs)
  have "exec (Move 1) s = Some (s\<lparr>fault := True\<rparr>)" using s(4) d by (auto simp: post_enqueue_def deref_def)
  then have "step s (Move 1) (s\<lparr>fault := True\<rparr>)" using s(2) by (blast intro: step.intros)
  then show ?thesis using run_from_spawned[OF s(1)] s by force
qed

end
