(* ===== verification/Cbor_Prefix.thy ===== *)
theory Cbor_Prefix
  imports Cbor
begin

text \<open>
  Encoded values inside longer input: a read that succeeds is not changed by bytes behind it, so no strict
  prefix of an encoding decodes; and encoding what was decoded gives the same bytes again.
\<close>

section \<open>Reads of longer input\<close>

definition extends :: "'a result \<Rightarrow> 'a result \<Rightarrow> bytes \<Rightarrow> bool" where
  "extends r r' t \<longleftrightarrow> (\<forall>v rest. r = Ret (Some v) rest \<longrightarrow> r' = Ret (Some v) (rest @ t))"

lemma extends_Ret [simp]: "extends (Ret None cur) r' t" "extends Length_error r' t" "extends Out_of_fuel r' t"
  "extends (Ret (Some v) rest) r' t \<longleftrightarrow> r' = Ret (Some v) (rest @ t)"
  by (auto simp: extends_def)

lemma extends_on_value:
  "extends r r' t \<Longrightarrow> (\<And>x cur. extends (f x cur) (f' x (cur @ t)) t) \<Longrightarrow>
   extends (on_value r f) (on_value r' f') t"
  by (cases r) (auto simp: on_value_def split: option.splits)

lemma extends_if:
  "(c \<Longrightarrow> extends r r' t) \<Longrightarrow> (\<not> c \<Longrightarrow> extends q q' t) \<Longrightarrow> extends (if c then r else q) (if c then r' else q') t"
  by simp

lemma extends_read_uint: "extends (read_uint ai cur) (read_uint ai (cur @ t)) t"
  by (auto simp: read_uint_def split: option.splits)

lemma extends_items:
  assumes "\<And>cur. extends (read cap f cur) (read cap f' (cur @ t)) t"
  shows "extends (read_items cap f n cur items) (read_items cap f' n (cur @ t) items) t"
  by (induction n arbitrary: cur items) (simp_all add: extends_on_value assms)

lemma extends_and_then:
  assumes "extends r r' t" "\<And>x cur. extends (f (Some x) cur) (f' (Some x) (cur @ t)) t"
    and "\<And>cur v rest. f None cur \<noteq> Ret (Some v) rest"
  shows "extends (and_then r f) (and_then r' f') t"
proof (cases r)
  case (Ret x cur)
  then show ?thesis using assms by (cases x) (auto simp: extends_def)
qed simp_all

lemma extends_pairs:
  assumes "\<And>cur. extends (read cap f cur) (read cap f' (cur @ t)) t"
  shows "extends (read_pairs cap f n cur acc) (read_pairs cap f' n (cur @ t) acc) t"
proof (induction n arbitrary: cur acc)
  case (Suc n)
  have none: "and_then r (\<lambda>item cur. case (None :: 'z option, item) of
      (Some k, Some v) \<Rightarrow> g k v cur | _ \<Rightarrow> Ret None cur) \<noteq> Ret (Some v) rest"
    for r :: "cbor_value result" and g v rest by (cases r) auto
  show ?case
    unfolding read_pairs.simps
  proof (rule extends_and_then)
    show "extends (read cap f cur) (read cap f' (cur @ t)) t" by (rule assms)
  next
    fix parsed cur'
    show "extends (and_then (read cap f cur') (\<lambda>item cur. case (Some parsed, item) of
         (Some k, Some v) \<Rightarrow>
           (case map_acc_add k v acc of None \<Rightarrow> Ret None cur | Some acc \<Rightarrow> read_pairs cap f n cur acc)
       | _ \<Rightarrow> Ret None cur))
      (and_then (read cap f' (cur' @ t)) (\<lambda>item cur. case (Some parsed, item) of
         (Some k, Some v) \<Rightarrow>
           (case map_acc_add k v acc of None \<Rightarrow> Ret None cur | Some acc \<Rightarrow> read_pairs cap f' n cur acc)
       | _ \<Rightarrow> Ret None cur)) t"
      by (rule extends_and_then[OF assms]) (auto simp: Suc split: option.splits)
  qed (rule none)
qed simp

lemma extends_read: "f \<le> f' \<Longrightarrow> extends (read cap f cur) (read cap f' (cur @ t)) t"
proof (induction f arbitrary: f' cur)
  case (Suc f)
  then obtain g where g: "f' = Suc g" "f \<le> g" by (cases f') auto
  have IH: "extends (read cap f c) (read cap g (c @ t)) t" for c using Suc.IH g(2) by blast
  show ?case
  proof (cases cur)
    case (Cons head c)
    show ?thesis
      unfolding Cons g(1) append_Cons read.simps Let_def
      by (intro extends_if extends_on_value extends_read_uint extends_items extends_pairs IH) auto
  qed simp
qed simp

lemma read_prefix:
  "read cap f s = Ret (Some v) r \<Longrightarrow> f \<le> f' \<Longrightarrow> read cap f' (s @ t) = Ret (Some v) (r @ t)"
  using extends_read[of f f' cap s t] by (simp add: extends_def)

text \<open>No strict prefix of an encoding decodes to a value.\<close>

lemma decode_strict_prefix:
  assumes "wf_value cap v" "encode v = p @ q" "q \<noteq> []"
  shows "decode cap p \<noteq> Ret (Some w) r"
proof
  assume "decode cap p = Ret (Some w) r"
  then have "read cap (Suc (length p)) p = Ret (Some w) []"
    unfolding decode_def by (auto dest!: on_value_eqD split: if_splits)
  from read_prefix[OF this, of "Suc (length (encode v))" q]
  have "read cap (Suc (length (encode v))) (encode v) = Ret (Some w) q" using assms(2) by simp
  then show False using read_encode[OF assms(1) depth_le_length, of "[]"] assms(3) by simp
qed

section \<open>Encoding again\<close>

lemma append_uint_length_mono:
  "unat m \<le> unat n \<Longrightarrow> length (append_uint t m) \<le> length (append_uint t n)"
  by (auto simp: append_uint_def Let_def word_le_nat_alt)

lemma encode_string_length_mono:
  assumes "length s < 2 ^ 64" "length t < 2 ^ 64" "length s < length t"
  shows "length (encode_string 3 s) < length (encode_string 3 t)"
proof -
  have "unat (of_nat (length s) :: u64) = length s" "unat (of_nat (length t) :: u64) = length t"
    using assms by (simp_all add: unsigned_of_nat take_bit_nat_eq_self_iff)
  then have "length (append_uint 3 (of_nat (length s))) \<le> length (append_uint 3 (of_nat (length t)))"
    using assms(3) by (intro append_uint_length_mono) simp
  then show ?thesis using assms(3) by (simp add: encode_string_def)
qed

lemma lex_append_same: "(p @ s :: bytes) \<le> p @ t \<longleftrightarrow> s \<le> t"
  by (induction p) simp_all

lemma text_order:
  assumes "length s < 2 ^ 64" "length t < 2 ^ 64" "s \<noteq> t"
    and "(length (encode_string 3 s), encode_string 3 s) \<le> (length (encode_string 3 t), encode_string 3 t)"
  shows "(length s, s) \<le> (length t, t)"
proof (cases "length s = length t")
  case True
  then show ?thesis using assms(4) by (auto simp: less_eq_prod_def encode_string_def lex_append_same)
next
  case False
  then have "length s < length t"
    using assms(4) encode_string_length_mono[OF assms(2,1)] by (fastforce simp: less_eq_prod_def)
  then show ?thesis by (simp add: less_eq_prod_def)
qed


lemma sort_shortlex_unique:
  assumes "set ys = set xs" "distinct (map fst xs)" "distinct (map fst ys)" "sorted (map shortlex ys)"
  shows "sort_key shortlex xs = ys"
proof (rule map_sorted_distinct_set_unique)
  show inj: "inj_on shortlex (set (sort_key shortlex xs) \<union> set ys)"
    using assms(1,2) by (auto simp: distinct_map inj_on_def shortlex_def)
  show "distinct (map shortlex (sort_key shortlex xs))" "distinct (map shortlex ys)"
    using assms inj by (auto simp: distinct_map inj_on_Un intro: inj_on_subset)
qed (use assms in simp_all)

lemma encode_entries_norm:
  assumes "\<And>kv. kv \<in> set kvs \<Longrightarrow> encode (norm (snd kv)) = encode (snd kv)"
  shows "encode_entries (map (\<lambda>kv. (norm_key (fst kv), norm (snd kv))) kvs) = encode_entries kvs"
proof -
  have "map (\<lambda>kv. encode_key (norm_key (fst kv)) @ encode (norm (snd kv))) kvs =
      map (\<lambda>kv. encode_key (fst kv) @ encode (snd kv)) kvs"
    using assms by simp
  then show ?thesis unfolding encode_entries_def map_map o_def fst_conv snd_conv length_map by (simp only:)
qed

text \<open>A text map and the mixed map with the same entries are encoded alike.\<close>

lemma encode_mixed_value:
  assumes s: "sorted (map key_order kvs)" and d: "distinct (map (\<lambda>kv. encode_key (fst kv)) kvs)"
    and w: "list_all (\<lambda>kv. wf_key (fst kv)) kvs"
  shows "encode (mixed_value kvs) = encode_entries kvs"
proof (cases "list_all (\<lambda>kv. is_text (fst kv)) kvs")
  case True
  let ?t = "\<lambda>kv :: key \<times> cbor_value. (text_of_key (fst kv), snd kv)"
  have k: "fst kv = KText (text_of_key (fst kv))" "length (text_of_key (fst kv)) < 2 ^ 64" if "kv \<in> set kvs" for kv
    using True w that by (cases "fst kv"; auto simp: list_all_iff)+
  have dt: "distinct (map (\<lambda>kv. text_of_key (fst kv)) kvs)"
  proof -
    have "text_of_key (fst x) = text_of_key (fst y) \<Longrightarrow> x = y" if "x \<in> set kvs" "y \<in> set kvs" for x y
      using d k(1)[OF that(1)] k(1)[OF that(2)] that by (auto simp: distinct_map inj_on_def)
    then show ?thesis using d by (simp add: distinct_map inj_on_def)
  qed
  have "sorted (map shortlex (map ?t kvs))"
    unfolding sorted_iff_nth_mono_less
  proof (intro allI impI)
    fix i j assume ij: "i < j" "j < length (map shortlex (map ?t kvs))"
    let ?a = "text_of_key (fst (kvs ! i))" and ?b = "text_of_key (fst (kvs ! j))"
    have m: "kvs ! i \<in> set kvs" "kvs ! j \<in> set kvs" using ij by auto
    have "encode_key (fst (kvs ! i)) = encode_string 3 ?a" "encode_key (fst (kvs ! j)) = encode_string 3 ?b"
      using k(1)[OF m(1)] k(1)[OF m(2)] by (metis encode_key.simps(3))+
    moreover have "key_order (kvs ! i) \<le> key_order (kvs ! j)"
      using s ij unfolding sorted_iff_nth_mono_less by simp
    ultimately have "(length (encode_string 3 ?a), encode_string 3 ?a) \<le> (length (encode_string 3 ?b), encode_string 3 ?b)"
      by (simp add: key_order_def)
    moreover have "?a \<noteq> ?b" using dt ij by (simp add: distinct_conv_nth)
    ultimately have "(length ?a, ?a) \<le> (length ?b, ?b)" using text_order k(2) m by blast
    then show "map shortlex (map ?t kvs) ! i \<le> map shortlex (map ?t kvs) ! j"
      using ij by (simp add: shortlex_def)
  qed
  then have "sort_key shortlex (sort_key fst (map ?t kvs)) = map ?t kvs"
    using dt by (intro sort_shortlex_unique) (auto simp: o_def distinct_map inj_on_def)
  moreover have "map text_entry (map ?t kvs) = kvs"
    using k(1) by (auto simp: text_entry_def intro!: map_idI)
  ultimately show ?thesis using True by (simp only: mixed_value_def if_True encode_Map)
next
  case False
  have "sort_key key_order kvs = kvs" using s by (rule sort_key_id_if_sorted)
  then show ?thesis using False by (simp only: mixed_value_def if_False encode_CMap)
qed

lemma encode_norm: "wf_value cap v \<Longrightarrow> encode (norm v) = encode v"
proof (induction v)
  case (SInt i)
  then show ?case by (simp add: encode_int_def)
next
  case (Array xs)
  then have "map (\<lambda>x. encode (norm x)) xs = map encode xs" by (auto simp: list_all_iff)
  then show ?case unfolding norm.simps encode.simps map_map o_def length_map by (simp only:)
next
  case (Map kvs)
  then have "map (\<lambda>kv. (fst kv, encode (norm (snd kv)))) kvs = map (\<lambda>kv. (fst kv, encode (snd kv))) kvs"
    by (auto simp: list_all_iff)
  then show ?case unfolding norm.simps encode.simps map_map o_def fst_conv snd_conv by (simp only:)
next
  case (CMap kvs)
  let ?N = "\<lambda>kv. (norm_key (fst kv), norm (snd kv))"
  have o: "key_order (?N kv) = key_order kv" for kv :: "key \<times> cbor_value" by (simp add: key_order_def)
  have L: "sort_key key_order (map ?N kvs) = map ?N (sort_key key_order kvs)"
    by (simp add: sort_key_map o)
  have w: "list_all (\<lambda>kv. wf_key (fst kv)) kvs" using CMap.prems by (auto simp: list_all_iff)
  have d: "distinct (map (\<lambda>kv. encode_key (fst kv)) kvs)"
    using distinct_encode_key[OF w] CMap.prems by simp
  have "encode (norm (CMap kvs)) = encode_entries (map ?N (sort_key key_order kvs))"
    unfolding norm.simps L
  proof (rule encode_mixed_value)
    show "sorted (map key_order (map ?N (sort_key key_order kvs)))"
      using sorted_sort_key[of key_order kvs] by (simp add: o o_def)
    show "distinct (map (\<lambda>kv. encode_key (fst kv)) (map ?N (sort_key key_order kvs)))"
      using d by (simp add: o_def distinct_map)
    show "list_all (\<lambda>kv. wf_key (fst kv)) (map ?N (sort_key key_order kvs))"
      using w wf_norm_key by (auto simp: list_all_iff)
  qed
  also have "\<dots> = encode_entries (sort_key key_order kvs)"
    using CMap.IH CMap.prems by (intro encode_entries_norm) (auto simp: list_all_iff)
  finally show ?case by (simp only: encode_CMap)
qed simp_all

end
