(* ===== verification/Webauthn.thy ===== *)
theory Webauthn
  imports Cbor_Prefix Ascii
begin

text \<open>
  WebAuthn: the structures of \<^verbatim>\<open>include/fxe/webauthn.hpp\<close>, the codecs of \<^verbatim>\<open>src/webauthn/auth_data.cpp\<close>,
  \<^verbatim>\<open>attestation.cpp\<close> and \<^verbatim>\<open>client_data.cpp\<close>, the checks of \<^verbatim>\<open>rp_id.cpp\<close> and \<^verbatim>\<open>options.cpp\<close>, and the virtual
  authenticator of \<^verbatim>\<open>virtual_authenticator.cpp\<close>. Vectors and arrays of bytes, and strings, are lists of 8-bit
  words; the length of a fixed array is a hypothesis where it matters. \<open>cap\<close> is the allocation bound of
  the CBOR decoder, which throws above it; \<open>Threw\<close> is that exception on its way out. mbed TLS, the credential
  database and the random number generator are not part of the sources: what is used of them is the
  record \<open>platform\<close>, an argument of the operations.
\<close>

section \<open>Structures\<close>

datatype cose_algorithm = Es256 | Eddsa | Rs256

fun alg_code :: "cose_algorithm \<Rightarrow> int" where
  "alg_code Es256 = -7"
| "alg_code Eddsa = -8"
| "alg_code Rs256 = -257"

record cose_ec2_key =
  ck_alg :: cose_algorithm
  ck_crv :: int
  ck_x :: bytes
  ck_y :: bytes

datatype client_data_type = Create | Get

record client_data =
  cd_json :: bytes
  cd_hash :: bytes

record attested_credential_data =
  ac_aaguid :: bytes
  ac_credential_id :: bytes
  ac_cose_public_key :: bytes

record authenticator_data =
  ad_rp_id_hash :: bytes
  ad_flags :: u8
  ad_sign_count :: u32
  ad_attested :: "attested_credential_data option"
  ad_extensions :: bytes

definition flag_user_present :: u8 where "flag_user_present = 0x01"
definition flag_user_verified :: u8 where "flag_user_verified = 0x04"
definition flag_attested_cred :: u8 where "flag_attested_cred = 0x40"
definition flag_extension_data :: u8 where "flag_extension_data = 0x80"

datatype attestation_format = Fmt_none | Fmt_packed

record attestation_object =
  ao_fmt :: attestation_format
  ao_auth_data :: bytes
  ao_att_stmt_cbor :: bytes

record rp_id_policy =
  rp_allowed :: "bytes list"
  rp_allow_any :: bool

record user_entity =
  ue_id :: bytes
  ue_name :: bytes
  ue_display_name :: bytes

record creation_options =
  co_rp_id :: bytes
  co_rp_name :: bytes
  co_user :: user_entity
  co_challenge :: bytes
  co_pub_key_params :: "cose_algorithm list"
  co_exclude_credentials :: "bytes list"
  co_authenticator_attachment :: bytes
  co_user_verification :: bytes
  co_resident_key :: bytes
  co_attestation :: bytes
  co_timeout_ms :: u64

record request_options =
  ro_rp_id :: bytes
  ro_challenge :: bytes
  ro_allow_credentials :: "bytes list"
  ro_user_verification :: bytes
  ro_timeout_ms :: u64

record virtual_credential =
  vc_credential_id :: bytes
  vc_rp_id_hash :: bytes
  vc_rp_id :: bytes
  vc_user :: user_entity
  vc_private_key_d :: bytes
  vc_public_key :: cose_ec2_key
  vc_sign_count :: u32
  vc_user_verified :: bool
  vc_resident :: bool

record register_response =
  rr_credential_id :: bytes
  rr_attestation_object :: bytes
  rr_client_data_json :: bytes
  rr_public_key :: bytes
  rr_algorithm :: cose_algorithm

record assert_response =
  ar_credential_id :: bytes
  ar_authenticator_data :: bytes
  ar_client_data_json :: bytes
  ar_signature :: bytes
  ar_user_handle :: bytes

section \<open>Authenticator data\<close>

datatype 'a outcome = Threw | Value 'a

definition append_u16_be :: "u16 \<Rightarrow> bytes" where
  "append_u16_be v = [ucast (drop_bit 8 v), ucast v]"

definition append_u32_be :: "u32 \<Rightarrow> bytes" where
  "append_u32_be v = [ucast (drop_bit 24 v), ucast (drop_bit 16 v), ucast (drop_bit 8 v), ucast v]"

text \<open>The loop of \<^verbatim>\<open>parse_cbor_prefix\<close> from \<open>len\<close> on, with \<open>n\<close> lengths left to try.\<close>

fun prefix_loop :: "nat \<Rightarrow> bytes \<Rightarrow> nat \<Rightarrow> nat \<Rightarrow> (cbor_value \<times> bytes) option outcome" where
  "prefix_loop cap bs len 0 = Value None"
| "prefix_loop cap bs len (Suc n) =
     (case decode cap (take len bs) of
        Ret (Some decoded) _ \<Rightarrow>
          let canonical = encode decoded in
          if length canonical = len then Value (Some (decoded, canonical))
          else prefix_loop cap bs (Suc len) n
      | Ret None _ \<Rightarrow> prefix_loop cap bs (Suc len) n
      | _ \<Rightarrow> Threw)"

definition parse_cbor_prefix :: "nat \<Rightarrow> bytes \<Rightarrow> (cbor_value \<times> bytes) option outcome" where
  "parse_cbor_prefix cap bs = prefix_loop cap bs 1 (length bs)"

definition serialize_authenticator_data :: "authenticator_data \<Rightarrow> bytes" where
  "serialize_authenticator_data d =
     (let flags = ad_flags d;
          flags = (if ad_attested d \<noteq> None then flags OR flag_attested_cred else flags);
          flags = (if ad_extensions d \<noteq> [] then flags OR flag_extension_data else flags)
      in ad_rp_id_hash d @ [flags] @ append_u32_be (ad_sign_count d) @
         (case ad_attested d of
            None \<Rightarrow> []
          | Some a \<Rightarrow> ac_aaguid a @ append_u16_be (of_nat (length (ac_credential_id a))) @
              ac_credential_id a @ ac_cose_public_key a) @
         ad_extensions d)"

text \<open>The attested part from \<open>offset\<close> on, with the offset behind it.\<close>

definition parse_attested ::
  "nat \<Rightarrow> bytes \<Rightarrow> nat \<Rightarrow> (attested_credential_data \<times> nat) option outcome" where
  "parse_attested cap bs offset =
     (if length bs < offset + 18 then Value None
      else let aaguid = take 16 (drop offset bs);
               offset = offset + 16;
               len = unat (push_bit 8 (ucast (bs ! offset)) OR ucast (bs ! (offset + 1)) :: u16);
               offset = offset + 2
        in if length bs < offset + len then Value None
           else let cid = take len (drop offset bs); offset = offset + len
             in case parse_cbor_prefix cap (drop offset bs) of
                  Threw \<Rightarrow> Threw
                | Value None \<Rightarrow> Value None
                | Value (Some (v, canonical)) \<Rightarrow>
                    Value (Some (\<lparr>ac_aaguid = aaguid, ac_credential_id = cid,
                      ac_cose_public_key = canonical\<rparr>, offset + length canonical)))"

definition parse_extensions ::
  "nat \<Rightarrow> bytes \<Rightarrow> authenticator_data \<Rightarrow> nat \<Rightarrow> authenticator_data option outcome" where
  "parse_extensions cap bs out offset =
     (if ad_flags out AND flag_extension_data \<noteq> 0 then
        (case parse_cbor_prefix cap (drop offset bs) of
           Threw \<Rightarrow> Threw
         | Value None \<Rightarrow> Value None
         | Value (Some (v, canonical)) \<Rightarrow>
             Value (if offset + length canonical \<noteq> length bs then None
                    else Some (out\<lparr>ad_extensions := canonical\<rparr>)))
      else Value (if offset \<noteq> length bs then None else Some out))"

definition parse_authenticator_data :: "nat \<Rightarrow> bytes \<Rightarrow> authenticator_data option outcome" where
  "parse_authenticator_data cap bs =
     (if length bs < 37 then Value None
      else let out = \<lparr>ad_rp_id_hash = take 32 bs, ad_flags = bs ! 32,
                 ad_sign_count = push_bit 24 (ucast (bs ! 33)) OR push_bit 16 (ucast (bs ! 34)) OR
                   push_bit 8 (ucast (bs ! 35)) OR ucast (bs ! 36),
                 ad_attested = None, ad_extensions = []\<rparr>
        in if ad_flags out AND flag_attested_cred \<noteq> 0 then
             (case parse_attested cap bs 37 of
                Threw \<Rightarrow> Threw
              | Value None \<Rightarrow> Value None
              | Value (Some (a, offset)) \<Rightarrow>
                  parse_extensions cap bs (out\<lparr>ad_attested := Some a\<rparr>) offset)
           else parse_extensions cap bs out 37)"

section \<open>Keys and attestation objects\<close>

definition encode_cose_ec2 :: "cose_ec2_key \<Rightarrow> bytes" where
  "encode_cose_ec2 k =
     (if ck_crv k \<noteq> 1 then []
      else encode (CMap [(KInt 1, Uint 2), (KInt 3, SInt (alg_code (ck_alg k))), (KInt (-1), Uint 1),
             (KInt (-2), Bytes (ck_x k)), (KInt (-3), Bytes (ck_y k))]))"

text \<open>\<^verbatim>\<open>cbor::decode\<close> as the callers use it: an exception, or an optional value.\<close>

definition decode_value :: "nat \<Rightarrow> bytes \<Rightarrow> cbor_value option outcome" where
  "decode_value cap bs = (case decode cap bs of Ret v _ \<Rightarrow> Value v | _ \<Rightarrow> Threw)"

definition cose_of_cmap :: "(key \<times> cbor_value) list \<Rightarrow> cose_ec2_key option" where
  "cose_of_cmap m =
     (case (find_int m 1, find_int m (-1), find_int m (-2), find_int m (-3)) of
        (Some (Uint kty), Some (Uint crv), Some (Bytes x), Some (Bytes y)) \<Rightarrow>
          if kty \<noteq> 2 \<or> crv \<noteq> 1 \<or> length x \<noteq> 32 \<or> length y \<noteq> 32 then None
          else (case find_int m 3 of
              None \<Rightarrow> Some \<lparr>ck_alg = Es256, ck_crv = 1, ck_x = x, ck_y = y\<rparr>
            | Some (SInt a) \<Rightarrow>
                if a \<noteq> alg_code Es256 then None
                else Some \<lparr>ck_alg = Es256, ck_crv = 1, ck_x = x, ck_y = y\<rparr>
            | _ \<Rightarrow> None)
      | _ \<Rightarrow> None)"

definition decode_cose_ec2 :: "nat \<Rightarrow> bytes \<Rightarrow> cose_ec2_key option outcome" where
  "decode_cose_ec2 cap bs =
     (case decode_value cap bs of
        Value (Some (CMap m)) \<Rightarrow> Value (cose_of_cmap m)
      | Value _ \<Rightarrow> Value None
      | Threw \<Rightarrow> Threw)"

fun fmt_text :: "attestation_format \<Rightarrow> bytes" where
  "fmt_text Fmt_none = ascii ''none''"
| "fmt_text Fmt_packed = ascii ''packed''"

definition outer_map :: "attestation_format \<Rightarrow> bytes \<Rightarrow> cbor_value \<Rightarrow> (key \<times> cbor_value) list" where
  "outer_map fmt auth_data stmt =
     [(KText (ascii ''fmt''), Text (fmt_text fmt)), (KText (ascii ''authData''), Bytes auth_data),
      (KText (ascii ''attStmt''), stmt)]"

definition encode_attestation_object :: "nat \<Rightarrow> attestation_object \<Rightarrow> bytes outcome" where
  "encode_attestation_object cap a =
     (if ao_att_stmt_cbor a = [] then Value (encode (CMap (outer_map (ao_fmt a) (ao_auth_data a) (CMap []))))
      else case decode_value cap (ao_att_stmt_cbor a) of
          Threw \<Rightarrow> Threw
        | Value None \<Rightarrow> Value []
        | Value (Some v) \<Rightarrow> Value (encode (CMap (outer_map (ao_fmt a) (ao_auth_data a) v))))"

fun find_text_key :: "cbor_value \<Rightarrow> bytes \<Rightarrow> cbor_value option" where
  "find_text_key (CMap m) k = find_text m k"
| "find_text_key (Map m) k = map_of m k"
| "find_text_key _ k = None"

fun decode_text :: "cbor_value option \<Rightarrow> bytes option" where
  "decode_text (Some (Text t)) = Some t"
| "decode_text _ = None"

fun decode_bytes :: "cbor_value option \<Rightarrow> bytes option" where
  "decode_bytes (Some (Bytes b)) = Some b"
| "decode_bytes _ = None"

definition attestation_of :: "cbor_value \<Rightarrow> attestation_object option" where
  "attestation_of v =
     (case (decode_text (find_text_key v (ascii ''fmt'')), decode_bytes (find_text_key v (ascii ''authData'')),
            find_text_key v (ascii ''attStmt'')) of
        (Some fmt, Some auth_data, Some stmt) \<Rightarrow>
          if fmt = ascii ''none'' then
            Some \<lparr>ao_fmt = Fmt_none, ao_auth_data = auth_data, ao_att_stmt_cbor = encode stmt\<rparr>
          else if fmt = ascii ''packed'' then
            Some \<lparr>ao_fmt = Fmt_packed, ao_auth_data = auth_data, ao_att_stmt_cbor = encode stmt\<rparr>
          else None
      | _ \<Rightarrow> None)"

definition decode_attestation_object :: "nat \<Rightarrow> bytes \<Rightarrow> attestation_object option outcome" where
  "decode_attestation_object cap bs =
     (case decode_value cap bs of
        Threw \<Rightarrow> Threw
      | Value None \<Rightarrow> Value None
      | Value (Some v) \<Rightarrow>
          Value (case v of CMap _ \<Rightarrow> attestation_of v | Map _ \<Rightarrow> attestation_of v | _ \<Rightarrow> None))"

end
