(* ===== verification/Webauthn_Device.thy ===== *)
theory Webauthn_Device
  imports Webauthn
begin

text \<open>
  The second half of WebAuthn: client data (\<^verbatim>\<open>src/webauthn/client_data.cpp\<close>), relying party identifiers
  (\<^verbatim>\<open>rp_id.cpp\<close>), options (\<^verbatim>\<open>options.cpp\<close>) and the virtual authenticator (\<^verbatim>\<open>virtual_authenticator.cpp\<close>).
\<close>

section \<open>Client data\<close>

definition k_table :: bytes where
  "k_table = ascii ''ABCDEFGHIJKLMNOPQRSTUVWXYZabcdefghijklmnopqrstuvwxyz0123456789-_''"

definition b64_char :: "u32 \<Rightarrow> nat \<Rightarrow> u8" where
  "b64_char chunk sh = k_table ! unat (drop_bit sh chunk AND 0x3f)"

fun base64url_no_pad :: "bytes \<Rightarrow> bytes" where
  "base64url_no_pad (a # b # c # rest) =
     (let chunk = push_bit 16 (ucast a) OR push_bit 8 (ucast b) OR ucast c
      in b64_char chunk 18 # b64_char chunk 12 # b64_char chunk 6 # b64_char chunk 0 # base64url_no_pad rest)"
| "base64url_no_pad [a, b] =
     (let chunk = push_bit 16 (ucast a) OR push_bit 8 (ucast b)
      in [b64_char chunk 18, b64_char chunk 12, b64_char chunk 6])"
| "base64url_no_pad [a] =
     (let chunk = push_bit 16 (ucast a) in [b64_char chunk 18, b64_char chunk 12])"
| "base64url_no_pad [] = []"

definition k_hex :: bytes where
  "k_hex = ascii ''0123456789abcdef''"

definition json_escape_char :: "u8 \<Rightarrow> bytes" where
  "json_escape_char ch =
     (if ch = 34 then [92, 34]
      else if ch = 92 then [92, 92]
      else if ch = 8 then [92, 98]
      else if ch = 12 then [92, 102]
      else if ch = 10 then [92, 110]
      else if ch = 13 then [92, 114]
      else if ch = 9 then [92, 116]
      else if ch < 0x20 then
        ascii [CHR 0x5C, CHR ''u'', CHR ''0'', CHR ''0''] @
          [k_hex ! unat (drop_bit 4 ch AND 0x0f), k_hex ! unat (ch AND 0x0f)]
      else [ch])"

definition append_json_escaped :: "bytes \<Rightarrow> bytes" where
  "append_json_escaped input = concat (map json_escape_char input)"

definition type_string :: "client_data_type \<Rightarrow> bytes" where
  "type_string t = (if t = Create then ascii ''webauthn.create'' else ascii ''webauthn.get'')"

text \<open>\<open>q s\<close> is the string \<open>s\<close> in which quotation marks are written as the character \<^verbatim>\<open>^\<close>.\<close>

definition q :: "string \<Rightarrow> bytes" where
  "q s = map (\<lambda>c. if c = CHR 0x5E then 34 else of_char c) s"

definition build_client_data ::
  "(bytes \<Rightarrow> bytes) \<Rightarrow> client_data_type \<Rightarrow> bytes \<Rightarrow> bytes \<Rightarrow> bool \<Rightarrow> client_data" where
  "build_client_data sha256 t challenge origin cross_origin =
     (let json = q ''{^type^:^'' @ type_string t @ q ''^,^challenge^:^'' @ base64url_no_pad challenge @
            q ''^,^origin^:^'' @ append_json_escaped origin @ [34] @
            (if cross_origin then q '',^crossOrigin^:true'' else []) @ q ''}''
      in \<lparr>cd_json = json, cd_hash = sha256 json\<rparr>)"

section \<open>Relying parties and options\<close>

fun rp_id_chars :: "u8 \<Rightarrow> bytes \<Rightarrow> bool" where
  "rp_id_chars previous [] = True"
| "rp_id_chars previous (ch # s) =
     (if \<not> (97 \<le> ch \<and> ch \<le> 122 \<or> 48 \<le> ch \<and> ch \<le> 57 \<or> ch = 45 \<or> ch = 46) then False
      else if previous = 46 \<and> ch = 46 then False
      else rp_id_chars ch s)"

definition is_valid_rp_id_syntax :: "bytes \<Rightarrow> bool" where
  "is_valid_rp_id_syntax rp =
     (if rp = [] then False
      else if hd rp = 46 \<or> last rp = 46 then False
      else rp_id_chars 0 rp)"

definition host_matches_rp_id :: "bytes \<Rightarrow> bytes \<Rightarrow> bool" where
  "host_matches_rp_id host rp =
     (if host = [] then False
      else if host = rp then True
      else if length host \<le> length rp then False
      else let offset = length host - length rp in host ! (offset - 1) = 46 \<and> drop offset host = rp)"

definition validate_rp_id :: "bytes \<Rightarrow> bytes \<Rightarrow> rp_id_policy \<Rightarrow> bool" where
  "validate_rp_id rp host policy =
     (if \<not> is_valid_rp_id_syntax rp then False
      else if \<not> host_matches_rp_id host rp then False
      else if rp_allow_any policy then True
      else rp \<in> set (rp_allowed policy))"

definition one_of :: "bytes \<Rightarrow> string list \<Rightarrow> bool" where
  "one_of v allowed = list_ex (\<lambda>candidate. ascii candidate = v) allowed"

text \<open>The empty string is success.\<close>

definition validate_creation_options :: "creation_options \<Rightarrow> bytes" where
  "validate_creation_options opt =
     (if co_rp_id opt = [] \<or> \<not> is_valid_rp_id_syntax (co_rp_id opt) then ascii ''creation: rp.id is invalid''
      else if co_rp_name opt = [] then ascii ''creation: rp.name is required''
      else if ue_id (co_user opt) = [] \<or> length (ue_id (co_user opt)) > 64 then
        ascii ''creation: user.id must be 1-64 bytes''
      else if ue_name (co_user opt) = [] then ascii ''creation: user.name is required''
      else if length (co_challenge opt) < 16 then ascii ''creation: challenge must be at least 16 bytes''
      else if co_pub_key_params opt = [] then ascii ''creation: pubKeyCredParams is required''
      else if \<not> one_of (co_authenticator_attachment opt) ['''', ''platform'', ''cross-platform''] then
        ascii ''creation: authenticatorAttachment is invalid''
      else if \<not> one_of (co_user_verification opt) ['''', ''discouraged'', ''preferred'', ''required''] then
        ascii ''creation: userVerification is invalid''
      else if \<not> one_of (co_attestation opt) ['''', ''none'', ''indirect'', ''direct'', ''enterprise''] then
        ascii ''creation: attestation is invalid''
      else if \<not> one_of (co_resident_key opt) ['''', ''discouraged'', ''preferred'', ''required''] then
        ascii ''creation: residentKey is invalid''
      else [])"

definition validate_request_options :: "request_options \<Rightarrow> bytes" where
  "validate_request_options opt =
     (if ro_rp_id opt = [] \<or> \<not> is_valid_rp_id_syntax (ro_rp_id opt) then ascii ''request: rp.id is invalid''
      else if length (ro_challenge opt) < 16 then ascii ''request: challenge must be at least 16 bytes''
      else if \<not> one_of (ro_user_verification opt) ['''', ''discouraged'', ''preferred'', ''required''] then
        ascii ''request: userVerification is invalid''
      else [])"

section \<open>The virtual authenticator\<close>

definition origin_host :: "bytes \<Rightarrow> bytes option" where
  "origin_host origin =
     (case find_sub (ascii ''://'') origin of
        None \<Rightarrow> None
      | Some scheme \<Rightarrow>
          let host_begin = scheme + 3 in
          if host_begin \<ge> length origin then None
          else let host_port = takeWhile (\<lambda>c. c \<notin> {47, 58, 63, 35}) (drop host_begin origin) in
            if host_port = [] then None
            else let host = (case find_char 58 host_port of Some colon \<Rightarrow> take colon host_port | None \<Rightarrow> host_port)
              in if host = [] then None else Some host)"

definition contains_es256 :: "cose_algorithm list \<Rightarrow> bool" where
  "contains_es256 algorithms \<longleftrightarrow> Es256 \<in> set algorithms"

text \<open>The generator of \<^verbatim>\<open>deterministic_entropy\<close>: one step of the state, and byte \<open>i\<close> of the output.\<close>

definition entropy_step :: "u64 \<Rightarrow> u64" where
  "entropy_step x =
     (let x = x XOR drop_bit 12 x; x = x XOR push_bit 25 x in x XOR drop_bit 27 x)"

fun deterministic_entropy :: "nat \<Rightarrow> nat \<Rightarrow> u64 \<Rightarrow> bytes \<times> u64" where
  "deterministic_entropy i 0 state = ([], state)"
| "deterministic_entropy i (Suc n) state =
     (let x = entropy_step state;
          mixed = x * 0x2545F4914F6CDD1D;
          b = ucast (drop_bit ((i mod 8) * 8) mixed);
          (rest, state') = deterministic_entropy (Suc i) n x
      in (b # rest, state'))"

text \<open>
  What the authenticator uses of its environment. \<open>'g\<close> is the state of the random number generator, \<open>'k\<close> a
  key pair, \<open>'j\<close> the credential database. A call that can fail returns an error code on the left; the
  results of the database are only logged.
\<close>

record ('g, 'k, 'j) platform =
  pf_sha256 :: "bytes \<Rightarrow> bytes"
  pf_err_str :: "int \<Rightarrow> bytes"
  pf_genkey :: "'g \<Rightarrow> (int + 'k) \<times> 'g"
  pf_export_xy :: "'k \<Rightarrow> int + bytes \<times> bytes"
  pf_export_d :: "'k \<Rightarrow> int + bytes"
  pf_random :: "nat \<Rightarrow> 'g \<Rightarrow> (int + bytes) \<times> 'g"
  pf_spki_der :: "'k \<Rightarrow> bytes"
  pf_load_private :: "cose_ec2_key \<Rightarrow> bytes \<Rightarrow> 'k option"
  pf_sign :: "'k \<Rightarrow> bytes \<Rightarrow> 'g \<Rightarrow> (int + bytes) \<times> 'g"
  pf_verify :: "cose_ec2_key \<Rightarrow> bytes \<Rightarrow> bytes \<Rightarrow> bool"
  pf_jar_upsert :: "virtual_credential \<Rightarrow> 'j \<Rightarrow> 'j"
  pf_jar_bump :: "bytes \<Rightarrow> u32 \<Rightarrow> 'j \<Rightarrow> 'j"
  pf_jar_clear :: "'j \<Rightarrow> 'j"
  pf_jar_load :: "'j \<Rightarrow> virtual_credential list"

text \<open>\<^verbatim>\<open>std::map\<close> from identifiers to credentials: entries in ascending order of the identifier.\<close>

type_synonym cred_map = "(bytes \<times> virtual_credential) list"

record ('g, 'j) authenticator =
  va_credentials :: cred_map
  va_jar :: "'j option"
  va_rng :: 'g
  va_user_verified :: bool

fun assign_cred :: "bytes \<Rightarrow> virtual_credential \<Rightarrow> cred_map \<Rightarrow> cred_map" where
  "assign_cred k v [] = [(k, v)]"
| "assign_cred k v ((k', v') # m) =
     (if k < k' then (k, v) # (k', v') # m
      else if k = k' then (k, v) # m
      else (k', v') # assign_cred k v m)"

definition aaguid :: bytes where
  "aaguid = ascii ''FXEVIRT'' @ replicate 9 0"

definition new_authenticator ::
  "('g, 'k, 'j) platform \<Rightarrow> 'j option \<Rightarrow> 'g \<Rightarrow> ('g, 'j) authenticator" where
  "new_authenticator pf jar rng =
     \<lparr>va_credentials =
        (case jar of
           None \<Rightarrow> []
         | Some j \<Rightarrow> fold (\<lambda>c m. assign_cred (vc_credential_id c) c m) (pf_jar_load pf j) []),
      va_jar = jar, va_rng = rng, va_user_verified = True\<rparr>"

definition uv_flags :: "bool \<Rightarrow> u8" where
  "uv_flags verified = (if verified then flag_user_present OR flag_user_verified else flag_user_present)"

definition list_credentials :: "('g, 'j) authenticator \<Rightarrow> virtual_credential list" where
  "list_credentials va = map snd (va_credentials va)"

definition clear :: "('g, 'k, 'j) platform \<Rightarrow> ('g, 'j) authenticator \<Rightarrow> ('g, 'j) authenticator" where
  "clear pf va = va\<lparr>va_credentials := [], va_jar := map_option (pf_jar_clear pf) (va_jar va)\<rparr>"

definition set_user_verified :: "bool \<Rightarrow> ('g, 'j) authenticator \<Rightarrow> bool \<times> ('g, 'j) authenticator" where
  "set_user_verified verified va = (verified, va\<lparr>va_user_verified := verified\<rparr>)"

definition verify_es256 :: "('g, 'k, 'j) platform \<Rightarrow> cose_ec2_key \<Rightarrow> bytes \<Rightarrow> bytes \<Rightarrow> bool" where
  "verify_es256 pf pub message signature_der =
     (if ck_crv pub \<noteq> 1 then False else pf_verify pf pub (pf_sha256 pf message) signature_der)"


text \<open>
  The result of an operation: the error text it returns, an exception, or success with the response. The
  response object is written piece by piece and is of no use to the caller when an error is returned, so it
  is part of the success.
\<close>

datatype 'a op_result = Error bytes | Exception | Ok 'a

definition origin_matches :: "bytes \<Rightarrow> bytes \<Rightarrow> bool" where
  "origin_matches origin rp =
     (case origin_host origin of None \<Rightarrow> False | Some host \<Rightarrow> host_matches_rp_id host rp)"

text \<open>\<^verbatim>\<open>register_credential\<close> behind the export of the key pair and the choice of the identifier.\<close>

definition register_finish ::
  "nat \<Rightarrow> ('g, 'k, 'j) platform \<Rightarrow> creation_options \<Rightarrow> client_data \<Rightarrow> 'k \<Rightarrow> cose_ec2_key \<Rightarrow> bytes \<Rightarrow> bytes \<Rightarrow>
   ('g, 'j) authenticator \<Rightarrow> register_response op_result \<times> ('g, 'j) authenticator" where
  "register_finish cap pf opts client key pub private_key_d credential_id va =
     (let rp_hash = pf_sha256 pf (co_rp_id opts);
          cose_public_key = encode_cose_ec2 pub
      in if cose_public_key = [] then (Error (ascii ''failed to encode public key''), va)
      else let auth_data = serialize_authenticator_data
             \<lparr>ad_rp_id_hash = rp_hash, ad_flags = uv_flags (va_user_verified va) OR flag_attested_cred,
              ad_sign_count = 0,
              ad_attested = Some \<lparr>ac_aaguid = aaguid, ac_credential_id = credential_id,
                ac_cose_public_key = cose_public_key\<rparr>,
              ad_extensions = []\<rparr>
        in if auth_data = [] then (Error (ascii ''failed to serialize authenticator data''), va)
        else (case encode_attestation_object cap
                \<lparr>ao_fmt = Fmt_none, ao_auth_data = auth_data, ao_att_stmt_cbor = []\<rparr> of
            Threw \<Rightarrow> (Exception, va)
          | Value attestation \<Rightarrow>
              if attestation = [] then (Error (ascii ''failed to encode attestation object''), va)
              else let credential = \<lparr>vc_credential_id = credential_id, vc_rp_id_hash = rp_hash,
                         vc_rp_id = co_rp_id opts, vc_user = co_user opts,
                         vc_private_key_d = private_key_d, vc_public_key = pub, vc_sign_count = 0,
                         vc_user_verified = va_user_verified va, vc_resident = True\<rparr>;
                       public_key = pf_spki_der pf key
                in if public_key = [] then (Error (ascii ''failed to encode public key''), va)
                else (Ok \<lparr>rr_credential_id = credential_id, rr_attestation_object = attestation,
                        rr_client_data_json = cd_json client, rr_public_key = public_key,
                        rr_algorithm = Es256\<rparr>,
                      va\<lparr>va_credentials := assign_cred credential_id credential (va_credentials va),
                         va_jar := map_option (pf_jar_upsert pf credential) (va_jar va)\<rparr>)))"

definition register_credential ::
  "nat \<Rightarrow> ('g, 'k, 'j) platform \<Rightarrow> creation_options \<Rightarrow> bytes \<Rightarrow> ('g, 'j) authenticator \<Rightarrow>
   register_response op_result \<times> ('g, 'j) authenticator" where
  "register_credential cap pf opts origin va =
     (let error = validate_creation_options opts
      in if error \<noteq> [] then (Error error, va)
      else if \<not> contains_es256 (co_pub_key_params opts) then (Error (ascii ''unsupported algorithm''), va)
      else if \<not> origin_matches origin (co_rp_id opts) then
        (Error (ascii ''origin host does not match rp.id''), va)
      else let client = build_client_data (pf_sha256 pf) Create (co_challenge opts) origin False
        in case pf_genkey pf (va_rng va) of
          (Inl rc, g) \<Rightarrow> (Error (ascii ''key generation failed: '' @ pf_err_str pf rc), va\<lparr>va_rng := g\<rparr>)
        | (Inr key, g) \<Rightarrow>
            let va = va\<lparr>va_rng := g\<rparr> in
            case pf_export_xy pf key of
              Inl rc \<Rightarrow> (Error (ascii ''public key export failed: '' @ pf_err_str pf rc), va)
            | Inr (x, y) \<Rightarrow>
                case pf_export_d pf key of
                  Inl rc \<Rightarrow> (Error (ascii ''private key export failed: '' @ pf_err_str pf rc), va)
                | Inr d \<Rightarrow>
                    case pf_random pf 32 (va_rng va) of
                      (Inl rc, g) \<Rightarrow> (Error (ascii ''rng failed: '' @ pf_err_str pf rc), va\<lparr>va_rng := g\<rparr>)
                    | (Inr cid, g) \<Rightarrow>
                        register_finish cap pf opts client key
                          \<lparr>ck_alg = Es256, ck_crv = 1, ck_x = x, ck_y = y\<rparr> d cid (va\<lparr>va_rng := g\<rparr>))"

fun first_allowed :: "cred_map \<Rightarrow> bytes \<Rightarrow> bytes list \<Rightarrow> (bytes \<times> virtual_credential) option" where
  "first_allowed m rp [] = None"
| "first_allowed m rp (cid # ids) =
     (case map_of m cid of
        Some c \<Rightarrow> if vc_rp_id c = rp then Some (cid, c) else first_allowed m rp ids
      | None \<Rightarrow> first_allowed m rp ids)"

fun first_resident :: "bytes \<Rightarrow> cred_map \<Rightarrow> (bytes \<times> virtual_credential) option" where
  "first_resident rp [] = None"
| "first_resident rp ((cid, c) # m) =
     (if vc_resident c \<and> vc_rp_id c = rp then Some (cid, c) else first_resident rp m)"

definition select_credential :: "request_options \<Rightarrow> cred_map \<Rightarrow> (bytes \<times> virtual_credential) option" where
  "select_credential opts m =
     (if ro_allow_credentials opts \<noteq> [] then first_allowed m (ro_rp_id opts) (ro_allow_credentials opts)
      else first_resident (ro_rp_id opts) m)"

definition load_private_key :: "('g, 'k, 'j) platform \<Rightarrow> virtual_credential \<Rightarrow> 'k option" where
  "load_private_key pf c =
     (if ck_crv (vc_public_key c) \<noteq> 1 then None
      else pf_load_private pf (vc_public_key c) (vc_private_key_d c))"

definition assert_credential ::
  "('g, 'k, 'j) platform \<Rightarrow> request_options \<Rightarrow> bytes \<Rightarrow> ('g, 'j) authenticator \<Rightarrow>
   assert_response op_result \<times> ('g, 'j) authenticator" where
  "assert_credential pf opts origin va =
     (let error = validate_request_options opts
      in if error \<noteq> [] then (Error error, va)
      else if \<not> origin_matches origin (ro_rp_id opts) then
        (Error (ascii ''origin host does not match rp.id''), va)
      else let client = build_client_data (pf_sha256 pf) Get (ro_challenge opts) origin False
        in case select_credential opts (va_credentials va) of
          None \<Rightarrow> (Error (ascii ''no credential available''), va)
        | Some (cid, c) \<Rightarrow>
            case load_private_key pf c of
              None \<Rightarrow> (Error (ascii ''failed to load credential key''), va)
            | Some signer \<Rightarrow>
                let c' = c\<lparr>vc_sign_count := vc_sign_count c + 1\<rparr>;
                    auth = serialize_authenticator_data
                      \<lparr>ad_rp_id_hash = take 32 (vc_rp_id_hash c'), ad_flags = uv_flags (va_user_verified va),
                       ad_sign_count = vc_sign_count c', ad_attested = None, ad_extensions = []\<rparr>;
                    digest = pf_sha256 pf (auth @ cd_hash client)
                in case pf_sign pf signer digest (va_rng va) of
                     (Inl rc, g) \<Rightarrow>
                       (Error (ascii ''signature failed: '' @ pf_err_str pf rc),
                        va\<lparr>va_rng := g,
                           va_credentials := assign_cred cid
                             (c'\<lparr>vc_sign_count := vc_sign_count c' - 1\<rparr>) (va_credentials va)\<rparr>)
                   | (Inr signature, g) \<Rightarrow>
                       (Ok \<lparr>ar_credential_id = vc_credential_id c', ar_authenticator_data = auth,
                          ar_client_data_json = cd_json client, ar_signature = signature,
                          ar_user_handle = ue_id (vc_user c')\<rparr>,
                        va\<lparr>va_rng := g, va_credentials := assign_cred cid c' (va_credentials va),
                           va_jar := map_option
                             (pf_jar_bump pf (vc_credential_id c') (vc_sign_count c')) (va_jar va)\<rparr>))"

end
