(* ===== verification/Webauthn_Correct.thy ===== *)
theory Webauthn_Correct
  imports Webauthn_Device
begin

text \<open>
  Round trips of the WebAuthn codecs, what registration and assertion do to the virtual authenticator, and
  what the data it signs determines.
\<close>

section \<open>Finding a value at the front of longer input\<close>

text \<open>
  The prefixes of an encoding that are shorter than it make the decoder fail or, when a truncated map key
  leaves bytes that look like the head of a huge array, throw. \<open>quiet_prefixes\<close> excludes the latter.
\<close>

definition quiet_prefixes :: "nat \<Rightarrow> bytes \<Rightarrow> bool" where
  "quiet_prefixes cap e \<longleftrightarrow> (\<forall>n < length e. decode cap (take n e) \<noteq> Length_error)"

lemma decode_not_fuel: "decode cap s \<noteq> Out_of_fuel"
  unfolding decode_def
  using read_good[of s "length s" "Suc (length s)" cap]
  by (intro on_value_fuel) (auto simp: good_def)

lemma prefix_loop_encoded:
  assumes wf: "wf_value cap v" and q: "quiet_prefixes cap (encode v)"
  shows "len + k = length (encode v) \<Longrightarrow> k < n \<Longrightarrow>
    prefix_loop cap (encode v @ rest) len n = Value (Some (norm v, encode v))"
proof (induction k arbitrary: len n)
  case 0
  then obtain m where n: "n = Suc m" by (cases n) auto
  have "decode cap (take len (encode v @ rest)) = Ret (Some (norm v)) []"
    using 0 decode_encode[OF wf] by simp
  then show ?case using 0 n encode_norm[OF wf] by (simp add: Let_def)
next
  case (Suc k)
  then obtain m where n: "n = Suc m" by (cases n) auto
  let ?p = "take len (encode v)"
  have e: "encode v = ?p @ drop len (encode v)" "drop len (encode v) \<noteq> []" using Suc.prems by simp_all
  have "decode cap ?p \<noteq> Length_error" using q Suc.prems unfolding quiet_prefixes_def by simp
  then obtain r where "decode cap ?p = Ret None r"
    using decode_strict_prefix[OF wf e] decode_not_fuel[of cap ?p]
    by (metis not_None_eq result.exhaust)
  moreover have "take len (encode v @ rest) = ?p" using Suc.prems by simp
  ultimately show ?case using Suc.IH[of "Suc len" m] Suc.prems n by simp
qed

lemma parse_cbor_prefix_encoded:
  assumes "wf_value cap v" "quiet_prefixes cap (encode v)"
  shows "parse_cbor_prefix cap (encode v @ rest) = Value (Some (norm v, encode v))"
proof -
  obtain k where k: "length (encode v) = Suc k" by (cases "encode v") auto
  then show ?thesis
    using prefix_loop_encoded[OF assms, of 1 k "length (encode v @ rest)" rest]
    unfolding parse_cbor_prefix_def by simp
qed

section \<open>Flat maps have quiet prefixes\<close>

fun leaf :: "cbor_value \<Rightarrow> bool" where
  "leaf (Uint n) = True"
| "leaf (SInt i) = True"
| "leaf (Text s) = True"
| "leaf (Bytes s) = True"
| "leaf _ = False"

lemma leaf_head: "leaf v \<Longrightarrow> \<exists>h t. encode v = h # t \<and> drop_bit 5 h \<le> (3 :: u8)"
proof -
  have h: "\<exists>h t. append_uint m n @ s = h # t \<and> drop_bit 5 h \<le> (3 :: u8)" if "m \<in> {0, 1, 2, 3}" for m n and s :: bytes
    using append_uint_read[of m n] that by auto
  assume "leaf v"
  then show ?thesis
  proof (cases v)
    case (Uint n)
    then show ?thesis using h[of 0 n "[]"] by simp
  next
    case (SInt i)
    then show ?thesis
      using h[of 0 "word_of_int i" "[]"] h[of 1 "word_of_int (- (i + 1))" "[]"] by (simp add: encode_int_def)
  next
    case (Text t)
    then show ?thesis using h[of 3 "of_nat (length t)" t] by (simp add: encode_string_def)
  next
    case (Bytes t)
    then show ?thesis using h[of 2 "of_nat (length t)" t] by (simp add: encode_string_def)
  qed simp_all
qed

lemma read_leaf_quiet: "drop_bit 5 h \<le> (3 :: u8) \<Longrightarrow> read cap f (h # t) \<noteq> Length_error"
proof (cases f)
  case (Suc g)
  assume h: "drop_bit 5 h \<le> (3 :: u8)"
  then have "drop_bit 5 h \<noteq> 4" "drop_bit 5 h \<noteq> 5" by auto
  moreover have "read_uint ai t \<noteq> Length_error" for ai by (rule read_uint_length)
  ultimately show ?thesis
    unfolding Suc read.simps Let_def
    by (cases "read_uint (h AND 0x1f) t") (auto simp: on_value_def split: option.splits)
qed simp


text \<open>A key of one byte with a value that is not a container.\<close>

definition flat_entry :: "nat \<Rightarrow> key \<times> cbor_value \<Rightarrow> bool" where
  "flat_entry cap kv \<longleftrightarrow> wf_key (fst kv) \<and> length (encode_key (fst kv)) = 1 \<and> leaf (snd kv) \<and> wf_value cap (snd kv)"

lemma leaf_depth: "leaf v \<Longrightarrow> depth v = 1"
  by (cases v) simp_all

lemma read_leaf_prefix:
  assumes l: "leaf v" "wf_value cap v" and p: "p @ s = encode v @ t" and f: "0 < f"
  shows "(\<exists>r. p = encode v @ r \<and> r @ s = t \<and> read cap f p = Ret (Some (norm v)) r) \<or>
    (\<exists>r. read cap f p = Ret None r)"
proof -
  have rd: "read cap f (encode v @ r) = Ret (Some (norm v)) r" for r
    using read_encode[OF l(2), of f r] leaf_depth[OF l(1)] f by simp
  from p obtain us where us: "p = encode v @ us \<and> us @ s = t \<or> p @ us = encode v \<and> s = us @ t"
    by (auto simp: append_eq_append_conv2)
  then consider r where "p = encode v @ r" "r @ s = t" | u where "encode v = p @ u" "u \<noteq> []"
    by (cases "us = []") (auto dest: sym)
  then show ?thesis
  proof cases
    case 2
    have q: "read cap f p \<noteq> Length_error"
    proof (cases p)
      case Nil
      then show ?thesis using f by (cases f) simp_all
    next
      case (Cons h p')
      then show ?thesis using leaf_head[OF l(1)] 2(1) read_leaf_quiet by auto
    qed
    have nf: "read cap f p \<noteq> Out_of_fuel"
    proof -
      obtain g where "f = Suc g" using f by (cases f) auto
      moreover obtain h tl where h: "encode v = h # tl" "drop_bit 5 h \<le> (3 :: u8)" using leaf_head[OF l(1)] by blast
      moreover have "read cap (Suc g) (h # x) \<noteq> Out_of_fuel" for x
      proof -
        have "drop_bit 5 h \<noteq> 4" "drop_bit 5 h \<noteq> 5" using h(2) by auto
        then show ?thesis unfolding read.simps Let_def
          by (cases "read_uint (h AND 0x1f) x") (auto simp: on_value_def read_uint_length split: option.splits)
      qed
      ultimately show ?thesis using 2(1) by (cases p) auto
    qed
    have "read cap f p \<noteq> Ret (Some w) r" for w r
    proof
      assume "read cap f p = Ret (Some w) r"
      from read_prefix[OF this order_refl, of u] show False using 2 rd[of "[]"] by simp
    qed
    then show ?thesis using q nf by (metis not_None_eq result.exhaust)
  qed (use rd in blast)
qed

lemma read_pairs_flat_quiet:
  assumes "list_all (flat_entry cap) kvs" "0 < f"
    and "p @ s = concat (map (\<lambda>kv. encode_key (fst kv) @ encode (snd kv)) kvs)"
  shows "read_pairs cap f (length kvs) p acc \<noteq> Length_error"
  using assms
proof (induction kvs arbitrary: p acc)
  case (Cons kv kvs)
  obtain k where k: "encode_key (fst kv) = [k]"
    using Cons.prems(1) by (auto simp: flat_entry_def length_Suc_conv)
  obtain g where g: "f = Suc g" using Cons.prems(2) by (cases f) auto
  show ?case
  proof (cases p)
    case Nil
    then show ?thesis using g by simp
  next
    case (Cons h p')
    then have p': "h = k" "p' @ s = encode (snd kv) @
        concat (map (\<lambda>kv. encode_key (fst kv) @ encode (snd kv)) kvs)"
      using Cons.prems(3) k by simp_all
    have rk: "read cap f p = Ret (Some (key_value (norm_key (fst kv)))) p'"
      using read_key_item[of "fst kv" cap g p'] Cons.prems(1) k p'(1) Cons g by (simp add: flat_entry_def)
    have lf: "leaf (snd kv)" "wf_value cap (snd kv)" using Cons.prems(1) by (simp_all add: flat_entry_def)
    from read_leaf_prefix[OF lf p'(2) Cons.prems(2)]
    show ?thesis
    proof (elim disjE exE conjE)
      fix r assume "r @ s = concat (map (\<lambda>kv. encode_key (fst kv) @ encode (snd kv)) kvs)"
        and rv: "read cap f p' = Ret (Some (norm (snd kv))) r"
      then have "read_pairs cap f (length kvs) r acc' \<noteq> Length_error" for acc'
        using Cons.IH[of r acc'] Cons.prems(1,2) by simp
      then show ?thesis using rk rv by (auto split: option.splits)
    next
      fix r assume "read cap f p' = Ret None r"
      then show ?thesis using rk by simp
    qed
  qed
qed simp

lemma quiet_flat_map:
  assumes kvs: "list_all (flat_entry cap) kvs" and n: "length kvs \<le> 23" "length kvs \<le> cap"
  shows "quiet_prefixes cap (encode (CMap kvs))"
  unfolding quiet_prefixes_def
proof (intro allI impI)
  fix m assume m: "m < length (encode (CMap kvs))"
  let ?es = "sort_key key_order kvs"
  let ?body = "concat (map (\<lambda>kv. encode_key (fst kv) @ encode (snd kv)) ?es)"
  have u: "unat (of_nat (length kvs) :: u64) = length kvs"
    using n(1) by (simp add: unsigned_of_nat take_bit_nat_eq_self_iff)
  obtain h where h: "append_uint 5 (of_nat (length kvs)) = [h]" "drop_bit 5 h = 5"
    "\<And>rest. read_uint (h AND 0x1f) rest = Ret (Some (of_nat (length kvs))) rest"
  proof -
    have "(of_nat (length kvs) :: u64) \<le> 23"
      using n(1) by (simp only: word_le_nat_alt u) simp
    then have "length (append_uint 5 (of_nat (length kvs) :: u64)) = 1" by (simp add: append_uint_def Let_def)
    then show thesis using append_uint_read[of 5 "of_nat (length kvs)"] that by (auto simp: length_Suc_conv)
  qed
  have e: "encode (CMap kvs) = h # ?body" by (simp only: encode_CMap encode_entries_def length_sort h(1) append_Cons append_Nil)
  show "decode cap (take m (encode (CMap kvs))) \<noteq> Length_error"
  proof (cases m)
    case 0
    then show ?thesis by (simp add: decode_def)
  next
    case (Suc k)
    let ?p = "take k ?body"
    have "list_all (flat_entry cap) ?es" using kvs by (simp add: list_all_iff)
    moreover have "?p @ drop k ?body = ?body" by simp
    ultimately have q: "read_pairs cap (Suc f) (length kvs) ?p map_acc_empty \<noteq> Length_error" for f
      using read_pairs_flat_quiet[of cap ?es "Suc f" ?p "drop k ?body"] by simp
    have "read cap (Suc (Suc (length ?p))) (h # ?p) \<noteq> Length_error"
      using q[of "length ?p"] n(2) h(2) h(3)[of ?p] u
      by (auto simp: Let_def on_value_def word_le_nat_alt
          split: result.splits option.splits)
        (cases "read_pairs cap (Suc (length ?p)) (length kvs) ?p map_acc_empty"; auto split: option.splits)
    then show ?thesis
      unfolding e Suc take_Suc_Cons decode_def
      by (cases "read cap (Suc (Suc (length ?p))) (h # ?p)") (auto simp: on_value_def split: option.splits)
  qed
qed


section \<open>Authenticator data\<close>

text \<open>Bytes a parser recognises at the front of longer input.\<close>

definition cbor_item :: "nat \<Rightarrow> bytes \<Rightarrow> bool" where
  "cbor_item cap e \<longleftrightarrow> (\<exists>v. wf_value cap v \<and> e = encode v \<and> quiet_prefixes cap e)"

lemma cbor_item_parse: "cbor_item cap e \<Longrightarrow> \<exists>v. parse_cbor_prefix cap (e @ rest) = Value (Some (v, e))"
  using parse_cbor_prefix_encoded unfolding cbor_item_def by blast

lemma u32_be: "push_bit 24 (ucast (ucast (drop_bit 24 v) :: u8)) OR push_bit 16 (ucast (ucast (drop_bit 16 v) :: u8)) OR
    push_bit 8 (ucast (ucast (drop_bit 8 v) :: u8)) OR ucast (ucast v :: u8) = (v :: u32)"
proof (rule bit_word_eqI)
  fix n assume "n < LENGTH(32)"
  consider "24 \<le> n" | "16 \<le> n" "n < 24" | "8 \<le> n" "n < 16" | "n < 8" by linarith
  then show "bit (push_bit 24 (ucast (ucast (drop_bit 24 v) :: u8)) OR
      push_bit 16 (ucast (ucast (drop_bit 16 v) :: u8)) OR
      push_bit 8 (ucast (ucast (drop_bit 8 v) :: u8)) OR ucast (ucast v :: u8) :: u32) n \<longleftrightarrow> bit v n"
    using \<open>n < LENGTH(32)\<close> by cases (auto simp: bit_simps)
qed

lemma u16_be: "push_bit 8 (ucast (ucast (drop_bit 8 v) :: u8)) OR ucast (ucast v :: u8) = (v :: u16)"
  by (rule bit_word_eqI) (auto simp: bit_simps)

definition wf_attested :: "nat \<Rightarrow> attested_credential_data \<Rightarrow> bool" where
  "wf_attested cap a \<longleftrightarrow> length (ac_aaguid a) = 16 \<and> length (ac_credential_id a) < 2 ^ 16 \<and>
     cbor_item cap (ac_cose_public_key a)"

definition wf_auth_data :: "nat \<Rightarrow> authenticator_data \<Rightarrow> bool" where
  "wf_auth_data cap d \<longleftrightarrow> length (ad_rp_id_hash d) = 32 \<and>
     (ad_extensions d \<noteq> [] \<longrightarrow> cbor_item cap (ad_extensions d)) \<and>
     (case ad_attested d of None \<Rightarrow> True | Some a \<Rightarrow> wf_attested cap a) \<and>
     (ad_flags d AND flag_attested_cred \<noteq> 0 \<longrightarrow> ad_attested d \<noteq> None) \<and>
     (ad_flags d AND flag_extension_data \<noteq> 0 \<longrightarrow> ad_extensions d \<noteq> [])"

definition final_flags :: "authenticator_data \<Rightarrow> u8" where
  "final_flags d = ad_flags d OR (if ad_attested d \<noteq> None then flag_attested_cred else 0) OR
     (if ad_extensions d \<noteq> [] then flag_extension_data else 0)"

lemma final_flags_bits:
  assumes "wf_auth_data cap d"
  shows "final_flags d AND flag_attested_cred \<noteq> 0 \<longleftrightarrow> ad_attested d \<noteq> None"
    and "final_flags d AND flag_extension_data \<noteq> 0 \<longleftrightarrow> ad_extensions d \<noteq> []"
proof -
  let ?f = "ad_flags d"
  have m: "(?f OR x) AND y = (?f AND y) OR (x AND y)" for x y by (simp add: bit.conj_disj_distrib2)
  show "final_flags d AND flag_attested_cred \<noteq> 0 \<longleftrightarrow> ad_attested d \<noteq> None"
    "final_flags d AND flag_extension_data \<noteq> 0 \<longleftrightarrow> ad_extensions d \<noteq> []"
    using assms
    by (auto simp: final_flags_def wf_auth_data_def flag_attested_cred_def flag_extension_data_def
        bit.conj_disj_distrib2)
qed

lemma parse_attested_serialized:
  assumes a: "wf_attested cap a" and h: "length h = offset"
  shows "parse_attested cap (h @ ac_aaguid a @ append_u16_be (of_nat (length (ac_credential_id a))) @
      ac_credential_id a @ ac_cose_public_key a @ t) offset =
    Value (Some (a, offset + 18 + length (ac_credential_id a) + length (ac_cose_public_key a)))"
proof -
  let ?c = "ac_credential_id a" and ?k = "ac_cose_public_key a"
  let ?n = "of_nat (length ?c) :: u16"
  let ?bs = "h @ ac_aaguid a @ append_u16_be ?n @ ?c @ ?k @ t"
  have l: "length (ac_aaguid a) = 16" "length ?c < 2 ^ 16" using a by (simp_all add: wf_attested_def)
  obtain v where v: "parse_cbor_prefix cap (?k @ t) = Value (Some (v, ?k))"
    using cbor_item_parse[of cap ?k t] a by (auto simp: wf_attested_def)
  have idx: "?bs ! (offset + 16) = ucast (drop_bit 8 ?n)" "?bs ! (offset + 16 + 1) = ucast ?n"
    using h l(1) by (simp_all add: append_u16_be_def nth_append)
  have n: "unat (push_bit 8 (ucast (?bs ! (offset + 16))) OR ucast (?bs ! (offset + 16 + 1)) :: u16) = length ?c"
    unfolding idx u16_be using l(2) by (simp add: unsigned_of_nat take_bit_nat_eq_self_iff)
  have d: "take 16 (drop offset ?bs) = ac_aaguid a" "drop (offset + 16 + 2) ?bs = ?c @ ?k @ t"
    "drop (offset + 16 + 2 + length ?c) ?bs = ?k @ t"
    using h l(1) by (simp_all add: append_u16_be_def)
  have len: "\<not> length ?bs < offset + 18" "\<not> length ?bs < offset + 16 + 2 + length ?c"
    using h l(1) by (simp_all add: append_u16_be_def)
  show ?thesis
    unfolding parse_attested_def Let_def n d using len v by simp
qed


lemma serialize_final_flags:
  "serialize_authenticator_data d =
     (ad_rp_id_hash d @ [final_flags d] @ append_u32_be (ad_sign_count d)) @
     (case ad_attested d of
        None \<Rightarrow> []
      | Some a \<Rightarrow> ac_aaguid a @ append_u16_be (of_nat (length (ac_credential_id a))) @
          ac_credential_id a @ ac_cose_public_key a) @
     ad_extensions d"
  by (auto simp: serialize_authenticator_data_def final_flags_def Let_def or.assoc)

lemma parse_extensions_serialized:
  assumes "length bs = offset + length e" "drop offset bs = e"
    and "ad_flags out AND flag_extension_data \<noteq> 0 \<longleftrightarrow> e \<noteq> []" "e \<noteq> [] \<longrightarrow> cbor_item cap e"
    and "ad_extensions out = []"
  shows "parse_extensions cap bs out offset = Value (Some (out\<lparr>ad_extensions := e\<rparr>))"
proof (cases "e = []")
  case True
  then show ?thesis using assms by (cases out) (simp add: parse_extensions_def)
next
  case False
  then obtain v where "parse_cbor_prefix cap (drop offset bs) = Value (Some (v, e))"
    using cbor_item_parse[of cap e "[]"] assms(2,4) by auto
  then show ?thesis using assms(1,3) False by (simp add: parse_extensions_def)
qed

lemma front_back: "length x = n \<Longrightarrow> bs = x @ e \<Longrightarrow> length bs = n + length e"
  "length x = n \<Longrightarrow> bs = x @ e \<Longrightarrow> drop n bs = e" for e :: bytes
  by auto

lemma parse_serialized:
  assumes wf: "wf_auth_data cap d"
  shows "parse_authenticator_data cap (serialize_authenticator_data d) =
    Value (Some (d\<lparr>ad_flags := final_flags d\<rparr>))"
proof -
  let ?h = "ad_rp_id_hash d @ [final_flags d] @ append_u32_be (ad_sign_count d)"
  let ?bs = "serialize_authenticator_data d" and ?e = "ad_extensions d"
  have rp: "length (ad_rp_id_hash d) = 32" using wf by (simp add: wf_auth_data_def)
  have h: "length ?h = 37" using rp by (simp add: append_u32_be_def)
  have len: "\<not> length ?bs < 37" unfolding serialize_final_flags using h by simp
  have idx: "take 32 ?bs = ad_rp_id_hash d" "?bs ! 32 = final_flags d"
    "?bs ! 33 = ucast (drop_bit 24 (ad_sign_count d))" "?bs ! 34 = ucast (drop_bit 16 (ad_sign_count d))"
    "?bs ! 35 = ucast (drop_bit 8 (ad_sign_count d))" "?bs ! 36 = ucast (ad_sign_count d)"
    unfolding serialize_final_flags using rp by (simp_all add: append_u32_be_def nth_append)
  note bits = final_flags_bits[OF wf]
  have ext: "?e \<noteq> [] \<longrightarrow> cbor_item cap ?e" using wf by (simp add: wf_auth_data_def)
  show ?thesis
  proof (cases "ad_attested d")
    case None
    have b: "length ?bs = 37 + length ?e" "drop 37 ?bs = ?e"
      unfolding serialize_final_flags None option.case using rp by (simp_all add: append_u32_be_def)
    show ?thesis
      unfolding parse_authenticator_data_def Let_def idx u32_be
      using len None bits parse_extensions_serialized[OF b _ ext] by (cases d) simp
  next
    case (Some a)
    have a: "wf_attested cap a" using wf Some by (simp add: wf_auth_data_def)
    let ?o = "37 + 18 + length (ac_credential_id a) + length (ac_cose_public_key a)"
    have bs: "?bs = ?h @ ac_aaguid a @ append_u16_be (of_nat (length (ac_credential_id a))) @
        ac_credential_id a @ ac_cose_public_key a @ ?e"
      unfolding serialize_final_flags Some option.case append_assoc ..
    let ?X = "?h @ ac_aaguid a @ append_u16_be (of_nat (length (ac_credential_id a))) @
        ac_credential_id a @ ac_cose_public_key a"
    have "length (ac_aaguid a) = 16" using a by (simp add: wf_attested_def)
    then have "length ?X = ?o" using h by (simp add: append_u16_be_def)
    moreover have "?bs = ?X @ ?e" unfolding bs by simp
    ultimately have b: "length ?bs = ?o + length ?e" "drop ?o ?bs = ?e" by (rule front_back)+
    have p: "parse_attested cap ?bs 37 = Value (Some (a, ?o))"
      unfolding bs by (rule parse_attested_serialized[OF a h])
    show ?thesis
      unfolding parse_authenticator_data_def Let_def idx u32_be
      using len Some bits p parse_extensions_serialized[OF b _ ext] by (cases d) simp
  qed
qed

text \<open>C31:
  Authenticator data survives the wire. For data with a 32-byte hash, a credential identifier below 64 KiB and
  CBOR items as key and extensions, parsing what was serialised returns the same data, with the flag bits that
  announce attested data and extensions set exactly when they are present.\<close>

theorem auth_data_round_trip:
  assumes "wf_auth_data cap d"
  shows "parse_authenticator_data cap (serialize_authenticator_data d) =
    Value (Some (d\<lparr>ad_flags := final_flags d\<rparr>))"
  by (rule parse_serialized[OF assms])

section \<open>Keys\<close>

lemma cose_map_flat:
  assumes "length (ck_x k) = 32" "length (ck_y k) = 32"
  shows "list_all (flat_entry cap) [(KInt 1, Uint 2), (KInt 3, SInt (alg_code (ck_alg k))),
     (KInt (-1), Uint 1), (KInt (-2), Bytes (ck_x k)), (KInt (-3), Bytes (ck_y k))]"
  using assms by (cases "ck_alg k") (simp_all add: flat_entry_def encode_int_def append_uint_def)

lemma cose_item:
  assumes "ck_crv k = 1" "length (ck_x k) = 32" "length (ck_y k) = 32" "5 \<le> cap"
  shows "cbor_item cap (encode_cose_ec2 k)"
proof -
  let ?m = "[(KInt 1, Uint 2), (KInt 3, SInt (alg_code (ck_alg k))), (KInt (-1), Uint 1),
     (KInt (-2), Bytes (ck_x k)), (KInt (-3), Bytes (ck_y k))]"
  have "wf_value cap (CMap ?m)" using assms by (cases "ck_alg k") simp_all
  moreover have "quiet_prefixes cap (encode (CMap ?m))"
    by (rule quiet_flat_map[OF cose_map_flat[OF assms(2,3)]]) (use assms(4) in simp_all)
  moreover have "encode_cose_ec2 k = encode (CMap ?m)" using assms(1) by (simp only: encode_cose_ec2_def) simp
  ultimately show ?thesis unfolding cbor_item_def by (intro exI[of _ "CMap ?m"]) (simp only: simp_thms)
qed

lemma cose_decodes:
  assumes "ck_crv k = 1" "length (ck_x k) = 32" "length (ck_y k) = 32" "5 \<le> cap"
  shows "decode_cose_ec2 cap (encode_cose_ec2 k) = Value (if ck_alg k = Es256 then Some k else None)"
proof -
  let ?m = "[(KInt 1, Uint 2), (KInt 3, SInt (alg_code (ck_alg k))), (KInt (-1), Uint 1),
     (KInt (-2), Bytes (ck_x k)), (KInt (-3), Bytes (ck_y k))]"
  let ?n = "[(KUint 1, Uint 2), (KUint 3, SInt (alg_code (ck_alg k))), (KInt (-1), Uint 1),
     (KInt (-2), Bytes (ck_x k)), (KInt (-3), Bytes (ck_y k))]"
  have wf: "wf_value cap (CMap ?m)" using assms by (cases "ck_alg k") simp_all
  have neg: "alg_code (ck_alg k) < 0" by (cases "ck_alg k") simp_all
  have ord: "sort_key key_order ?n = ?n"
    by (rule sort_key_id_if_sorted)
      (simp add: key_order_def encode_int_def append_uint_def less_eq_prod_def Let_def)
  have "norm (CMap ?m) = CMap ?n"
    using neg ord by (simp add: mixed_value_def)
  then have d: "decode_value cap (encode_cose_ec2 k) = Value (Some (CMap ?n))"
    using decode_encode[OF wf] assms(1) by (simp add: decode_value_def encode_cose_ec2_def)
  have "cose_of_cmap ?n = (if ck_alg k = Es256 then Some k else None)"
    using assms(1-3) by (cases k; cases "ck_alg k") (simp_all add: cose_of_cmap_def find_int_def)
  then show ?thesis by (simp add: decode_cose_ec2_def d)
qed

text \<open>
  A public key survives the wire: decoding an encoded ES256 key on P-256 with 32-byte coordinates returns the
  key, and a key for another algorithm, which this encoder writes as well, is refused by the decoder.\<close>

theorem cose_key_round_trip:
  assumes "ck_crv k = 1" "length (ck_x k) = 32" "length (ck_y k) = 32" "5 \<le> cap"
  shows "decode_cose_ec2 cap (encode_cose_ec2 k) = Value (if ck_alg k = Es256 then Some k else None)"
  by (rule cose_decodes[OF assms])


definition sample_key :: cose_ec2_key where
  "sample_key = \<lparr>ck_alg = Es256, ck_crv = 1, ck_x = replicate 32 1, ck_y = replicate 32 2\<rparr>"

theorem cose_key_round_trip_witness:
  "decode_cose_ec2 5 (encode_cose_ec2 sample_key) = Value (Some sample_key) \<and>
   decode_cose_ec2 5 (encode_cose_ec2 (sample_key\<lparr>ck_alg := Eddsa\<rparr>)) = Value None"
  using cose_key_round_trip[of sample_key 5] cose_key_round_trip[of "sample_key\<lparr>ck_alg := Eddsa\<rparr>" 5]
  by (simp add: sample_key_def)

definition sample_auth_data :: authenticator_data where
  "sample_auth_data = \<lparr>ad_rp_id_hash = replicate 32 7, ad_flags = 5, ad_sign_count = 258,
     ad_attested = Some \<lparr>ac_aaguid = replicate 16 9, ac_credential_id = [1, 2, 3],
       ac_cose_public_key = encode_cose_ec2 sample_key\<rparr>, ad_extensions = []\<rparr>"

theorem auth_data_round_trip_witness:
  "parse_authenticator_data 5 (serialize_authenticator_data sample_auth_data) =
     Value (Some (sample_auth_data\<lparr>ad_flags := 0x45\<rparr>))"
proof -
  have "cbor_item 5 (encode_cose_ec2 sample_key)" by (rule cose_item) (simp_all add: sample_key_def)
  then have "wf_auth_data 5 sample_auth_data"
    by (simp add: wf_auth_data_def wf_attested_def sample_auth_data_def flag_attested_cred_def
        flag_extension_data_def)
  moreover have "final_flags sample_auth_data = 0x45"
    by (simp add: final_flags_def sample_auth_data_def flag_attested_cred_def)
  ultimately show ?thesis using auth_data_round_trip[of 5 sample_auth_data] by (simp only:)
qed

section \<open>Attestation objects\<close>

text \<open>
  What the decoder returns as the statement of an object whose statement is the value \<open>v\<close>: its encoding.
\<close>

lemma fmt_text_small [simp]: "length (fmt_text f) < 18446744073709551616"
  by (cases f) simp_all

lemma outer_decode:
  assumes wf: "wf_value cap v" and len: "length a < 2 ^ 64" "3 \<le> cap"
  shows "decode_value cap (encode (CMap (outer_map f a v))) =
    Value (Some (Map [(ascii ''attStmt'', norm v), (ascii ''authData'', Bytes a), (ascii ''fmt'', Text (fmt_text f))]))"
proof -
  let ?s = "[(ascii ''attStmt'', norm v), (ascii ''authData'', Bytes a), (ascii ''fmt'', Text (fmt_text f))]"
  let ?n = "map (\<lambda>kv. (norm_key (fst kv), norm (snd kv))) (outer_map f a v)"
  let ?m = "sort_key key_order ?n"
  have w: "wf_value cap (CMap (outer_map f a v))" using assms by (simp add: outer_map_def)
  have st: "set ?m = {(KText (ascii ''fmt''), Text (fmt_text f)), (KText (ascii ''authData''), Bytes a),
      (KText (ascii ''attStmt''), norm v)}"
    unfolding set_sort by (simp add: outer_map_def)
  have "sort_key fst (map (\<lambda>kv. (text_of_key (fst kv), snd kv)) ?m) = ?s"
  proof (rule sort_key_unique)
    show "set ?s = set (map (\<lambda>kv. (text_of_key (fst kv), snd kv)) ?m)" unfolding set_map st by auto
    have "distinct (map fst ?n)" by (simp add: outer_map_def)
    then have "distinct (map fst ?m)" unfolding distinct_map set_sort distinct_sort .
    moreover have "inj_on text_of_key (fst ` set ?m)" unfolding st by (auto simp: inj_on_def)
    ultimately have "distinct (map text_of_key (map fst ?m))" by (simp only: distinct_map set_map)
    then show "distinct (map fst (map (\<lambda>kv. (text_of_key (fst kv), snd kv)) ?m))" by (simp add: o_def)
    show "distinct (map fst ?s)" by simp
    show "sorted (map fst ?s)" by (simp add: ascii_def)
  qed
  moreover have "list_all (\<lambda>kv. is_text (fst kv)) ?m" unfolding list_all_iff st by simp
  ultimately have "norm (CMap (outer_map f a v)) = Map ?s" by (simp only: norm.simps mixed_value_def if_True)
  then show ?thesis using decode_encode[OF w] by (simp add: decode_value_def)
qed

lemma attestation_of_outer:
  "attestation_of (Map [(ascii ''attStmt'', w), (ascii ''authData'', Bytes a), (ascii ''fmt'', Text (fmt_text f))]) =
     Some \<lparr>ao_fmt = f, ao_auth_data = a, ao_att_stmt_cbor = encode w\<rparr>"
  by (cases f) (simp_all add: attestation_of_def)

lemma decode_outer:
  assumes wf: "wf_value cap v" and len: "length a < 2 ^ 64" "3 \<le> cap"
  shows "decode_attestation_object cap (encode (CMap (outer_map f a v))) =
    Value (Some \<lparr>ao_fmt = f, ao_auth_data = a, ao_att_stmt_cbor = encode v\<rparr>)"
  by (simp only: decode_attestation_object_def outer_decode[OF assms] outcome.case option.case cbor_value.case
      attestation_of_outer encode_norm[OF wf])

text \<open>
  Attestation objects survive the wire. When the statement is absent, or is the encoding of a well-formed CBOR
  value, encoding the object succeeds and decoding the result returns its format, its authenticator
  data and its statement; an absent statement comes back as the empty map.\<close>

theorem attestation_round_trip:
  assumes "length (ao_auth_data a) < 2 ^ 64" "3 \<le> cap"
    and "ao_att_stmt_cbor a = [] \<or> (\<exists>v. wf_value cap v \<and> ao_att_stmt_cbor a = encode v)"
  shows "\<exists>bs. encode_attestation_object cap a = Value bs \<and>
    decode_attestation_object cap bs =
      Value (Some (a\<lparr>ao_att_stmt_cbor := if ao_att_stmt_cbor a = [] then [0xA0] else ao_att_stmt_cbor a\<rparr>))"
proof (cases "ao_att_stmt_cbor a = []")
  case True
  have "wf_value cap (CMap [])" "encode (CMap []) = [0xA0]" by (simp_all add: append_uint_def)
  then show ?thesis
    using decode_outer[of cap "CMap []" "ao_auth_data a" "ao_fmt a"] assms(1,2) True
    by (cases a) (simp add: encode_attestation_object_def)
next
  case False
  then obtain v where v: "wf_value cap v" "ao_att_stmt_cbor a = encode v" using assms(3) by blast
  have n: "encode (norm v) = encode v" by (rule encode_norm[OF v(1)])
  have "decode_value cap (ao_att_stmt_cbor a) = Value (Some (norm v))"
    using decode_encode[OF v(1)] v(2) by (simp add: decode_value_def)
  moreover have "encode (CMap (outer_map f x (norm v))) = encode (CMap (outer_map f x v))" for f x
    using n by (simp add: outer_map_def)
  ultimately show ?thesis
    using decode_outer[OF v(1) assms(1,2), of "ao_fmt a"] False v(2)
    by (cases a) (simp add: encode_attestation_object_def)
qed

theorem attestation_round_trip_witness:
  "\<exists>bs. encode_attestation_object 3 \<lparr>ao_fmt = Fmt_packed, ao_auth_data = [1, 2], ao_att_stmt_cbor = encode (Uint 5)\<rparr> = Value bs \<and>
    decode_attestation_object 3 bs =
      Value (Some \<lparr>ao_fmt = Fmt_packed, ao_auth_data = [1, 2], ao_att_stmt_cbor = encode (Uint 5)\<rparr>)"
proof -
  let ?a = "\<lparr>ao_fmt = Fmt_packed, ao_auth_data = [1, 2], ao_att_stmt_cbor = encode (Uint 5)\<rparr>"
  have l: "length (ao_auth_data ?a) < 2 ^ 64" "3 \<le> (3 :: nat)" by simp_all
  have "wf_value 3 (Uint 5)" "ao_att_stmt_cbor ?a = encode (Uint 5)" by simp_all
  then have "ao_att_stmt_cbor ?a = [] \<or> (\<exists>v. wf_value 3 v \<and> ao_att_stmt_cbor ?a = encode v)" by blast
  from attestation_round_trip[OF l this] show ?thesis by simp
qed

end
