(* ===== verification/Webauthn_Ops.thy ===== *)
theory Webauthn_Ops
  imports Webauthn_Correct "HOL-Library.Multiset"
begin

text \<open>
  The operations of the virtual authenticator: the invariant of its credentials, what registration hands
  out, what an assertion signs and counts, and that what was registered can be used.
\<close>

section \<open>Credential maps\<close>

lemma map_of_assign_cred: "sorted_wrt (<) (map fst m) \<Longrightarrow> map_of (assign_cred k v m) = (map_of m)(k \<mapsto> v)"
proof (induction k v m rule: assign_cred.induct)
  case (2 k v k' v' m)
  then have "k < k' \<Longrightarrow> map_of m k = None"
    by (auto simp: map_of_eq_None_iff dest: less_trans)
  then show ?case using 2 by auto
qed simp

lemma set_assign_cred: "set (assign_cred k v m) \<subseteq> insert (k, v) (set m)"
  by (induction k v m rule: assign_cred.induct) auto

lemma sorted_assign_cred: "sorted_wrt (<) (map fst m) \<Longrightarrow> sorted_wrt (<) (map fst (assign_cred k v m))"
proof (induction k v m rule: assign_cred.induct)
  case (2 k v k' v' m)
  show ?case
  proof (cases "k < k'")
    case True
    then show ?thesis using 2 by (auto dest: less_trans)
  next
    case False
    then show ?thesis using 2 set_assign_cred[of k v m] by (cases "k = k'") fastforce+
  qed
qed simp

lemma assign_cred_same:
  "sorted_wrt (<) (map fst m) \<Longrightarrow> map_of m k = Some v \<Longrightarrow> assign_cred k v m = m"
proof (induction k v m rule: assign_cred.induct)
  case (2 k v k' v' m)
  show ?case
  proof (cases "k = k'")
    case False
    then have "map_of m k = Some v" using 2 by simp
    then have "k \<in> fst ` set m" by (metis domI dom_map_of_conv_image_fst)
    then have "k' < k" using 2 by auto
    then show ?thesis using 2 False by auto
  qed (use 2 in auto)
qed simp

text \<open>
  The invariant: identifiers ascend, every credential is filed under its own identifier, and the fields
  that are copied into fixed arrays or handed to the curve have the right size.
\<close>

definition cred_ok :: "bytes \<Rightarrow> virtual_credential \<Rightarrow> bool" where
  "cred_ok k c \<longleftrightarrow> vc_credential_id c = k \<and> length (vc_rp_id_hash c) = 32 \<and> ck_crv (vc_public_key c) = 1"

definition authenticator_ok :: "('g, 'j) authenticator \<Rightarrow> bool" where
  "authenticator_ok va \<longleftrightarrow> sorted_wrt (<) (map fst (va_credentials va)) \<and>
     (\<forall>k c. map_of (va_credentials va) k = Some c \<longrightarrow> cred_ok k c)"

lemma authenticator_ok_assign:
  assumes "authenticator_ok va" "cred_ok k c"
  shows "authenticator_ok (va\<lparr>va_credentials := assign_cred k c (va_credentials va), va_jar := j, va_rng := g\<rparr>)"
  using assms map_of_assign_cred[of "va_credentials va" k c] sorted_assign_cred[of "va_credentials va" k c]
  by (simp add: authenticator_ok_def)

lemma authenticator_ok_fields:
  "authenticator_ok (va\<lparr>va_rng := g\<rparr>) = authenticator_ok va"
  "authenticator_ok (va\<lparr>va_user_verified := b\<rparr>) = authenticator_ok va"
  by (simp_all add: authenticator_ok_def)

section \<open>What the environment provides\<close>

text \<open>
  Documented behaviour of the cryptographic library: digests have 32 bytes, coordinates and scalars
  exported into a 32-byte array have 32 bytes and the generator fills the buffer it is given.
\<close>

definition platform_sizes :: "('g, 'k, 'j) platform \<Rightarrow> bool" where
  "platform_sizes pf \<longleftrightarrow> (\<forall>s. length (pf_sha256 pf s) = 32) \<and>
     (\<forall>k x y. pf_export_xy pf k = Inr (x, y) \<longrightarrow> length x = 32 \<and> length y = 32) \<and>
     (\<forall>k d. pf_export_d pf k = Inr d \<longrightarrow> length d = 32) \<and>
     (\<forall>n g b g'. pf_random pf n g = (Inr b, g') \<longrightarrow> length b = n)"

text \<open>A generated key can be exported, loaded again and used, and its signatures verify.\<close>

definition platform_signs :: "('g, 'k, 'j) platform \<Rightarrow> bool" where
  "platform_signs pf \<longleftrightarrow> (\<forall>k x y d. pf_export_xy pf k = Inr (x, y) \<longrightarrow> pf_export_d pf k = Inr d \<longrightarrow>
     (\<exists>k'. pf_load_private pf \<lparr>ck_alg = Es256, ck_crv = 1, ck_x = x, ck_y = y\<rparr> d = Some k' \<and>
       (\<forall>digest g. \<exists>sig g'. pf_sign pf k' digest g = (Inr sig, g') \<and>
          pf_verify pf \<lparr>ck_alg = Es256, ck_crv = 1, ck_x = x, ck_y = y\<rparr> digest sig)))"

section \<open>Registration\<close>

text \<open>A registration that succeeds, step by step.\<close>

lemma register_cases:
  assumes r: "register_credential cap pf opts origin va = (res, va')"
  obtains (refused) e g where "res = Error e" "va' = va\<lparr>va_rng := g\<rparr>"
  | (finish) key x y d cid g where
      "validate_creation_options opts = []" "contains_es256 (co_pub_key_params opts)"
      "origin_matches origin (co_rp_id opts)"
      "pf_export_xy pf key = Inr (x, y)" "pf_export_d pf key = Inr d" "\<exists>g0 g1. pf_random pf 32 g0 = (Inr cid, g1)"
      "register_finish cap pf opts
         (build_client_data (pf_sha256 pf) Create (co_challenge opts) origin False) key
         \<lparr>ck_alg = Es256, ck_crv = 1, ck_x = x, ck_y = y\<rparr> d cid (va\<lparr>va_rng := g\<rparr>) = (res, va')"
proof (cases "validate_creation_options opts = [] \<and> contains_es256 (co_pub_key_params opts) \<and>
    origin_matches origin (co_rp_id opts)")
  case False
  then obtain e where "res = Error e" "va' = va\<lparr>va_rng := va_rng va\<rparr>"
    using r by (cases "validate_creation_options opts = []"; cases "contains_es256 (co_pub_key_params opts)")
      (auto simp: register_credential_def Let_def)
  then show thesis by (rule refused)
next
  case True
  note r' = r[unfolded register_credential_def Let_def, simplified True, simplified]
  obtain k g where gk: "pf_genkey pf (va_rng va) = (k, g)" by fastforce
  show thesis
  proof (cases k)
    case (Inl rc)
    then show ?thesis using r' gk by (intro refused) auto
  next
    case key: (Inr key)
    show ?thesis
    proof (cases "pf_export_xy pf key")
      case (Inl rc)
      then show ?thesis using r' gk key by (intro refused) auto
    next
      case xy: (Inr p)
      obtain x y where p: "p = (x, y)" by fastforce
      show ?thesis
      proof (cases "pf_export_d pf key")
        case (Inl rc)
        then show ?thesis using r' gk key xy p by (intro refused) auto
      next
        case d: (Inr d)
        obtain c g2 where rn: "pf_random pf 32 g = (c, g2)" by fastforce
        show ?thesis
        proof (cases c)
          case (Inl rc)
          then show ?thesis using r' gk key xy p d rn by (intro refused) auto
        next
          case (Inr cid)
          then show ?thesis using r' gk key xy p d rn True by (intro finish) auto
        qed
      qed
    qed
  qed
qed

lemma length_encode_CMap:
  "length (encode (CMap kvs)) = length (append_uint 5 (of_nat (length kvs))) +
     sum_list (map (\<lambda>kv. length (encode_key (fst kv)) + length (encode (snd kv))) kvs)"
proof -
  let ?f = "\<lambda>kv. length (encode_key (fst kv)) + length (encode (snd kv))"
  have "sum_list (map ?f (sort_key key_order kvs)) = sum_list (map ?f kvs)"
    unfolding sum_mset_sum_list[symmetric] mset_map mset_sort ..
  then show ?thesis by (simp only: encode_CMap encode_entries_def length_append length_concat map_map o_def length_sort)
qed

lemma cose_length:
  assumes "length x = 32" "length y = 32"
  shows "length (encode_cose_ec2 \<lparr>ck_alg = Es256, ck_crv = 1, ck_x = x, ck_y = y\<rparr>) = 77"
proof -
  have "encode_cose_ec2 \<lparr>ck_alg = Es256, ck_crv = 1, ck_x = x, ck_y = y\<rparr> =
      encode (CMap [(KInt 1, Uint 2), (KInt 3, SInt (-7)), (KInt (-1), Uint 1), (KInt (-2), Bytes x),
        (KInt (-3), Bytes y)])"
    by (simp add: encode_cose_ec2_def del: encode.simps)
  moreover have "length (append_uint 5 5) = 1" "length (append_uint 2 32) = 2" "length (append_uint 0 1) = 1"
    "length (append_uint 0 3) = 1" "length (append_uint 0 2) = 1" "length (append_uint 1 6) = 1"
    "length (append_uint 1 0) = 1" "length (append_uint 1 1) = 1" "length (append_uint 1 2) = 1"
    by (simp_all add: append_uint_def be_bytes_def)
  ultimately show ?thesis
    using assms by (simp add: length_encode_CMap encode_int_def encode_string_def del: encode.simps(9))
qed

text \<open>Registration proper cannot fail any more except for the export of the public key.\<close>

lemma register_finish_form:
  assumes pf: "platform_sizes pf" and cap: "5 \<le> cap" and len: "length x = 32" "length y = 32" "length cid = 32"
    and pub: "pub = \<lparr>ck_alg = Es256, ck_crv = 1, ck_x = x, ck_y = y\<rparr>"
    and r: "register_finish cap pf opts client key pub d cid va = (res, va')"
  shows "pf_spki_der pf key = [] \<and> (\<exists>e. res = Error e \<and> va' = va) \<or>
    (\<exists>resp auth c. res = Ok resp \<and> rr_credential_id resp = cid \<and> rr_client_data_json resp = cd_json client \<and>
       decode_attestation_object cap (rr_attestation_object resp) =
         Value (Some \<lparr>ao_fmt = Fmt_none, ao_auth_data = auth, ao_att_stmt_cbor = [0xA0]\<rparr>) \<and>
       parse_authenticator_data cap auth = Value (Some
         \<lparr>ad_rp_id_hash = pf_sha256 pf (co_rp_id opts),
          ad_flags = uv_flags (va_user_verified va) OR flag_attested_cred, ad_sign_count = 0,
          ad_attested = Some \<lparr>ac_aaguid = aaguid, ac_credential_id = cid,
            ac_cose_public_key = encode_cose_ec2 pub\<rparr>, ad_extensions = []\<rparr>) \<and>
       c = \<lparr>vc_credential_id = cid, vc_rp_id_hash = pf_sha256 pf (co_rp_id opts), vc_rp_id = co_rp_id opts,
         vc_user = co_user opts, vc_private_key_d = d, vc_public_key = pub, vc_sign_count = 0,
         vc_user_verified = va_user_verified va, vc_resident = True\<rparr> \<and>
       va' = va\<lparr>va_credentials := assign_cred cid c (va_credentials va),
         va_jar := map_option (pf_jar_upsert pf c) (va_jar va)\<rparr>)"
proof -
  let ?d = "\<lparr>ad_rp_id_hash = pf_sha256 pf (co_rp_id opts),
     ad_flags = uv_flags (va_user_verified va) OR flag_attested_cred, ad_sign_count = 0,
     ad_attested = Some \<lparr>ac_aaguid = aaguid, ac_credential_id = cid,
       ac_cose_public_key = encode_cose_ec2 pub\<rparr>, ad_extensions = []\<rparr>"
  let ?auth = "serialize_authenticator_data ?d"
  have item: "cbor_item cap (encode_cose_ec2 pub)" using cose_item[of pub cap] len cap pub by simp
  have sha: "length (pf_sha256 pf s) = 32" for s using pf by (simp add: platform_sizes_def)
  have uv: "(uv_flags b OR flag_attested_cred) AND flag_extension_data = 0" for b
    by (cases b) (simp_all add: uv_flags_def flag_attested_cred_def flag_extension_data_def
        flag_user_present_def flag_user_verified_def)
  have wf: "wf_auth_data cap ?d"
    using item sha len uv by (simp add: wf_auth_data_def wf_attested_def aaguid_def)
  have "final_flags ?d = uv_flags (va_user_verified va) OR flag_attested_cred"
    by (simp add: final_flags_def or.assoc)
  then have parse: "parse_authenticator_data cap ?auth = Value (Some ?d)"
    using parse_serialized[OF wf] by simp
  have cose: "encode_cose_ec2 pub \<noteq> []" by (simp add: pub encode_cose_ec2_def del: encode.simps)
  have ne: "?auth \<noteq> []" by (simp add: serialize_authenticator_data_def)
  let ?a = "encode (CMap (outer_map Fmt_none ?auth (CMap [])))"
  have "length ?auth < 2 ^ 64"
    using len sha cose_length[OF len(1,2)] pub
    by (simp add: serialize_authenticator_data_def append_u16_be_def append_u32_be_def aaguid_def)
  then have att: "decode_attestation_object cap ?a =
      Value (Some \<lparr>ao_fmt = Fmt_none, ao_auth_data = ?auth, ao_att_stmt_cbor = [0xA0]\<rparr>)"
    using decode_outer[of cap "CMap []" ?auth Fmt_none] cap by (simp add: append_uint_def)
  have enc: "encode_attestation_object cap \<lparr>ao_fmt = Fmt_none, ao_auth_data = ?auth, ao_att_stmt_cbor = []\<rparr> = Value ?a"
    by (simp add: encode_attestation_object_def del: encode.simps)
  show ?thesis
  proof (cases "pf_spki_der pf key = []")
    case True
    then show ?thesis using r cose ne unfolding register_finish_def Let_def enc by auto
  next
    case False
    then show ?thesis using r cose ne att parse unfolding register_finish_def Let_def enc
      by (intro disjI2) (auto simp del: encode.simps)
  qed
qed


text \<open>A registration that succeeded with response \<open>resp\<close>, credential \<open>c\<close> and key pair \<open>key\<close>.\<close>

definition registers ::
  "nat \<Rightarrow> ('g, 'k, 'j) platform \<Rightarrow> creation_options \<Rightarrow> bytes \<Rightarrow> ('g, 'j) authenticator \<Rightarrow> register_response \<Rightarrow>
   ('g, 'j) authenticator \<Rightarrow> bytes \<Rightarrow> virtual_credential \<Rightarrow> 'k \<Rightarrow> bool" where
  "registers cap pf opts origin va resp va' auth c key \<longleftrightarrow>
     validate_creation_options opts = [] \<and> origin_matches origin (co_rp_id opts) \<and>
     length (rr_credential_id resp) = 32 \<and> length (vc_private_key_d c) = 32 \<and>
     pf_export_xy pf key = Inr (ck_x (vc_public_key c), ck_y (vc_public_key c)) \<and>
     pf_export_d pf key = Inr (vc_private_key_d c) \<and>
     ck_alg (vc_public_key c) = Es256 \<and> ck_crv (vc_public_key c) = 1 \<and>
     length (ck_x (vc_public_key c)) = 32 \<and> length (ck_y (vc_public_key c)) = 32 \<and>
     rr_client_data_json resp =
       cd_json (build_client_data (pf_sha256 pf) Create (co_challenge opts) origin False) \<and>
     decode_attestation_object cap (rr_attestation_object resp) =
       Value (Some \<lparr>ao_fmt = Fmt_none, ao_auth_data = auth, ao_att_stmt_cbor = [0xA0]\<rparr>) \<and>
     parse_authenticator_data cap auth = Value (Some
       \<lparr>ad_rp_id_hash = pf_sha256 pf (co_rp_id opts),
        ad_flags = uv_flags (va_user_verified va) OR flag_attested_cred, ad_sign_count = 0,
        ad_attested = Some \<lparr>ac_aaguid = aaguid, ac_credential_id = rr_credential_id resp,
          ac_cose_public_key = encode_cose_ec2 (vc_public_key c)\<rparr>, ad_extensions = []\<rparr>) \<and>
     vc_credential_id c = rr_credential_id resp \<and> vc_rp_id_hash c = pf_sha256 pf (co_rp_id opts) \<and>
     vc_rp_id c = co_rp_id opts \<and> vc_user c = co_user opts \<and> vc_sign_count c = 0 \<and>
     (\<exists>g. va' = va\<lparr>va_rng := g, va_credentials := assign_cred (rr_credential_id resp) c (va_credentials va),
         va_jar := map_option (pf_jar_upsert pf c) (va_jar va)\<rparr>)"

lemma register_form:
  assumes pf: "platform_sizes pf" and cap: "5 \<le> cap" and r: "register_credential cap pf opts origin va = (res, va')"
  shows "(\<exists>e g. res = Error e \<and> va' = va\<lparr>va_rng := g\<rparr>) \<or>
    (\<exists>resp auth c key. res = Ok resp \<and> registers cap pf opts origin va resp va' auth c key)"
  using r
proof (cases rule: register_cases)
  case (refused e g)
  then show ?thesis by blast
next
  case (finish key x y d cid g)
  have len: "length x = 32" "length y = 32" "length cid = 32" "length d = 32"
    using pf finish unfolding platform_sizes_def by blast+
  from register_finish_form[OF pf cap len(1-3) refl finish(7)] show ?thesis
  proof (elim disjE exE conjE)
    fix e assume "res = Error e" "va' = va\<lparr>va_rng := g\<rparr>"
    then show ?thesis by blast
  next
    fix resp auth c
    assume "res = Ok resp" "rr_credential_id resp = cid"
      "rr_client_data_json resp = cd_json (build_client_data (pf_sha256 pf) Create (co_challenge opts) origin False)"
      "decode_attestation_object cap (rr_attestation_object resp) =
         Value (Some \<lparr>ao_fmt = Fmt_none, ao_auth_data = auth, ao_att_stmt_cbor = [0xA0]\<rparr>)"
      "parse_authenticator_data cap auth = Value (Some
         \<lparr>ad_rp_id_hash = pf_sha256 pf (co_rp_id opts),
          ad_flags = uv_flags (va_user_verified (va\<lparr>va_rng := g\<rparr>)) OR flag_attested_cred, ad_sign_count = 0,
          ad_attested = Some \<lparr>ac_aaguid = aaguid, ac_credential_id = cid,
            ac_cose_public_key = encode_cose_ec2 \<lparr>ck_alg = Es256, ck_crv = 1, ck_x = x, ck_y = y\<rparr>\<rparr>,
          ad_extensions = []\<rparr>)"
      "c = \<lparr>vc_credential_id = cid, vc_rp_id_hash = pf_sha256 pf (co_rp_id opts), vc_rp_id = co_rp_id opts,
         vc_user = co_user opts, vc_private_key_d = d,
         vc_public_key = \<lparr>ck_alg = Es256, ck_crv = 1, ck_x = x, ck_y = y\<rparr>, vc_sign_count = 0,
         vc_user_verified = va_user_verified (va\<lparr>va_rng := g\<rparr>), vc_resident = True\<rparr>"
      "va' = va\<lparr>va_rng := g, va_credentials := assign_cred cid c (va_credentials (va\<lparr>va_rng := g\<rparr>)),
         va_jar := map_option (pf_jar_upsert pf c) (va_jar (va\<lparr>va_rng := g\<rparr>))\<rparr>"
    then show ?thesis
      using finish(1,3-5) len
      by (intro disjI2 exI[of _ resp] exI[of _ auth] exI[of _ c] exI[of _ key])
        (auto simp: registers_def)
  qed
qed

text \<open>Registration goes through when the options and the origin do and the environment does not fail.\<close>

lemma register_succeeds:
  assumes "platform_sizes pf" "5 \<le> cap" "validate_creation_options opts = []"
    "contains_es256 (co_pub_key_params opts)" "origin_matches origin (co_rp_id opts)"
    and "pf_genkey pf (va_rng va) = (Inr key, g)" "pf_export_xy pf key = Inr (x, y)" "pf_export_d pf key = Inr d"
      "pf_random pf 32 g = (Inr cid, g')" "pf_spki_der pf key \<noteq> []"
  shows "\<exists>resp va'. register_credential cap pf opts origin va = (Ok resp, va') \<and> rr_credential_id resp = cid"
proof -
  have len: "length x = 32" "length y = 32" "length cid = 32"
    using assms(1,7,9) unfolding platform_sizes_def by blast+
  obtain res va' where r: "register_finish cap pf opts
      (build_client_data (pf_sha256 pf) Create (co_challenge opts) origin False) key
      \<lparr>ck_alg = Es256, ck_crv = 1, ck_x = x, ck_y = y\<rparr> d cid (va\<lparr>va_rng := g'\<rparr>) = (res, va')"
    by fastforce
  then have "register_credential cap pf opts origin va = (res, va')"
    using assms by (simp add: register_credential_def)
  moreover have "\<exists>resp. res = Ok resp \<and> rr_credential_id resp = cid"
    using register_finish_form[OF assms(1,2) len refl r] assms(10) by blast
  ultimately show ?thesis by blast
qed

text \<open>C23:
  What registration hands out is what it stored. When it succeeds, the origin's host is the relying party or
  below it, the attestation object decodes to authenticator data that parses to the digest of the relying
  party, a counter of zero, the presence and verification flags and the new identifier, with a key that
  decodes to the public key of the stored credential; no other credential changes.\<close>

theorem registration_attests_stored_key:
  assumes "platform_sizes pf" "5 \<le> cap" "authenticator_ok va"
    and "register_credential cap pf opts origin va = (Ok resp, va')"
  shows "origin_matches origin (co_rp_id opts) \<and>
    (\<exists>auth cose c. decode_attestation_object cap (rr_attestation_object resp) =
         Value (Some \<lparr>ao_fmt = Fmt_none, ao_auth_data = auth, ao_att_stmt_cbor = [0xA0]\<rparr>) \<and>
       parse_authenticator_data cap auth = Value (Some
         \<lparr>ad_rp_id_hash = pf_sha256 pf (co_rp_id opts),
          ad_flags = uv_flags (va_user_verified va) OR flag_attested_cred, ad_sign_count = 0,
          ad_attested = Some \<lparr>ac_aaguid = aaguid, ac_credential_id = rr_credential_id resp,
            ac_cose_public_key = cose\<rparr>, ad_extensions = []\<rparr>) \<and>
       decode_cose_ec2 cap cose = Value (Some (vc_public_key c)) \<and>
       vc_rp_id c = co_rp_id opts \<and> vc_user c = co_user opts \<and> vc_sign_count c = 0 \<and>
       map_of (va_credentials va') = (map_of (va_credentials va))(rr_credential_id resp \<mapsto> c))"
proof -
  have s: "sorted_wrt (<) (map fst (va_credentials va))" using assms(3) by (simp add: authenticator_ok_def)
  obtain auth c key where f: "registers cap pf opts origin va resp va' auth c key"
    using register_form[OF assms(1,2,4)] by auto
  then have k: "ck_crv (vc_public_key c) = 1" "length (ck_x (vc_public_key c)) = 32"
      "length (ck_y (vc_public_key c)) = 32" "ck_alg (vc_public_key c) = Es256"
    by (simp_all add: registers_def)
  have "decode_cose_ec2 cap (encode_cose_ec2 (vc_public_key c)) = Value (Some (vc_public_key c))"
    using cose_decodes[OF k(1-3) assms(2)] k(4) by simp
  moreover have "va_credentials va' = assign_cred (rr_credential_id resp) c (va_credentials va)"
    using f by (auto simp: registers_def)
  ultimately show ?thesis using f map_of_assign_cred[OF s] unfolding registers_def by metis
qed


section \<open>Assertion\<close>

lemma first_allowed_spec:
  "first_allowed m rp ids = Some (cid, c) \<Longrightarrow> map_of m cid = Some c \<and> vc_rp_id c = rp \<and> cid \<in> set ids"
  by (induction m rp ids rule: first_allowed.induct) (auto split: option.splits if_splits)

lemma first_resident_spec:
  "sorted_wrt (<) (map fst m) \<Longrightarrow> first_resident rp m = Some (cid, c) \<Longrightarrow>
   map_of m cid = Some c \<and> vc_rp_id c = rp \<and> vc_resident c"
proof (induction rp m rule: first_resident.induct)
  case (2 rp k c' m)
  have "map_of m k = None" using 2(2) by (auto simp: map_of_eq_None_iff)
  then show ?case using 2 by (auto split: if_splits)
qed simp

lemma select_credential_spec:
  assumes "authenticator_ok va" "select_credential opts (va_credentials va) = Some (cid, c)"
  shows "map_of (va_credentials va) cid = Some c" "vc_rp_id c = ro_rp_id opts"
    "ro_allow_credentials opts \<noteq> [] \<Longrightarrow> cid \<in> set (ro_allow_credentials opts)" "cred_ok cid c"
    "ro_allow_credentials opts = [] \<Longrightarrow> vc_resident c"
  using assms first_allowed_spec[of "va_credentials va" "ro_rp_id opts" "ro_allow_credentials opts" cid c]
    first_resident_spec[of "va_credentials va" "ro_rp_id opts" cid c]
  by (auto simp: select_credential_def authenticator_ok_def split: if_splits)

text \<open>The data an assertion signs.\<close>

definition assertion_data :: "bool \<Rightarrow> virtual_credential \<Rightarrow> authenticator_data" where
  "assertion_data verified c =
     \<lparr>ad_rp_id_hash = take 32 (vc_rp_id_hash c), ad_flags = uv_flags verified,
      ad_sign_count = vc_sign_count c + 1, ad_attested = None, ad_extensions = []\<rparr>"

lemma assert_cases:
  assumes ok: "authenticator_ok va" and r: "assert_credential pf opts origin va = (res, va')"
  obtains (refused) e g where "res = Error e" "va' = va\<lparr>va_rng := g\<rparr>"
  | (signed) cid c signer sig g where
      "origin_matches origin (ro_rp_id opts)" "select_credential opts (va_credentials va) = Some (cid, c)"
      "load_private_key pf c = Some signer"
      "pf_sign pf signer (pf_sha256 pf (serialize_authenticator_data (assertion_data (va_user_verified va) c) @
          cd_hash (build_client_data (pf_sha256 pf) Get (ro_challenge opts) origin False))) (va_rng va) = (Inr sig, g)"
      "res = Ok \<lparr>ar_credential_id = vc_credential_id c,
          ar_authenticator_data = serialize_authenticator_data (assertion_data (va_user_verified va) c),
          ar_client_data_json =
            cd_json (build_client_data (pf_sha256 pf) Get (ro_challenge opts) origin False),
          ar_signature = sig, ar_user_handle = ue_id (vc_user c)\<rparr>"
      "va' = va\<lparr>va_rng := g,
          va_credentials := assign_cred cid (c\<lparr>vc_sign_count := vc_sign_count c + 1\<rparr>) (va_credentials va),
          va_jar := map_option (pf_jar_bump pf (vc_credential_id c) (vc_sign_count c + 1)) (va_jar va)\<rparr>"
proof (cases "validate_request_options opts = [] \<and> origin_matches origin (ro_rp_id opts)")
  case False
  then obtain e where "res = Error e" "va' = va\<lparr>va_rng := va_rng va\<rparr>"
    using r by (cases "validate_request_options opts = []") (auto simp: assert_credential_def Let_def)
  then show thesis by (rule refused)
next
  case True
  note r' = r[unfolded assert_credential_def Let_def, simplified True, simplified]
  show thesis
  proof (cases "select_credential opts (va_credentials va)")
    case None
    then have "res = Error (ascii ''no credential available'')" "va' = va\<lparr>va_rng := va_rng va\<rparr>"
      using r' by auto
    then show ?thesis by (rule refused)
  next
    case (Some p)
    obtain cid c where p: "p = (cid, c)" by fastforce
    note sel = select_credential_spec[OF ok Some[unfolded p]]
    show ?thesis
    proof (cases "load_private_key pf c")
      case None
      then have "res = Error (ascii ''failed to load credential key'')" "va' = va\<lparr>va_rng := va_rng va\<rparr>"
        using r' Some p by auto
      then show ?thesis by (rule refused)
    next
      case key: (Some signer)
      let ?digest = "pf_sha256 pf (serialize_authenticator_data (assertion_data (va_user_verified va) c) @
          cd_hash (build_client_data (pf_sha256 pf) Get (ro_challenge opts) origin False))"
      obtain out g where sg: "pf_sign pf signer ?digest (va_rng va) = (out, g)" by fastforce
      show ?thesis
      proof (cases out)
        case (Inl rc)
        have "assign_cred cid (c\<lparr>vc_sign_count := vc_sign_count c\<rparr>) (va_credentials va) = va_credentials va"
          using assign_cred_same[of "va_credentials va" cid c] ok sel(1) by (simp add: authenticator_ok_def)
        then have "res = Error (ascii ''signature failed: '' @ pf_err_str pf rc)" "va' = va\<lparr>va_rng := g\<rparr>"
          using r' Some p key sg Inl by (simp_all add: assertion_data_def)
        then show ?thesis by (rule refused)
      next
        case (Inr sig)
        then show ?thesis
          using r' Some p key sg True by (intro signed[of cid c signer sig g]) (simp_all add: assertion_data_def)
      qed
    qed
  qed
qed

lemma assertion_data_parse:
  assumes "cred_ok cid c"
  shows "parse_authenticator_data cap (serialize_authenticator_data (assertion_data b c)) =
    Value (Some (assertion_data b c))"
proof -
  have uv: "uv_flags b AND flag_attested_cred = 0" "uv_flags b AND flag_extension_data = 0"
    by (cases b; simp add: uv_flags_def flag_attested_cred_def flag_extension_data_def
        flag_user_present_def flag_user_verified_def)+
  have "wf_auth_data cap (assertion_data b c)"
    using assms uv by (simp add: wf_auth_data_def assertion_data_def cred_ok_def)
  from parse_serialized[OF this] show ?thesis by (simp add: final_flags_def assertion_data_def)
qed

text \<open>An assertion goes through when the request, the origin, the credential and the signature do.\<close>

lemma assert_succeeds:
  assumes "validate_request_options opts = []" "origin_matches origin (ro_rp_id opts)"
    "select_credential opts (va_credentials va) = Some (cid, c)" "load_private_key pf c = Some signer"
    and sign: "\<And>digest g. \<exists>sig g'. pf_sign pf signer digest g = (Inr sig, g')"
  shows "\<exists>resp va'. assert_credential pf opts origin va = (Ok resp, va') \<and> ar_credential_id resp = vc_credential_id c"
proof -
  obtain sig g where "pf_sign pf signer (pf_sha256 pf (serialize_authenticator_data
        (assertion_data (va_user_verified va) c) @
      cd_hash (build_client_data (pf_sha256 pf) Get (ro_challenge opts) origin False))) (va_rng va) = (Inr sig, g)"
    using sign by blast
  then show ?thesis using assms(1-4) by (simp add: assert_credential_def assertion_data_def Let_def)
qed

text \<open>C20:
  An assertion is scoped, counted and signed. When it succeeds, the origin's host is the relying party or below
  it, and the credential used belongs to that relying party and is one of those the request lists or, when it
  lists none, is resident. The returned authenticator data parses to the credential's digest and its counter
  plus one; the returned client data is that of the request's challenge and the origin; and the returned
  signature is the one that the credential's private key gives for the digest of this authenticator data
  followed by the hash of this client data. Exactly this credential's counter is advanced by one in the store
  and in the database, and nothing else changes there.\<close>

theorem assertion_scoped_and_counted:
  assumes "authenticator_ok va" "assert_credential pf opts origin va = (Ok resp, va')"
  shows "origin_matches origin (ro_rp_id opts) \<and>
    (\<exists>c signer g. map_of (va_credentials va) (ar_credential_id resp) = Some c \<and> vc_rp_id c = ro_rp_id opts \<and>
       (if ro_allow_credentials opts = [] then vc_resident c
        else ar_credential_id resp \<in> set (ro_allow_credentials opts)) \<and>
       ar_user_handle resp = ue_id (vc_user c) \<and>
       parse_authenticator_data cap (ar_authenticator_data resp) = Value (Some
         \<lparr>ad_rp_id_hash = vc_rp_id_hash c, ad_flags = uv_flags (va_user_verified va),
          ad_sign_count = vc_sign_count c + 1, ad_attested = None, ad_extensions = []\<rparr>) \<and>
       ar_client_data_json resp = cd_json (build_client_data (pf_sha256 pf) Get (ro_challenge opts) origin False) \<and>
       load_private_key pf c = Some signer \<and>
       pf_sign pf signer (pf_sha256 pf (ar_authenticator_data resp @ pf_sha256 pf (ar_client_data_json resp))) (va_rng va) =
         (Inr (ar_signature resp), g) \<and>
       map_of (va_credentials va') = (map_of (va_credentials va))
         (ar_credential_id resp \<mapsto> c\<lparr>vc_sign_count := vc_sign_count c + 1\<rparr>) \<and>
       va_jar va' = map_option (pf_jar_bump pf (ar_credential_id resp) (vc_sign_count c + 1)) (va_jar va))"
  using assms
proof (cases rule: assert_cases)
  case (signed cid c signer sig g)
  note sel = select_credential_spec[OF assms(1) signed(2)]
  have s: "sorted_wrt (<) (map fst (va_credentials va))" using assms(1) by (simp add: authenticator_ok_def)
  have id: "vc_credential_id c = cid" "take 32 (vc_rp_id_hash c) = vc_rp_id_hash c"
    using sel(4) by (simp_all add: cred_ok_def)
  let ?auth = "serialize_authenticator_data (assertion_data (va_user_verified va) c)"
    and ?client = "build_client_data (pf_sha256 pf) Get (ro_challenge opts) origin False"
  have "parse_authenticator_data cap ?auth =
      Value (Some \<lparr>ad_rp_id_hash = vc_rp_id_hash c, ad_flags = uv_flags (va_user_verified va),
          ad_sign_count = vc_sign_count c + 1, ad_attested = None, ad_extensions = []\<rparr>)"
    using assertion_data_parse[OF sel(4), of cap "va_user_verified va"] id(2) by (simp add: assertion_data_def)
  moreover have "resp = \<lparr>ar_credential_id = cid, ar_authenticator_data = ?auth,
          ar_client_data_json = cd_json ?client, ar_signature = sig, ar_user_handle = ue_id (vc_user c)\<rparr>"
    using signed(5) id(1) by simp
  moreover have "va_credentials va' = assign_cred cid (c\<lparr>vc_sign_count := vc_sign_count c + 1\<rparr>) (va_credentials va)"
    "va_jar va' = map_option (pf_jar_bump pf cid (vc_sign_count c + 1)) (va_jar va)"
    using signed(6) id(1) by simp_all
  moreover have "cd_hash ?client = pf_sha256 pf (cd_json ?client)" by (simp add: build_client_data_def Let_def)
  ultimately show ?thesis
    using signed(1,3,4) sel(1-3,5) map_of_assign_cred[OF s]
    by (intro conjI exI[of _ c] exI[of _ signer] exI[of _ g]) auto
qed simp

text \<open>
  A failed operation leaves the store alone: when a registration or an assertion returns an error, at
  whatever point it failed, the credentials, their counters, the database and the verification switch are as
  before; only random numbers may have been drawn.\<close>

theorem failed_operation_keeps_store:
  assumes "platform_sizes pf" "5 \<le> cap" "authenticator_ok va"
    and "register_credential cap pf opts origin va = (Error e, va') \<or>
      assert_credential pf ropts origin va = (Error e, va')"
  shows "\<exists>g. va' = va\<lparr>va_rng := g\<rparr>"
  using assms(4)
proof
  assume "register_credential cap pf opts origin va = (Error e, va')"
  from register_form[OF assms(1,2) this] show ?thesis by auto
next
  assume "assert_credential pf ropts origin va = (Error e, va')"
  from assms(3) this show ?thesis by (cases rule: assert_cases) auto
qed


section \<open>Histories\<close>

text \<open>The calls of a client, and what each makes of the authenticator.\<close>

datatype device_call =
    Register creation_options bytes
  | Assert request_options bytes
  | Clear_all
  | Verified bool

fun device_step ::
  "nat \<Rightarrow> ('g, 'k, 'j) platform \<Rightarrow> device_call \<Rightarrow> ('g, 'j) authenticator \<Rightarrow> ('g, 'j) authenticator" where
  "device_step cap pf (Register opts origin) va = snd (register_credential cap pf opts origin va)"
| "device_step cap pf (Assert opts origin) va = snd (assert_credential pf opts origin va)"
| "device_step cap pf Clear_all va = clear pf va"
| "device_step cap pf (Verified b) va = snd (set_user_verified b va)"

text \<open>What a call changes, in the terms of the credential map and the database.\<close>

lemma device_step_cases:
  assumes "platform_sizes pf" "5 \<le> cap" "authenticator_ok va" "device_step cap pf call va = va'"
  obtains (quiet) "va_credentials va' = va_credentials va" "va_jar va' = va_jar va"
  | (stored) c key opts origin where "call = Register opts origin"
      "pf_export_xy pf key = Inr (ck_x (vc_public_key c), ck_y (vc_public_key c))"
      "pf_export_d pf key = Inr (vc_private_key_d c)" "cred_ok (vc_credential_id c) c"
      "length (vc_credential_id c) = 32" "ck_alg (vc_public_key c) = Es256"
      "length (ck_x (vc_public_key c)) = 32" "length (ck_y (vc_public_key c)) = 32"
      "vc_user c = co_user opts" "vc_rp_id c = co_rp_id opts" "is_valid_rp_id_syntax (co_rp_id opts)"
      "length (vc_private_key_d c) = 32"
      "va_credentials va' = assign_cred (vc_credential_id c) c (va_credentials va)"
      "va_jar va' = map_option (pf_jar_upsert pf c) (va_jar va)"
  | (counted) c where "map_of (va_credentials va) (vc_credential_id c) = Some c"
      "va_credentials va' =
         assign_cred (vc_credential_id c) (c\<lparr>vc_sign_count := vc_sign_count c + 1\<rparr>) (va_credentials va)"
      "va_jar va' = map_option (pf_jar_bump pf (vc_credential_id c) (vc_sign_count c + 1)) (va_jar va)"
  | (emptied) "va_credentials va' = []" "va_jar va' = map_option (pf_jar_clear pf) (va_jar va)"
proof (cases call)
  case (Register opts origin)
  obtain res where r: "register_credential cap pf opts origin va = (res, va')"
    using assms(4) Register by (cases "register_credential cap pf opts origin va") auto
  from register_form[OF assms(1,2) r] show thesis
  proof (elim disjE exE conjE)
    fix e g assume "va' = va\<lparr>va_rng := g\<rparr>"
    then show thesis by (intro quiet) auto
  next
    fix resp auth c key assume f: "registers cap pf opts origin va resp va' auth c key"
    have "is_valid_rp_id_syntax (co_rp_id opts)"
      using f by (auto simp: registers_def validate_creation_options_def split: if_splits)
    then show thesis
      using f Register assms(1) by (intro stored[of opts origin key c]) (auto simp: registers_def cred_ok_def platform_sizes_def)
  qed
next
  case (Assert opts origin)
  obtain res where r: "assert_credential pf opts origin va = (res, va')"
    using assms(4) Assert by (cases "assert_credential pf opts origin va") auto
  from assms(3) r show thesis
  proof (cases rule: assert_cases)
    case (refused e g)
    then show thesis by (intro quiet) auto
  next
    case (signed cid c signer sig g)
    note sel = select_credential_spec[OF assms(3) signed(2)]
    then have "vc_credential_id c = cid" by (simp add: cred_ok_def)
    then show thesis using signed sel by (intro counted[of c]) auto
  qed
qed (use assms(4) in \<open>auto simp: clear_def set_user_verified_def intro: emptied quiet\<close>)

lemma cred_map_assign_ok:
  assumes "authenticator_ok va" "cred_ok k c" "va_credentials va' = assign_cred k c (va_credentials va)"
  shows "authenticator_ok va'"
  using assms map_of_assign_cred[of "va_credentials va" k c] sorted_assign_cred[of "va_credentials va" k c]
  by (simp add: authenticator_ok_def)

lemma device_step_ok:
  assumes "platform_sizes pf" "5 \<le> cap" "authenticator_ok va"
  shows "authenticator_ok (device_step cap pf call va)"
proof -
  obtain va' where e: "device_step cap pf call va = va'" by blast
  from assms e have "authenticator_ok va'"
  proof (cases rule: device_step_cases)
    case (stored c key opts origin)
    then show ?thesis by (intro cred_map_assign_ok[OF assms(3)])
  next
    case (counted c)
    then have "cred_ok (vc_credential_id c) c" using assms(3) unfolding authenticator_ok_def by blast
    then have "cred_ok (vc_credential_id c) (c\<lparr>vc_sign_count := vc_sign_count c + 1\<rparr>)" by (simp add: cred_ok_def)
    from cred_map_assign_ok[OF assms(3) this counted(2)] show ?thesis .
  qed (use assms(3) in \<open>auto simp: authenticator_ok_def\<close>)
  then show ?thesis using e by simp
qed

lemma fold_assign_cred_ok:
  assumes "sorted_wrt (<) (map fst m)" "\<forall>k c. map_of m k = Some c \<longrightarrow> cred_ok k c"
    "\<forall>c \<in> set cs. cred_ok (vc_credential_id c) c"
  shows "sorted_wrt (<) (map fst (fold (\<lambda>c m. assign_cred (vc_credential_id c) c m) cs m)) \<and>
    (\<forall>k c. map_of (fold (\<lambda>c m. assign_cred (vc_credential_id c) c m) cs m) k = Some c \<longrightarrow> cred_ok k c)"
  using assms
proof (induction cs arbitrary: m)
  case (Cons a cs)
  let ?m = "assign_cred (vc_credential_id a) a m"
  have "sorted_wrt (<) (map fst ?m)" using Cons.prems(1) by (rule sorted_assign_cred)
  moreover have "\<forall>k c. map_of ?m k = Some c \<longrightarrow> cred_ok k c"
    using Cons.prems map_of_assign_cred[OF Cons.prems(1)] by simp
  ultimately show ?case using Cons.IH[of ?m] Cons.prems(3) by simp
qed simp

section \<open>From registration to assertion\<close>

text \<open>C8:
  A registered credential works. After a successful registration, a well-formed request of the same relying
  party that names the new identifier, from an origin below that relying party, succeeds; the key that the
  relying party reads from the attestation object verifies the signature over the authenticator data and
  the digest of the client data, and the counter it sees is one.\<close>

theorem registered_credential_asserts:
  assumes "platform_sizes pf" "platform_signs pf" "5 \<le> cap" "authenticator_ok va"
    and reg: "register_credential cap pf opts origin va = (Ok resp, va')"
    and req: "validate_request_options ropts = []" "ro_rp_id ropts = co_rp_id opts"
      "ro_allow_credentials ropts = [rr_credential_id resp]" "origin_matches origin' (co_rp_id opts)"
  shows "\<exists>aresp va'' auth data cred pub.
    assert_credential pf ropts origin' va' = (Ok aresp, va'') \<and>
    ar_credential_id aresp = rr_credential_id resp \<and> ar_user_handle aresp = ue_id (co_user opts) \<and>
    decode_attestation_object cap (rr_attestation_object resp) = Value (Some auth) \<and>
    parse_authenticator_data cap (ao_auth_data auth) = Value (Some data) \<and> ad_attested data = Some cred \<and>
    decode_cose_ec2 cap (ac_cose_public_key cred) = Value (Some pub) \<and>
    verify_es256 pf pub (ar_authenticator_data aresp @ pf_sha256 pf (ar_client_data_json aresp)) (ar_signature aresp) \<and>
    (\<exists>data'. parse_authenticator_data cap (ar_authenticator_data aresp) = Value (Some data') \<and>
       ad_rp_id_hash data' = ad_rp_id_hash data \<and> ad_sign_count data' = 1)"
proof -
  obtain auth c key where f: "registers cap pf opts origin va resp va' auth c key"
    using register_form[OF assms(1,3) reg] by auto
  let ?pub = "vc_public_key c"
  have pub: "?pub = \<lparr>ck_alg = Es256, ck_crv = 1, ck_x = ck_x ?pub, ck_y = ck_y ?pub\<rparr>"
    and k: "ck_crv ?pub = 1" "length (ck_x ?pub) = 32" "length (ck_y ?pub) = 32"
    using f by (cases ?pub; simp add: registers_def)+
  have pubdec: "decode_cose_ec2 cap (encode_cose_ec2 ?pub) = Value (Some ?pub)"
    using cose_decodes[OF k assms(3)] f by (simp add: registers_def)
  have s: "sorted_wrt (<) (map fst (va_credentials va))" using assms(4) by (simp add: authenticator_ok_def)
  have cok: "cred_ok (rr_credential_id resp) c"
    using f assms(1) by (simp add: registers_def cred_ok_def platform_sizes_def)
  have "map_of (va_credentials va') (rr_credential_id resp) = Some c"
    using f map_of_assign_cred[OF s] by (auto simp: registers_def)
  then have sel: "select_credential ropts (va_credentials va') = Some (rr_credential_id resp, c)"
    using req(2,3) f by (simp add: select_credential_def registers_def)
  obtain k' where load: "load_private_key pf c = Some k'"
    and sign: "\<forall>digest g. \<exists>sig g'. pf_sign pf k' digest g = (Inr sig, g') \<and> pf_verify pf ?pub digest sig"
    using assms(2) f k(1) pub unfolding platform_signs_def registers_def load_private_key_def by metis
  let ?client = "build_client_data (pf_sha256 pf) Get (ro_challenge ropts) origin' False"
  let ?auth = "serialize_authenticator_data (assertion_data (va_user_verified va') c)"
  obtain sig g where sg: "pf_sign pf k' (pf_sha256 pf (?auth @ cd_hash ?client)) (va_rng va') = (Inr sig, g)"
      "pf_verify pf ?pub (pf_sha256 pf (?auth @ cd_hash ?client)) sig"
    using sign by blast
  let ?aresp = "\<lparr>ar_credential_id = vc_credential_id c, ar_authenticator_data = ?auth,
      ar_client_data_json = cd_json ?client, ar_signature = sig, ar_user_handle = ue_id (vc_user c)\<rparr>"
  have "\<exists>va''. assert_credential pf ropts origin' va' = (Ok ?aresp, va'')"
    unfolding assert_credential_def using req sel load sg(1) by (simp add: assertion_data_def)
  moreover have "cd_hash ?client = pf_sha256 pf (cd_json ?client)" by (simp add: build_client_data_def Let_def)
  moreover note assertion_data_parse[OF cok, of cap "va_user_verified va'"]
  ultimately show ?thesis
    using f pubdec sg(2) k(1) cok
    by (intro exI[of _ ?aresp]) (auto simp: registers_def verify_es256_def assertion_data_def cred_ok_def)
qed

section \<open>A platform on which the hypotheses hold\<close>

text \<open>
  A digest that pads to 32 bytes, one key pair, and signatures that repeat the digest.
\<close>

definition sample_platform :: "(unit, unit, 'j) platform" where
  "sample_platform =
     \<lparr>pf_sha256 = \<lambda>s. take 32 (s @ replicate 32 0), pf_err_str = \<lambda>rc. [], pf_genkey = \<lambda>g. (Inr (), g),
      pf_export_xy = \<lambda>k. Inr (replicate 32 1, replicate 32 2), pf_export_d = \<lambda>k. Inr (replicate 32 3),
      pf_random = \<lambda>n g. (Inr (replicate n 7), g), pf_spki_der = \<lambda>k. [48], pf_load_private = \<lambda>pub d. Some (),
      pf_sign = \<lambda>k digest g. (Inr digest, g), pf_verify = \<lambda>pub digest sig. digest = sig,
      pf_jar_upsert = \<lambda>c j. j, pf_jar_bump = \<lambda>i n j. j, pf_jar_clear = \<lambda>j. j, pf_jar_load = \<lambda>j. []\<rparr>"

definition sample_creation :: creation_options where
  "sample_creation =
     \<lparr>co_rp_id = ascii ''a.io'', co_rp_name = ascii ''A'',
      co_user = \<lparr>ue_id = [1], ue_name = ascii ''u'', ue_display_name = []\<rparr>,
      co_challenge = replicate 16 0, co_pub_key_params = [Es256], co_exclude_credentials = [],
      co_authenticator_attachment = [], co_user_verification = [], co_resident_key = [],
      co_attestation = [], co_timeout_ms = 0\<rparr>"

definition sample_request :: request_options where
  "sample_request = \<lparr>ro_rp_id = ascii ''a.io'', ro_challenge = replicate 16 0,
     ro_allow_credentials = [replicate 32 7], ro_user_verification = [], ro_timeout_ms = 0\<rparr>"

definition sample_origin :: bytes where
  "sample_origin = ascii ''https://x.a.io''"

definition sample_device :: "(unit, unit) authenticator" where
  "sample_device = new_authenticator sample_platform None ()"

lemma sample_hypotheses:
  "platform_sizes sample_platform" "platform_signs sample_platform" "authenticator_ok sample_device"
proof -
  have "length (take 32 (s @ replicate 32 0)) = 32" for s :: bytes by (simp del: take_append)
  then show "platform_sizes sample_platform" by (simp add: platform_sizes_def sample_platform_def del: take_append)
qed (simp_all add: platform_signs_def sample_platform_def authenticator_ok_def sample_device_def new_authenticator_def)

lemma sample_options:
  "validate_creation_options sample_creation = []" "validate_request_options sample_request = []"
  "origin_matches sample_origin (ascii ''a.io'')" "contains_es256 [Es256]"
  by code_simp+

lemma sample_register:
  "\<exists>resp va. register_credential 5 sample_platform sample_creation sample_origin sample_device = (Ok resp, va) \<and>
     rr_credential_id resp = replicate 32 7"
  by (rule register_succeeds[OF sample_hypotheses(1) _ sample_options(1)])
    (use sample_options in \<open>simp_all add: sample_creation_def sample_platform_def\<close>)

theorem registration_attests_stored_key_witness:
  "\<exists>resp va auth. register_credential 5 sample_platform sample_creation sample_origin sample_device = (Ok resp, va) \<and>
     decode_attestation_object 5 (rr_attestation_object resp) =
       Value (Some \<lparr>ao_fmt = Fmt_none, ao_auth_data = auth, ao_att_stmt_cbor = [0xA0]\<rparr>) \<and>
     (\<exists>c. map_of (va_credentials va) (rr_credential_id resp) = Some c \<and> vc_sign_count c = 0)"
proof -
  obtain resp va where r: "register_credential 5 sample_platform sample_creation sample_origin sample_device = (Ok resp, va)"
    using sample_register by blast
  from registration_attests_stored_key[OF sample_hypotheses(1) _ sample_hypotheses(3) r]
  obtain auth c where "decode_attestation_object 5 (rr_attestation_object resp) =
       Value (Some \<lparr>ao_fmt = Fmt_none, ao_auth_data = auth, ao_att_stmt_cbor = [0xA0]\<rparr>)"
    "vc_sign_count c = 0" "map_of (va_credentials va) = (map_of (va_credentials sample_device))(rr_credential_id resp \<mapsto> c)"
    by auto
  then show ?thesis using r by fastforce
qed

lemma sample_assertion_request:
  "ro_rp_id sample_request = co_rp_id sample_creation" "co_rp_id sample_creation = ascii ''a.io''"
  "ro_allow_credentials sample_request = [replicate 32 7]"
  by (simp_all add: sample_request_def sample_creation_def)

theorem registered_credential_asserts_witness:
  "\<exists>resp va aresp va'. register_credential 5 sample_platform sample_creation sample_origin sample_device = (Ok resp, va) \<and>
     assert_credential sample_platform sample_request sample_origin va = (Ok aresp, va') \<and>
     ar_credential_id aresp = rr_credential_id resp"
proof -
  obtain resp va where r: "register_credential 5 sample_platform sample_creation sample_origin sample_device = (Ok resp, va)"
    "rr_credential_id resp = replicate 32 7"
    using sample_register by blast
  show ?thesis
    using registered_credential_asserts[OF sample_hypotheses(1,2) _ sample_hypotheses(3) r(1) sample_options(2)
        sample_assertion_request(1), of sample_origin] r sample_options(3) sample_assertion_request
    by fastforce
qed

definition sample_credential :: virtual_credential where
  "sample_credential =
     \<lparr>vc_credential_id = [7], vc_rp_id_hash = replicate 32 0, vc_rp_id = ascii ''a.io'',
      vc_user = \<lparr>ue_id = [1], ue_name = ascii ''u'', ue_display_name = []\<rparr>, vc_private_key_d = replicate 32 3,
      vc_public_key = \<lparr>ck_alg = Es256, ck_crv = 1, ck_x = replicate 32 1, ck_y = replicate 32 2\<rparr>,
      vc_sign_count = 4294967295, vc_user_verified = True, vc_resident = True\<rparr>"

definition sample_loaded :: "(unit, unit) authenticator" where
  "sample_loaded = sample_device\<lparr>va_credentials := [([7], sample_credential)]\<rparr>"

lemma sample_loaded_ok: "authenticator_ok sample_loaded"
  by (simp add: authenticator_ok_def sample_loaded_def cred_ok_def sample_credential_def)

text \<open>An assertion without a list of identifiers, on a counter that is about to wrap.\<close>

lemma sample_assert:
  "\<exists>resp va. assert_credential sample_platform (sample_request\<lparr>ro_allow_credentials := []\<rparr>) sample_origin sample_loaded =
     (Ok resp, va) \<and> ar_credential_id resp = [7]"
proof -
  have v: "validate_request_options (sample_request\<lparr>ro_allow_credentials := []\<rparr>) = []" by code_simp
  have s: "select_credential (sample_request\<lparr>ro_allow_credentials := []\<rparr>) (va_credentials sample_loaded) =
      Some ([7], sample_credential)"
    by (simp add: select_credential_def sample_request_def sample_loaded_def sample_credential_def)
  show ?thesis
    using assert_succeeds[OF v _ s, of sample_origin sample_platform "()"] sample_options(3)
    by (simp add: load_private_key_def sample_request_def sample_platform_def sample_credential_def)
qed

theorem assertion_scoped_and_counted_witness:
  "\<exists>resp va c. assert_credential sample_platform (sample_request\<lparr>ro_allow_credentials := []\<rparr>) sample_origin sample_loaded =
     (Ok resp, va) \<and> map_of (va_credentials va) (ar_credential_id resp) = Some c \<and> vc_sign_count c = 0 \<and> vc_resident c \<and>
     ar_signature resp = pf_sha256 (sample_platform :: (unit, unit, unit) platform)
       (ar_authenticator_data resp @ pf_sha256 (sample_platform :: (unit, unit, unit) platform) (ar_client_data_json resp))"
proof -
  let ?pf = "sample_platform :: (unit, unit, unit) platform"
  obtain resp va where r: "assert_credential ?pf (sample_request\<lparr>ro_allow_credentials := []\<rparr>) sample_origin sample_loaded =
     (Ok resp, va)" "ar_credential_id resp = [7]"
    using sample_assert by blast
  from assertion_scoped_and_counted[OF sample_loaded_ok r(1)]
  obtain c g signer where c: "map_of (va_credentials sample_loaded) [7] = Some c"
    "map_of (va_credentials va) = (map_of (va_credentials sample_loaded))([7] \<mapsto> c\<lparr>vc_sign_count := vc_sign_count c + 1\<rparr>)"
    "vc_resident c"
    and g: "pf_sign ?pf signer (pf_sha256 ?pf (ar_authenticator_data resp @ pf_sha256 ?pf (ar_client_data_json resp)))
       (va_rng sample_loaded) = (Inr (ar_signature resp), g)"
    unfolding r(2) by auto
  have "pf_sign ?pf k d w = (Inr d, w)" for k d w by (simp add: sample_platform_def)
  with g have "ar_signature resp = pf_sha256 ?pf (ar_authenticator_data resp @ pf_sha256 ?pf (ar_client_data_json resp))"
    by simp
  moreover from c(1) have "vc_sign_count c + 1 = 0" by (auto simp: sample_loaded_def sample_credential_def)
  ultimately show ?thesis using r c(2,3) by auto
qed

theorem failed_operation_keeps_store_witness:
  "\<exists>e g. assert_credential sample_platform (sample_request\<lparr>ro_rp_id := []\<rparr>) sample_origin sample_loaded =
     (Error e, sample_loaded\<lparr>va_rng := g\<rparr>)"
proof -
  obtain e va where r: "assert_credential sample_platform (sample_request\<lparr>ro_rp_id := []\<rparr>) sample_origin sample_loaded = (Error e, va)"
    by (simp add: assert_credential_def validate_request_options_def)
  then show ?thesis
    using failed_operation_keeps_store[OF sample_hypotheses(1) _ sample_loaded_ok disjI2[OF r], of 5] by auto
qed

end
