(* ===== verification/Credential_Jar.thy ===== *)
theory Credential_Jar
  imports Webauthn_Ops
begin

text \<open>
  The database of the virtual authenticator, \<^verbatim>\<open>src/webauthn/credential_jar.cpp\<close>, and its composition with the
  authenticator. SQLite is a record of functions: one call of \<^verbatim>\<open>sqlite3_step\<close> on a statement, the rows a
  query delivers, and the encoding and decoding of private keys by the cryptographic library. What the
  statements do to the table is written down as \<open>sql_effect\<close>, from the SQL text in the source.
\<close>

section \<open>Rows and statements\<close>

record jar_row =
  jr_credential_id :: bytes
  jr_rp_id :: bytes
  jr_rp_id_hash :: bytes
  jr_user_id :: bytes
  jr_user_name :: bytes
  jr_display_name :: bytes
  jr_private_key :: bytes
  jr_public_x :: bytes
  jr_public_y :: bytes
  jr_alg :: int
  jr_sign_count :: int
  jr_resident :: int
  jr_user_verified :: int
  jr_created_at :: int

datatype jar_stmt =
    Upsert_row jar_row
  | Bump_row int bytes
  | Remove_row bytes
  | Clear_rows

text \<open>The table as a list of rows in the order of their row identifiers.\<close>

fun sql_effect :: "jar_stmt \<Rightarrow> jar_row list \<Rightarrow> jar_row list" where
  "sql_effect (Upsert_row r) t =
     (if jr_credential_id r \<in> jr_credential_id ` set t
      then map (\<lambda>r'. if jr_credential_id r' = jr_credential_id r
                     then r\<lparr>jr_created_at := jr_created_at r'\<rparr> else r') t
      else t @ [r])"
| "sql_effect (Bump_row n cid) t =
     map (\<lambda>r. if jr_credential_id r = cid then r\<lparr>jr_sign_count := n\<rparr> else r) t"
| "sql_effect (Remove_row cid) t = filter (\<lambda>r. jr_credential_id r \<noteq> cid) t"
| "sql_effect Clear_rows t = []"

definition sql_select :: "jar_row list \<Rightarrow> jar_row list" where
  "sql_select t = sort_key jr_created_at t"

text \<open>
  \<open>sq_rows\<close> gives the rows that \<^verbatim>\<open>sqlite3_step\<close> delivers for the query and the code that ends them,
  \<open>sq_key_der\<close> is \<^verbatim>\<open>private_key_der_from_credential\<close> (empty when it fails), and \<open>sq_parse_der\<close> the scalar
  that the parser reads from such an encoding when it is a key of the curve.
\<close>

record 'db sqlite =
  sq_bind :: "jar_stmt \<Rightarrow> bool"
  sq_step :: "jar_stmt \<Rightarrow> 'db \<Rightarrow> int \<times> 'db"
  sq_changes :: "'db \<Rightarrow> int"
  sq_rows :: "'db \<Rightarrow> jar_row list \<times> int"
  sq_now :: "'db \<Rightarrow> int"
  sq_key_der :: "virtual_credential \<Rightarrow> bytes"
  sq_parse_der :: "bytes \<Rightarrow> bytes option"

definition sqlite_done :: int where "sqlite_done = 101"
definition sqlite_busy :: int where "sqlite_busy = 5"
definition sqlite_locked :: int where "sqlite_locked = 6"
definition sqlite_error :: int where "sqlite_error = 1"

definition k_busy_attempts :: nat where "k_busy_attempts = 3"

text \<open>The loop of \<^verbatim>\<open>with_busy_retry\<close> with \<open>n\<close> attempts left.\<close>

fun busy_loop :: "nat \<Rightarrow> ('s \<Rightarrow> int \<times> 's) \<Rightarrow> int \<Rightarrow> 's \<Rightarrow> int \<times> 's" where
  "busy_loop 0 fn rc s = (rc, s)"
| "busy_loop (Suc n) fn rc s =
     (let (rc', s') = fn s
      in if rc' \<noteq> sqlite_busy \<and> rc' \<noteq> sqlite_locked then (rc', s') else busy_loop n fn rc' s')"

definition with_busy_retry :: "('s \<Rightarrow> int \<times> 's) \<Rightarrow> 's \<Rightarrow> int \<times> 's" where
  "with_busy_retry fn s = busy_loop k_busy_attempts fn sqlite_error s"

section \<open>The operations of the jar\<close>

text \<open>A C string ends at the first zero; \<^verbatim>\<open>sqlite3_column_int\<close> takes the low 32 bits.\<close>

definition c_string :: "bytes \<Rightarrow> bytes" where
  "c_string s = takeWhile (\<lambda>c. c \<noteq> 0) s"

definition column_int :: "int \<Rightarrow> int" where
  "column_int i = sint (word_of_int i :: 32 word)"

definition credential_from_row :: "'db sqlite \<Rightarrow> jar_row \<Rightarrow> virtual_credential option" where
  "credential_from_row sq r =
     (if jr_credential_id r = [] \<or> length (jr_rp_id_hash r) \<noteq> 32 \<or> length (jr_public_x r) \<noteq> 32 \<or>
         length (jr_public_y r) \<noteq> 32 \<or> column_int (jr_alg r) \<noteq> alg_code Es256 \<or>
         jr_sign_count r < 0 \<or> jr_sign_count r > 0xFFFFFFFF then None
      else case sq_parse_der sq (jr_private_key r) of
        None \<Rightarrow> None
      | Some d \<Rightarrow> Some
          \<lparr>vc_credential_id = jr_credential_id r, vc_rp_id_hash = jr_rp_id_hash r,
           vc_rp_id = c_string (jr_rp_id r),
           vc_user = \<lparr>ue_id = jr_user_id r, ue_name = c_string (jr_user_name r),
             ue_display_name = c_string (jr_display_name r)\<rparr>,
           vc_private_key_d = d,
           vc_public_key = \<lparr>ck_alg = Es256, ck_crv = 1, ck_x = jr_public_x r, ck_y = jr_public_y r\<rparr>,
           vc_sign_count = word_of_int (jr_sign_count r),
           vc_user_verified = (column_int (jr_user_verified r) \<noteq> 0),
           vc_resident = (column_int (jr_resident r) \<noteq> 0)\<rparr>)"

definition load_all :: "'db sqlite \<Rightarrow> 'db \<Rightarrow> virtual_credential list" where
  "load_all sq db =
     (let (rows, rc) = sq_rows sq db
      in if rc = sqlite_done then List.map_filter (credential_from_row sq) rows else [])"

text \<open>A statement is bound and stepped; \<open>None\<close> when binding a parameter failed.\<close>

definition run_stmt :: "'db sqlite \<Rightarrow> jar_stmt \<Rightarrow> 'db \<Rightarrow> int option \<times> 'db" where
  "run_stmt sq stmt db =
     (if \<not> sq_bind sq stmt then (None, db)
      else let (rc, db') = with_busy_retry (sq_step sq stmt) db in (Some rc, db'))"

definition row_of :: "virtual_credential \<Rightarrow> bytes \<Rightarrow> int \<Rightarrow> jar_row" where
  "row_of c der now =
     \<lparr>jr_credential_id = vc_credential_id c, jr_rp_id = vc_rp_id c, jr_rp_id_hash = vc_rp_id_hash c,
      jr_user_id = ue_id (vc_user c), jr_user_name = ue_name (vc_user c),
      jr_display_name = ue_display_name (vc_user c), jr_private_key = der,
      jr_public_x = ck_x (vc_public_key c), jr_public_y = ck_y (vc_public_key c),
      jr_alg = alg_code (ck_alg (vc_public_key c)), jr_sign_count = uint (vc_sign_count c),
      jr_resident = (if vc_resident c then 1 else 0), jr_user_verified = (if vc_user_verified c then 1 else 0),
      jr_created_at = now\<rparr>"

definition upsert :: "'db sqlite \<Rightarrow> virtual_credential \<Rightarrow> 'db \<Rightarrow> bool \<times> 'db" where
  "upsert sq c db =
     (let der = sq_key_der sq c
      in if der = [] then (False, db)
      else let (rc, db') = run_stmt sq (Upsert_row (row_of c der (sq_now sq db))) db
        in (rc = Some sqlite_done, db'))"

definition bump_sign_count :: "'db sqlite \<Rightarrow> bytes \<Rightarrow> u32 \<Rightarrow> 'db \<Rightarrow> bool \<times> 'db" where
  "bump_sign_count sq cid new_value db =
     (let (rc, db') = run_stmt sq (Bump_row (uint new_value) cid) db
      in (rc = Some sqlite_done \<and> sq_changes sq db' > 0, db'))"

definition remove_credential :: "'db sqlite \<Rightarrow> bytes \<Rightarrow> 'db \<Rightarrow> bool \<times> 'db" where
  "remove_credential sq cid db =
     (let (rc, db') = run_stmt sq (Remove_row cid) db
      in (rc = Some sqlite_done \<and> sq_changes sq db' > 0, db'))"

definition clear_jar :: "'db sqlite \<Rightarrow> 'db \<Rightarrow> bool \<times> 'db" where
  "clear_jar sq db =
     (let (rc, db') = run_stmt sq Clear_rows db in (rc = Some sqlite_done, db'))"

text \<open>The authenticator on this database.\<close>

definition attach :: "'db sqlite \<Rightarrow> ('g, 'k, 'db) platform \<Rightarrow> ('g, 'k, 'db) platform" where
  "attach sq pf = pf\<lparr>
     pf_jar_upsert := \<lambda>c db. snd (upsert sq c db),
     pf_jar_bump := \<lambda>cid n db. snd (bump_sign_count sq cid n db),
     pf_jar_clear := \<lambda>db. snd (clear_jar sq db),
     pf_jar_load := load_all sq\<rparr>"

section \<open>Documented behaviour of the database\<close>

text \<open>
  \<open>table\<close> reads the rows behind a connection. Identifiers are the primary key, a query delivers the table in the
  requested order, and a step either reports completion, having done what the statement says, or reports
  something else and has changed nothing.
\<close>

definition sqlite_laws :: "('db \<Rightarrow> jar_row list) \<Rightarrow> 'db sqlite \<Rightarrow> bool" where
  "sqlite_laws table sq \<longleftrightarrow>
     (\<forall>db. distinct (map jr_credential_id (table db))) \<and>
     (\<forall>db. sq_rows sq db = (sql_select (table db), sqlite_done)) \<and>
     (\<forall>stmt db rc db'. sq_step sq stmt db = (rc, db') \<longrightarrow>
        table db' = (if rc = sqlite_done then sql_effect stmt (table db) else table db))"

text \<open>No statement stays busy for three attempts.\<close>

definition sqlite_responds :: "'db sqlite \<Rightarrow> bool" where
  "sqlite_responds sq \<longleftrightarrow>
     (\<forall>stmt. sq_bind sq stmt) \<and>
     (\<forall>stmt db. fst (with_busy_retry (sq_step sq stmt) db) = sqlite_done)"

text \<open>The encoding of a generated key can be read back.\<close>

definition keys_encode :: "('g, 'k, 'j) platform \<Rightarrow> 'db sqlite \<Rightarrow> bool" where
  "keys_encode pf sq \<longleftrightarrow> (\<forall>k c.
     pf_export_xy pf k = Inr (ck_x (vc_public_key c), ck_y (vc_public_key c)) \<longrightarrow>
     pf_export_d pf k = Inr (vc_private_key_d c) \<longrightarrow>
     sq_key_der sq c \<noteq> [] \<and> sq_parse_der sq (sq_key_der sq c) = Some (vc_private_key_d c))"

end
