(* ===== verification/Jar_Correct.thy ===== *)
theory Jar_Correct
  imports Credential_Jar
begin

text \<open>
  The authenticator on its database: what a statement does once it has been retried, that a row gives back
  the credential it was made of, the invariant of every history of calls, and that reopening the database
  restores the credentials.
\<close>

section \<open>Statements\<close>

lemma busy_loop_effect:
  assumes "sqlite_laws table sq" "busy_loop n (sq_step sq stmt) rc0 db = (sqlite_done, db')" "rc0 \<noteq> sqlite_done"
  shows "table db' = sql_effect stmt (table db)"
  using assms(2,3)
proof (induction n arbitrary: rc0 db)
  case (Suc n)
  obtain rc1 db1 where s: "sq_step sq stmt db = (rc1, db1)" by fastforce
  then have t: "table db1 = (if rc1 = sqlite_done then sql_effect stmt (table db) else table db)"
    using assms(1) by (simp add: sqlite_laws_def)
  show ?case
  proof (cases "rc1 \<noteq> sqlite_busy \<and> rc1 \<noteq> sqlite_locked")
    case True
    then show ?thesis using Suc.prems(1) s t by auto
  next
    case False
    then have "rc1 \<noteq> sqlite_done" by (auto simp: sqlite_done_def sqlite_busy_def sqlite_locked_def)
    then show ?thesis using Suc.IH[of rc1 db1] Suc.prems(1) s t False by auto
  qed
qed simp

lemma run_stmt_effect:
  assumes "sqlite_laws table sq" "sqlite_responds sq"
  shows "\<exists>db'. run_stmt sq stmt db = (Some sqlite_done, db') \<and> table db' = sql_effect stmt (table db)"
proof -
  obtain rc db' where r: "with_busy_retry (sq_step sq stmt) db = (rc, db')" by fastforce
  then have "rc = sqlite_done" using assms(2) unfolding sqlite_responds_def by (metis fst_conv)
  moreover have "sqlite_error \<noteq> sqlite_done" by (simp add: sqlite_error_def sqlite_done_def)
  ultimately have "table db' = sql_effect stmt (table db)"
    using r busy_loop_effect[OF assms(1)] unfolding with_busy_retry_def by blast
  then show ?thesis using r assms(2) \<open>rc = _\<close> by (simp add: run_stmt_def sqlite_responds_def)
qed

section \<open>Rows\<close>

lemma column_int_small [simp]: "column_int 0 = 0" "column_int 1 = 1" "column_int (-7) = -7"
  by code_simp+

lemma c_string_id: "0 \<notin> set s \<Longrightarrow> c_string s = s"
  by (auto simp: c_string_def takeWhile_eq_all_conv)

lemma credential_from_row_created [simp]:
  "credential_from_row sq (r\<lparr>jr_created_at := t\<rparr>) = credential_from_row sq r"
  by (simp add: credential_from_row_def split: option.split)

lemma credential_from_row_id:
  "credential_from_row sq r = Some c \<Longrightarrow> vc_credential_id c = jr_credential_id r"
  by (auto simp: credential_from_row_def split: if_splits option.splits)

lemma credential_from_row_ok:
  "credential_from_row sq r = Some c \<Longrightarrow> cred_ok (vc_credential_id c) c"
  by (auto simp: credential_from_row_def cred_ok_def split: if_splits option.splits)

lemma credential_from_row_count:
  assumes "credential_from_row sq r = Some c"
  shows "credential_from_row sq (r\<lparr>jr_sign_count := uint n\<rparr>) = Some (c\<lparr>vc_sign_count := n\<rparr>)"
proof -
  have "uint n \<le> 0xFFFFFFFF" using uint_lt2p[of n] by simp
  then show ?thesis using assms by (auto simp: credential_from_row_def not_less split: if_splits option.splits)
qed

text \<open>A row gives back the credential it was made of, unless a text contains a zero byte.\<close>

definition text_ok :: "virtual_credential \<Rightarrow> bool" where
  "text_ok c \<longleftrightarrow> 0 \<notin> set (vc_rp_id c) \<and> 0 \<notin> set (ue_name (vc_user c)) \<and> 0 \<notin> set (ue_display_name (vc_user c))"

lemma row_round_trip:
  assumes "cred_ok cid c" "cid \<noteq> []" "ck_alg (vc_public_key c) = Es256" "length (ck_x (vc_public_key c)) = 32"
    "length (ck_y (vc_public_key c)) = 32" "text_ok c" "sq_parse_der sq der = Some (vc_private_key_d c)"
  shows "credential_from_row sq (row_of c der now) = Some c"
proof -
  have "uint (vc_sign_count c) \<le> 0xFFFFFFFF" using uint_lt2p[of "vc_sign_count c"] by simp
  moreover have "\<lparr>ck_alg = Es256, ck_crv = 1, ck_x = ck_x (vc_public_key c), ck_y = ck_y (vc_public_key c)\<rparr> =
      vc_public_key c"
    using assms by (cases "vc_public_key c") (simp add: cred_ok_def)
  ultimately show ?thesis
    using assms by (auto simp: credential_from_row_def row_of_def cred_ok_def text_ok_def c_string_id)
qed

section \<open>Agreement of memory and database\<close>

text \<open>The credentials that the rows of a table hold.\<close>

definition holds :: "'db sqlite \<Rightarrow> jar_row list \<Rightarrow> bytes \<Rightarrow> virtual_credential \<Rightarrow> bool" where
  "holds sq t k c \<longleftrightarrow> (\<exists>r \<in> set t. jr_credential_id r = k \<and> credential_from_row sq r = Some c)"

definition agrees :: "('db \<Rightarrow> jar_row list) \<Rightarrow> 'db sqlite \<Rightarrow> 'db \<Rightarrow> cred_map \<Rightarrow> bool" where
  "agrees table sq db m \<longleftrightarrow> sorted_wrt (<) (map fst m) \<and>
     (\<forall>k c. map_of m k = Some c \<longleftrightarrow> holds sq (table db) k c)"

lemma holds_unique:
  "distinct (map jr_credential_id t) \<Longrightarrow> holds sq t k c \<Longrightarrow> holds sq t k c' \<Longrightarrow> c = c'"
  unfolding holds_def by (metis distinct_map inj_onD option.inject)

lemma holds_map:
  "holds sq (map f t) k c \<longleftrightarrow> (\<exists>x \<in> set t. jr_credential_id (f x) = k \<and> credential_from_row sq (f x) = Some c)"
  by (simp add: holds_def)

lemma holds_upsert:
  assumes "credential_from_row sq r = Some c"
  shows "holds sq (sql_effect (Upsert_row r) t) k c' \<longleftrightarrow>
    (if k = jr_credential_id r then c' = c else holds sq t k c')"
proof (cases "jr_credential_id r \<in> jr_credential_id ` set t")
  case True
  then obtain x where x: "x \<in> set t" "jr_credential_id x = jr_credential_id r" by auto
  let ?f = "\<lambda>r'. if jr_credential_id r' = jr_credential_id r then r\<lparr>jr_created_at := jr_created_at r'\<rparr> else r'"
  have f: "credential_from_row sq (?f y) = (if jr_credential_id y = jr_credential_id r then Some c else credential_from_row sq y)"
      "jr_credential_id (?f y) = jr_credential_id y" for y
    using assms by simp_all
  have "holds sq (map ?f t) k c' \<longleftrightarrow> (\<exists>y \<in> set t. jr_credential_id y = k \<and>
      (if jr_credential_id y = jr_credential_id r then Some c else credential_from_row sq y) = Some c')"
    unfolding holds_map f ..
  also have "\<dots> \<longleftrightarrow> (if k = jr_credential_id r then c' = c else holds sq t k c')"
    unfolding holds_def using x by (cases "k = jr_credential_id r") auto
  finally show ?thesis using True by simp
next
  case False
  then have "jr_credential_id x \<noteq> jr_credential_id r" if "x \<in> set t" for x using that by (metis imageI)
  then show ?thesis using assms False by (auto simp: holds_def)
qed

lemma holds_bump:
  assumes "distinct (map jr_credential_id t)" "holds sq t cid c"
  shows "holds sq (sql_effect (Bump_row (uint n) cid) t) k c' \<longleftrightarrow>
    (if k = cid then c' = c\<lparr>vc_sign_count := n\<rparr> else holds sq t k c')"
proof -
  obtain r where r: "r \<in> set t" "jr_credential_id r = cid" "credential_from_row sq r = Some c"
    using assms(2) by (auto simp: holds_def)
  have u: "r' = r" if "r' \<in> set t" "jr_credential_id r' = cid" for r'
    using that r(1,2) assms(1) by (metis distinct_map inj_onD)
  let ?f = "\<lambda>r'. if jr_credential_id r' = cid then r'\<lparr>jr_sign_count := uint n\<rparr> else r'"
  have f: "credential_from_row sq (?f y) =
        (if jr_credential_id y = cid then Some (c\<lparr>vc_sign_count := n\<rparr>) else credential_from_row sq y)"
      "jr_credential_id (?f y) = jr_credential_id y" if "y \<in> set t" for y
    using u[OF that] credential_from_row_count[OF r(3), of n] by auto
  have "holds sq (map ?f t) k c' \<longleftrightarrow> (\<exists>y \<in> set t. jr_credential_id y = k \<and>
      (if jr_credential_id y = cid then Some (c\<lparr>vc_sign_count := n\<rparr>) else credential_from_row sq y) = Some c')"
    unfolding holds_map using f by (intro bex_cong) auto
  also have "\<dots> \<longleftrightarrow> (if k = cid then c' = c\<lparr>vc_sign_count := n\<rparr> else holds sq t k c')"
    unfolding holds_def using r(1,2) by (cases "k = cid") auto
  finally show ?thesis by simp
qed

lemma sorted_map_eq:
  assumes "sorted_wrt (<) (map fst m)" "sorted_wrt (<) (map fst m')" "map_of m = map_of m'"
  shows "m = (m' :: cred_map)"
proof -
  have d: "distinct (map fst m)" "distinct (map fst m')" using assms(1,2) by (simp_all add: strict_sorted_iff)
  have "set m = set m'" using assms(3) d by (metis map_of_inject_set)
  moreover from this have "map fst m = map fst m'"
    using assms(1,2) strict_sorted_equal by (metis list.set_map)
  moreover from calculation have "inj_on fst (set m \<union> set m')" using d by (simp add: distinct_map)
  ultimately show ?thesis by (metis map_inj_on)
qed

lemma agrees_unique:
  "agrees table sq db m \<Longrightarrow> agrees table sq db m' \<Longrightarrow> m = m'"
proof (rule sorted_map_eq)
  assume a: "agrees table sq db m" "agrees table sq db m'"
  have "map_of m k = map_of m' k" for k
    using a unfolding agrees_def by (metis option.exhaust)
  then show "map_of m = map_of m'" by blast
qed (simp_all add: agrees_def)


lemma agrees_assign:
  assumes "agrees table sq db m"
    "\<And>k c'. holds sq (table db') k c' \<longleftrightarrow> (if k = cid then c' = c else holds sq (table db) k c')"
  shows "agrees table sq db' (assign_cred cid c m)"
  using assms map_of_assign_cred[of m cid c] sorted_assign_cred[of m cid c]
  by (auto simp: agrees_def)

lemma agrees_upsert:
  assumes "sqlite_laws table sq" "sqlite_responds sq" "agrees table sq db m"
    "sq_key_der sq c \<noteq> []" "\<And>now. credential_from_row sq (row_of c (sq_key_der sq c) now) = Some c"
  shows "agrees table sq (snd (upsert sq c db)) (assign_cred (vc_credential_id c) c m)"
proof -
  let ?r = "row_of c (sq_key_der sq c) (sq_now sq db)"
  obtain db' where r: "run_stmt sq (Upsert_row ?r) db = (Some sqlite_done, db')"
      "table db' = sql_effect (Upsert_row ?r) (table db)"
    using run_stmt_effect[OF assms(1,2)] by blast
  then have "snd (upsert sq c db) = db'" using assms(4) by (simp add: upsert_def)
  moreover have "jr_credential_id ?r = vc_credential_id c" by (simp add: row_of_def)
  moreover note holds_upsert[OF assms(5)[of "sq_now sq db"], of "table db", folded r(2)]
  ultimately show ?thesis by (intro agrees_assign[OF assms(3)]) simp
qed

lemma agrees_bump:
  assumes "sqlite_laws table sq" "sqlite_responds sq" "agrees table sq db m" "map_of m cid = Some c"
  shows "agrees table sq (snd (bump_sign_count sq cid n db)) (assign_cred cid (c\<lparr>vc_sign_count := n\<rparr>) m)"
proof -
  obtain db' where r: "run_stmt sq (Bump_row (uint n) cid) db = (Some sqlite_done, db')"
      "table db' = sql_effect (Bump_row (uint n) cid) (table db)"
    using run_stmt_effect[OF assms(1,2)] by blast
  then have "snd (bump_sign_count sq cid n db) = db'" by (simp add: bump_sign_count_def)
  moreover have "distinct (map jr_credential_id (table db))" using assms(1) by (simp add: sqlite_laws_def)
  moreover have "holds sq (table db) cid c" using assms(3,4) by (simp add: agrees_def)
  moreover note holds_bump[of "table db" sq cid c n, folded r(2)]
  ultimately show ?thesis by (intro agrees_assign[OF assms(3)]) simp
qed

lemma agrees_clear:
  assumes "sqlite_laws table sq" "sqlite_responds sq"
  shows "agrees table sq (snd (clear_jar sq db)) []"
proof -
  obtain db' where "run_stmt sq Clear_rows db = (Some sqlite_done, db')" "table db' = []"
    using run_stmt_effect[OF assms, of Clear_rows] by auto
  then show ?thesis by (simp add: clear_jar_def agrees_def holds_def)
qed

text \<open>Loading a database agrees with it.\<close>

lemma distinct_loaded:
  "distinct (map jr_credential_id t) \<Longrightarrow>
   distinct (map vc_credential_id (List.map_filter (credential_from_row sq) t))"
proof (induction t)
  case (Cons r t)
  have "set (List.map_filter (credential_from_row sq) t) = {c. \<exists>r \<in> set t. credential_from_row sq r = Some c}"
    by (force simp: List.map_filter_def)
  then have ids: "vc_credential_id ` set (List.map_filter (credential_from_row sq) t) \<subseteq> jr_credential_id ` set t"
    by (auto dest: credential_from_row_id)
  show ?case
  proof (cases "credential_from_row sq r")
    case (Some c)
    then have "vc_credential_id c \<notin> vc_credential_id ` set (List.map_filter (credential_from_row sq) t)"
      using ids Cons.prems credential_from_row_id[OF Some] by auto
    then show ?thesis using Cons Some by (simp add: List.map_filter_simps)
  qed (use Cons in \<open>simp add: List.map_filter_simps\<close>)
qed (simp add: List.map_filter_simps)

lemma fold_assign_cred:
  assumes "sorted_wrt (<) (map fst m)" "distinct (map vc_credential_id cs)"
  shows "map_of (fold (\<lambda>c m. assign_cred (vc_credential_id c) c m) cs m) k = Some c \<longleftrightarrow>
    (c \<in> set cs \<and> vc_credential_id c = k \<or> k \<notin> vc_credential_id ` set cs \<and> map_of m k = Some c)"
  using assms
proof (induction cs arbitrary: m)
  case (Cons a cs)
  let ?m = "assign_cred (vc_credential_id a) a m"
  have "sorted_wrt (<) (map fst ?m)" using Cons.prems(1) by (rule sorted_assign_cred)
  note Cons.IH[OF this]
  then show ?case using Cons.prems map_of_assign_cred[OF Cons.prems(1)] by auto
qed simp

lemma agrees_load:
  assumes "sqlite_laws table sq"
  shows "agrees table sq db (fold (\<lambda>c m. assign_cred (vc_credential_id c) c m) (load_all sq db) [])"
proof -
  let ?t = "sql_select (table db)" and ?cs = "load_all sq db"
  have cs: "?cs = List.map_filter (credential_from_row sq) ?t"
    using assms by (simp add: load_all_def sqlite_laws_def)
  have "distinct (map jr_credential_id (table db))" using assms by (simp add: sqlite_laws_def)
  then have "distinct (map jr_credential_id ?t)" by (simp add: sql_select_def distinct_map)
  then have d: "distinct (map vc_credential_id ?cs)" unfolding cs by (rule distinct_loaded)
  have "set ?cs = {c. \<exists>r \<in> set (table db). credential_from_row sq r = Some c}"
    unfolding cs by (force simp: List.map_filter_def sql_select_def)
  then have h: "c \<in> set ?cs \<and> vc_credential_id c = k \<longleftrightarrow> holds sq (table db) k c" for k c
    using credential_from_row_id unfolding holds_def by fastforce
  let ?m = "fold (\<lambda>c m. assign_cred (vc_credential_id c) c m) ?cs []"
  have "\<forall>c \<in> set ?cs. cred_ok (vc_credential_id c) c"
    unfolding \<open>set ?cs = _\<close> by (auto dest: credential_from_row_ok)
  from fold_assign_cred_ok[OF _ _ this, of "[]"] have "sorted_wrt (<) (map fst ?m)" by auto
  moreover have "map_of ?m k = Some c \<longleftrightarrow> holds sq (table db) k c" for k c
    using fold_assign_cred[OF _ d, of "[]" k c] h[of c k] by simp
  ultimately show ?thesis unfolding agrees_def by blast
qed

section \<open>Histories\<close>

text \<open>
  Along any history of calls the authenticator is well formed: its load validates the rows, so this needs no
  assumption on the database.
\<close>

lemma attach_simps [simp]:
  "pf_sha256 (attach sq pf) = pf_sha256 pf" "pf_export_xy (attach sq pf) = pf_export_xy pf"
  "pf_export_d (attach sq pf) = pf_export_d pf" "pf_random (attach sq pf) = pf_random pf"
  "pf_jar_upsert (attach sq pf) c db = snd (upsert sq c db)"
  "pf_jar_bump (attach sq pf) cid n db = snd (bump_sign_count sq cid n db)"
  "pf_jar_clear (attach sq pf) db = snd (clear_jar sq db)" "pf_jar_load (attach sq pf) = load_all sq"
  by (simp_all add: attach_def)

lemma platform_sizes_attach [simp]: "platform_sizes (attach sq pf) = platform_sizes pf"
  by (simp add: platform_sizes_def)

lemma load_all_ok: "\<forall>c \<in> set (load_all sq db). cred_ok (vc_credential_id c) c"
  by (auto simp: load_all_def List.map_filter_def dest: credential_from_row_ok split: prod.splits if_splits)

lemma new_authenticator_ok: "authenticator_ok (new_authenticator (attach sq pf) jar rng)"
  using fold_assign_cred_ok[of "[]", OF _ _ load_all_ok]
  by (cases jar) (simp_all add: authenticator_ok_def new_authenticator_def)

text \<open>C30:
  Every authenticator is well formed. Whatever the database holds when it is opened, and after any sequence
  of registrations, assertions, clearings and switches of user verification, successful or not, the
  credentials are listed in strictly ascending order of their identifiers, each is filed under its own
  identifier, has a digest of 32 bytes and a key on the supported curve.\<close>

theorem authenticator_invariant:
  assumes "platform_sizes pf" "5 \<le> cap"
    and "va = fold (device_step cap (attach sq pf)) calls (new_authenticator (attach sq pf) jar rng)"
  shows "sorted_wrt (<) (map vc_credential_id (list_credentials va)) \<and>
    list_all (\<lambda>c. map_of (va_credentials va) (vc_credential_id c) = Some c \<and> length (vc_rp_id_hash c) = 32 \<and>
      ck_crv (vc_public_key c) = 1) (list_credentials va)"
proof -
  have "authenticator_ok (fold (device_step cap (attach sq pf)) calls va0)"
    if "authenticator_ok va0" for va0
    using that assms(1,2) by (induction calls arbitrary: va0) (simp_all add: device_step_ok)
  from this[OF new_authenticator_ok] have ok: "authenticator_ok va" unfolding assms(3) .
  then have d: "distinct (map fst (va_credentials va))" by (simp add: authenticator_ok_def strict_sorted_iff)
  have e: "map_of (va_credentials va) k = Some c \<and> cred_ok k c" if "(k, c) \<in> set (va_credentials va)" for k c
    using that ok d by (simp add: authenticator_ok_def)
  have "vc_credential_id (snd p) = fst p" if "p \<in> set (va_credentials va)" for p
    using e[of "fst p" "snd p"] that by (simp add: cred_ok_def)
  then have "map vc_credential_id (list_credentials va) = map fst (va_credentials va)"
    unfolding list_credentials_def map_map o_def by (rule map_cong[OF refl])
  moreover have "map_of (va_credentials va) (vc_credential_id c) = Some c \<and> length (vc_rp_id_hash c) = 32 \<and>
      ck_crv (vc_public_key c) = 1" if c: "c \<in> set (list_credentials va)" for c
  proof -
    obtain k where "(k, c) \<in> set (va_credentials va)" using c by (auto simp: list_credentials_def)
    from e[OF this] show ?thesis by (auto simp: cred_ok_def)
  qed
  ultimately show ?thesis using ok by (simp add: authenticator_ok_def list_all_iff)
qed

section \<open>Reopening\<close>

lemma rp_id_chars_no_zero: "rp_id_chars p s \<Longrightarrow> 0 \<notin> set s"
  by (induction p s rule: rp_id_chars.induct) (auto split: if_splits)

lemma valid_rp_id_no_zero: "is_valid_rp_id_syntax s \<Longrightarrow> 0 \<notin> set s"
  by (auto simp: is_valid_rp_id_syntax_def dest: rp_id_chars_no_zero split: if_splits)

text \<open>Calls whose user names are C strings.\<close>

fun plain_names :: "device_call \<Rightarrow> bool" where
  "plain_names (Register opts origin) \<longleftrightarrow>
     0 \<notin> set (ue_name (co_user opts)) \<and> 0 \<notin> set (ue_display_name (co_user opts))"
| "plain_names _ \<longleftrightarrow> True"

lemma device_step_agrees:
  assumes laws: "sqlite_laws table sq" "sqlite_responds sq" "keys_encode pf sq"
    and dev: "platform_sizes pf" "5 \<le> cap" "authenticator_ok va" "plain_names call"
    and jar: "va_jar va = Some db" "agrees table sq db (va_credentials va)"
  shows "\<exists>db'. va_jar (device_step cap (attach sq pf) call va) = Some db' \<and>
    agrees table sq db' (va_credentials (device_step cap (attach sq pf) call va))"
proof -
  obtain va' where e: "device_step cap (attach sq pf) call va = va'" by blast
  from dev(1) have "platform_sizes (attach sq pf)" by simp
  from this dev(2,3) e show ?thesis
  proof (cases rule: device_step_cases)
    case quiet
    then show ?thesis using jar e by simp
  next
    case (stored c key opts origin)
    have "sq_key_der sq c \<noteq> [] \<and> sq_parse_der sq (sq_key_der sq c) = Some (vc_private_key_d c)"
      using laws(3) stored(2,3) unfolding keys_encode_def attach_simps by blast
    moreover have "text_ok c"
      using stored valid_rp_id_no_zero[of "co_rp_id opts"] dev(4) by (simp add: text_ok_def)
    moreover have "vc_credential_id c \<noteq> []" using stored(5) by auto
    ultimately have "agrees table sq (snd (upsert sq c db)) (assign_cred (vc_credential_id c) c (va_credentials va))"
      using row_round_trip[OF stored(4) _ stored(6-8), of sq] by (intro agrees_upsert[OF laws(1,2) jar(2)]) auto
    then show ?thesis using stored(13,14) jar(1) e by simp
  next
    case (counted c)
    then show ?thesis using agrees_bump[OF laws(1,2) jar(2) counted(1)] jar(1) e by simp
  next
    case emptied
    then show ?thesis using agrees_clear[OF laws(1,2)] jar(1) e by simp
  qed
qed

lemma history_agrees:
  assumes laws: "sqlite_laws table sq" "sqlite_responds sq" "keys_encode pf sq"
    and dev: "platform_sizes pf" "5 \<le> cap"
  shows "list_all plain_names calls \<Longrightarrow> authenticator_ok va \<Longrightarrow> va_jar va = Some db \<Longrightarrow>
    agrees table sq db (va_credentials va) \<Longrightarrow>
    \<exists>db'. va_jar (fold (device_step cap (attach sq pf)) calls va) = Some db' \<and>
      agrees table sq db' (va_credentials (fold (device_step cap (attach sq pf)) calls va))"
proof (induction calls arbitrary: va db)
  case (Cons call calls)
  have p: "plain_names call" "list_all plain_names calls" using Cons.prems(1) by simp_all
  obtain db1 where "va_jar (device_step cap (attach sq pf) call va) = Some db1"
    "agrees table sq db1 (va_credentials (device_step cap (attach sq pf) call va))"
    using device_step_agrees[OF laws dev Cons.prems(2) p(1) Cons.prems(3,4)] by blast
  moreover have "authenticator_ok (device_step cap (attach sq pf) call va)"
    using device_step_ok[of "attach sq pf" cap va call] dev Cons.prems(2) by simp
  ultimately show ?case using Cons.IH[OF p(2)] by simp
qed auto

text \<open>C5:
  The database is the authenticator. Open the database, make any sequence of registrations, assertions,
  clearings and switches, with user names free of zero bytes, and open the database again: the new
  authenticator has exactly the credentials of the old one, counters included. SQLite may refuse a
  statement up to twice for being busy.\<close>

theorem reopened_jar_restores_device:
  assumes "sqlite_laws table sq" "sqlite_responds sq" "keys_encode pf sq" "platform_sizes pf" "5 \<le> cap"
    and "list_all plain_names calls"
    and "va = fold (device_step cap (attach sq pf)) calls (new_authenticator (attach sq pf) (Some db) rng)"
  shows "va_credentials (new_authenticator (attach sq pf) (va_jar va) rng') = va_credentials va"
proof -
  have "agrees table sq db (va_credentials (new_authenticator (attach sq pf) (Some db) rng))"
    using agrees_load[OF assms(1)] by (simp add: new_authenticator_def)
  from history_agrees[OF assms(1-6) new_authenticator_ok _ this]
  obtain db' where "va_jar va = Some db'" "agrees table sq db' (va_credentials va)"
    unfolding assms(7) by (auto simp: new_authenticator_def)
  moreover from this(1) have "agrees table sq db' (va_credentials (new_authenticator (attach sq pf) (va_jar va) rng'))"
    using agrees_load[OF assms(1)] by (simp add: new_authenticator_def)
  ultimately show ?thesis by (metis agrees_unique)
qed

section \<open>A database on which the hypotheses hold\<close>

text \<open>It is busy at every other step; the scalar of a key is its encoding, with a byte in front.\<close>

definition sample_table :: "jar_row list \<times> bool \<Rightarrow> jar_row list" where
  "sample_table db = (if distinct (map jr_credential_id (fst db)) then fst db else [])"

definition sample_sqlite :: "(jar_row list \<times> bool) sqlite" where
  "sample_sqlite =
     \<lparr>sq_bind = \<lambda>stmt. True,
      sq_step = \<lambda>stmt db. if snd db then (sqlite_busy, (sample_table db, False))
        else (sqlite_done, (sql_effect stmt (sample_table db), True)),
      sq_changes = \<lambda>db. 1, sq_rows = \<lambda>db. (sql_select (sample_table db), sqlite_done), sq_now = \<lambda>db. 0,
      sq_key_der = \<lambda>c. 48 # vc_private_key_d c, sq_parse_der = \<lambda>der. Some (tl der)\<rparr>"

lemma sql_effect_distinct:
  "distinct (map jr_credential_id t) \<Longrightarrow> distinct (map jr_credential_id (sql_effect stmt t))"
proof (cases stmt)
  case (Upsert_row r)
  assume d: "distinct (map jr_credential_id t)"
  have "map jr_credential_id (map (\<lambda>r'. if jr_credential_id r' = jr_credential_id r
      then r\<lparr>jr_created_at := jr_created_at r'\<rparr> else r') t) = map jr_credential_id t"
    by simp
  then show ?thesis using Upsert_row d by (auto simp del: map_map)
next
  case (Bump_row n cid)
  assume d: "distinct (map jr_credential_id t)"
  have "map jr_credential_id (map (\<lambda>r. if jr_credential_id r = cid then r\<lparr>jr_sign_count := n\<rparr> else r) t) =
      map jr_credential_id t" by simp
  then show ?thesis using Bump_row d by (simp del: map_map)
qed (simp_all add: distinct_map_filter)

lemma sample_sqlite_ok:
  "sqlite_laws sample_table sample_sqlite" "sqlite_responds sample_sqlite" "keys_encode sample_platform sample_sqlite"
proof -
  have t: "sample_table (sample_table db, b) = sample_table db"
    "sample_table (sql_effect stmt (sample_table db), b) = sql_effect stmt (sample_table db)" for db stmt b
    using sql_effect_distinct[of "sample_table db" stmt] by (auto simp: sample_table_def)
  have "distinct (map jr_credential_id (sample_table db))" for db by (simp add: sample_table_def)
  then show "sqlite_laws sample_table sample_sqlite"
    using t by (auto simp: sqlite_laws_def sample_sqlite_def sqlite_busy_def sqlite_done_def)
  show "sqlite_responds sample_sqlite"
    by (simp add: sqlite_responds_def sample_sqlite_def with_busy_retry_def k_busy_attempts_def numeral_3_eq_3
        sqlite_busy_def sqlite_done_def sqlite_locked_def)
  show "keys_encode sample_platform sample_sqlite" by (simp add: keys_encode_def sample_sqlite_def)
qed

definition sample_history :: "(unit, jar_row list \<times> bool) authenticator" where
  "sample_history = fold (device_step 5 (attach sample_sqlite sample_platform))
     [Register sample_creation sample_origin, Assert sample_request sample_origin]
     (new_authenticator (attach sample_sqlite sample_platform) (Some ([], True)) ())"

theorem reopened_jar_restores_device_witness:
  "va_credentials (new_authenticator (attach sample_sqlite sample_platform) (va_jar sample_history) ()) =
     va_credentials sample_history"
  by (rule reopened_jar_restores_device[OF sample_sqlite_ok sample_hypotheses(1) _ _ sample_history_def])
    (simp_all add: sample_creation_def ascii_def)

theorem authenticator_invariant_witness:
  "sorted_wrt (<) (map vc_credential_id (list_credentials sample_history))"
  using authenticator_invariant[OF sample_hypotheses(1) _ sample_history_def] by simp

end
