(* ===== verification/Timers.thy ===== *)
theory Timers
  imports Prelude "HOL-Library.Multiset" Complex_Main
begin

text \<open>
  Timers and animation frames, \<^verbatim>\<open>src/js/bind_timers.cpp\<close>: the state of one isolate, the functions that
  JavaScript calls, and the functions with which the event loop runs due timers and frames.

  JavaScript is a tree of calls: a callback is a \<open>script\<close>, which ends, with or without an exception, or calls
  one of the functions and goes on according to the result. A callback with its arguments is of type \<open>'f\<close>; an
  \<open>engine\<close> turns it into a script, microtasks included, and reads the clock; \<open>'w\<close> is everything else that
  happens in the world. Times are in nanoseconds, as in \<^verbatim>\<open>std::chrono::steady_clock\<close>. Counters of
  identifiers are naturals: 2^64 timers are not created.

  Conversions of numbers that C++ leaves undefined yield \<open>None\<close>. \<^verbatim>\<open>std::priority_queue\<close> does not say which of
  several smallest elements is on top: a function \<open>pick\<close> gives its position.
\<close>

section \<open>Numbers\<close>

datatype number = NaN | PlusInf | MinusInf | Num rat

fun clamp_ms :: "number \<Rightarrow> number" where
  "clamp_ms NaN = Num 0"
| "clamp_ms MinusInf = Num 0"
| "clamp_ms PlusInf = PlusInf"
| "clamp_ms (Num q) = (if q < 0 then Num 0 else Num q)"

definition truncate :: "rat \<Rightarrow> int" where
  "truncate q = (if 0 \<le> q then \<lfloor>q\<rfloor> else \<lceil>q\<rceil>)"

definition i64_range :: "int \<Rightarrow> bool" where
  "i64_range i \<longleftrightarrow> -(2 ^ 63) \<le> i \<and> i < 2 ^ 63"

text \<open>\<^verbatim>\<open>static_cast<i64>(ms * 1000.0)\<close>, and a time that many microseconds after another.\<close>

fun microseconds :: "number \<Rightarrow> int option" where
  "microseconds (Num q) = (let t = truncate (q * 1000) in if i64_range t then Some t else None)"
| "microseconds _ = None"

definition deadline_after :: "int \<Rightarrow> number \<Rightarrow> int option" where
  "deadline_after now ms =
     (case microseconds ms of
        None \<Rightarrow> None
      | Some us \<Rightarrow>
          if i64_range (us * 1000) \<and> i64_range (now + us * 1000) then Some (now + us * 1000) else None)"

text \<open>\<^verbatim>\<open>static_cast<u64>\<close> of a number.\<close>

fun cast_u64 :: "number \<Rightarrow> nat option" where
  "cast_u64 (Num q) = (if -1 < q \<and> q < 2 ^ 64 then Some (nat (truncate q)) else None)"
| "cast_u64 _ = None"

section \<open>State\<close>

record 'f timer_entry =
  te_deadline :: int
  te_interval_ms :: number
  te_repeat :: bool
  te_fn :: 'f

record heap_node =
  hn_deadline :: int
  hn_id :: nat

record 'f iso_state =
  next_id :: nat
  active :: "nat \<rightharpoonup> 'f timer_entry"
  heap :: "heap_node list"
  next_raf_id :: nat
  raf_queue :: "(nat \<times> 'f) list"
  raf_cancelled :: "nat list"

definition new_iso_state :: "'f iso_state" where
  "new_iso_state = \<lparr>next_id = 1, active = Map.empty, heap = [], next_raf_id = 1, raf_queue = [], raf_cancelled = []\<rparr>"

definition state_for :: "'i \<Rightarrow> ('i \<rightharpoonup> 'f iso_state) \<Rightarrow> 'f iso_state \<times> ('i \<rightharpoonup> 'f iso_state)" where
  "state_for isolate g = (case g isolate of Some s \<Rightarrow> (s, g) | None \<Rightarrow> (new_iso_state, g(isolate \<mapsto> new_iso_state)))"

definition timers_reset_for_isolate :: "'i \<Rightarrow> ('i \<rightharpoonup> 'f iso_state) \<Rightarrow> ('i \<rightharpoonup> 'f iso_state)" where
  "timers_reset_for_isolate isolate g = g(isolate := None)"

section \<open>What JavaScript calls\<close>

datatype api_result = Type_error | Undefined_value | Timer_id nat

definition add_timer :: "'f timer_entry \<Rightarrow> 'f iso_state \<Rightarrow> api_result \<times> 'f iso_state" where
  "add_timer e s =
     (Timer_id (next_id s),
      s\<lparr>next_id := next_id s + 1, heap := heap s @ [\<lparr>hn_deadline = te_deadline e, hn_id = next_id s\<rparr>],
        active := (active s)(next_id s \<mapsto> e)\<rparr>)"

definition schedule_impl ::
  "bool \<Rightarrow> 'f option \<Rightarrow> number option \<Rightarrow> int \<Rightarrow> 'f iso_state \<Rightarrow> (api_result \<times> 'f iso_state) option" where
  "schedule_impl repeat fn ms_arg now s =
     (case fn of
        None \<Rightarrow> Some (Type_error, s)
      | Some f \<Rightarrow>
          let ms = clamp_ms (case ms_arg of None \<Rightarrow> Num 0 | Some ms \<Rightarrow> ms)
          in case deadline_after now ms of
               None \<Rightarrow> None
             | Some deadline \<Rightarrow> Some (add_timer
                 \<lparr>te_deadline = deadline, te_interval_ms = ms, te_repeat = repeat, te_fn = f\<rparr> s))"

definition set_immediate :: "'f option \<Rightarrow> int \<Rightarrow> 'f iso_state \<Rightarrow> api_result \<times> 'f iso_state" where
  "set_immediate fn now s =
     (case fn of
        None \<Rightarrow> (Type_error, s)
      | Some f \<Rightarrow> add_timer \<lparr>te_deadline = now, te_interval_ms = Num 0, te_repeat = False, te_fn = f\<rparr> s)"

definition clear_timer :: "number option \<Rightarrow> 'f iso_state \<Rightarrow> (api_result \<times> 'f iso_state) option" where
  "clear_timer arg s =
     (case arg of
        None \<Rightarrow> Some (Undefined_value, s)
      | Some num \<Rightarrow>
          (case cast_u64 num of
             None \<Rightarrow> None
           | Some tid \<Rightarrow> Some (Undefined_value, s\<lparr>active := (active s)(tid := None)\<rparr>)))"

definition raf :: "'f option \<Rightarrow> 'f iso_state \<Rightarrow> api_result \<times> 'f iso_state" where
  "raf fn s =
     (case fn of
        None \<Rightarrow> (Type_error, s)
      | Some f \<Rightarrow> (Timer_id (next_raf_id s),
          s\<lparr>next_raf_id := next_raf_id s + 1, raf_queue := raf_queue s @ [(next_raf_id s, f)]\<rparr>))"

definition cancel_raf :: "number option \<Rightarrow> 'f iso_state \<Rightarrow> (api_result \<times> 'f iso_state) option" where
  "cancel_raf arg s =
     (case arg of
        None \<Rightarrow> Some (Undefined_value, s)
      | Some num \<Rightarrow>
          (case cast_u64 num of
             None \<Rightarrow> None
           | Some fid \<Rightarrow> Some (Undefined_value,
               s\<lparr>raf_queue := filter (\<lambda>kv. fst kv \<noteq> fid) (raf_queue s),
                 raf_cancelled := raf_cancelled s @ [fid]\<rparr>)))"

datatype 'f action =
    SetTimer bool "'f option" "number option"
  | SetImmediate "'f option"
  | ClearTimer "number option"
  | RequestFrame "'f option"
  | CancelFrame "number option"

fun perform :: "'f action \<Rightarrow> int \<Rightarrow> 'f iso_state \<Rightarrow> (api_result \<times> 'f iso_state) option" where
  "perform (SetTimer repeat fn ms) now s = schedule_impl repeat fn ms now s"
| "perform (SetImmediate fn) now s = Some (set_immediate fn now s)"
| "perform (ClearTimer arg) now s = clear_timer arg s"
| "perform (RequestFrame fn) now s = Some (raf fn s)"
| "perform (CancelFrame arg) now s = cancel_raf arg s"

section \<open>Callbacks\<close>

text \<open>\<open>Finish True\<close> returns, \<open>Finish False\<close> throws.\<close>

datatype 'f script = Finish bool | Api "'f action" "api_result \<Rightarrow> 'f script"

record ('f, 'w) engine =
  en_call :: "'f \<Rightarrow> 'w \<Rightarrow> 'f script \<times> 'w"
  en_now :: "'w \<Rightarrow> int \<times> 'w"

primrec run_script ::
  "('f, 'w) engine \<Rightarrow> 'f script \<Rightarrow> 'f iso_state \<Rightarrow> 'w \<Rightarrow> (bool \<times> 'f iso_state \<times> 'w) option" where
  "run_script eng (Finish ok) s w = Some (ok, s, w)"
| "run_script eng (Api a k) s w =
     (let (now, w') = en_now eng w
      in case perform a now s of
           None \<Rightarrow> None
         | Some p \<Rightarrow> run_script eng (k (fst p)) (snd p) w')"

definition call_fn ::
  "('f, 'w) engine \<Rightarrow> 'f \<Rightarrow> 'f iso_state \<Rightarrow> 'w \<Rightarrow> (bool \<times> 'f iso_state \<times> 'w) option" where
  "call_fn eng f s w = (let (sc, w') = en_call eng f w in run_script eng sc s w')"

section \<open>The event loop\<close>

definition top_index :: "(heap_node list \<Rightarrow> nat) \<Rightarrow> heap_node list \<Rightarrow> nat" where
  "top_index pick h = pick h mod length h"

definition heap_top :: "(heap_node list \<Rightarrow> nat) \<Rightarrow> heap_node list \<Rightarrow> heap_node" where
  "heap_top pick h = h ! top_index pick h"

definition heap_pop :: "(heap_node list \<Rightarrow> nat) \<Rightarrow> heap_node list \<Rightarrow> heap_node list" where
  "heap_pop pick h = take (top_index pick h) h @ drop (Suc (top_index pick h)) h"

lemma length_heap_pop: "h \<noteq> [] \<Longrightarrow> length (heap_pop pick h) = length h - 1"
proof -
  assume "h \<noteq> []"
  then have "top_index pick h < length h" by (simp add: top_index_def)
  then show ?thesis by (simp add: heap_pop_def)
qed

text \<open>Nodes of cancelled timers are dropped from the top.\<close>

function drop_cancelled :: "(heap_node list \<Rightarrow> nat) \<Rightarrow> (nat \<rightharpoonup> 'f timer_entry) \<Rightarrow> heap_node list \<Rightarrow> heap_node list" where
  "drop_cancelled pick act h =
     (if h \<noteq> [] \<and> act (hn_id (heap_top pick h)) = None then drop_cancelled pick act (heap_pop pick h) else h)"
  by auto
termination
  by (relation "measure (\<lambda>(_, _, h). length h)") (auto simp: length_heap_pop)

datatype wait = Forever | Wait int

definition next_timer_deadline ::
  "(heap_node list \<Rightarrow> nat) \<Rightarrow> int \<Rightarrow> 'f iso_state \<Rightarrow> wait \<times> 'f iso_state" where
  "next_timer_deadline pick now s =
     (let h = drop_cancelled pick (active s) (heap s)
      in (if h = [] then Forever
          else let dl = hn_deadline (heap_top pick h) in if dl \<le> now then Wait 0 else Wait (dl - now),
          s\<lparr>heap := h\<rparr>))"

function collect_due ::
  "(heap_node list \<Rightarrow> nat) \<Rightarrow> int \<Rightarrow> (nat \<rightharpoonup> 'f timer_entry) \<Rightarrow> heap_node list \<Rightarrow> nat list \<times> heap_node list" where
  "collect_due pick now act h =
     (if h = [] then ([], h)
      else let top = heap_top pick h in
        if act (hn_id top) = None then collect_due pick now act (heap_pop pick h)
        else if hn_deadline top > now then ([], h)
        else let (due, h') = collect_due pick now act (heap_pop pick h) in (hn_id top # due, h'))"
  by auto
termination
  by (relation "measure (\<lambda>(_, _, _, h). length h)") (auto simp: length_heap_pop)

text \<open>The re-arming of a repeating timer after its callback.\<close>

definition rearm :: "nat \<Rightarrow> number \<Rightarrow> int \<Rightarrow> 'f iso_state \<Rightarrow> 'f iso_state option" where
  "rearm tid interval now s =
     (case active s tid of
        None \<Rightarrow> Some s
      | Some e \<Rightarrow>
          (case deadline_after now interval of
             None \<Rightarrow> None
           | Some deadline \<Rightarrow> Some
               (s\<lparr>active := (active s)(tid \<mapsto> e\<lparr>te_deadline := deadline\<rparr>),
                  heap := heap s @ [\<lparr>hn_deadline = deadline, hn_id = tid\<rparr>]\<rparr>)))"

text \<open>
  The loop over the due timers. The result has the timers that were called, in order, and whether the loop
  came to its end: it does not when a callback throws.
\<close>

fun fire_due ::
  "('f, 'w) engine \<Rightarrow> nat list \<Rightarrow> 'f iso_state \<Rightarrow> 'w \<Rightarrow> (bool \<times> nat list \<times> 'f iso_state \<times> 'w) option" where
  "fire_due eng [] s w = Some (True, [], s, w)"
| "fire_due eng (tid # due) s w =
     (case active s tid of
        None \<Rightarrow> fire_due eng due s w
      | Some e \<Rightarrow>
          let s0 = (if te_repeat e then s else s\<lparr>active := (active s)(tid := None)\<rparr>)
          in case call_fn eng (te_fn e) s0 w of
               None \<Rightarrow> None
             | Some (False, s1, w1) \<Rightarrow> Some (False, [tid], s1, w1)
             | Some (True, s1, w1) \<Rightarrow>
                 (if te_repeat e
                  then let (now, w2) = en_now eng w1
                    in case rearm tid (te_interval_ms e) now s1 of
                         None \<Rightarrow> None
                       | Some s2 \<Rightarrow> map_option (\<lambda>(ok, fired, r). (ok, tid # fired, r)) (fire_due eng due s2 w2)
                  else map_option (\<lambda>(ok, fired, r). (ok, tid # fired, r)) (fire_due eng due s1 w1)))"

definition drain_due_timers ::
  "('f, 'w) engine \<Rightarrow> (heap_node list \<Rightarrow> nat) \<Rightarrow> 'f iso_state \<Rightarrow> 'w \<Rightarrow>
   (bool \<times> nat list \<times> 'f iso_state \<times> 'w) option" where
  "drain_due_timers eng pick s w =
     (let (now, w') = en_now eng w;
          (due, h) = collect_due pick now (active s) (heap s)
      in fire_due eng due (s\<lparr>heap := h\<rparr>) w')"

text \<open>The loop over the callbacks of a frame, with the identifiers that were cancelled before it.\<close>

fun fire_frames ::
  "('f, 'w) engine \<Rightarrow> nat list \<Rightarrow> (nat \<times> 'f) list \<Rightarrow> 'f iso_state \<Rightarrow> 'w \<Rightarrow>
   (bool \<times> nat list \<times> 'f iso_state \<times> 'w) option" where
  "fire_frames eng cancelled [] s w = Some (True, [], s, w)"
| "fire_frames eng cancelled ((fid, f) # current) s w =
     (if fid \<in> set cancelled then fire_frames eng cancelled current s w
      else case call_fn eng f s w of
        None \<Rightarrow> None
      | Some (False, s1, w1) \<Rightarrow> Some (False, [fid], s1, w1)
      | Some (True, s1, w1) \<Rightarrow>
          map_option (\<lambda>(ok, fired, r). (ok, fid # fired, r)) (fire_frames eng cancelled current s1 w1))"

definition drain_animation_frames ::
  "('f, 'w) engine \<Rightarrow> 'f iso_state \<Rightarrow> 'w \<Rightarrow> (bool \<times> nat list \<times> 'f iso_state \<times> 'w) option" where
  "drain_animation_frames eng s w =
     (if raf_queue s = [] then Some (True, [], s, w)
      else let (now, w') = en_now eng w
        in fire_frames eng (raf_cancelled s) (raf_queue s) (s\<lparr>raf_queue := [], raf_cancelled := []\<rparr>) w')"

declare drop_cancelled.simps [simp del] collect_due.simps [simp del]

end
