(* ===== verification/Timers_Correct.thy ===== *)
theory Timers_Correct
  imports Timers "HOL-Library.Sublist"
begin

text \<open>
  Timers through a history of programs, drains and frames: every active timer has exactly one node in the heap
  as long as no timer callback throws, so the event loop sleeps exactly until the next deadline; and the
  facts about the two loops of a drain on which \<^verbatim>\<open>Timer_Log\<close> rests. A sample program for the witnesses.
\<close>

section \<open>The heap\<close>

text \<open>The contract of \<^verbatim>\<open>std::priority_queue\<close>: a smallest node is on top.\<close>

definition min_pick :: "(heap_node list \<Rightarrow> nat) \<Rightarrow> bool" where
  "min_pick pick \<longleftrightarrow> (\<forall>h. h \<noteq> [] \<longrightarrow> pick h < length h \<and> (\<forall>n \<in> set h. hn_deadline (h ! pick h) \<le> hn_deadline n))"

lemma mset_heap_pop: "h \<noteq> [] \<Longrightarrow> mset h = add_mset (heap_top pick h) (mset (heap_pop pick h))"
proof -
  assume "h \<noteq> []"
  then have i: "top_index pick h < length h" by (simp add: top_index_def)
  have "mset h = mset (take (top_index pick h) h @ h ! top_index pick h # drop (Suc (top_index pick h)) h)"
    by (subst id_take_nth_drop[OF i]) simp
  then show ?thesis by (simp add: heap_pop_def heap_top_def)
qed

lemma heap_top_in: "h \<noteq> [] \<Longrightarrow> heap_top pick h \<in> set h"
  by (metis mset_heap_pop set_mset_mset union_single_eq_member)

lemma heap_top_min: "min_pick pick \<Longrightarrow> n \<in> set h \<Longrightarrow> hn_deadline (heap_top pick h) \<le> hn_deadline n"
  by (cases "h = []") (auto simp: min_pick_def heap_top_def top_index_def)

lemma heap_pop_subset: "h \<noteq> [] \<Longrightarrow> set (heap_pop pick h) \<subseteq> set h"
  using mset_heap_pop[of h pick] by (metis set_mset_add_mset_insert set_mset_mset subset_insertI)

text \<open>What the first loop of a drain takes from the heap.\<close>

lemma collect_due_spec:
  assumes "min_pick pick" "collect_due pick now act h = (due, h')"
  shows "\<exists>ds dropped. due = map hn_id ds \<and> mset h = mset ds + mset dropped + mset h' \<and>
    (\<forall>n \<in> set dropped. act (hn_id n) = None) \<and> (\<forall>n \<in> set ds. act (hn_id n) \<noteq> None \<and> hn_deadline n \<le> now) \<and>
    (\<forall>n \<in> set h'. now < hn_deadline n) \<and> sorted (map hn_deadline ds)"
  using assms
proof (induction pick now act h arbitrary: due h' rule: collect_due.induct)
  case (1 pick now act h)
  let ?top = "heap_top pick h" and ?rest = "heap_pop pick h"
  note simp = collect_due.simps[of pick now act h]
  consider "h = []" | (stale) "h \<noteq> []" "act (hn_id ?top) = None"
    | (early) "h \<noteq> []" "act (hn_id ?top) \<noteq> None" "now < hn_deadline ?top"
    | (taken) "h \<noteq> []" "act (hn_id ?top) \<noteq> None" "hn_deadline ?top \<le> now" by force
  then show ?case
  proof cases
    case 1
    then show ?thesis using "1.prems" simp by (intro exI[of _ "[]"]) simp
  next
    case stale
    then have "collect_due pick now act ?rest = (due, h')" using "1.prems"(2) simp by (simp add: Let_def)
    from "1.IH"(1)[OF stale(1) refl stale(2) "1.prems"(1) this] obtain ds dropped where d:
      "due = map hn_id ds" "mset ?rest = mset ds + mset dropped + mset h'"
      "\<forall>n \<in> set dropped. act (hn_id n) = None" "\<forall>n \<in> set ds. act (hn_id n) \<noteq> None \<and> hn_deadline n \<le> now"
      "\<forall>n \<in> set h'. now < hn_deadline n" "sorted (map hn_deadline ds)" by blast
    then show ?thesis
      using stale mset_heap_pop[OF stale(1), of pick]
      by (intro exI[of _ ds] exI[of _ "?top # dropped"]) simp
  next
    case early
    have "\<forall>n \<in> set h. now < hn_deadline n" using heap_top_min[OF "1.prems"(1)] early(3) by fastforce
    moreover from early(2) obtain e where "act (hn_id ?top) = Some e" by blast
    then have "due = []" "h' = h" using early(1,3) "1.prems"(2) simp by (simp_all add: Let_def)
    ultimately show ?thesis by (intro exI[of _ "[]"]) simp
  next
    case taken
    obtain due1 h1 where r: "collect_due pick now act ?rest = (due1, h1)" by fastforce
    from taken(2) obtain e where "act (hn_id ?top) = Some e" by blast
    then have e: "due = hn_id ?top # due1" "h' = h1" using r taken(1,3) "1.prems"(2) simp by (simp_all add: Let_def)
    have "\<not> now < hn_deadline ?top" using taken(3) by simp
    from "1.IH"(2)[OF taken(1) refl taken(2) this "1.prems"(1) r] obtain ds dropped where d:
      "due1 = map hn_id ds" "mset ?rest = mset ds + mset dropped + mset h1"
      "\<forall>n \<in> set dropped. act (hn_id n) = None" "\<forall>n \<in> set ds. act (hn_id n) \<noteq> None \<and> hn_deadline n \<le> now"
      "\<forall>n \<in> set h1. now < hn_deadline n" "sorted (map hn_deadline ds)" by blast
    have "n \<in> set h" if "n \<in> set ds" for n
      using that d(2) heap_pop_subset[OF taken(1), of pick] by (metis UnCI set_mset_mset set_mset_union subsetD)
    then have "\<forall>n \<in> set ds. hn_deadline ?top \<le> hn_deadline n" using heap_top_min[OF "1.prems"(1)] by blast
    then show ?thesis
      using d e taken mset_heap_pop[OF taken(1), of pick]
      by (intro exI[of _ "?top # ds"] exI[of _ dropped]) auto
  qed
qed

text \<open>What the removal of stale nodes leaves.\<close>

lemma drop_cancelled_spec:
  "\<exists>dropped. mset h = mset dropped + mset (drop_cancelled pick act h) \<and> (\<forall>n \<in> set dropped. act (hn_id n) = None) \<and>
     (drop_cancelled pick act h \<noteq> [] \<longrightarrow> act (hn_id (heap_top pick (drop_cancelled pick act h))) \<noteq> None)"
proof (induction pick act h rule: drop_cancelled.induct)
  case (1 pick act h)
  show ?case
  proof (cases "h \<noteq> [] \<and> act (hn_id (heap_top pick h)) = None")
    case True
    then have e: "drop_cancelled pick act h = drop_cancelled pick act (heap_pop pick h)"
      using drop_cancelled.simps[of pick act h] by simp
    from "1.IH"[OF True] obtain dropped where
      "mset (heap_pop pick h) = mset dropped + mset (drop_cancelled pick act (heap_pop pick h))"
      "\<forall>n \<in> set dropped. act (hn_id n) = None"
      "drop_cancelled pick act (heap_pop pick h) \<noteq> [] \<longrightarrow>
         act (hn_id (heap_top pick (drop_cancelled pick act (heap_pop pick h)))) \<noteq> None" by blast
    then show ?thesis
      using True mset_heap_pop[of h pick] unfolding e by (intro exI[of _ "heap_top pick h # dropped"]) auto
  next
    case False
    then have "drop_cancelled pick act h = h" using drop_cancelled.simps[of pick act h] by auto
    then show ?thesis using False by (intro exI[of _ "[]"]) auto
  qed
qed

section \<open>Scripts\<close>

text \<open>A call adds a timer, or removes at most one.\<close>

lemma perform_effect:
  "perform a now s = Some (r, s') \<Longrightarrow> (\<exists>e. s' = snd (add_timer e s)) \<or>
     next_id s' = next_id s \<and> heap s' = heap s \<and> (active s' = active s \<or> (\<exists>i. active s' = (active s)(i := None)))"
proof (cases a)
  case (SetTimer repeat fn ms)
  moreover assume "perform a now s = Some (r, s')"
  ultimately show ?thesis by (auto simp: schedule_impl_def Let_def split: option.splits) (metis snd_conv)+
next
  case (SetImmediate fn)
  moreover assume "perform a now s = Some (r, s')"
  ultimately show ?thesis by (auto simp: set_immediate_def split: option.splits) (metis snd_conv)+
qed (auto simp: clear_timer_def raf_def cancel_raf_def split: option.splits)

text \<open>What every call keeps, a script keeps.\<close>

definition kept :: "('f iso_state \<Rightarrow> bool) \<Rightarrow> bool" where
  "kept P \<longleftrightarrow> (\<forall>a now s r s'. perform a now s = Some (r, s') \<longrightarrow> P s \<longrightarrow> P s')"

lemma run_script_keeps: "run_script eng sc s w = Some (ok, s', w') \<Longrightarrow> kept P \<Longrightarrow> P s \<Longrightarrow> P s'"
proof (induction sc arbitrary: s w)
  case (Api a k)
  obtain now w1 where t: "en_now eng w = (now, w1)" by fastforce
  then obtain r s1 where p: "perform a now s = Some (r, s1)" "run_script eng (k r) s1 w1 = Some (ok, s', w')"
    using Api.prems(1) by (auto split: option.splits)
  then have "P s1" using Api.prems(2,3) unfolding kept_def by blast
  with Api.IH[OF rangeI p(2) Api.prems(2)] show ?case .
qed simp

lemma call_fn_keeps: "call_fn eng f s w = Some (ok, s', w') \<Longrightarrow> kept P \<Longrightarrow> P s \<Longrightarrow> P s'"
  by (auto simp: call_fn_def dest: run_script_keeps split: prod.splits)

section \<open>The loop over due timers\<close>

text \<open>The loop as a relation, one rule for each way through its body.\<close>

inductive fires ::
  "('f, 'w) engine \<Rightarrow> nat list \<Rightarrow> 'f iso_state \<Rightarrow> 'w \<Rightarrow> bool \<Rightarrow> nat list \<Rightarrow> 'f iso_state \<Rightarrow> 'w \<Rightarrow> bool"
  for eng where
  finished: "fires eng [] s w True [] s w"
| cleared: "active s i = None \<Longrightarrow> fires eng due s w ok fired s' w' \<Longrightarrow> fires eng (i # due) s w ok fired s' w'"
| throws: "active s i = Some e \<Longrightarrow>
    call_fn eng (te_fn e) (if te_repeat e then s else s\<lparr>active := (active s)(i := None)\<rparr>) w = Some (False, s1, w1) \<Longrightarrow>
    fires eng (i # due) s w False [i] s1 w1"
| once: "active s i = Some e \<Longrightarrow> \<not> te_repeat e \<Longrightarrow>
    call_fn eng (te_fn e) (s\<lparr>active := (active s)(i := None)\<rparr>) w = Some (True, s1, w1) \<Longrightarrow>
    fires eng due s1 w1 ok fired s' w' \<Longrightarrow> fires eng (i # due) s w ok (i # fired) s' w'"
| again: "active s i = Some e \<Longrightarrow> te_repeat e \<Longrightarrow> call_fn eng (te_fn e) s w = Some (True, s1, w1) \<Longrightarrow>
    en_now eng w1 = (now, w2) \<Longrightarrow> rearm i (te_interval_ms e) now s1 = Some s2 \<Longrightarrow>
    fires eng due s2 w2 ok fired s' w' \<Longrightarrow> fires eng (i # due) s w ok (i # fired) s' w'"

lemma fire_due_fires: "fire_due eng due s w = Some (ok, fired, s', w') \<Longrightarrow> fires eng due s w ok fired s' w'"
proof (induction due arbitrary: s w ok fired)
  case Nil
  then show ?case by (auto intro: fires.finished)
next
  case (Cons i due)
  show ?case
  proof (cases "active s i")
    case None
    then show ?thesis using Cons by (auto intro: fires.cleared)
  next
    case (Some e)
    let ?s0 = "if te_repeat e then s else s\<lparr>active := (active s)(i := None)\<rparr>"
    obtain cok s1 w1 where c: "call_fn eng (te_fn e) ?s0 w = Some (cok, s1, w1)"
      using Cons.prems Some by (cases "call_fn eng (te_fn e) ?s0 w") auto
    show ?thesis
    proof (cases "cok \<and> te_repeat e")
      case True
      obtain now w2 where n: "en_now eng w1 = (now, w2)" by fastforce
      obtain s2 where r: "rearm i (te_interval_ms e) now s1 = Some s2"
        using Cons.prems Some c True n by (cases "rearm i (te_interval_ms e) now s1") auto
      obtain fired' where f: "fire_due eng due s2 w2 = Some (ok, fired', s', w')" "fired = i # fired'"
        using Cons.prems Some c True n r by auto
      show ?thesis unfolding f(2) by (rule fires.again[OF Some _ _ n r Cons.IH[OF f(1)]]) (use c True in auto)
    next
      case False
      show ?thesis
      proof (cases cok)
        case True
        then obtain fired' where f: "fire_due eng due s1 w1 = Some (ok, fired', s', w')" "fired = i # fired'"
          using Cons.prems Some c False by auto
        show ?thesis unfolding f(2) by (rule fires.once[OF Some _ _ Cons.IH[OF f(1)]]) (use c True False in auto)
      next
        case thrown: False
        then show ?thesis using Cons.prems Some c by (auto intro!: fires.throws[OF Some])
      qed
    qed
  qed
qed

section \<open>Histories\<close>

text \<open>
  What the host does with an isolate: it runs a function of the program (an event handler, a module), drains
  the due timers, drains the frames or asks how long it may sleep. The result has the timers and the frames
  that were called and whether every drain of timers came to its end.
\<close>

datatype 'f host_event = Enter 'f | Drain_timers | Drain_frames | Next_deadline

fun host_step ::
  "('f, 'w) engine \<Rightarrow> (heap_node list \<Rightarrow> nat) \<Rightarrow> 'f host_event \<Rightarrow> 'f iso_state \<Rightarrow> 'w \<Rightarrow>
   (bool \<times> nat list \<times> nat list \<times> 'f iso_state \<times> 'w) option" where
  "host_step eng pick (Enter f) s w = map_option (\<lambda>(ok, s', w'). (True, [], [], s', w')) (call_fn eng f s w)"
| "host_step eng pick Drain_timers s w =
     map_option (\<lambda>(ok, fired, s', w'). (ok, fired, [], s', w')) (drain_due_timers eng pick s w)"
| "host_step eng pick Drain_frames s w =
     map_option (\<lambda>(ok, fired, s', w'). (True, [], fired, s', w')) (drain_animation_frames eng s w)"
| "host_step eng pick Next_deadline s w =
     (let (now, w') = en_now eng w in Some (True, [], [], snd (next_timer_deadline pick now s), w'))"

fun host_run ::
  "('f, 'w) engine \<Rightarrow> (heap_node list \<Rightarrow> nat) \<Rightarrow> 'f host_event list \<Rightarrow> 'f iso_state \<Rightarrow> 'w \<Rightarrow>
   (bool \<times> nat list \<times> nat list \<times> 'f iso_state \<times> 'w) option" where
  "host_run eng pick [] s w = Some (True, [], [], s, w)"
| "host_run eng pick (ev # evs) s w =
     (case host_step eng pick ev s w of
        None \<Rightarrow> None
      | Some (ok, timers, frames, s1, w1) \<Rightarrow>
          map_option (\<lambda>(ok', timers', frames', r). (ok \<and> ok', timers @ timers', frames @ frames', r))
            (host_run eng pick evs s1 w1))"

section \<open>Cleared timers\<close>

text \<open>An identifier that was issued and is not active any more.\<close>

definition gone :: "nat \<Rightarrow> 'f iso_state \<Rightarrow> bool" where
  "gone tid s \<longleftrightarrow> tid < next_id s \<and> active s tid = None"

lemma kept_gone: "kept (gone tid)"
  unfolding kept_def gone_def by (auto simp: add_timer_def dest!: perform_effect)

lemmas call_fn_gone = call_fn_keeps[OF _ kept_gone]

lemma gone_simps [simp]:
  "gone tid (s\<lparr>heap := h\<rparr>) = gone tid s" "gone tid (s\<lparr>raf_queue := q, raf_cancelled := c\<rparr>) = gone tid s"
  "gone tid s \<Longrightarrow> gone tid (s\<lparr>active := (active s)(i := None)\<rparr>)"
  by (simp_all add: gone_def)

lemma rearm_gone: "rearm i interval now s = Some s' \<Longrightarrow> gone tid s \<Longrightarrow> gone tid s'"
  by (auto simp: rearm_def gone_def split: option.splits)

lemma fires_gone:
  "fires eng due s w ok fired s' w' \<Longrightarrow> gone tid s \<Longrightarrow> gone tid s' \<and> tid \<notin> set fired"
proof (induction rule: fires.induct)
  case (throws s i e w s1 w1 due)
  then show ?case using call_fn_gone[OF throws(2)] by (auto simp: gone_def)
next
  case (once s i e w s1 w1 due ok fired s' w')
  then show ?case using call_fn_gone[OF once(3)] by (auto simp: gone_def)
next
  case (again s i e w s1 w1 now w2 s2 due ok fired s' w')
  then show ?case using call_fn_gone[OF again(3)] rearm_gone[OF again(5)] by (auto simp: gone_def)
qed auto

lemma fire_frames_keeps:
  "fire_frames eng cancelled current s w = Some (ok, fired, s', w') \<Longrightarrow> kept P \<Longrightarrow> P s \<Longrightarrow> P s'"
proof (induction current arbitrary: s w ok fired)
  case (Cons kv current)
  obtain fid f where kv: "kv = (fid, f)" by fastforce
  show ?case
  proof (cases "fid \<in> set cancelled")
    case True
    then show ?thesis using Cons.IH Cons.prems kv by simp
  next
    case False
    then obtain cok s1 w1 where c: "call_fn eng f s w = Some (cok, s1, w1)"
      using Cons.prems kv by (cases "call_fn eng f s w") auto
    note P = call_fn_keeps[OF c Cons.prems(2,3)]
    show ?thesis
    proof (cases cok)
      case True
      then obtain fired' where "fire_frames eng cancelled current s1 w1 = Some (ok, fired', s', w')"
        using Cons.prems(1) False c kv by auto
      from Cons.IH[OF this Cons.prems(2) P] show ?thesis .
    qed (use Cons.prems(1) False c P kv in auto)
  qed
qed simp

lemma host_step_gone:
  assumes "host_step eng pick ev s w = Some (ok, timers, frames, s', w')" "gone tid s"
  shows "gone tid s' \<and> tid \<notin> set timers"
proof (cases ev)
  case (Enter f)
  then show ?thesis using assms call_fn_gone by auto
next
  case Drain_timers
  obtain now w1 due h where d: "en_now eng w = (now, w1)" "collect_due pick now (active s) (heap s) = (due, h)"
    by fastforce
  then have "fires eng due (s\<lparr>heap := h\<rparr>) w1 ok timers s' w'"
    using assms(1) Drain_timers by (auto simp: drain_due_timers_def intro: fire_due_fires)
  then show ?thesis using assms(2) by (auto dest: fires_gone)
next
  case Drain_frames
  then show ?thesis
    using assms fire_frames_keeps[OF _ kept_gone]
    by (fastforce simp: drain_animation_frames_def split: if_splits prod.splits)
next
  case Next_deadline
  then show ?thesis using assms by (auto simp: next_timer_deadline_def Let_def split: prod.splits)
qed

section \<open>Armed timers\<close>

text \<open>
  Every active timer has exactly one node in the heap, with its deadline; the timers in \<open>D\<close>, which have
  been taken from the heap and not been called yet, have none.
\<close>

definition nodes_of :: "nat \<Rightarrow> heap_node list \<Rightarrow> heap_node multiset" where
  "nodes_of i h = filter_mset (\<lambda>n. hn_id n = i) (mset h)"

definition armed :: "nat set \<Rightarrow> 'f iso_state \<Rightarrow> bool" where
  "armed D s \<longleftrightarrow> (\<forall>i \<in> D. i < next_id s) \<and> (\<forall>n \<in> set (heap s). hn_id n < next_id s) \<and>
     (\<forall>i e. active s i = Some e \<longrightarrow> i < next_id s \<and>
        nodes_of i (heap s) = (if i \<in> D then {#} else {#\<lparr>hn_deadline = te_deadline e, hn_id = i\<rparr>#}))"

lemma nodes_of_append: "nodes_of i (h @ h') = nodes_of i h + nodes_of i h'"
  by (simp add: nodes_of_def)

lemma nodes_of_single: "nodes_of i [n] = (if hn_id n = i then {#n#} else {#})"
  by (simp add: nodes_of_def)

lemma nodes_of_none: "\<forall>n \<in> set h. hn_id n \<noteq> i \<Longrightarrow> nodes_of i h = {#}"
  by (auto simp: nodes_of_def filter_mset_eq_conv)

lemma armed_add_timer: "armed D s \<Longrightarrow> armed D (snd (add_timer e s))"
proof -
  assume a: "armed D s"
  then have "nodes_of (next_id s) (heap s) = {#}" by (intro nodes_of_none) (auto simp: armed_def)
  then show ?thesis using a by (auto simp: armed_def add_timer_def nodes_of_append nodes_of_single less_Suc_eq)
qed

lemma armed_smaller:
  assumes "armed D s" "next_id s' = next_id s" "heap s' = heap s"
    "active s' = active s \<or> (\<exists>i. active s' = (active s)(i := None))"
  shows "armed D s'"
proof -
  have "active s' i = Some e \<Longrightarrow> active s i = Some e" for i e using assms(4) by (auto split: if_splits)
  then show ?thesis using assms(1) unfolding armed_def assms(2,3) by blast
qed

lemma kept_armed: "kept (armed D)"
  unfolding kept_def by (blast dest: perform_effect intro: armed_add_timer armed_smaller)

lemma armed_cleared: "active s i = None \<Longrightarrow> armed (insert i D) s \<Longrightarrow> armed D s"
  unfolding armed_def by (intro conjI allI impI) (force split: if_splits)+

lemma armed_disarm: "armed (insert i D) s \<Longrightarrow> armed D (s\<lparr>active := (active s)(i := None)\<rparr>)"
  by (auto simp: armed_def)

lemma armed_rearm:
  assumes "rearm i interval now s = Some s'" "armed (insert i D) s" "i \<notin> D"
  shows "armed D s'"
proof (cases "active s i")
  case None
  then show ?thesis using assms armed_cleared by (auto simp: rearm_def)
next
  case (Some e)
  then obtain dl where s': "s' = s\<lparr>active := (active s)(i \<mapsto> e\<lparr>te_deadline := dl\<rparr>),
      heap := heap s @ [\<lparr>hn_deadline = dl, hn_id = i\<rparr>]\<rparr>"
    using assms(1) by (auto simp: rearm_def split: option.splits)
  have "i < next_id s" "nodes_of i (heap s) = {#}" using assms(2) Some by (auto simp: armed_def)
  moreover have "nodes_of j (heap s) = (if j \<in> D then {#} else {#\<lparr>hn_deadline = te_deadline e', hn_id = j\<rparr>#}) \<and>
      j < next_id s" if "active s j = Some e'" "j \<noteq> i" for j e'
    using assms(2) that by (auto simp: armed_def)
  ultimately show ?thesis using assms(2,3)
    unfolding s' armed_def by (simp add: nodes_of_append nodes_of_single)
qed

lemma fires_armed:
  "fires eng due s w ok fired s' w' \<Longrightarrow> ok \<Longrightarrow> distinct due \<Longrightarrow> armed (set due) s \<Longrightarrow> armed {} s'"
proof (induction rule: fires.induct)
  case (cleared s i due w ok fired s' w')
  then show ?case using armed_cleared[of s i "set due"] by simp
next
  case (once s i e w s1 w1 due ok fired s' w')
  have "armed (set due) s1"
    using call_fn_keeps[OF once(3) kept_armed] armed_disarm[of i "set due" s] once(8) by simp
  then show ?case using once by simp
next
  case (again s i e w s1 w1 now w2 s2 due ok fired s' w')
  have "armed (insert i (set due)) s1" using call_fn_keeps[OF again(3) kept_armed] again(10) by simp
  then have "armed (set due) s2" using armed_rearm[OF again(5)] again(9) by simp
  then show ?case using again by simp
qed auto

text \<open>What the first loop takes from the heap of an armed state.\<close>

lemma collect_armed:
  assumes "min_pick pick" "armed {} s" "collect_due pick now (active s) (heap s) = (due, h)"
  shows "distinct due" "armed (set due) (s\<lparr>heap := h\<rparr>)"
    "set due = {i. \<exists>e. active s i = Some e \<and> te_deadline e \<le> now}"
    "sorted (map (\<lambda>i. te_deadline (the (active s i))) due)"
proof -
  obtain ds dropped where due: "due = map hn_id ds" and h: "mset (heap s) = mset ds + mset dropped + mset h"
    and dropped: "\<forall>n \<in> set dropped. active s (hn_id n) = None"
    and ds: "\<forall>n \<in> set ds. active s (hn_id n) \<noteq> None \<and> hn_deadline n \<le> now"
    and later: "\<forall>n \<in> set h. now < hn_deadline n" and sorted: "sorted (map hn_deadline ds)"
    using collect_due_spec[OF assms(1,3)] by blast
  have sub: "set ds \<subseteq> set (heap s)" "set h \<subseteq> set (heap s)"
    using h by (metis UnCI set_mset_mset set_mset_union subsetI)+
  have split: "nodes_of i ds + nodes_of i h = {#\<lparr>hn_deadline = te_deadline e, hn_id = i\<rparr>#}"
    if "active s i = Some e" for i e
  proof -
    have "nodes_of i dropped = {#}" using dropped that by (intro nodes_of_none) auto
    moreover have "nodes_of i (heap s) = nodes_of i ds + nodes_of i dropped + nodes_of i h" by (simp add: nodes_of_def h)
    moreover have "nodes_of i (heap s) = {#\<lparr>hn_deadline = te_deadline e, hn_id = i\<rparr>#}"
      using assms(2) that by (simp add: armed_def)
    ultimately show ?thesis by simp
  qed
  have node: "active s (hn_id n) = Some e \<Longrightarrow> n = \<lparr>hn_deadline = te_deadline e, hn_id = hn_id n\<rparr>"
    if "n \<in> set ds \<union> set h" for n e
  proof -
    assume a: "active s (hn_id n) = Some e"
    have "n \<in># nodes_of (hn_id n) ds + nodes_of (hn_id n) h" using that by (auto simp: nodes_of_def)
    then show ?thesis unfolding split[OF a] by simp
  qed
  have size: "size (nodes_of i ds) \<le> 1" if i: "i \<in> set due" for i
  proof -
    obtain e where "active s i = Some e" using i ds unfolding due by fastforce
    from arg_cong[OF split[OF this], of size] show ?thesis by simp
  qed
  have count: "count (mset due) i = size (nodes_of i ds)" for i
    unfolding due by (induction ds) (auto simp: nodes_of_def)
  have "count (mset due) i = (if i \<in> set due then 1 else 0)" for i
  proof (cases "i \<in> set due")
    case True
    then have "count (mset due) i \<noteq> 0" by (simp add: count_mset_0_iff)
    then have "count (mset due) i = 1" using size[OF True] count[of i] by linarith
    then show ?thesis using True by simp
  qed (simp add: count_mset_0_iff)
  then show "distinct due" unfolding distinct_count_atmost_1 by blast
  have due_iff: "i \<in> set due \<longleftrightarrow> nodes_of i ds \<noteq> {#}" for i
    unfolding due by (auto simp: nodes_of_def)
  show "armed (set due) (s\<lparr>heap := h\<rparr>)"
  proof -
    have "nodes_of i h = (if i \<in> set due then {#} else {#\<lparr>hn_deadline = te_deadline e, hn_id = i\<rparr>#})"
      if "active s i = Some e" for i e
    proof (cases "i \<in> set due")
      case True
      then have "size (nodes_of i ds) \<noteq> 0" by (simp add: due_iff)
      moreover have "size (nodes_of i ds) + size (nodes_of i h) = 1"
        using arg_cong[OF split[OF that], of size] by simp
      ultimately have "size (nodes_of i h) = 0" by linarith
      then show ?thesis using True by simp
    next
      case False
      then show ?thesis using split[OF that] by (simp add: due_iff)
    qed
    moreover have "\<forall>i \<in> set due. i < next_id s" "\<forall>n \<in> set h. hn_id n < next_id s"
      using sub assms(2) by (auto simp: armed_def due)
    ultimately show ?thesis using assms(2) by (simp add: armed_def)
  qed
  show "set due = {i. \<exists>e. active s i = Some e \<and> te_deadline e \<le> now}"
  proof (intro equalityI subsetI CollectI)
    fix i assume "i \<in> set due"
    then obtain n where n: "n \<in> set ds" "i = hn_id n" by (auto simp: due)
    then obtain e where e: "active s i = Some e" using ds by blast
    then have "hn_deadline n = te_deadline e" using node[of n e] n by (metis UnI1 heap_node.select_convs(1))
    then show "\<exists>e. active s i = Some e \<and> te_deadline e \<le> now" using e ds n(1) by auto
  next
    fix i assume "i \<in> {i. \<exists>e. active s i = Some e \<and> te_deadline e \<le> now}"
    then obtain e where e: "active s i = Some e" "te_deadline e \<le> now" by blast
    show "i \<in> set due"
    proof (rule ccontr)
      assume "i \<notin> set due"
      then have "nodes_of i h = {#\<lparr>hn_deadline = te_deadline e, hn_id = i\<rparr>#}" using split[OF e(1)] due_iff by simp
      then have "\<lparr>hn_deadline = te_deadline e, hn_id = i\<rparr> \<in># nodes_of i h" by simp
      then have "\<lparr>hn_deadline = te_deadline e, hn_id = i\<rparr> \<in> set h" by (simp add: nodes_of_def)
      then show False using later e(2) by fastforce
    qed
  qed
  have "hn_deadline n = te_deadline (the (active s (hn_id n)))" if n: "n \<in> set ds" for n
  proof -
    obtain e where e: "active s (hn_id n) = Some e" using ds n by blast
    then show ?thesis using node[of n e] n by (metis UnI1 heap_node.select_convs(1) option.sel)
  qed
  then have "map (\<lambda>i. te_deadline (the (active s i))) due = map hn_deadline ds"
    unfolding due map_map by (intro map_cong) auto
  then show "sorted (map (\<lambda>i. te_deadline (the (active s i))) due)" using sorted by simp
qed

text \<open>Which of the due timers are called.\<close>

lemma fires_subseq: "fires eng due s w ok fired s' w' \<Longrightarrow> subseq fired due"
  by (induction rule: fires.induct) auto

lemma kept_next_id: "kept (\<lambda>s. n \<le> next_id s)"
  unfolding kept_def by (auto simp: add_timer_def dest!: perform_effect)

lemma fires_skips:
  "fires eng due s w ok fired s' w' \<Longrightarrow> ok \<Longrightarrow> \<forall>i \<in> set due. i < next_id s \<Longrightarrow> i \<in> set due \<Longrightarrow> i \<notin> set fired \<Longrightarrow>
   active s' i = None"
proof (induction rule: fires.induct)
  case (cleared s j due w ok fired s' w')
  show ?case
  proof (cases "i = j")
    case True
    then have "gone i s" using cleared by (simp add: gone_def)
    then show ?thesis using fires_gone[OF cleared(2)] by (simp add: gone_def)
  qed (use cleared in auto)
next
  case (once s j e w s1 w1 due ok fired s' w')
  have "next_id s \<le> next_id s1" using call_fn_keeps[OF once(3) kept_next_id[of "next_id s"]] by simp
  then have "\<forall>i \<in> set due. i < next_id s1" using once.prems(2) by (auto intro: less_le_trans)
  then show ?case using once by auto
next
  case (again s j e w s1 w1 now w2 s2 due ok fired s' w')
  have "next_id s \<le> next_id s1" using call_fn_keeps[OF again(3) kept_next_id[of "next_id s"]] by simp
  moreover have "next_id s2 = next_id s1" using again(5) by (auto simp: rearm_def split: option.splits)
  ultimately have "\<forall>i \<in> set due. i < next_id s2" using again.prems(2) by (auto intro: less_le_trans)
  then show ?case using again by auto
qed auto

section \<open>Histories keep timers armed\<close>

lemma armed_heap_only: "armed D (s\<lparr>raf_queue := q, raf_cancelled := c\<rparr>) = armed D s"
  by (simp add: armed_def)

lemma drop_cancelled_armed: "armed {} s \<Longrightarrow> armed {} (s\<lparr>heap := drop_cancelled pick (active s) (heap s)\<rparr>)"
proof -
  assume a: "armed {} s"
  let ?h = "drop_cancelled pick (active s) (heap s)"
  obtain dropped where d: "mset (heap s) = mset dropped + mset ?h" "\<forall>n \<in> set dropped. active s (hn_id n) = None"
    using drop_cancelled_spec[of "heap s" pick "active s"] by blast
  have "nodes_of i (heap s) = nodes_of i ?h" if "active s i = Some e" for i e
  proof -
    have "nodes_of i dropped = {#}" using d(2) that by (intro nodes_of_none) auto
    then show ?thesis using d(1) by (simp add: nodes_of_def)
  qed
  moreover have "set ?h \<subseteq> set (heap s)" using d(1) by (metis UnCI set_mset_mset set_mset_union subsetI)
  ultimately show ?thesis using a unfolding armed_def by (simp, blast)
qed

lemma host_step_armed:
  assumes "min_pick pick" "host_step eng pick ev s w = Some (ok, timers, frames, s', w')" "ok" "armed {} s"
  shows "armed {} s'"
proof (cases ev)
  case (Enter f)
  then show ?thesis using assms call_fn_keeps[OF _ kept_armed] by auto
next
  case Drain_timers
  obtain now w1 due h where d: "en_now eng w = (now, w1)" "collect_due pick now (active s) (heap s) = (due, h)"
    by fastforce
  then have "fires eng due (s\<lparr>heap := h\<rparr>) w1 ok timers s' w'"
    using assms(2) Drain_timers by (auto simp: drain_due_timers_def intro: fire_due_fires)
  from fires_armed[OF this assms(3)] show ?thesis using collect_armed(1,2)[OF assms(1,4) d(2)] by simp
next
  case Drain_frames
  then show ?thesis
    using assms fire_frames_keeps[OF _ kept_armed]
    by (fastforce simp: drain_animation_frames_def armed_heap_only split: if_splits prod.splits)
next
  case Next_deadline
  then show ?thesis using assms drop_cancelled_armed[OF assms(4)]
    by (auto simp: next_timer_deadline_def Let_def split: prod.splits)
qed

lemma host_run_armed:
  assumes "min_pick pick"
  shows "host_run eng pick evs s w = Some (True, timers, frames, s', w') \<Longrightarrow> armed {} s \<Longrightarrow> armed {} s'"
proof (induction evs arbitrary: s w timers frames)
  case (Cons ev evs)
  then obtain ok1 t1 f1 s1 w1 where st: "host_step eng pick ev s w = Some (ok1, t1, f1, s1, w1)"
    by (auto split: option.splits)
  then obtain ok2 t2 f2 where r: "host_run eng pick evs s1 w1 = Some (ok2, t2, f2, s', w')" "ok1" "ok2"
    using Cons.prems(1) by auto
  then show ?case using Cons.IH host_step_armed[OF assms st r(2) Cons.prems(2)] by simp
qed auto

lemma armed_new: "armed {} new_iso_state"
  by (simp add: armed_def new_iso_state_def)

section \<open>What timers promise\<close>

text \<open>
  Timers stay armed. In every history of programs, drains, frames and sleeps in which no timer callback
  throws, each active timer has exactly one node in the heap, which carries its deadline.\<close>

theorem timers_stay_armed:
  assumes "min_pick pick" "host_run eng pick evs new_iso_state w0 = Some (True, timers, frames, s, w)"
    and "active s tid = Some e"
  shows "filter (\<lambda>n. hn_id n = tid) (heap s) = [\<lparr>hn_deadline = te_deadline e, hn_id = tid\<rparr>] \<and> tid < next_id s"
proof -
  have "armed {} s" using host_run_armed[OF assms(1,2) armed_new] .
  then have "mset (filter (\<lambda>n. hn_id n = tid) (heap s)) = {#\<lparr>hn_deadline = te_deadline e, hn_id = tid\<rparr>#}"
    "tid < next_id s"
    using assms(3) by (simp_all add: armed_def nodes_of_def)
  from mset_single_iff[THEN iffD1, OF this(1)] this(2) show ?thesis by simp
qed

text \<open>What holds for a list holds for a part of it.\<close>

lemma subseq_distinct: "subseq xs ys \<Longrightarrow> distinct ys \<Longrightarrow> distinct xs"
  by (induction rule: list_emb.induct) (auto dest: list_emb_set)

lemma sorted_map_subseq: "subseq xs ys \<Longrightarrow> sorted (map f ys) \<Longrightarrow> sorted (map f xs)"
  by (induction rule: list_emb.induct) (auto dest: list_emb_set)

text \<open>C24:
  The event loop sleeps exactly long enough. In every history of programs, drains, frames and sleeps in which
  no timer callback threw, the time until the next timer is without bound when no timer is active; otherwise it is the time until the earliest deadline of an active timer,
  or zero when that has passed. Asking does not change the active timers.\<close>

theorem sleeps_until_next_deadline:
  assumes "min_pick pick" "host_run eng pick evs new_iso_state w0 = Some (True, timers, frames, s, w)"
    and "next_timer_deadline pick now s = (r, s')"
  shows "active s' = active s \<and> (r = Forever \<longleftrightarrow> active s = Map.empty) \<and>
    (\<forall>n. r = Wait n \<longrightarrow> 0 \<le> n \<and>
       (\<exists>i e. active s i = Some e \<and> n = max 0 (te_deadline e - now) \<and>
          (\<forall>i' e'. active s i' = Some e' \<longrightarrow> te_deadline e \<le> te_deadline e')))"
proof -
  let ?h = "drop_cancelled pick (active s) (heap s)"
  have "armed {} s" using host_run_armed[OF assms(1,2) armed_new] .
  then have a: "armed {} (s\<lparr>heap := ?h\<rparr>)" by (rule drop_cancelled_armed)
  have node: "\<lparr>hn_deadline = te_deadline e, hn_id = i\<rparr> \<in> set ?h" if "active s i = Some e" for i e
  proof -
    have "\<lparr>hn_deadline = te_deadline e, hn_id = i\<rparr> \<in># nodes_of i ?h" using a that by (simp add: armed_def)
    then show ?thesis by (simp add: nodes_of_def)
  qed
  have r: "r = (if ?h = [] then Forever else if hn_deadline (heap_top pick ?h) \<le> now then Wait 0
      else Wait (hn_deadline (heap_top pick ?h) - now))" "active s' = active s"
    using assms(3) by (auto simp: next_timer_deadline_def Let_def)
  show ?thesis
  proof (cases "?h = []")
    case True
    then have "active s = Map.empty" using node by fastforce
    then show ?thesis using r True by simp
  next
    case False
    let ?top = "heap_top pick ?h"
    obtain e where e: "active s (hn_id ?top) = Some e"
      using drop_cancelled_spec[of "heap s" pick "active s"] False by blast
    have "?top \<in># nodes_of (hn_id ?top) ?h" using heap_top_in[OF False, of pick] by (simp add: nodes_of_def)
    then have dl: "hn_deadline ?top = te_deadline e"
      using a e by (auto simp: armed_def) (metis heap_node.select_convs(1))
    have min_dl: "te_deadline e \<le> te_deadline e'" if "active s i' = Some e'" for i' e'
      using heap_top_min[OF assms(1) node[OF that]] dl by simp
    have n: "r = Wait (max 0 (te_deadline e - now))" using r(1) False dl by (simp add: max_def)
    have ne: "active s \<noteq> Map.empty" using e by auto
    show ?thesis unfolding n r(2) using e ne min_dl by (auto intro!: exI[of _ "hn_id ?top"])
  qed
qed

section \<open>A program\<close>

text \<open>A clock that ticks when it is read, and a queue that takes the first of the smallest nodes.\<close>

definition first_min :: "heap_node list \<Rightarrow> nat" where
  "first_min h = length (takeWhile (\<lambda>n. hn_deadline n \<noteq> Min (hn_deadline ` set h)) h)"

lemma first_min_pick: "min_pick first_min"
proof -
  have "first_min h < length h \<and> hn_deadline (h ! first_min h) = Min (hn_deadline ` set h)" if "h \<noteq> []" for h
  proof -
    have "Min (hn_deadline ` set h) \<in> hn_deadline ` set h" using that by (intro Min_in) auto
    then obtain x where x: "x \<in> set h" "\<not> hn_deadline x \<noteq> Min (hn_deadline ` set h)" by auto
    then have "takeWhile (\<lambda>n. hn_deadline n \<noteq> Min (hn_deadline ` set h)) h \<noteq> h" by (auto simp: takeWhile_eq_all_conv)
    then have "first_min h \<noteq> length h"
      unfolding first_min_def by (metis append_Nil2 append_eq_append_conv takeWhile_dropWhile_id)
    then have "first_min h < length h" unfolding first_min_def by (metis le_neq_implies_less length_takeWhile_le)
    moreover from this nth_length_takeWhile[of "\<lambda>n. hn_deadline n \<noteq> Min (hn_deadline ` set h)" h]
    have "hn_deadline (h ! first_min h) = Min (hn_deadline ` set h)" unfolding first_min_def by blast
    ultimately show ?thesis by blast
  qed
  then show ?thesis by (auto simp: min_pick_def)
qed

text \<open>
  Functions of the sample program: 0 returns, 1 throws, 2 starts an interval that throws and a timeout, 3
  requests two frames of which the first, 4, cancels the second, 5 starts a timeout and an interval; 6
  starts two timeouts and an interval, of which the first, 7, clears the second and the last, 8, clears itself.
\<close>

fun sample_program :: "nat \<Rightarrow> nat script" where
  "sample_program f =
     (if f = 1 then Finish False
      else if f = 2 then Api (SetTimer True (Some 1) None) (\<lambda>_. Api (SetTimer False (Some 0) None) (\<lambda>_. Finish True))
      else if f = 3 then Api (RequestFrame (Some 4)) (\<lambda>_. Api (RequestFrame (Some 0)) (\<lambda>_. Finish True))
      else if f = 4 then Api (CancelFrame (Some (Num 2))) (\<lambda>_. Finish True)
      else if f = 5 then Api (SetTimer False (Some 0) None) (\<lambda>_. Api (SetTimer True (Some 0) (Some (Num 1))) (\<lambda>_. Finish True))
      else if f = 6 then Api (SetTimer False (Some 7) None) (\<lambda>_. Api (SetTimer False (Some 0) None)
        (\<lambda>_. Api (SetTimer True (Some 8) None) (\<lambda>_. Finish True)))
      else if f = 7 then Api (ClearTimer (Some (Num 2))) (\<lambda>_. Finish True)
      else if f = 8 then Api (ClearTimer (Some (Num 3))) (\<lambda>_. Finish True)
      else Finish True)"

definition sample_engine :: "(nat, int) engine" where
  "sample_engine = \<lparr>en_call = \<lambda>f w. (sample_program f, w), en_now = \<lambda>w. (w, w + 1)\<rparr>"

lemmas timer_eval = sample_engine_def call_fn_def schedule_impl_def deadline_after_def truncate_def i64_range_def
  add_timer_def new_iso_state_def drain_due_timers_def collect_due.simps first_min_def heap_top_def heap_pop_def
  top_index_def rearm_def drain_animation_frames_def raf_def cancel_raf_def

text \<open>What a history returns, without the final state.\<close>

definition outcome :: "(bool \<times> nat list \<times> nat list \<times> 'f iso_state \<times> 'w) option \<Rightarrow> (bool \<times> nat list \<times> nat list) option" where
  "outcome r = map_option (\<lambda>(ok, timers, frames, s, w). (ok, timers, frames)) r"

lemma outcome_state: "outcome r = Some (ok, timers, frames) \<Longrightarrow> \<exists>s w. r = Some (ok, timers, frames, s, w)"
  by (auto simp: outcome_def)

definition sample_run :: "nat host_event list \<Rightarrow> (bool \<times> nat list \<times> nat list \<times> nat iso_state \<times> int) option" where
  "sample_run evs = host_run sample_engine first_min evs new_iso_state 0"

definition sample_state :: "nat host_event list \<Rightarrow> nat iso_state" where
  "sample_state evs = fst (snd (snd (snd (the (sample_run evs)))))"

definition sample_world :: "nat host_event list \<Rightarrow> int" where
  "sample_world evs = snd (snd (snd (snd (the (sample_run evs)))))"

lemma sample_run_state: "outcome (sample_run evs) = Some (ok, timers, frames) \<Longrightarrow>
  sample_run evs = Some (ok, timers, frames, sample_state evs, sample_world evs)"
  by (auto simp: outcome_def sample_state_def sample_world_def)

lemma sample_timers:
  "host_run sample_engine first_min [Enter 5, Drain_timers] new_iso_state 0 =
     Some (True, [1], [], sample_state [Enter 5, Drain_timers], sample_world [Enter 5, Drain_timers])"
  "host_run sample_engine first_min [Enter 5] new_iso_state 0 =
     Some (True, [], [], sample_state [Enter 5], sample_world [Enter 5])"
proof -
  have "outcome (sample_run [Enter 5, Drain_timers]) = Some (True, [1], [])" by code_simp
  from sample_run_state[OF this] show "host_run sample_engine first_min [Enter 5, Drain_timers] new_iso_state 0 =
     Some (True, [1], [], sample_state [Enter 5, Drain_timers], sample_world [Enter 5, Drain_timers])"
    by (simp only: sample_run_def)
  have "outcome (sample_run [Enter 5]) = Some (True, [], [])" by code_simp
  from sample_run_state[OF this] show "host_run sample_engine first_min [Enter 5] new_iso_state 0 =
     Some (True, [], [], sample_state [Enter 5], sample_world [Enter 5])"
    by (simp only: sample_run_def)
qed

lemma sample_active:
  "active (sample_state [Enter 5, Drain_timers]) 1 = None" "next_id (sample_state [Enter 5, Drain_timers]) = 3"
  "active (sample_state [Enter 5, Drain_timers]) 2 \<noteq> None" "active (sample_state [Enter 5]) 2 \<noteq> None"
  by code_simp+

theorem timers_stay_armed_witness:
  "\<exists>n. filter (\<lambda>n. hn_id n = 2) (heap (sample_state [Enter 5, Drain_timers])) = [n]"
  using timers_stay_armed[OF first_min_pick sample_timers(1)] sample_active(3) by blast

theorem sleeps_until_next_deadline_witness:
  "\<exists>n. fst (next_timer_deadline first_min 100 (sample_state [Enter 5])) = Wait n \<and> n \<ge> 0"
proof -
  obtain r s' where r: "next_timer_deadline first_min 100 (sample_state [Enter 5]) = (r, s')" by fastforce
  have "active (sample_state [Enter 5]) \<noteq> Map.empty" using sample_active(4) by auto
  with sleeps_until_next_deadline[OF first_min_pick sample_timers(2) r] r show ?thesis by (cases r) auto
qed

text \<open>
  A frame that is cancelled by an earlier callback of the same drain is called all the same: the identifiers
  that count as cancelled are those from before the drain.\<close>

theorem frame_cancelled_during_drain_runs:
  "\<exists>s w. host_run sample_engine first_min [Enter 3, Drain_frames] new_iso_state 0 = Some (True, [], [1, 2], s, w) \<and>
     sample_program 4 = Api (CancelFrame (Some (Num 2))) (\<lambda>_. Finish True) \<and> raf_cancelled s = [2]"
proof -
  have "outcome (sample_run [Enter 3, Drain_frames]) = Some (True, [], [1, 2])" by code_simp
  from sample_run_state[OF this] have "host_run sample_engine first_min [Enter 3, Drain_frames] new_iso_state 0 =
      Some (True, [], [1, 2], sample_state [Enter 3, Drain_frames], sample_world [Enter 3, Drain_frames])"
    by (simp only: sample_run_def)
  moreover have "raf_cancelled (sample_state [Enter 3, Drain_frames]) = [2]" by code_simp
  ultimately show ?thesis by simp
qed

end
