(* ===== verification/Timer_Log.thy ===== *)
theory Timer_Log
  imports Timers_Correct
begin

text \<open>
  The log of a history: which timers are called and which identifiers the programs clear, in order, clears in
  the middle of a drain included. Against it, a drain calls exactly the due timers that were not
  cleared before their turn, a cleared timer is not called afterwards, and an exception in a callback
  strands the timers that were due with it.
\<close>

section \<open>Logs\<close>

datatype timer_event = Called nat | Cleared nat

text \<open>A clear counts when the identifier has been issued.\<close>

fun clear_event :: "'f action \<Rightarrow> 'f iso_state \<Rightarrow> timer_event list" where
  "clear_event (ClearTimer (Some num)) s =
     (case cast_u64 num of
        None \<Rightarrow> []
      | Some tid \<Rightarrow> if tid < next_id s then [Cleared tid] else [])"
| "clear_event _ s = []"

primrec script_log :: "('f, 'w) engine \<Rightarrow> 'f script \<Rightarrow> 'f iso_state \<Rightarrow> 'w \<Rightarrow> timer_event list" where
  "script_log eng (Finish ok) s w = []"
| "script_log eng (Api a k) s w =
     (let (now, w') = en_now eng w
      in case perform a now s of
           None \<Rightarrow> []
         | Some p \<Rightarrow> clear_event a s @ script_log eng (k (fst p)) (snd p) w')"

definition call_log :: "('f, 'w) engine \<Rightarrow> 'f \<Rightarrow> 'f iso_state \<Rightarrow> 'w \<Rightarrow> timer_event list" where
  "call_log eng f s w = (let (sc, w') = en_call eng f w in script_log eng sc s w')"

fun fire_log :: "('f, 'w) engine \<Rightarrow> nat list \<Rightarrow> 'f iso_state \<Rightarrow> 'w \<Rightarrow> timer_event list" where
  "fire_log eng [] s w = []"
| "fire_log eng (tid # due) s w =
     (case active s tid of
        None \<Rightarrow> fire_log eng due s w
      | Some e \<Rightarrow>
          let s0 = (if te_repeat e then s else s\<lparr>active := (active s)(tid := None)\<rparr>)
          in Called tid # call_log eng (te_fn e) s0 w @
             (case call_fn eng (te_fn e) s0 w of
                Some (True, s1, w1) \<Rightarrow>
                  (if te_repeat e
                   then let (now, w2) = en_now eng w1
                     in case rearm tid (te_interval_ms e) now s1 of None \<Rightarrow> [] | Some s2 \<Rightarrow> fire_log eng due s2 w2
                   else fire_log eng due s1 w1)
              | _ \<Rightarrow> []))"

definition drain_log :: "('f, 'w) engine \<Rightarrow> (heap_node list \<Rightarrow> nat) \<Rightarrow> 'f iso_state \<Rightarrow> 'w \<Rightarrow> timer_event list" where
  "drain_log eng pick s w =
     (let (now, w') = en_now eng w; (due, h) = collect_due pick now (active s) (heap s)
      in fire_log eng due (s\<lparr>heap := h\<rparr>) w')"

fun frames_log :: "('f, 'w) engine \<Rightarrow> nat list \<Rightarrow> (nat \<times> 'f) list \<Rightarrow> 'f iso_state \<Rightarrow> 'w \<Rightarrow> timer_event list" where
  "frames_log eng cancelled [] s w = []"
| "frames_log eng cancelled ((fid, f) # current) s w =
     (if fid \<in> set cancelled then frames_log eng cancelled current s w
      else call_log eng f s w @
        (case call_fn eng f s w of Some (True, s1, w1) \<Rightarrow> frames_log eng cancelled current s1 w1 | _ \<Rightarrow> []))"

fun step_log :: "('f, 'w) engine \<Rightarrow> (heap_node list \<Rightarrow> nat) \<Rightarrow> 'f host_event \<Rightarrow> 'f iso_state \<Rightarrow> 'w \<Rightarrow> timer_event list" where
  "step_log eng pick (Enter f) s w = call_log eng f s w"
| "step_log eng pick Drain_timers s w = drain_log eng pick s w"
| "step_log eng pick Drain_frames s w =
     (if raf_queue s = [] then []
      else frames_log eng (raf_cancelled s) (raf_queue s) (s\<lparr>raf_queue := [], raf_cancelled := []\<rparr>) (snd (en_now eng w)))"
| "step_log eng pick Next_deadline s w = []"

fun host_log ::
  "('f, 'w) engine \<Rightarrow> (heap_node list \<Rightarrow> nat) \<Rightarrow> 'f host_event list \<Rightarrow> 'f iso_state \<Rightarrow> 'w \<Rightarrow> timer_event list" where
  "host_log eng pick [] s w = []"
| "host_log eng pick (ev # evs) s w =
     step_log eng pick ev s w @
     (case host_step eng pick ev s w of
        None \<Rightarrow> []
      | Some (ok, timers, frames, s1, w1) \<Rightarrow> host_log eng pick evs s1 w1)"

text \<open>The timers a log calls.\<close>

fun called :: "timer_event list \<Rightarrow> nat list" where
  "called [] = []"
| "called (Called i # es) = i # called es"
| "called (Cleared i # es) = called es"

lemma called_append [simp]: "called (xs @ ys) = called xs @ called ys"
  by (induction xs rule: called.induct) simp_all

lemma called_set: "i \<in> set (called es) \<longleftrightarrow> Called i \<in> set es"
  by (induction es rule: called.induct) auto

section \<open>Scripts\<close>

lemma called_script [simp]: "called (script_log eng sc s w) = []"
proof (induction sc arbitrary: s w)
  case (Api a k)
  have "called (clear_event a s) = []" by (cases "(a, s)" rule: clear_event.cases) (auto split: option.split)
  then show ?case using Api.IH[OF rangeI] by (auto split: option.split prod.split)
qed simp

lemma called_call [simp]: "called (call_log eng f s w) = []"
  by (simp add: call_log_def split: prod.split)

lemma clear_event_gone:
  "perform a now s = Some (r, s') \<Longrightarrow> Cleared tid \<in> set (clear_event a s) \<Longrightarrow> gone tid s'"
  by (cases "(a, s)" rule: clear_event.cases) (auto simp: clear_timer_def gone_def split: option.splits if_splits)

lemma run_script_clears:
  "run_script eng sc s w = Some (ok, s', w') \<Longrightarrow> Cleared tid \<in> set (script_log eng sc s w) \<Longrightarrow> gone tid s'"
proof (induction sc arbitrary: s w)
  case (Api a k)
  obtain now w1 where t: "en_now eng w = (now, w1)" by fastforce
  then obtain r s1 where p: "perform a now s = Some (r, s1)" "run_script eng (k r) s1 w1 = Some (ok, s', w')"
    using Api.prems(1) by (auto split: option.splits)
  from Api.prems(2) t p(1) consider "Cleared tid \<in> set (clear_event a s)" | "Cleared tid \<in> set (script_log eng (k r) s1 w1)"
    by auto
  then show ?case
  proof cases
    case 1
    from run_script_keeps[OF p(2) kept_gone clear_event_gone[OF p(1) 1]] show ?thesis .
  next
    case 2
    from Api.IH[OF rangeI p(2) this] show ?thesis .
  qed
qed simp

lemma call_fn_clears: "call_fn eng f s w = Some (ok, s', w') \<Longrightarrow> Cleared tid \<in> set (call_log eng f s w) \<Longrightarrow> gone tid s'"
  by (auto simp: call_fn_def call_log_def dest: run_script_clears split: prod.splits)

text \<open>Only a clear takes a timer away.\<close>

lemma perform_removes:
  assumes "perform a now s = Some (r, s')" "tid < next_id s" "active s tid \<noteq> None" "active s' tid = None"
  shows "Cleared tid \<in> set (clear_event a s)"
proof (cases a)
  case (SetTimer repeat fn ms)
  then show ?thesis using assms by (auto simp: schedule_impl_def add_timer_def Let_def split: option.splits if_splits)
next
  case (SetImmediate fn)
  then show ?thesis using assms by (auto simp: set_immediate_def add_timer_def split: option.splits if_splits)
next
  case (ClearTimer arg)
  then show ?thesis using assms by (cases arg) (auto simp: clear_timer_def split: option.splits if_splits)
next
  case (RequestFrame fn)
  then show ?thesis using assms by (auto simp: raf_def split: option.splits)
next
  case (CancelFrame arg)
  then show ?thesis using assms by (auto simp: cancel_raf_def split: option.splits)
qed

lemma run_script_removes:
  "run_script eng sc s w = Some (ok, s', w') \<Longrightarrow> tid < next_id s \<Longrightarrow> active s tid \<noteq> None \<Longrightarrow> active s' tid = None \<Longrightarrow>
    Cleared tid \<in> set (script_log eng sc s w)"
proof (induction sc arbitrary: s w)
  case (Api a k)
  obtain now w1 where t: "en_now eng w = (now, w1)" by fastforce
  then obtain r s1 where p: "perform a now s = Some (r, s1)" "run_script eng (k r) s1 w1 = Some (ok, s', w')"
    using Api.prems(1) by (auto split: option.splits)
  have n: "tid < next_id s1"
    using Api.prems(2) kept_next_id[of "next_id s"] p(1) unfolding kept_def by (meson less_le_trans order_refl)
  show ?case
  proof (cases "active s1 tid")
    case None
    from perform_removes[OF p(1) Api.prems(2,3) this] show ?thesis using t p(1) by simp
  next
    case (Some e)
    then have "active s1 tid \<noteq> None" by simp
    from Api.IH[OF rangeI p(2) n this Api.prems(4)] show ?thesis using t p(1) by simp
  qed
qed simp

lemma call_fn_removes:
  "call_fn eng f s w = Some (ok, s', w') \<Longrightarrow> tid < next_id s \<Longrightarrow> active s tid \<noteq> None \<Longrightarrow> active s' tid = None \<Longrightarrow>
    Cleared tid \<in> set (call_log eng f s w)"
  by (auto simp: call_fn_def call_log_def dest: run_script_removes split: prod.splits)

section \<open>Drains\<close>

text \<open>No call of a timer behind its clear.\<close>

fun silent :: "nat \<Rightarrow> timer_event list \<Rightarrow> bool" where
  "silent tid [] \<longleftrightarrow> True"
| "silent tid (Called i # es) \<longleftrightarrow> silent tid es"
| "silent tid (Cleared i # es) \<longleftrightarrow> (i = tid \<longrightarrow> Called tid \<notin> set es) \<and> silent tid es"

lemma silent_uncalled: "Called tid \<notin> set es \<Longrightarrow> silent tid es"
  by (induction tid es rule: silent.induct) auto

lemma silent_append:
  "silent tid xs \<Longrightarrow> silent tid ys \<Longrightarrow> (Cleared tid \<in> set xs \<Longrightarrow> Called tid \<notin> set ys) \<Longrightarrow> silent tid (xs @ ys)"
  by (induction tid xs rule: silent.induct) auto

lemma silent_behind: "silent tid (xs @ Cleared tid # ys) \<Longrightarrow> Called tid \<notin> set ys"
  by (induction tid xs rule: silent.induct) auto

lemma silent_block: "Called tid \<notin> set es \<Longrightarrow> silent tid (Called i # es)"
  by (simp add: silent_uncalled)

lemma uncalled_call [simp]: "Called i \<notin> set (call_log eng f s w)"
  using called_set[of i "call_log eng f s w"] by simp

text \<open>The log of a drain calls what the drain calls.\<close>

lemma called_fire_log: "fires eng due s w ok fired s' w' \<Longrightarrow> called (fire_log eng due s w) = fired"
proof (induction rule: fires.induct)
  case (throws s i e w s1 w1 due)
  then show ?case by (simp split: if_splits)
qed simp_all

lemma uncalled_gone: "fires eng due s w ok fired s' w' \<Longrightarrow> gone tid s \<Longrightarrow> Called tid \<notin> set (fire_log eng due s w)"
  using fires_gone called_fire_log called_set by metis

text \<open>A block of the log, the call of one timer, followed by the rest of the drain.\<close>

lemma fire_log_block:
  fixes i :: nat
  assumes "call_fn eng f s w = Some (ok1, s1, w1)" and "gone tid s1 \<Longrightarrow> gone tid s2"
    and "fires eng due s2 w2 ok fired s' w'"
    and "silent tid (fire_log eng due s2 w2)" "Cleared tid \<in> set (fire_log eng due s2 w2) \<Longrightarrow> gone tid s'"
  defines "es \<equiv> (Called i # call_log eng f s w) @ fire_log eng due s2 w2"
  shows "silent tid es \<and> (Cleared tid \<in> set es \<longrightarrow> gone tid s')"
proof -
  have g: "gone tid s2" if "Cleared tid \<in> set (call_log eng f s w)"
    using assms(2) call_fn_clears[OF assms(1) that] by blast
  have "silent tid es"
    unfolding es_def by (rule silent_append[OF silent_block assms(4)]) (use g uncalled_gone[OF assms(3)] in auto)
  moreover have "gone tid s'" if "Cleared tid \<in> set es"
    using that g fires_gone[OF assms(3)] assms(5) by (auto simp: es_def)
  ultimately show ?thesis by blast
qed

lemma fire_log_silent:
  "fires eng due s w ok fired s' w' \<Longrightarrow>
    silent tid (fire_log eng due s w) \<and> (Cleared tid \<in> set (fire_log eng due s w) \<longrightarrow> gone tid s')"
proof (induction rule: fires.induct)
  case (throws s i e w s1 w1 due)
  then show ?case using call_fn_clears[OF throws(2)] by (auto intro: silent_uncalled split: if_splits)
next
  case (once s i e w s1 w1 due ok fired s' w')
  have es: "fire_log eng (i # due) s w =
      (Called i # call_log eng (te_fn e) (s\<lparr>active := (active s)(i := None)\<rparr>) w) @ fire_log eng due s1 w1"
    using once(1-3) by simp
  show ?case unfolding es by (rule fire_log_block[OF once(3) _ once(4)]) (use once(5) in auto)
next
  case (again s i e w s1 w1 now w2 s2 due ok fired s' w')
  have es: "fire_log eng (i # due) s w = (Called i # call_log eng (te_fn e) s w) @ fire_log eng due s2 w2"
    using again(1-5) by simp
  show ?case unfolding es by (rule fire_log_block[OF again(3) rearm_gone[OF again(5)] again(6)]) (use again(7) in auto)
qed simp_all

text \<open>No call replaces an entry: an issued identifier keeps its entry or loses it.\<close>

definition entry_or_none :: "nat \<Rightarrow> 'f timer_entry option \<Rightarrow> 'f iso_state \<Rightarrow> bool" where
  "entry_or_none tid v s \<longleftrightarrow> tid < next_id s \<and> (active s tid = v \<or> active s tid = None)"

lemma kept_entry: "kept (entry_or_none tid v)"
  unfolding kept_def entry_or_none_def by (auto simp: add_timer_def dest!: perform_effect split: if_splits)

text \<open>A drain takes an entry away when it calls a timer that does not repeat; any other loss is a clear.\<close>

lemma fires_removes:
  "fires eng due s w ok fired s' w' \<Longrightarrow> tid < next_id s \<Longrightarrow> active s tid = Some e \<Longrightarrow> te_repeat e \<or> tid \<notin> set fired \<Longrightarrow>
    active s' tid = None \<Longrightarrow> Cleared tid \<in> set (fire_log eng due s w)"
proof (induction arbitrary: e rule: fires.induct)
  case (throws s j e' w s1 w1 due)
  then show ?case using call_fn_removes[OF throws(2), of tid] by (cases "tid = j") (auto split: if_splits)
next
  case (once s j e' w s1 w1 due ok fired s' w')
  let ?s0 = "s\<lparr>active := (active s)(j := None)\<rparr>"
  have j: "tid \<noteq> j" using once.prems(2,3) once(1,2) by auto
  have log: "set (call_log eng (te_fn e') ?s0 w) \<union> set (fire_log eng due s1 w1) \<subseteq> set (fire_log eng (j # due) s w)"
    using once(1-3) by auto
  have s1: "entry_or_none tid (Some e) s1"
    by (rule call_fn_keeps[OF once(3) kept_entry]) (use once.prems(1,2) j in \<open>simp add: entry_or_none_def\<close>)
  show ?case
  proof (cases "active s1 tid")
    case None
    have "Cleared tid \<in> set (call_log eng (te_fn e') ?s0 w)"
      by (rule call_fn_removes[OF once(3) _ _ None]) (use once.prems j in auto)
    then show ?thesis using log by blast
  next
    case (Some e1)
    have "Cleared tid \<in> set (fire_log eng due s1 w1)"
      by (rule once.IH) (use once.prems s1 Some in \<open>auto simp: entry_or_none_def\<close>)
    then show ?thesis using log by blast
  qed
next
  case (again s j e' w s1 w1 now w2 s2 due ok fired s' w')
  have log: "set (call_log eng (te_fn e') s w) \<union> set (fire_log eng due s2 w2) \<subseteq> set (fire_log eng (j # due) s w)"
    using again(1-5) by auto
  have s1: "entry_or_none tid (Some e) s1"
    by (rule call_fn_keeps[OF again(3) kept_entry]) (use again.prems(1,2) in \<open>simp add: entry_or_none_def\<close>)
  show ?case
  proof (cases "active s1 tid")
    case None
    have "Cleared tid \<in> set (call_log eng (te_fn e') s w)"
      by (rule call_fn_removes[OF again(3) _ _ None]) (use again.prems in auto)
    then show ?thesis using log by blast
  next
    case (Some e1)
    obtain e2 where "tid < next_id s2" "active s2 tid = Some e2" "te_repeat e2 = te_repeat e"
      using again(5) s1 Some by (cases "tid = j") (auto simp: rearm_def entry_or_none_def split: option.splits)
    then have "Cleared tid \<in> set (fire_log eng due s2 w2)" using again.IH again.prems by auto
    then show ?thesis using log by blast
  qed
qed auto

lemma drain_fires:
  assumes "drain_due_timers eng pick s w = Some (ok, fired, s', w')"
  obtains now w1 due h where "en_now eng w = (now, w1)" "collect_due pick now (active s) (heap s) = (due, h)"
    "fires eng due (s\<lparr>heap := h\<rparr>) w1 ok fired s' w'" "drain_log eng pick s w = fire_log eng due (s\<lparr>heap := h\<rparr>) w1"
proof -
  obtain now w1 due h where d: "en_now eng w = (now, w1)" "collect_due pick now (active s) (heap s) = (due, h)"
    by fastforce
  moreover from this assms have "fires eng due (s\<lparr>heap := h\<rparr>) w1 ok fired s' w'"
    by (auto simp: drain_due_timers_def intro: fire_due_fires)
  ultimately show thesis using that by (simp add: drain_log_def)
qed

text \<open>In a log without calls behind clears, what is called was not cleared before.\<close>

lemma silent_takeWhile:
  "silent i es \<Longrightarrow> Called i \<in> set es \<Longrightarrow> Cleared i \<notin> set (takeWhile (\<lambda>ev. ev \<noteq> Called i) es)"
  by (induction i es rule: silent.induct) auto

section \<open>What timers promise\<close>

text \<open>C3:
  Exactly the due timers are called that nobody cleared before their turn. When a drain comes to its end,
  after any history in which no timer callback threw, the timers it called are those whose deadline had
  passed when it began and which no call of this drain before their own has cleared, each once and in the
  order of the deadlines.\<close>

theorem due_timers_fire:
  assumes "min_pick pick" "host_run eng pick evs new_iso_state w0 = Some (True, timers, frames, s, w)"
    and "drain_due_timers eng pick s w = Some (True, fired, s', w')"
  shows "distinct fired \<and> sorted (map (\<lambda>i. te_deadline (the (active s i))) fired) \<and>
    set fired = {i. \<exists>e. active s i = Some e \<and> te_deadline e \<le> fst (en_now eng w) \<and>
      Cleared i \<notin> set (takeWhile (\<lambda>ev. ev \<noteq> Called i) (drain_log eng pick s w))} \<and>
    called (drain_log eng pick s w) = fired"
proof -
  have a: "armed {} s" using host_run_armed[OF assms(1,2) armed_new] .
  obtain now w1 due h where d: "en_now eng w = (now, w1)" "collect_due pick now (active s) (heap s) = (due, h)"
    and f: "fires eng due (s\<lparr>heap := h\<rparr>) w1 True fired s' w'"
    and l: "drain_log eng pick s w = fire_log eng due (s\<lparr>heap := h\<rparr>) w1"
    using drain_fires[OF assms(3)] by blast
  note c = collect_armed[OF assms(1) a d(2)] and cf = called_fire_log[OF f]
  have sub: "subseq fired due" "set fired \<subseteq> set due"
    using fires_subseq[OF f] by (auto dest: list_emb_set)
  have ids: "\<forall>i \<in> set due. i < next_id (s\<lparr>heap := h\<rparr>)" using c(2) by (simp add: armed_def)
  have uncleared: "Cleared i \<notin> set (takeWhile (\<lambda>ev. ev \<noteq> Called i) (drain_log eng pick s w))" if "i \<in> set fired" for i
    using silent_takeWhile[of i] fire_log_silent[OF f, of i] that cf called_set[of i] unfolding l by metis
  have skipped: "Cleared i \<in> set (takeWhile (\<lambda>ev. ev \<noteq> Called i) (drain_log eng pick s w))"
    if i: "i \<in> set due" "i \<notin> set fired" for i
  proof -
    have "Called i \<notin> set (fire_log eng due (s\<lparr>heap := h\<rparr>) w1)" using cf i(2) called_set by metis
    then have whole: "takeWhile (\<lambda>ev. ev \<noteq> Called i) (drain_log eng pick s w) = drain_log eng pick s w"
      unfolding l takeWhile_eq_all_conv by metis
    obtain e where "active (s\<lparr>heap := h\<rparr>) i = Some e" using i(1) unfolding c(3) by auto
    then have "Cleared i \<in> set (drain_log eng pick s w)"
      using fires_removes[OF f] fires_skips[OF f TrueI ids i] ids i unfolding l by blast
    then show ?thesis unfolding whole .
  qed
  have "set fired = {i. \<exists>e. active s i = Some e \<and> te_deadline e \<le> now \<and>
      Cleared i \<notin> set (takeWhile (\<lambda>ev. ev \<noteq> Called i) (drain_log eng pick s w))}"
    using sub(2) uncleared skipped c(3) by blast
  moreover note subseq_distinct[OF sub(1) c(1)] sorted_map_subseq[OF sub(1) c(4)]
  ultimately show ?thesis unfolding d(1) fst_conv using cf l by simp
qed

section \<open>Logs of histories\<close>

text \<open>The loop over the frames calls no timer; what it clears is gone, and nothing else.\<close>

lemma frames_log_spec:
  "fire_frames eng cancelled current s w = Some (ok, fired, s', w') \<Longrightarrow>
    called (frames_log eng cancelled current s w) = [] \<and>
    (Cleared tid \<in> set (frames_log eng cancelled current s w) \<longrightarrow> gone tid s') \<and>
    (tid < next_id s \<longrightarrow> active s tid \<noteq> None \<longrightarrow> active s' tid = None \<longrightarrow>
      Cleared tid \<in> set (frames_log eng cancelled current s w))"
proof (induction current arbitrary: s w ok fired)
  case (Cons kv current)
  obtain fid f where kv: "kv = (fid, f)" by fastforce
  show ?case
  proof (cases "fid \<in> set cancelled")
    case True
    then show ?thesis using Cons.IH Cons.prems kv by simp
  next
    case False
    then obtain cok s1 w1 where c: "call_fn eng f s w = Some (cok, s1, w1)"
      using Cons.prems kv by (cases "call_fn eng f s w") auto
    note clears = call_fn_clears[OF c, of tid] and removes = call_fn_removes[OF c, of tid]
    show ?thesis
    proof (cases cok)
      case True
      then obtain fired' where r: "fire_frames eng cancelled current s1 w1 = Some (ok, fired', s', w')"
        using Cons.prems(1) False c kv by auto
      have "tid < next_id s \<Longrightarrow> tid < next_id s1"
        using call_fn_keeps[OF c kept_next_id[of "next_id s"]] by simp
      moreover have "gone tid s1 \<Longrightarrow> gone tid s'" using fire_frames_keeps[OF r kept_gone] .
      ultimately show ?thesis using Cons.IH[OF r] clears removes True False c kv by auto
    next
      case thrown: False
      then show ?thesis using Cons.prems False c kv clears removes by auto
    qed
  qed
qed simp

lemma host_step_log:
  assumes "host_step eng pick ev s w = Some (ok, timers, frames, s', w')"
  shows "called (step_log eng pick ev s w) = timers" "silent tid (step_log eng pick ev s w)"
    "Cleared tid \<in> set (step_log eng pick ev s w) \<longrightarrow> gone tid s'"
proof -
  let ?l = "step_log eng pick ev s w"
  have "called ?l = timers \<and> silent tid ?l \<and> (Cleared tid \<in> set ?l \<longrightarrow> gone tid s')"
  proof (cases ev)
    case (Enter f)
    then show ?thesis using assms call_fn_clears by (auto intro: silent_uncalled)
  next
    case Drain_timers
    then have "drain_due_timers eng pick s w = Some (ok, timers, s', w')" using assms by auto
    from drain_fires[OF this] show ?thesis
      using Drain_timers called_fire_log fire_log_silent by (metis step_log.simps(2))
  next
    case Drain_frames
    then have l: "called ?l = [] \<and> (Cleared tid \<in> set ?l \<longrightarrow> gone tid s')"
      using assms frames_log_spec[of eng "raf_cancelled s" "raf_queue s" _ "snd (en_now eng w)" _ _ s' w' tid]
      by (auto simp: drain_animation_frames_def split: if_splits prod.splits)
    moreover have "silent tid ?l" using l called_set[of tid ?l] by (auto intro: silent_uncalled)
    ultimately show ?thesis using Drain_frames assms by auto
  next
    case Next_deadline
    then show ?thesis using assms by (auto split: prod.splits)
  qed
  then show "called ?l = timers" "silent tid ?l" "Cleared tid \<in> set ?l \<longrightarrow> gone tid s'" by blast+
qed

lemma host_run_gone:
  "host_run eng pick evs s w = Some (ok, timers, frames, s', w') \<Longrightarrow> gone tid s \<Longrightarrow> gone tid s' \<and> tid \<notin> set timers"
proof (induction evs arbitrary: s w ok timers frames)
  case (Cons ev evs)
  then obtain ok1 t1 f1 s1 w1 where st: "host_step eng pick ev s w = Some (ok1, t1, f1, s1, w1)"
    by (auto split: option.splits)
  then obtain ok2 t2 f2 where r: "host_run eng pick evs s1 w1 = Some (ok2, t2, f2, s', w')" "timers = t1 @ t2"
    using Cons.prems(1) by auto
  from host_step_gone[OF st Cons.prems(2)] Cons.IH[OF r(1)] r(2) show ?case by auto
qed auto

lemma host_run_log:
  "host_run eng pick evs s w = Some (ok, timers, frames, s', w') \<Longrightarrow>
    called (host_log eng pick evs s w) = timers \<and> silent tid (host_log eng pick evs s w) \<and>
    (Cleared tid \<in> set (host_log eng pick evs s w) \<longrightarrow> gone tid s')"
proof (induction evs arbitrary: s w ok timers frames)
  case (Cons ev evs)
  then obtain ok1 t1 f1 s1 w1 where st: "host_step eng pick ev s w = Some (ok1, t1, f1, s1, w1)"
    by (auto split: option.splits)
  then obtain ok2 t2 f2 where r: "host_run eng pick evs s1 w1 = Some (ok2, t2, f2, s', w')" "timers = t1 @ t2"
    using Cons.prems(1) by auto
  note l = host_step_log[OF st] and IH = Cons.IH[OF r(1)]
  have g: "Called tid \<notin> set (host_log eng pick evs s1 w1)" "gone tid s'"
    if "Cleared tid \<in> set (step_log eng pick ev s w)"
    using host_run_gone[OF r(1), of tid] l(3)[of tid] that IH called_set[of tid "host_log eng pick evs s1 w1"] by simp_all
  have "silent tid (step_log eng pick ev s w @ host_log eng pick evs s1 w1)"
    using l(2) IH g(1) by (intro silent_append) auto
  then show ?case using st l(1) IH g(2) r(2) by auto
qed auto

text \<open>C10:
  A cleared timer stays silent. In a history of host events, with whatever programs, no timer is called after
  a call that cleared its identifier, be it at the top level, in the callback of another timer of the same
  drain or in its own; and none is called whose identifier was issued before the history and is not active
  when it begins. At the end of the history the timer is not active.\<close>

theorem cleared_timer_never_fires:
  assumes "host_run eng pick evs s w = Some (ok, timers, frames, s', w')"
    and "host_log eng pick evs s w = before @ after"
    and "before = [] \<and> tid < next_id s \<and> active s tid = None \<or> before \<noteq> [] \<and> last before = Cleared tid"
  shows "Called tid \<notin> set after \<and> active s' tid = None \<and> called (host_log eng pick evs s w) = timers"
proof -
  note l = host_run_log[OF assms(1), of tid]
  from assms(3) consider (start) "before = []" "gone tid s" | (clear) xs where "before = xs @ [Cleared tid]"
    unfolding gone_def by (metis append_butlast_last_id)
  then have "Called tid \<notin> set after \<and> gone tid s'"
  proof cases
    case start
    then show ?thesis
      using host_run_gone[OF assms(1) start(2)] l assms(2) called_set[of tid after] by simp
  next
    case (clear xs)
    then show ?thesis using l silent_behind[of tid xs after] unfolding assms(2) by simp
  qed
  then show ?thesis using l by (simp add: gone_def)
qed

section \<open>Stranded timers\<close>

text \<open>An issued identifier without a node in the heap.\<close>

definition nodeless :: "nat \<Rightarrow> 'f iso_state \<Rightarrow> bool" where
  "nodeless tid s \<longleftrightarrow> tid < next_id s \<and> tid \<notin> hn_id ` set (heap s)"

lemma kept_nodeless: "kept (nodeless tid)"
  unfolding kept_def nodeless_def by (auto simp: add_timer_def dest!: perform_effect)

lemmas call_fn_nodeless = call_fn_keeps[OF _ kept_nodeless]

lemma nodeless_simps [simp]:
  "nodeless tid (s\<lparr>active := a\<rparr>) = nodeless tid s"
  "nodeless tid (s\<lparr>raf_queue := q, raf_cancelled := c\<rparr>) = nodeless tid s"
  by (simp_all add: nodeless_def)

lemma nodeless_heap: "nodeless tid s \<Longrightarrow> set h \<subseteq> set (heap s) \<Longrightarrow> nodeless tid (s\<lparr>heap := h\<rparr>)"
  by (auto simp: nodeless_def)

lemma rearm_nodeless: "rearm i interval now s = Some s' \<Longrightarrow> i \<noteq> tid \<Longrightarrow> nodeless tid s \<Longrightarrow> nodeless tid s'"
  by (auto simp: rearm_def nodeless_def split: option.splits)

lemma fires_thrower: "fires eng due s w ok fired s' w' \<Longrightarrow> \<not> ok \<Longrightarrow> fired \<noteq> [] \<and> set fired \<subseteq> set due"
  by (induction rule: fires.induct) auto

text \<open>
  A drain gives a node only to a timer that it called without an exception.\<close>

lemma fires_nodeless:
  "fires eng due s w ok fired s' w' \<Longrightarrow> nodeless tid s \<Longrightarrow> distinct due \<Longrightarrow> tid \<notin> set fired \<or> \<not> ok \<and> tid = last fired \<Longrightarrow>
    nodeless tid s'"
proof (induction rule: fires.induct)
  case (throws s i e w s1 w1 due)
  then show ?case using call_fn_nodeless[OF throws(2)] by (simp split: if_splits)
next
  case (once s i e w s1 w1 due ok fired s' w')
  have "nodeless tid s1" using call_fn_nodeless[OF once(3)] once.prems(1) by simp
  moreover have "tid \<notin> set fired \<or> \<not> ok \<and> tid = last fired"
    using once.prems(3) fires_thrower[OF once(4)] by (cases ok) auto
  ultimately show ?case using once.IH once.prems(2) by simp
next
  case (again s i e w s1 w1 now w2 s2 due ok fired s' w')
  have r: "\<not> ok \<Longrightarrow> last (i # fired) = last fired \<and> last fired \<noteq> i"
    using fires_thrower[OF again(6)] again.prems(2) by (metis distinct.simps(2) last.simps last_in_set subsetD)
  then have t: "tid \<notin> set fired \<or> \<not> ok \<and> tid = last fired" "tid \<noteq> i" using again.prems(3) by auto
  then have "nodeless tid s2"
    using rearm_nodeless[OF again(5)] call_fn_nodeless[OF again(3)] again.prems(1) by simp
  then show ?case using again.IH again.prems(2) t by simp
qed simp_all

lemma fires_nodeless_absent:
  "fires eng due s w ok fired s' w' \<Longrightarrow> nodeless tid s \<Longrightarrow> tid \<notin> set due \<Longrightarrow> nodeless tid s'"
proof (induction rule: fires.induct)
  case (throws s i e w s1 w1 due)
  then show ?case using call_fn_nodeless[OF throws(2)] by (simp split: if_splits)
next
  case (once s i e w s1 w1 due ok fired s' w')
  then show ?case using call_fn_nodeless[OF once(3)] by simp
next
  case (again s i e w s1 w1 now w2 s2 due ok fired s' w')
  then show ?case using call_fn_nodeless[OF again(3)] rearm_nodeless[OF again(5)] by simp
qed simp_all

text \<open>The entry of a timer that a drain does not call stays as it is, unless it is cleared.\<close>

lemma fires_entry:
  "fires eng due s w ok fired s' w' \<Longrightarrow> tid \<notin> set fired \<Longrightarrow> entry_or_none tid v s \<Longrightarrow> entry_or_none tid v s'"
proof (induction rule: fires.induct)
  case (throws s i e w s1 w1 due)
  show ?case by (rule call_fn_keeps[OF throws(2) kept_entry]) (use throws.prems in \<open>simp add: entry_or_none_def\<close>)
next
  case (once s i e w s1 w1 due ok fired s' w')
  have "entry_or_none tid v s1"
    by (rule call_fn_keeps[OF once(3) kept_entry]) (use once.prems in \<open>simp add: entry_or_none_def\<close>)
  then show ?case using once.IH once.prems(1) by simp
next
  case (again s i e w s1 w1 now w2 s2 due ok fired s' w')
  have "entry_or_none tid v s1" by (rule call_fn_keeps[OF again(3) kept_entry again.prems(2)])
  then have "entry_or_none tid v s2"
    using again(5) again.prems(1) by (auto simp: rearm_def entry_or_none_def split: option.splits)
  then show ?case using again.IH again.prems(1) by simp
qed simp_all

lemma collect_due_nodes:
  assumes "min_pick pick" "collect_due pick now act h = (due, h')"
  shows "set due \<subseteq> hn_id ` set h" "set h' \<subseteq> set h"
proof -
  obtain ds dropped where d: "due = map hn_id ds" "mset h = mset ds + mset dropped + mset h'"
    using collect_due_spec[OF assms] by blast
  then have "set ds \<subseteq> set h" "set h' \<subseteq> set h" by (metis UnCI set_mset_mset set_mset_union subsetI)+
  then show "set due \<subseteq> hn_id ` set h" "set h' \<subseteq> set h" unfolding d(1) by auto
qed

lemma drop_cancelled_nodes: "set (drop_cancelled pick act h) \<subseteq> set h"
  using drop_cancelled_spec[of h pick act] by (metis set_mset_mset set_mset_union sup_ge2)

text \<open>A stranded timer: without a node, but active.\<close>

definition stranded :: "nat \<Rightarrow> 'f timer_entry option \<Rightarrow> 'f iso_state \<Rightarrow> bool" where
  "stranded tid v s \<longleftrightarrow> nodeless tid s \<and> entry_or_none tid v s"

lemma kept_stranded: "kept (stranded tid v)"
  using kept_nodeless[of tid] kept_entry[of tid v] unfolding kept_def stranded_def by blast

lemma host_step_stranded:
  assumes "min_pick pick" "host_step eng pick ev s w = Some (ok, timers, frames, s', w')" "stranded tid v s"
  shows "stranded tid v s'" "tid \<notin> set timers"
    "active s tid \<noteq> None \<Longrightarrow> active s' tid = None \<Longrightarrow> Cleared tid \<in> set (step_log eng pick ev s w)"
proof -
  note n = assms(3)[unfolded stranded_def]
  let ?l = "step_log eng pick ev s w"
  have "stranded tid v s' \<and> tid \<notin> set timers \<and>
    (active s tid \<noteq> None \<longrightarrow> active s' tid = None \<longrightarrow> Cleared tid \<in> set ?l)"
  proof (cases ev)
    case (Enter f)
    then obtain cok where c: "call_fn eng f s w = Some (cok, s', w')" "timers = []" using assms(2) by auto
    have "stranded tid v s'" by (rule call_fn_keeps[OF c(1) kept_stranded assms(3)])
    moreover have "tid < next_id s" using n by (simp add: nodeless_def)
    ultimately show ?thesis using call_fn_removes[OF c(1)] c(2) Enter by auto
  next
    case Drain_timers
    then have "drain_due_timers eng pick s w = Some (ok, timers, s', w')" using assms(2) by auto
    from drain_fires[OF this] obtain now w1 due h where
      d: "collect_due pick now (active s) (heap s) = (due, h)"
      and f: "fires eng due (s\<lparr>heap := h\<rparr>) w1 ok timers s' w'"
      and l: "?l = fire_log eng due (s\<lparr>heap := h\<rparr>) w1" using Drain_timers by (metis step_log.simps(2))
    note c = collect_due_nodes[OF assms(1) d]
    have t: "tid \<notin> set due" "tid \<notin> set timers"
      using c(1) n fires_subseq[OF f] by (auto simp: nodeless_def dest: list_emb_set)
    have "nodeless tid s'"
      using fires_nodeless_absent[OF f] nodeless_heap[OF conjunct1[OF n] c(2)] t(1) by blast
    moreover have "entry_or_none tid v s'"
      using fires_entry[OF f t(2), of v] n by (simp add: entry_or_none_def)
    moreover have "Cleared tid \<in> set ?l" if "active s tid \<noteq> None" "active s' tid = None"
      using fires_removes[OF f, of tid] that n t(2) unfolding l by (auto simp: nodeless_def)
    ultimately show ?thesis using t(2) by (simp add: stranded_def)
  next
    case Drain_frames
    show ?thesis
    proof (cases "raf_queue s = []")
      case False
      obtain frames' w1 where f: "fire_frames eng (raf_cancelled s) (raf_queue s)
          (s\<lparr>raf_queue := [], raf_cancelled := []\<rparr>) w1 = Some (frames', frames, s', w')" "w1 = snd (en_now eng w)"
        using assms(2) Drain_frames False by (auto simp: drain_animation_frames_def split: prod.splits)
      have "stranded tid v s'"
        by (rule fire_frames_keeps[OF f(1) kept_stranded]) (use n in \<open>simp add: stranded_def entry_or_none_def\<close>)
      then show ?thesis
        using frames_log_spec[OF f(1), of tid] assms(2) Drain_frames False f(2) n by (auto simp: nodeless_def)
    qed (use assms(2,3) Drain_frames in \<open>auto simp: drain_animation_frames_def\<close>)
  next
    case Next_deadline
    then show ?thesis using assms(2,3) nodeless_heap[OF conjunct1[OF n] drop_cancelled_nodes]
      by (auto simp: next_timer_deadline_def Let_def stranded_def entry_or_none_def split: prod.splits)
  qed
  then show "stranded tid v s'" "tid \<notin> set timers"
    "active s tid \<noteq> None \<Longrightarrow> active s' tid = None \<Longrightarrow> Cleared tid \<in> set ?l" by blast+
qed

lemma host_run_stranded:
  assumes "min_pick pick"
  shows "host_run eng pick evs s w = Some (ok, timers, frames, s', w') \<Longrightarrow> stranded tid v s \<Longrightarrow>
    stranded tid v s' \<and> tid \<notin> set timers \<and>
    (active s tid \<noteq> None \<longrightarrow> active s' tid = None \<longrightarrow> Cleared tid \<in> set (host_log eng pick evs s w))"
proof (induction evs arbitrary: s w ok timers frames)
  case (Cons ev evs)
  then obtain ok1 t1 f1 s1 w1 where st: "host_step eng pick ev s w = Some (ok1, t1, f1, s1, w1)"
    by (auto split: option.splits)
  then obtain ok2 t2 f2 where r: "host_run eng pick evs s1 w1 = Some (ok2, t2, f2, s', w')" "timers = t1 @ t2"
    using Cons.prems(1) by auto
  note h = host_step_stranded[OF assms st Cons.prems(2)]
  from Cons.IH[OF r(1) h(1)] h(2,3) r(2) st show ?case by auto
qed auto

text \<open>C17:
  An exception strands the timers that were due with it. Take a drain, after any history in which no timer
  callback threw, that ends because a callback throws, and a timer that was due in it, was not cleared in it,
  and was either not called or repeats and is the one whose callback threw. That timer is still active
  after the drain. But in no continuation of the history, whatever programs and drains it has, is the
  timer called again: it has no node in the heap any more, and it stays active until it is cleared.\<close>

theorem throwing_callback_strands_timers:
  assumes "min_pick pick" "host_run eng pick evs new_iso_state w0 = Some (True, timers, frames, s, w)"
    and "drain_due_timers eng pick s w = Some (False, fired, s1, w1)"
    and "active s i = Some e" "te_deadline e \<le> fst (en_now eng w)"
    and "Cleared i \<notin> set (drain_log eng pick s w)"
    and "i \<notin> set fired \<or> te_repeat e \<and> i = last fired"
    and "host_run eng pick evs' s1 w2 = Some (ok, timers', frames', s', w')"
  shows "active s1 i \<noteq> None \<and> i \<notin> set timers' \<and> i \<notin> hn_id ` set (heap s') \<and>
    (Cleared i \<notin> set (host_log eng pick evs' s1 w2) \<longrightarrow> active s' i = active s1 i)"
proof -
  have a: "armed {} s" using host_run_armed[OF assms(1,2) armed_new] .
  obtain now wn due h where d: "en_now eng w = (now, wn)" "collect_due pick now (active s) (heap s) = (due, h)"
    and f: "fires eng due (s\<lparr>heap := h\<rparr>) wn False fired s1 w1"
    and l: "drain_log eng pick s w = fire_log eng due (s\<lparr>heap := h\<rparr>) wn"
    using drain_fires[OF assms(3)] by blast
  note c = collect_armed[OF assms(1) a d(2)]
  have i: "i \<in> set due" "i < next_id s" "nodes_of i h = {#}"
    using c(2,3) assms(4,5) d(1) by (auto simp: armed_def)
  then have "nodeless i (s\<lparr>heap := h\<rparr>)" by (auto simp: nodeless_def nodes_of_def filter_mset_eq_conv)
  from fires_nodeless[OF f this c(1)] have n: "nodeless i s1" using assms(7) by blast
  have "active s1 i \<noteq> None"
    using fires_removes[OF f, of i e] i(2) assms(4,6,7) unfolding l by auto
  moreover have "stranded i (active s1 i) s1" using n by (simp add: stranded_def entry_or_none_def nodeless_def)
  ultimately show ?thesis
    using host_run_stranded[OF assms(1,8)] by (auto simp: stranded_def nodeless_def entry_or_none_def)
qed

section \<open>Runs of the sample program\<close>

definition sample_drain :: "nat host_event list \<Rightarrow> bool \<times> nat list \<times> nat iso_state \<times> int" where
  "sample_drain evs = the (drain_due_timers sample_engine first_min (sample_state evs) (sample_world evs))"

definition drained :: "nat host_event list \<Rightarrow> nat iso_state" where
  "drained evs = fst (snd (snd (sample_drain evs)))"

lemma sample_drain_state:
  "map_option (\<lambda>(ok, fired, r). (ok, fired)) (drain_due_timers sample_engine first_min (sample_state evs) (sample_world evs)) =
     Some (ok, fired) \<Longrightarrow>
   \<exists>w'. drain_due_timers sample_engine first_min (sample_state evs) (sample_world evs) = Some (ok, fired, drained evs, w')"
  by (auto simp: drained_def sample_drain_def)

lemma sample_history:
  "outcome (sample_run evs) = Some (ok, timers, frames) \<Longrightarrow>
   host_run sample_engine first_min evs new_iso_state 0 = Some (ok, timers, frames, sample_state evs, sample_world evs)"
  using sample_run_state[of evs] by (simp add: sample_run_def)

theorem due_timers_fire_witness:
  "drain_log sample_engine first_min (sample_state [Enter 6]) (sample_world [Enter 6]) =
     [Called 1, Cleared 2, Called 3, Cleared 3] \<and>
   {i. \<exists>e. active (sample_state [Enter 6]) i = Some e \<and> te_deadline e \<le> sample_world [Enter 6] \<and>
      Cleared i \<notin> set (takeWhile (\<lambda>ev. ev \<noteq> Called i) [Called 1, Cleared 2, Called 3, Cleared 3])} = {1, 3}"
proof -
  have run: "outcome (sample_run [Enter 6]) = Some (True, [], [])" by code_simp
  have "map_option (\<lambda>(ok, fired, r). (ok, fired))
      (drain_due_timers sample_engine first_min (sample_state [Enter 6]) (sample_world [Enter 6])) = Some (True, [1, 3])"
    by code_simp
  from sample_drain_state[OF this] obtain w' where d: "drain_due_timers sample_engine first_min (sample_state [Enter 6])
      (sample_world [Enter 6]) = Some (True, [1, 3], drained [Enter 6], w')" by blast
  have l: "drain_log sample_engine first_min (sample_state [Enter 6]) (sample_world [Enter 6]) =
      [Called 1, Cleared 2, Called 3, Cleared 3]" by code_simp
  have "fst (en_now sample_engine (sample_world [Enter 6])) = sample_world [Enter 6]" by (simp add: sample_engine_def)
  with due_timers_fire[OF first_min_pick sample_history[OF run] d] show ?thesis unfolding l by simp
qed

theorem cleared_timer_never_fires_witness:
  "\<exists>s' w'. host_run sample_engine first_min [Enter 6, Drain_timers, Enter 5, Drain_timers] new_iso_state 0 =
       Some (True, [1, 3, 4], [], s', w') \<and>
     host_log sample_engine first_min [Enter 6, Drain_timers, Enter 5, Drain_timers] new_iso_state 0 =
       [Called 1, Cleared 2] @ [Called 3, Cleared 3, Called 4] \<and> active s' 2 = None"
proof -
  let ?evs = "[Enter 6, Drain_timers, Enter 5, Drain_timers]"
  have "outcome (sample_run ?evs) = Some (True, [1, 3, 4], [])" by code_simp
  note r = sample_history[OF this]
  have l: "host_log sample_engine first_min ?evs new_iso_state 0 =
      [Called 1, Cleared 2] @ [Called 3, Cleared 3, Called 4]" by code_simp
  from cleared_timer_never_fires[OF r l, of 2] r l show ?thesis by simp
qed

theorem throwing_callback_strands_timers_witness:
  "\<exists>s' w'. host_run sample_engine first_min [Drain_timers, Enter 5, Drain_timers] (drained [Enter 2]) 9 =
       Some (True, [3], [], s', w') \<and>
     active (drained [Enter 2]) 1 \<noteq> None \<and> active s' 1 = active (drained [Enter 2]) 1 \<and>
     active (drained [Enter 2]) 2 \<noteq> None \<and> active s' 2 = active (drained [Enter 2]) 2"
proof -
  let ?s = "sample_state [Enter 2]" and ?w = "sample_world [Enter 2]" and ?evs = "[Drain_timers, Enter 5, Drain_timers]"
  have run: "outcome (sample_run [Enter 2]) = Some (True, [], [])" by code_simp
  have "map_option (\<lambda>(ok, fired, r). (ok, fired)) (drain_due_timers sample_engine first_min ?s ?w) = Some (False, [1])"
    by code_simp
  from sample_drain_state[OF this] obtain w1 where
    d: "drain_due_timers sample_engine first_min ?s ?w = Some (False, [1], drained [Enter 2], w1)" by blast
  have e: "map_option (\<lambda>e. (te_deadline e \<le> fst (en_now sample_engine ?w), te_repeat e)) (active ?s 1) = Some (True, True)"
    "map_option (\<lambda>e. (te_deadline e \<le> fst (en_now sample_engine ?w), te_repeat e)) (active ?s 2) = Some (True, False)"
    by code_simp+
  have l: "drain_log sample_engine first_min ?s ?w = [Called 1]"
    "host_log sample_engine first_min ?evs (drained [Enter 2]) 9 = [Called 3]" by code_simp+
  have "outcome (host_run sample_engine first_min ?evs (drained [Enter 2]) 9) = Some (True, [3], [])" by code_simp
  from outcome_state[OF this] obtain s' w' where
    r: "host_run sample_engine first_min ?evs (drained [Enter 2]) 9 = Some (True, [3], [], s', w')" by blast
  have uncleared: "Cleared i \<notin> set (drain_log sample_engine first_min ?s ?w)"
    "Cleared i \<notin> set (host_log sample_engine first_min ?evs (drained [Enter 2]) 9)" for i
    unfolding l by simp_all
  note strands = throwing_callback_strands_timers[OF first_min_pick sample_history[OF run] d _ _ uncleared(1) _ r]
  obtain e1 where e1: "active ?s 1 = Some e1" "te_deadline e1 \<le> fst (en_now sample_engine ?w)" "te_repeat e1"
    using e(1) by auto
  have "active (drained [Enter 2]) 1 \<noteq> None \<and> active s' 1 = active (drained [Enter 2]) 1"
    using strands[OF e1(1,2)] e1(3) uncleared(2)[of 1] by (metis last.simps)
  moreover obtain e2 where e2: "active ?s 2 = Some e2" "te_deadline e2 \<le> fst (en_now sample_engine ?w)"
    using e(2) by auto
  have "(2 :: nat) \<notin> set [1]" by simp
  then have "active (drained [Enter 2]) 2 \<noteq> None \<and> active s' 2 = active (drained [Enter 2]) 2"
    using strands[OF e2] uncleared(2)[of 2] by metis
  ultimately show ?thesis using r by blast
qed

end
