(* ===== verification/Single_Instance.thy ===== *)
theory Single_Instance
  imports Ascii
begin

text \<open>
  Single-instance coordination, the portable part in \<^verbatim>\<open>src/os/single_instance.cpp\<close>: the message with which a
  second instance hands its arguments to the first, and the delivery of launches, URLs and files to
  callbacks that may be installed later. Callbacks are names of type \<open>'c\<close>; what is delivered to them is an
  output. Work posted to the main thread is a queue of events. The test for absolute paths is the one for
  POSIX systems; sockets, lock files and registration with the system are not part of this file.
\<close>

section \<open>The message\<close>

definition escape_char :: "u8 \<Rightarrow> bytes" where
  "escape_char ch =
     (if ch = 92 then [92, 92]
      else if ch = 10 then [92, 110]
      else if ch = 13 then [92, 114]
      else if ch = 0 then [92, 48]
      else [ch])"

definition escaped_line :: "bytes \<Rightarrow> bytes" where
  "escaped_line s = concat (map escape_char s) @ [10]"

fun decode_escaped :: "bytes \<Rightarrow> bytes option" where
  "decode_escaped [] = Some []"
| "decode_escaped (ch # s) =
     (if ch \<noteq> 92 then map_option (Cons ch) (decode_escaped s)
      else case s of
        [] \<Rightarrow> None
      | e # s' \<Rightarrow>
          if e = 92 then map_option (Cons 92) (decode_escaped s')
          else if e = 110 then map_option (Cons 10) (decode_escaped s')
          else if e = 114 then map_option (Cons 13) (decode_escaped s')
          else if e = 48 then map_option (Cons 0) (decode_escaped s')
          else None)"

text \<open>The line up to the next newline and what follows it.\<close>

definition read_line :: "bytes \<Rightarrow> (bytes \<times> bytes) option" where
  "read_line s =
     (case find_char 10 s of
        None \<Rightarrow> None
      | Some i \<Rightarrow> Some (take i s, drop (i + 1) s))"

text \<open>The loop of \<^verbatim>\<open>parse_argc\<close>; the test keeps the value at 4096 or below, so 32 bits never wrap.\<close>

fun argc_loop :: "nat \<Rightarrow> bytes \<Rightarrow> nat option" where
  "argc_loop v [] = Some v"
| "argc_loop v (ch # s) =
     (if ch < 48 \<or> ch > 57 then None
      else let digit = unat ch - 48
        in if v > (4096 - digit) div 10 then None else argc_loop (v * 10 + digit) s)"

definition parse_argc :: "bytes \<Rightarrow> nat option" where
  "parse_argc line = (if line = [] then None else argc_loop 0 line)"

definition encode_handoff :: "bytes list \<Rightarrow> bytes \<Rightarrow> bytes" where
  "encode_handoff argv cwd =
     digits (length argv) @ [10] @ escaped_line cwd @ concat (map escaped_line argv)"

text \<open>The loop over \<open>n\<close> arguments.\<close>

fun decode_args :: "nat \<Rightarrow> bytes \<Rightarrow> (bytes list \<times> bytes) option" where
  "decode_args 0 s = Some ([], s)"
| "decode_args (Suc n) s =
     (case read_line s of
        None \<Rightarrow> None
      | Some (line, s') \<Rightarrow>
          (case decode_escaped line of
             None \<Rightarrow> None
           | Some arg \<Rightarrow> map_option (\<lambda>(args, r). (arg # args, r)) (decode_args n s')))"

definition decode_handoff :: "bytes \<Rightarrow> (bytes list \<times> bytes) option" where
  "decode_handoff s0 =
     (case read_line s0 of
        None \<Rightarrow> None
      | Some (line, s1) \<Rightarrow>
          (case parse_argc line of
             None \<Rightarrow> None
           | Some argc \<Rightarrow>
               (case read_line s1 of
                  None \<Rightarrow> None
                | Some (line, s2) \<Rightarrow>
                    (case decode_escaped line of
                       None \<Rightarrow> None
                     | Some cwd \<Rightarrow>
                         (case decode_args argc s2 of
                            None \<Rightarrow> None
                          | Some (argv, s3) \<Rightarrow> if s3 \<noteq> [] then None else Some (argv, cwd))))))"

section \<open>Arguments that open something\<close>

definition is_alpha :: "u8 \<Rightarrow> bool" where
  "is_alpha c \<longleftrightarrow> 65 \<le> c \<and> c \<le> 90 \<or> 97 \<le> c \<and> c \<le> 122"

definition looks_like_url :: "bytes \<Rightarrow> bool" where
  "looks_like_url arg =
     (case find_sub (ascii ''://'') arg of
        None \<Rightarrow> False
      | Some pos \<Rightarrow>
          if pos = 0 then False
          else if \<not> is_alpha (hd arg) then False
          else list_all (\<lambda>c. is_alpha c \<or> is_digit c \<or> c = 43 \<or> c = 45 \<or> c = 46) (tl (take pos arg)))"

definition looks_like_absolute_file :: "bytes \<Rightarrow> bool" where
  "looks_like_absolute_file arg = (if arg = [] then False else hd arg = 47)"

section \<open>Delivery\<close>

datatype open_event = Second_instance "bytes list" bytes | Open_url bytes | Open_file bytes

record 'c instance_state =
  second_instance_cb :: "'c option"
  open_url_cb :: "'c option"
  open_file_cb :: "'c option"
  pending_second_instances :: "(bytes list \<times> bytes) list"
  pending_urls :: "bytes list"
  pending_files :: "bytes list"
  posted :: "open_event list"

definition new_instance :: "'c instance_state" where
  "new_instance = \<lparr>second_instance_cb = None, open_url_cb = None, open_file_cb = None,
     pending_second_instances = [], pending_urls = [], pending_files = [], posted = []\<rparr>"

definition deliver_second_instance ::
  "bytes list \<Rightarrow> bytes \<Rightarrow> 'c instance_state \<Rightarrow> ('c \<times> open_event) list \<times> 'c instance_state" where
  "deliver_second_instance argv cwd s =
     (case second_instance_cb s of
        None \<Rightarrow> ([], s\<lparr>pending_second_instances := pending_second_instances s @ [(argv, cwd)]\<rparr>)
      | Some cb \<Rightarrow> ([(cb, Second_instance argv cwd)], s))"

definition deliver_open_url :: "bytes \<Rightarrow> 'c instance_state \<Rightarrow> ('c \<times> open_event) list \<times> 'c instance_state" where
  "deliver_open_url url s =
     (case open_url_cb s of
        None \<Rightarrow> ([], s\<lparr>pending_urls := pending_urls s @ [url]\<rparr>)
      | Some cb \<Rightarrow> ([(cb, Open_url url)], s))"

definition deliver_open_file :: "bytes \<Rightarrow> 'c instance_state \<Rightarrow> ('c \<times> open_event) list \<times> 'c instance_state" where
  "deliver_open_file path s =
     (case open_file_cb s of
        None \<Rightarrow> ([], s\<lparr>pending_files := pending_files s @ [path]\<rparr>)
      | Some cb \<Rightarrow> ([(cb, Open_file path)], s))"

definition post :: "open_event \<Rightarrow> 'c instance_state \<Rightarrow> 'c instance_state" where
  "post e s = s\<lparr>posted := posted s @ [e]\<rparr>"

fun argv_open_events :: "bytes list \<Rightarrow> open_event list" where
  "argv_open_events [] = []"
| "argv_open_events (arg # args) =
     (if looks_like_url arg then Open_url arg # argv_open_events args
      else if looks_like_absolute_file arg then Open_file arg # argv_open_events args
      else argv_open_events args)"

definition dispatch_argv_open_events :: "bytes list \<Rightarrow> 'c instance_state \<Rightarrow> 'c instance_state" where
  "dispatch_argv_open_events argv s = fold post (argv_open_events (drop 1 argv)) s"

definition dispatch_launch :: "bytes list \<Rightarrow> bytes \<Rightarrow> 'c instance_state \<Rightarrow> 'c instance_state" where
  "dispatch_launch argv cwd s = dispatch_argv_open_events argv (post (Second_instance argv cwd) s)"

text \<open>The lock of the platform decides who is first.\<close>

definition acquire_or_forward :: "bool \<Rightarrow> bytes list \<Rightarrow> 'c instance_state \<Rightarrow> bool \<times> 'c instance_state" where
  "acquire_or_forward primary argv s =
     (primary, if primary then dispatch_argv_open_events argv s else s)"

definition on_second_instance ::
  "'c option \<Rightarrow> 'c instance_state \<Rightarrow> ('c \<times> open_event) list \<times> 'c instance_state" where
  "on_second_instance cb s =
     (case cb of
        None \<Rightarrow> ([], s\<lparr>second_instance_cb := None\<rparr>)
      | Some c \<Rightarrow> (map (\<lambda>(argv, cwd). (c, Second_instance argv cwd)) (pending_second_instances s),
          s\<lparr>second_instance_cb := Some c, pending_second_instances := []\<rparr>))"

definition on_open_url :: "'c option \<Rightarrow> 'c instance_state \<Rightarrow> ('c \<times> open_event) list \<times> 'c instance_state" where
  "on_open_url cb s =
     (case cb of
        None \<Rightarrow> ([], s\<lparr>open_url_cb := None\<rparr>)
      | Some c \<Rightarrow> (map (\<lambda>url. (c, Open_url url)) (pending_urls s),
          s\<lparr>open_url_cb := Some c, pending_urls := []\<rparr>))"

definition on_open_file :: "'c option \<Rightarrow> 'c instance_state \<Rightarrow> ('c \<times> open_event) list \<times> 'c instance_state" where
  "on_open_file cb s =
     (case cb of
        None \<Rightarrow> ([], s\<lparr>open_file_cb := None\<rparr>)
      | Some c \<Rightarrow> (map (\<lambda>path. (c, Open_file path)) (pending_files s),
          s\<lparr>open_file_cb := Some c, pending_files := []\<rparr>))"

fun deliver :: "open_event \<Rightarrow> 'c instance_state \<Rightarrow> ('c \<times> open_event) list \<times> 'c instance_state" where
  "deliver (Second_instance argv cwd) s = deliver_second_instance argv cwd s"
| "deliver (Open_url url) s = deliver_open_url url s"
| "deliver (Open_file path) s = deliver_open_file path s"

text \<open>The main thread takes the oldest posted event.\<close>

definition pump_one :: "'c instance_state \<Rightarrow> ('c \<times> open_event) list \<times> 'c instance_state" where
  "pump_one s = (case posted s of [] \<Rightarrow> ([], s) | e # es \<Rightarrow> deliver e (s\<lparr>posted := es\<rparr>))"

section \<open>The message is understood\<close>

lemma decode_escape_char: "decode_escaped (escape_char ch @ s) = map_option (Cons ch) (decode_escaped s)"
  by (simp add: escape_char_def)

lemma decode_escaped_line: "decode_escaped (concat (map escape_char s)) = Some s"
  by (induction s) (simp_all add: decode_escape_char)

lemma escape_no_newline: "10 \<notin> set (concat (map escape_char s))"
  by (induction s) (auto simp: escape_char_def)

lemma find_char_break: "c \<notin> set s \<Longrightarrow> find_char c (s @ c # r) = Some (length s)"
  by (induction s) auto

lemma read_line_append: "10 \<notin> set s \<Longrightarrow> read_line (s @ 10 # r) = Some (s, r)"
  by (simp add: read_line_def find_char_break)

lemma read_escaped_line [codec_simps]: "read_line (escaped_line s @ r) = Some (concat (map escape_char s), r)"
  using read_line_append[OF escape_no_newline, of s r] by (simp add: escaped_line_def)

lemma decode_args_encode [codec_simps]:
  "decode_args (length argv) (concat (map escaped_line argv) @ r) = Some (argv, r)"
  by (induction argv) (simp_all add: read_escaped_line decode_escaped_line)

lemma foldl_digits_mono: "v \<le> foldl (\<lambda>n c. 10 * n + (unat c - 48)) v (s :: bytes)"
proof (induction s arbitrary: v)
  case (Cons c s)
  have "v \<le> 10 * v + (unat c - 48)" by simp
  also have "\<dots> \<le> foldl (\<lambda>n c. 10 * n + (unat c - 48)) v (c # s)" using Cons[of "10 * v + (unat c - 48)"] by simp
  finally show ?case .
qed simp

lemma argc_loop_digits:
  "list_all is_digit s \<Longrightarrow> v \<le> 4096 \<Longrightarrow> argc_loop v s =
     (let r = foldl (\<lambda>n c. 10 * n + (unat c - 48)) v s in if r \<le> 4096 then Some r else None)"
proof (induction s arbitrary: v)
  case (Cons c s)
  have c: "\<not> (c < 48 \<or> c > 57)" using Cons.prems(1) by (auto simp: is_digit_def)
  have d: "unat c - 48 \<le> 9" using Cons.prems(1) by (auto simp: is_digit_def word_le_nat_alt)
  have step: "v > (4096 - (unat c - 48)) div 10 \<longleftrightarrow> 10 * v + (unat c - 48) > 4096" using d by linarith
  show ?case
  proof (cases "10 * v + (unat c - 48) > 4096")
    case True
    then have "foldl (\<lambda>n c. 10 * n + (unat c - 48)) v (c # s) > 4096"
      using foldl_digits_mono[of "10 * v + (unat c - 48)" s] by simp
    moreover have "argc_loop v (c # s) = None" using True c step by (simp add: Let_def)
    ultimately show ?thesis by (simp add: Let_def)
  next
    case False
    then show ?thesis using Cons.IH[of "10 * v + (unat c - 48)"] Cons.prems(1) c step
      by (simp add: Let_def mult.commute)
  qed
qed simp

lemma parse_argc_digits: "parse_argc (digits n) = (if n \<le> 4096 then Some n else None)"
  using digits_ok[of n] argc_loop_digits[of "digits n" 0]
  by (simp add: parse_argc_def digits_value_def Let_def)

lemma handoff_decodes:
  "decode_handoff (encode_handoff argv cwd) = (if length argv \<le> 4096 then Some (argv, cwd) else None)"
  using read_line_append[OF digits_no_newline, of "length argv" "escaped_line cwd @ concat (map escaped_line argv)"]
    decode_args_encode[of argv "[]"]
  by (simp add: decode_handoff_def encode_handoff_def parse_argc_digits read_escaped_line decode_escaped_line)

text \<open>C18:
  The message is understood. The first instance decodes exactly the arguments and the working directory that
  the second one encoded, whatever bytes they contain, when there are at most 4096 arguments, and rejects the
  message when there are more.\<close>

theorem handoff_round_trip:
  "decode_handoff (encode_handoff argv cwd) = (if length argv \<le> 4096 then Some (argv, cwd) else None)"
  by (rule handoff_decodes)

text \<open>More input does not change what has been read.\<close>

lemma read_line_more: "read_line s = Some (l, r) \<Longrightarrow> read_line (s @ q) = Some (l, r @ q)"
proof -
  assume a: "read_line s = Some (l, r)"
  then obtain i where i: "find_char 10 s = Some i" "l = take i s" "r = drop (i + 1) s"
    by (auto simp: read_line_def split: option.splits)
  have "find_char 10 s = Some i \<Longrightarrow> find_char 10 (s @ q) = Some i \<and> i < length s" for i
    by (induction s arbitrary: i) (auto split: if_splits option.splits)
  from this[OF i(1)] show ?thesis using i by (simp add: read_line_def)
qed

lemma decode_args_more: "decode_args n s = Some (a, r) \<Longrightarrow> decode_args n (s @ q) = Some (a, r @ q)"
proof (induction n arbitrary: s a)
  case (Suc n)
  then obtain line s' arg args where "read_line s = Some (line, s')" "decode_escaped line = Some arg"
    "decode_args n s' = Some (args, r)" "a = arg # args"
    by (auto split: option.splits prod.splits)
  then show ?case using Suc.IH read_line_more[of s line s' q] by simp
qed simp

text \<open>
  A message that was cut short is rejected: no proper prefix of an encoded message is accepted, so a sender
  that dies in the middle never makes the first instance act on part of its arguments.\<close>

theorem truncated_handoff_rejected:
  assumes "encode_handoff argv cwd = p @ q" "q \<noteq> []" "length argv \<le> 4096"
  shows "decode_handoff p = None"
proof (rule ccontr)
  assume "decode_handoff p \<noteq> None"
  then obtain line s1 argc line2 s2 c argv' where
    "read_line p = Some (line, s1)" "parse_argc line = Some argc" "read_line s1 = Some (line2, s2)"
    "decode_escaped line2 = Some c" "decode_args argc s2 = Some (argv', [])"
    by (auto simp: decode_handoff_def split: option.splits prod.splits if_splits)
  then have "decode_handoff (p @ q) = None"
    using read_line_more[of p line s1 q] read_line_more[of s1 line2 s2 q] decode_args_more[of argc s2 argv' "[]" q] assms(2)
    by (simp add: decode_handoff_def)
  moreover have "decode_handoff (p @ q) = Some (argv, cwd)" using handoff_decodes[of argv cwd] assms(1,3) by simp
  ultimately show False by simp
qed

theorem truncated_handoff_rejected_witness:
  "decode_handoff (ascii ''1'' @ [10, 47, 10, 97]) = None \<and>
   decode_handoff (ascii ''1'' @ [10, 47, 10, 97, 10]) = Some ([[97]], [47])"
proof
  have "encode_handoff [[97]] [47] = (ascii ''1'' @ [10, 47, 10, 97]) @ [10]" by code_simp
  from truncated_handoff_rejected[OF this] show "decode_handoff (ascii ''1'' @ [10, 47, 10, 97]) = None" by simp
  show "decode_handoff (ascii ''1'' @ [10, 47, 10, 97, 10]) = Some ([[97]], [47])" by code_simp
qed

section \<open>Every event is delivered once\<close>

datatype 'c instance_op =
    Launched "bytes list" bytes
  | Acquired "bytes list"
  | Subscribe_launch "'c option"
  | Subscribe_url "'c option"
  | Subscribe_file "'c option"
  | Pump

fun instance_step :: "'c instance_op \<Rightarrow> 'c instance_state \<Rightarrow> ('c \<times> open_event) list \<times> 'c instance_state" where
  "instance_step (Launched argv cwd) s = ([], dispatch_launch argv cwd s)"
| "instance_step (Acquired argv) s = ([], snd (acquire_or_forward True argv s))"
| "instance_step (Subscribe_launch cb) s = on_second_instance cb s"
| "instance_step (Subscribe_url cb) s = on_open_url cb s"
| "instance_step (Subscribe_file cb) s = on_open_file cb s"
| "instance_step Pump s = pump_one s"

fun instance_run :: "'c instance_op list \<Rightarrow> 'c instance_state \<Rightarrow> ('c \<times> open_event) list \<times> 'c instance_state" where
  "instance_run [] s = ([], s)"
| "instance_run (op # ops) s =
     (let (out, s1) = instance_step op s; (outs, s2) = instance_run ops s1 in (out @ outs, s2))"

fun arrivals :: "'c instance_op list \<Rightarrow> open_event list" where
  "arrivals [] = []"
| "arrivals (Launched argv cwd # ops) = Second_instance argv cwd # argv_open_events (drop 1 argv) @ arrivals ops"
| "arrivals (Acquired argv # ops) = argv_open_events (drop 1 argv) @ arrivals ops"
| "arrivals (_ # ops) = arrivals ops"

text \<open>The events of one kind: launches, URLs and files.\<close>

fun kind :: "open_event \<Rightarrow> nat" where
  "kind (Second_instance argv cwd) = 0"
| "kind (Open_url url) = 1"
| "kind (Open_file path) = 2"

definition of_kind :: "nat \<Rightarrow> open_event list \<Rightarrow> open_event list" where
  "of_kind k es = filter (\<lambda>e. kind e = k) es"

definition pending :: "nat \<Rightarrow> 'c instance_state \<Rightarrow> open_event list" where
  "pending k s =
     (if k = 0 then map (\<lambda>(argv, cwd). Second_instance argv cwd) (pending_second_instances s)
      else if k = 1 then map Open_url (pending_urls s)
      else if k = 2 then map Open_file (pending_files s) else [])"

text \<open>Nothing is pending for a callback that is installed.\<close>

definition settled :: "'c instance_state \<Rightarrow> bool" where
  "settled s \<longleftrightarrow> (second_instance_cb s \<noteq> None \<longrightarrow> pending_second_instances s = []) \<and>
     (open_url_cb s \<noteq> None \<longrightarrow> pending_urls s = []) \<and> (open_file_cb s \<noteq> None \<longrightarrow> pending_files s = [])"

lemma fold_post: "fold post es s = s\<lparr>posted := posted s @ es\<rparr>"
  by (induction es arbitrary: s) (simp_all add: post_def)

lemma instance_step_accounts:
  assumes "settled s" "instance_step op s = (out, s')"
  shows "settled s' \<and> of_kind k (map snd out) @ pending k s' @ of_kind k (posted s') =
     pending k s @ of_kind k (posted s) @ of_kind k (arrivals [op])"
proof (cases op)
  case Pump
  show ?thesis
  proof (cases "posted s")
    case Nil
    then show ?thesis using Pump assms by (simp add: pump_one_def of_kind_def)
  next
    case (Cons e es)
    then have d: "deliver e (s\<lparr>posted := es\<rparr>) = (out, s')" using Pump assms by (simp add: pump_one_def)
    show ?thesis
    proof (cases e)
      case (Second_instance argv cwd)
      then show ?thesis using d assms(1) Cons Pump by (cases "second_instance_cb s")
        (auto simp: deliver_second_instance_def settled_def pending_def of_kind_def)
    next
      case (Open_url url)
      then show ?thesis using d assms(1) Cons Pump by (cases "open_url_cb s")
        (auto simp: deliver_open_url_def settled_def pending_def of_kind_def)
    next
      case (Open_file path)
      then show ?thesis using d assms(1) Cons Pump by (cases "open_file_cb s")
        (auto simp: deliver_open_file_def settled_def pending_def of_kind_def)
    qed
  qed
next
  case (Subscribe_launch cb)
  then show ?thesis using assms by (cases cb) (auto simp: on_second_instance_def settled_def pending_def of_kind_def o_def case_prod_unfold)
next
  case (Subscribe_url cb)
  then show ?thesis using assms by (cases cb) (auto simp: on_open_url_def settled_def pending_def of_kind_def o_def)
next
  case (Subscribe_file cb)
  then show ?thesis using assms by (cases cb) (auto simp: on_open_file_def settled_def pending_def of_kind_def o_def)
qed (use assms in \<open>auto simp: dispatch_launch_def acquire_or_forward_def dispatch_argv_open_events_def fold_post
    post_def settled_def pending_def of_kind_def\<close>)

text \<open>C25:
  Every event is delivered once and in order. After any sequence of launches, changes of callbacks and turns
  of the main thread, for each kind of event, what has been delivered to callbacks, followed by what is kept
  for a callback that is not installed yet and by what the main thread has still to take, is exactly what
  has arrived, in the order of arrival; and nothing is kept for a kind whose callback is installed.\<close>

theorem open_events_delivered_once:
  "of_kind k (map snd (fst (instance_run ops new_instance))) @ pending k (snd (instance_run ops new_instance)) @
     of_kind k (posted (snd (instance_run ops new_instance))) = of_kind k (arrivals ops) \<and>
   settled (snd (instance_run ops new_instance))"
proof -
  have "settled s' \<and> of_kind k (map snd out) @ pending k s' @ of_kind k (posted s') =
      pending k s @ of_kind k (posted s) @ of_kind k (arrivals ops)"
    if "settled s" "instance_run ops s = (out, s')" for s s' out
    using that
  proof (induction ops arbitrary: s out)
    case (Cons op ops)
    obtain out1 s1 where s1: "instance_step op s = (out1, s1)" by fastforce
    obtain out2 where s2: "instance_run ops s1 = (out2, s')" "out = out1 @ out2"
      using Cons.prems(2) s1 by (auto split: prod.splits)
    have 1: "settled s1" "of_kind k (map snd out1) @ pending k s1 @ of_kind k (posted s1) =
        pending k s @ of_kind k (posted s) @ of_kind k (arrivals [op])"
      using instance_step_accounts[OF Cons.prems(1) s1, of k] by blast+
    have 2: "settled s'" "of_kind k (map snd out2) @ pending k s' @ of_kind k (posted s') =
        pending k s1 @ of_kind k (posted s1) @ of_kind k (arrivals ops)"
      using Cons.IH[OF 1(1) s2(1)] by blast+
    have "arrivals (op # ops) = arrivals [op] @ arrivals ops" by (cases op) simp_all
    moreover have "of_kind k (a @ b) = of_kind k a @ of_kind k b" for a b by (simp add: of_kind_def)
    ultimately show ?case using 1(2) 2 s2(2) by (metis append_assoc map_append)
  qed (simp add: of_kind_def)
  from this[of new_instance] show ?thesis
    by (cases "instance_run ops new_instance") (auto simp: new_instance_def settled_def pending_def of_kind_def)
qed

end
