(* ===== verification/Cpu_Profile.thy ===== *)
theory Cpu_Profile
  imports Ascii "HOL-Library.Multiset"
begin

text \<open>
  CPU profiles of \<^verbatim>\<open>src/runner\<close>: the data of \<^verbatim>\<open>cpu_profile.hpp\<close>, the tree the native sampler builds from
  captured stacks (\<^verbatim>\<open>native_profiler::stop\<close> in \<^verbatim>\<open>cpu_profile_native.cpp\<close>), the merge of the V8 and the native
  profile and the accounting behind the report (\<^verbatim>\<open>cpu_profile_merge.cpp\<close>). Node ids and microseconds are
  integers: ids stay below the number of nodes, and times are sums of sampling periods, far below the
  width of \<^verbatim>\<open>int\<close> and \<^verbatim>\<open>i64\<close>. Hit counts and drop counts wrap at 32 and 64 bits. The symbol table
  (\<^verbatim>\<open>dladdr\<close> and the demangler) is a parameter.
\<close>

section \<open>Profiles\<close>

record call_frame =
  function_name :: bytes
  script_url :: bytes
  script_id :: int
  line_number :: int
  column_number :: int

record profile_node =
  nid :: int
  frame :: call_frame
  hit_count :: nat
  children :: "int list"

record profile_data =
  nodes :: "profile_node list"
  samples :: "int list"
  time_deltas :: "int list"
  start_time :: int
  end_time :: int
  dropped_samples :: nat
  sample_period_us :: int

definition named_frame :: "bytes \<Rightarrow> call_frame" where
  "named_frame fn =
     \<lparr>function_name = fn, script_url = [], script_id = 0, line_number = -1, column_number = -1\<rparr>"

definition new_node :: "int \<Rightarrow> call_frame \<Rightarrow> profile_node" where
  "new_node i f = \<lparr>nid = i, frame = f, hit_count = 0, children = []\<rparr>"

definition empty_profile :: profile_data where
  "empty_profile = \<lparr>nodes = [], samples = [], time_deltas = [], start_time = 0, end_time = 0,
     dropped_samples = 0, sample_period_us = 0\<rparr>"

definition add_child :: "int \<Rightarrow> profile_node \<Rightarrow> profile_node" where
  "add_child c n = n\<lparr>children := children n @ [c]\<rparr>"

text \<open>\<^verbatim>\<open>out.nodes[i].children.push_back(c)\<close>.\<close>

definition push_child :: "nat \<Rightarrow> int \<Rightarrow> profile_node list \<Rightarrow> profile_node list" where
  "push_child i c ns = ns[i := add_child c (ns ! i)]"

section \<open>The tree of the native sampler\<close>

text \<open>A slot of the ring is its time stamp and its program counters, innermost first.\<close>

type_synonym 'pc slot = "nat \<times> 'pc list"

definition native_tag :: bytes where
  "native_tag = ascii ''[native] ''"

text \<open>
  The symbol table gives the demangled name and the path of the image, each empty when unknown;
  \<open>hex\<close> prints an address.
\<close>

definition resolve :: "('pc \<Rightarrow> bytes \<times> bytes) \<Rightarrow> ('pc \<Rightarrow> bytes) \<Rightarrow> 'pc \<Rightarrow> call_frame" where
  "resolve symbol hex pc =
     (let (name, path) = symbol pc
      in (named_frame (native_tag @ (if name = [] then hex pc else name)))\<lparr>script_url := path\<rparr>)"

definition child_key :: "int \<Rightarrow> call_frame \<Rightarrow> bytes" where
  "child_key parent f = print_int parent @ [124] @ function_name f @ [124] @ script_url f"

record 'pc builder =
  tree :: profile_data
  child_index :: "bytes \<Rightarrow> int option"
  sym_cache :: "'pc \<Rightarrow> call_frame option"

definition get_child :: "int \<Rightarrow> call_frame \<Rightarrow> 'pc builder \<Rightarrow> int \<times> 'pc builder" where
  "get_child parent f b =
     (let k = child_key parent f in
      case child_index b k of
        Some c \<Rightarrow> (c, b)
      | None \<Rightarrow>
          let c = int (length (nodes (tree b))) + 1;
              ns = push_child (nat (parent - 1)) c (nodes (tree b) @ [new_node c f])
          in (c, b\<lparr>tree := (tree b)\<lparr>nodes := ns\<rparr>, child_index := (child_index b)(k \<mapsto> c)\<rparr>))"

text \<open>The cache entry is filled when it is missing or has no name.\<close>

definition cached_frame ::
  "('pc \<Rightarrow> call_frame) \<Rightarrow> 'pc \<Rightarrow> 'pc builder \<Rightarrow> call_frame \<times> 'pc builder" where
  "cached_frame res pc b =
     (case sym_cache b pc of
        Some cf \<Rightarrow>
          if function_name cf = [] then (res pc, b\<lparr>sym_cache := (sym_cache b)(pc \<mapsto> res pc)\<rparr>) else (cf, b)
      | None \<Rightarrow> (res pc, b\<lparr>sym_cache := (sym_cache b)(pc \<mapsto> res pc)\<rparr>))"

text \<open>The walk from the outermost frame inwards; the list is in that order.\<close>

fun add_path :: "('pc \<Rightarrow> call_frame) \<Rightarrow> int \<Rightarrow> 'pc list \<Rightarrow> 'pc builder \<Rightarrow> int \<times> 'pc builder" where
  "add_path res cur [] b = (cur, b)"
| "add_path res cur (pc # pcs) b =
     (let (cf, b) = cached_frame res pc b;
          (c, b) = get_child cur cf b
      in add_path res c pcs b)"

definition handler_skip :: nat where
  "handler_skip = 2"

definition bump_hit :: "nat \<Rightarrow> profile_node list \<Rightarrow> profile_node list" where
  "bump_hit i ns = ns[i := (ns ! i)\<lparr>hit_count := wrap32 (hit_count (ns ! i) + 1)\<rparr>]"

definition add_slot ::
  "('pc \<Rightarrow> call_frame) \<Rightarrow> nat \<times> 'pc slot \<Rightarrow> 'pc builder \<Rightarrow> 'pc builder" where
  "add_slot res islot b =
     (case islot of (i, t, pcs) \<Rightarrow>
        if length pcs \<le> handler_skip then b
        else
          let (cur, b) = add_path res 1 (rev (drop handler_skip pcs)) b;
              p = tree b;
              p = p\<lparr>nodes := bump_hit (nat (cur - 1)) (nodes p), samples := samples p @ [cur],
                    time_deltas := time_deltas p @ [sample_period_us p],
                    start_time := (if i = 0 then int t else start_time p), end_time := int t\<rparr>
          in b\<lparr>tree := p\<rparr>)"

definition native_root :: "nat \<Rightarrow> int \<Rightarrow> profile_data" where
  "native_root dropped hz =
     empty_profile\<lparr>nodes := [new_node 1 (named_frame (ascii ''(native root)''))],
       dropped_samples := dropped, sample_period_us := (if hz > 0 then 1000000 div hz else 1000)\<rparr>"

text \<open>\<open>produced\<close> slots of the ring are filled, at most its capacity.\<close>

definition build_native ::
  "('pc \<Rightarrow> call_frame) \<Rightarrow> nat \<Rightarrow> int \<Rightarrow> 'pc slot list \<Rightarrow> profile_data" where
  "build_native res dropped hz slots =
     tree (fold (add_slot res) (enumerate 0 slots)
       \<lparr>tree = native_root dropped hz, child_index = Map.empty, sym_cache = Map.empty\<rparr>)"

section \<open>Merging\<close>

definition append_subtree :: "profile_data \<Rightarrow> bytes \<Rightarrow> profile_data \<Rightarrow> profile_data" where
  "append_subtree src label out =
     (let root_id = int (length (nodes out)) + 1;
          ns = push_child 0 root_id (nodes out @ [new_node root_id (named_frame label)])
      in if nodes src = [] then out\<lparr>nodes := ns\<rparr>
         else
           let offset = root_id;
               remap = (\<lambda>i. i + offset);
               ns = ns @ map (\<lambda>sn. \<lparr>nid = remap (nid sn), frame = frame sn, hit_count = hit_count sn,
                                    children = map remap (children sn)\<rparr>) (nodes src);
               ns = push_child (nat (root_id - 1)) (remap (nid (hd (nodes src)))) ns;
               period = (if sample_period_us src > 0 then sample_period_us src else 1000)
           in out\<lparr>nodes := ns, samples := samples out @ map remap (samples src),
                  time_deltas := time_deltas out @ map (\<lambda>_. period) (samples src)\<rparr>)"

definition merge_profiles :: "profile_data \<Rightarrow> profile_data \<Rightarrow> profile_data" where
  "merge_profiles js native =
     (let out = empty_profile\<lparr>nodes := [new_node 1 (named_frame (ascii ''(root)''))]\<rparr>;
          out = append_subtree js (ascii ''(js)'') out;
          out = append_subtree native (ascii ''(native)'') out
      in out\<lparr>dropped_samples := wrap64 (dropped_samples js + dropped_samples native),
             start_time := 0,
             end_time := fold (+) (time_deltas out) 0,
             sample_period_us := max (sample_period_us js) (sample_period_us native)\<rparr>)"

section \<open>Self time\<close>

text \<open>\<^verbatim>\<open>node_index\<close> keeps the first node with an id; an unknown id gives the number of nodes.\<close>

definition idx_of :: "profile_data \<Rightarrow> int \<Rightarrow> nat" where
  "idx_of p i = length (takeWhile (\<lambda>n. nid n \<noteq> i) (nodes p))"

definition mean_delta :: "int list \<Rightarrow> int" where
  "mean_delta ds =
     (let pos = filter (\<lambda>d. d > 0) ds
      in if pos = [] then 1000 else sum_list pos div int (length pos))"

definition self_delta :: "profile_data \<Rightarrow> nat \<Rightarrow> int" where
  "self_delta p i =
     (let mean = mean_delta (time_deltas p);
          d = (if i < length (time_deltas p) then time_deltas p ! i else mean)
      in if d \<le> 0 then mean else d)"

definition self_us_by_node :: "profile_data \<Rightarrow> int list" where
  "self_us_by_node p =
     fold (\<lambda>i self.
         let idx = idx_of p (samples p ! i)
         in if idx < length self then self[idx := self ! idx + self_delta p i] else self)
       [0..<length (samples p)] (replicate (length (nodes p)) 0)"

definition total_us :: "profile_data \<Rightarrow> int" where
  "total_us p = fold (+) (self_us_by_node p) 0"

section \<open>Subtree time\<close>

text \<open>
  The loop over the work list: the top of the stack is the head of \<open>wk\<close>, \<open>vis\<close> holds the indices whose
  flag is set, \<open>ord\<close> is \<^verbatim>\<open>order\<close>. One step pops an entry.
\<close>

type_synonym dfs_state = "nat list \<times> (int \<times> bool) list \<times> int list"

fun dfs_step :: "profile_data \<Rightarrow> dfs_state \<Rightarrow> dfs_state" where
  "dfs_step p (vis, [], ord) = (vis, [], ord)"
| "dfs_step p (vis, (i, fin) # wk, ord) =
     (let idx = idx_of p i in
      if idx \<ge> length (nodes p) then (vis, wk, ord)
      else if fin then (vis, wk, ord @ [i])
      else if idx \<in> set vis then (vis, wk, ord)
      else (idx # vis, rev (map (\<lambda>c. (c, False)) (children (nodes p ! idx))) @ (i, True) # wk, ord))"

definition dfs_work :: "profile_data \<Rightarrow> nat list \<Rightarrow> nat" where
  "dfs_work p vis = (\<Sum>i\<in>{..<length (nodes p)} - set vis. Suc (length (children (nodes p ! i))))"

lemma dfs_work_visit:
  assumes "idx < length (nodes p)" "idx \<notin> set vis"
  shows "dfs_work p vis = Suc (length (children (nodes p ! idx))) + dfs_work p (idx # vis)"
proof -
  let ?A = "{..<length (nodes p)} - set vis" and ?f = "\<lambda>i. Suc (length (children (nodes p ! i)))"
  have "sum ?f ?A = ?f idx + sum ?f (?A - {idx})" using assms by (intro sum.remove) auto
  moreover have "?A - {idx} = {..<length (nodes p)} - set (idx # vis)" by auto
  ultimately show ?thesis by (simp only: dfs_work_def)
qed

fun dfs_measure :: "profile_data \<Rightarrow> dfs_state \<Rightarrow> nat" where
  "dfs_measure p (vis, wk, ord) = dfs_work p vis + length wk"

lemma dfs_step_decreases: "wk \<noteq> [] \<Longrightarrow> dfs_measure p (dfs_step p (vis, wk, ord)) < dfs_measure p (vis, wk, ord)"
  by (cases wk) (auto simp: dfs_work_visit Let_def not_le)

function dfs :: "profile_data \<Rightarrow> dfs_state \<Rightarrow> int list" where
  "dfs p s = (if fst (snd s) = [] then snd (snd s) else dfs p (dfs_step p s))"
  by pat_completeness auto
termination
  by (relation "measure (\<lambda>(p, s). dfs_measure p s)") (auto intro: dfs_step_decreases)

declare dfs.simps [simp del]

definition post_order :: "profile_data \<Rightarrow> int list" where
  "post_order p = dfs p ([], if nodes p = [] then [] else [(nid (hd (nodes p)), False)], [])"

definition node_total :: "profile_data \<Rightarrow> int list \<Rightarrow> int \<Rightarrow> nat \<Rightarrow> int" where
  "node_total p tot self idx =
     fold (\<lambda>c t. let cidx = idx_of p c in if cidx < length tot then t + tot ! cidx else t)
       (children (nodes p ! idx)) self"

definition total_us_by_node :: "profile_data \<Rightarrow> int list" where
  "total_us_by_node p =
     fold (\<lambda>i tot.
         let idx = idx_of p i
         in if idx \<ge> length (nodes p) then tot
            else tot[idx := node_total p tot (self_us_by_node p ! idx) idx])
       (post_order p) (replicate (length (nodes p)) 0)"

text \<open>A profile of two nodes, for examples.\<close>

definition sample_profile :: profile_data where
  "sample_profile = \<lparr>nodes = [\<lparr>nid = 1, frame = named_frame (ascii ''(root)''), hit_count = 0, children = [2]\<rparr>,
       \<lparr>nid = 2, frame = \<lparr>function_name = ascii ''f'', script_url = ascii ''a.ts'', script_id = 7, line_number = 3,
          column_number = 0\<rparr>, hit_count = 2, children = []\<rparr>],
     samples = [2, 2], time_deltas = [900, 1100], start_time = 5, end_time = 2005, dropped_samples = 0,
     sample_period_us = 1000\<rparr>"

end
