(* ===== verification/Cpu_Report.thy ===== *)
theory Cpu_Report
  imports Cpu_Profile
begin

text \<open>
  The accounting of \<^verbatim>\<open>render_markdown\<close> in \<^verbatim>\<open>src/runner/cpu_profile_merge.cpp\<close> behind its tables: rows per
  function, the walk from a sample to the root, folded stacks, the selection of rows and the text of a row.
  Formatting of times and percentages (\<^verbatim>\<open>snprintf\<close> on \<^verbatim>\<open>double\<close>) is a parameter; the order in which hash maps
  and \<^verbatim>\<open>std::sort\<close> deliver equal rows is open, so tables are written from a given list of rows. A walk runs on
  fuel, \<open>None\<close> when it is used up.
\<close>

section \<open>Rows per function\<close>

record agg =
  agg_function :: bytes
  agg_url :: bytes
  self_us :: int
  agg_total_us :: int
  agg_line :: int
  line_set :: bool

type_synonym key_t = "bytes \<times> bytes"

definition node_key :: "profile_node \<Rightarrow> key_t" where
  "node_key n = (function_name (frame n), script_url (frame n))"

definition new_agg :: agg where
  "new_agg = \<lparr>agg_function = [], agg_url = [], self_us = 0, agg_total_us = 0, agg_line = -1, line_set = False\<rparr>"

definition agg_at :: "(key_t \<Rightarrow> agg option) \<Rightarrow> key_t \<Rightarrow> agg" where
  "agg_at m k = (case m k of Some a \<Rightarrow> a | None \<Rightarrow> new_agg)"

definition note_line :: "int \<Rightarrow> agg \<Rightarrow> agg" where
  "note_line ln a =
     (if ln < 0 then a
      else if \<not> line_set a then a\<lparr>agg_line := ln + 1, line_set := True\<rparr>
      else if agg_line a \<noteq> ln + 1 then a\<lparr>agg_line := -1\<rparr>
      else a)"

definition add_self :: "profile_node \<times> int \<Rightarrow> (key_t \<Rightarrow> agg option) \<Rightarrow> (key_t \<Rightarrow> agg option)" where
  "add_self ns m =
     (case ns of (n, self) \<Rightarrow>
        let k = node_key n;
            a = (agg_at m k)\<lparr>agg_function := fst k, agg_url := snd k\<rparr>;
            a = a\<lparr>self_us := self_us a + self\<rparr>
        in m(k \<mapsto> note_line (line_number (frame n)) a))"

definition self_rows :: "profile_data \<Rightarrow> (key_t \<Rightarrow> agg option)" where
  "self_rows p = fold add_self (zip (nodes p) (self_us_by_node p)) Map.empty"

section \<open>Stacks\<close>

definition parents :: "profile_data \<Rightarrow> int list" where
  "parents p =
     fold (\<lambda>n par. fold (\<lambda>c par.
         let cidx = idx_of p c in if cidx < length par then par[cidx := nid n] else par) (children n) par)
       (nodes p) (replicate (length (nodes p)) 0)"

text \<open>The indices of the nodes a walk from \<open>cur\<close> passes.\<close>

fun walk :: "profile_data \<Rightarrow> int list \<Rightarrow> nat \<Rightarrow> int \<Rightarrow> nat list option" where
  "walk p par 0 cur = None"
| "walk p par (Suc fuel) cur =
     (if cur \<le> 0 then Some []
      else let idx = idx_of p cur in
        if idx \<ge> length (nodes p) then Some []
        else let pid = par ! idx in
          map_option (Cons idx) (if pid = cur then Some [] else walk p par fuel pid))"

definition sample_period :: "profile_data \<Rightarrow> nat \<Rightarrow> int" where
  "sample_period p i =
     (if i < length (time_deltas p) \<and> time_deltas p ! i > 0 then time_deltas p ! i
      else if sample_period_us p > 0 then sample_period_us p else 1000)"

text \<open>One step of the walk over a stack: a key counts at its first occurrence.\<close>

definition count_key ::
  "int \<Rightarrow> key_t \<Rightarrow> key_t list \<times> (key_t \<Rightarrow> agg option) \<Rightarrow> key_t list \<times> (key_t \<Rightarrow> agg option)" where
  "count_key period k s =
     (case s of (seen, m) \<Rightarrow>
        if k \<in> set seen then (seen, m)
        else (k # seen,
              m(k \<mapsto> (agg_at m k)\<lparr>agg_total_us := agg_total_us (agg_at m k) + period\<rparr>)))"

definition count_stack ::
  "profile_data \<Rightarrow> int \<Rightarrow> nat list \<Rightarrow> (key_t \<Rightarrow> agg option) \<Rightarrow> (key_t \<Rightarrow> agg option)" where
  "count_stack p period idxs m =
     snd (fold (count_key period) (map (\<lambda>i. node_key (nodes p ! i)) idxs) ([], m))"

fun total_rows_loop ::
  "profile_data \<Rightarrow> nat \<Rightarrow> nat list \<Rightarrow> (key_t \<Rightarrow> agg option) \<Rightarrow> (key_t \<Rightarrow> agg option) option" where
  "total_rows_loop p fuel [] m = Some m"
| "total_rows_loop p fuel (i # is) m =
     (case walk p (parents p) fuel (samples p ! i) of
        None \<Rightarrow> None
      | Some idxs \<Rightarrow> total_rows_loop p fuel is (count_stack p (sample_period p i) idxs m))"

definition total_rows :: "profile_data \<Rightarrow> nat \<Rightarrow> (key_t \<Rightarrow> agg option) option" where
  "total_rows p fuel = total_rows_loop p fuel [0..<length (samples p)] (self_rows p)"

section \<open>Text of a row\<close>

definition is_synthetic_frame :: "bytes \<Rightarrow> bool" where
  "is_synthetic_frame fn \<longleftrightarrow> length fn \<ge> 2 \<and> hd fn = 40 \<and> last fn = 41"

definition is_native_frame :: "bytes \<Rightarrow> bool" where
  "is_native_frame fn \<longleftrightarrow> starts_with native_tag fn"

definition is_internal_script_url :: "bytes \<Rightarrow> bool" where
  "is_internal_script_url u \<longleftrightarrow> length u \<ge> 2 \<and> hd u = 60 \<and> last u = 62"

definition md_escape :: "bytes \<Rightarrow> bytes" where
  "md_escape s = concat (map (\<lambda>c. if c = 124 then [92, 124] else if c = 10 \<or> c = 13 then [32] else [c]) s)"

definition short_url :: "bytes \<Rightarrow> bytes" where
  "short_url u =
     (if u = [] then [226, 128, 148]
      else case rfind_char 47 u of None \<Rightarrow> u | Some slash \<Rightarrow> drop (slash + 1) u)"

definition file_cell :: "agg \<Rightarrow> bytes" where
  "file_cell r =
     md_escape (short_url (agg_url r)) @
     (if agg_line r > 0 \<and> agg_url r \<noteq> [] then 58 # print_int (agg_line r) else [])"

definition js_rows :: "agg list \<Rightarrow> agg list" where
  "js_rows rows = filter (\<lambda>r. \<not> (is_synthetic_frame (agg_function r) \<or> is_native_frame (agg_function r) \<or>
     agg_url r = [] \<or> is_internal_script_url (agg_url r))) rows"

definition cell_sep :: bytes where
  "cell_sep = [32, 124, 32]"

text \<open>\<^verbatim>\<open>snprintf\<close> into \<^verbatim>\<open>char line[1024]\<close> keeps 1023 bytes, and reads its strings up to a zero byte.\<close>

definition c_str :: "bytes \<Rightarrow> bytes" where
  "c_str s = takeWhile (\<lambda>c. c \<noteq> 0) s"

definition row_text ::
  "(int \<Rightarrow> bytes) \<Rightarrow> (int \<Rightarrow> int \<Rightarrow> bytes) \<Rightarrow> int \<Rightarrow> nat \<Rightarrow> agg \<Rightarrow> bytes" where
  "row_text format_us format_pct acc rank r =
     take 1023 ([124, 32] @ digits rank @ cell_sep @ format_us (self_us r) @ cell_sep @
       format_pct (self_us r) acc @ cell_sep @ format_us (agg_total_us r) @ cell_sep @
       format_pct (agg_total_us r) acc @ cell_sep @ [96] @
       c_str (md_escape (if agg_function r = [] then ascii ''(anonymous)'' else agg_function r)) @ [96] @ cell_sep @
       c_str (file_cell r) @ [32, 124, 10])"

text \<open>The loop of \<^verbatim>\<open>emit_table\<close> over its view: rows without time are skipped, the limit ends the table.\<close>

fun emit_rows ::
  "(nat \<Rightarrow> agg \<Rightarrow> bytes) \<Rightarrow> nat \<Rightarrow> nat \<Rightarrow> agg list \<Rightarrow> bytes list" where
  "emit_rows row limit rank [] = []"
| "emit_rows row limit rank (r # view) =
     (if self_us r = 0 \<and> agg_total_us r = 0 then emit_rows row limit rank view
      else if rank + 1 > limit then []
      else row (rank + 1) r # emit_rows row limit (rank + 1) view)"

definition table_limit :: "int \<Rightarrow> agg list \<Rightarrow> nat" where
  "table_limit top_n view = (if top_n > 0 then nat top_n else length view)"

section \<open>Folded stacks\<close>

record stack_agg =
  stack_frames :: "bytes list"
  weight_us :: int
  hits :: nat

definition is_header :: "bytes \<Rightarrow> bool" where
  "is_header fn \<longleftrightarrow> fn = ascii ''(root)'' \<or> fn = ascii ''(js)'' \<or> fn = ascii ''(native)''"

definition stack_line :: "call_frame \<Rightarrow> bytes" where
  "stack_line f =
     (if function_name f = [] then ascii ''(anonymous)'' else function_name f) @
     (if script_url f \<noteq> [] \<or> line_number f \<ge> 0
      then ascii '' @ '' @ short_url (script_url f) @
        (if line_number f \<ge> 0 then 58 # print_int (line_number f + 1) else [])
      else [])"

text \<open>The walk of at most \<open>hops\<close> frames; headers are skipped and do not count.\<close>

fun fold_stack :: "profile_data \<Rightarrow> int list \<Rightarrow> nat \<Rightarrow> nat \<Rightarrow> int \<Rightarrow> bytes list option" where
  "fold_stack p par 0 hops cur = None"
| "fold_stack p par (Suc fuel) hops cur =
     (if cur \<le> 0 \<or> hops = 0 then Some []
      else let idx = idx_of p cur in
        if idx \<ge> length (nodes p) then Some []
        else
          let f = frame (nodes p ! idx); pid = par ! idx;
              skip = is_header (function_name f);
              hops = (if skip then hops else hops - 1);
              rest = (if pid = cur then Some [] else fold_stack p par fuel hops pid)
          in if skip then rest else map_option (Cons (stack_line f)) rest)"

definition stack_signature :: "bytes list \<Rightarrow> bytes" where
  "stack_signature frames = concat (map (\<lambda>l. l @ [31]) frames)"

definition add_stack ::
  "int \<Rightarrow> bytes list \<Rightarrow> (bytes \<Rightarrow> stack_agg option) \<Rightarrow> (bytes \<Rightarrow> stack_agg option)" where
  "add_stack period frames m =
     (if frames = [] then m
      else let sig = stack_signature frames;
               a = (case m sig of Some a \<Rightarrow> a | None \<Rightarrow> \<lparr>stack_frames = [], weight_us = 0, hits = 0\<rparr>);
               a = (if stack_frames a = [] then a\<lparr>stack_frames := frames\<rparr> else a)
           in m(sig \<mapsto> a\<lparr>weight_us := weight_us a + period, hits := hits a + 1\<rparr>))"

fun hot_stacks_loop ::
  "profile_data \<Rightarrow> nat \<Rightarrow> nat list \<Rightarrow> (bytes \<Rightarrow> stack_agg option) \<Rightarrow> (bytes \<Rightarrow> stack_agg option) option" where
  "hot_stacks_loop p fuel [] m = Some m"
| "hot_stacks_loop p fuel (i # is) m =
     (case fold_stack p (parents p) fuel 8 (samples p ! i) of
        None \<Rightarrow> None
      | Some frames \<Rightarrow> hot_stacks_loop p fuel is (add_stack (sample_period p i) frames m))"

definition hot_stacks :: "profile_data \<Rightarrow> nat \<Rightarrow> (bytes \<Rightarrow> stack_agg option) option" where
  "hot_stacks p fuel = hot_stacks_loop p fuel [0..<length (samples p)] Map.empty"

end
