(* ===== verification/Cpu_Profile_Correct.thy ===== *)
theory Cpu_Profile_Correct
  imports Cpu_Report
begin

text \<open>
  Profiles are trees: what the native sampler builds and what a merge produces is a tree whose ids are
  the numbers up to the number of nodes. The stack read back from a recorded sample is the captured one.
\<close>

section \<open>Trees of nodes\<close>

definition tree_ok :: "profile_node list \<Rightarrow> bool" where
  "tree_ok ns \<longleftrightarrow>
     ns \<noteq> [] \<and> nid (hd ns) = 1 \<and> distinct (map nid ns) \<and>
     set (map nid ns) = {1..int (length ns)} \<and>
     (\<forall>n\<in>set ns. \<forall>c\<in>set (children n). nid n < c) \<and>
     mset (concat (map children ns)) = mset (map nid (tl ns))"

definition profile_ok :: "profile_data \<Rightarrow> bool" where
  "profile_ok p \<longleftrightarrow> tree_ok (nodes p) \<and> set (samples p) \<subseteq> {1..int (length (nodes p))}"

definition shift_node :: "int \<Rightarrow> profile_node \<Rightarrow> profile_node" where
  "shift_node k sn = \<lparr>nid = nid sn + k, frame = frame sn, hit_count = hit_count sn,
     children = map (\<lambda>i. i + k) (children sn)\<rparr>"

lemma shift_node_simps [simp]:
  "nid (shift_node k n) = nid n + k" "frame (shift_node k n) = frame n"
  "children (shift_node k n) = map (\<lambda>i. i + k) (children n)" "hit_count (shift_node k n) = hit_count n"
  by (simp_all add: shift_node_def)

lemma add_child_simps [simp]:
  "nid (add_child c n) = nid n" "frame (add_child c n) = frame n" "hit_count (add_child c n) = hit_count n"
  "children (add_child c n) = children n @ [c]"
  by (simp_all add: add_child_def)

lemma new_node_simps [simp]:
  "nid (new_node i f) = i" "frame (new_node i f) = f" "children (new_node i f) = []" "hit_count (new_node i f) = 0"
  by (simp_all add: new_node_def)

lemma length_push_child [simp]: "length (push_child i c ns) = length ns"
  by (simp add: push_child_def)

lemma nid_push_child [simp]: "i < length ns \<Longrightarrow> map nid (push_child i c ns) = map nid ns"
  by (simp add: push_child_def map_update list_update_same_conv)

lemma nth_push_child: "j < length ns \<Longrightarrow> push_child i c ns ! j = (if j = i then add_child c (ns ! i) else ns ! j)"
  by (simp add: push_child_def nth_list_update)

lemma push_child_append: "i < length ns \<Longrightarrow> push_child i c (ns @ ms) = push_child i c ns @ ms"
  by (simp add: push_child_def list_update_append nth_append)

lemma concat_map_update:
  "i < length ns \<Longrightarrow> g x = g (ns ! i) @ [c] \<Longrightarrow>
    mset (concat (map g (ns[i := x]))) = add_mset c (mset (concat (map g ns)))"
proof (induction ns arbitrary: i)
  case (Cons n ns)
  then show ?case by (cases i) simp_all
qed simp

lemma mset_push_child: "i < length ns \<Longrightarrow>
    mset (concat (map children (push_child i c ns))) = add_mset c (mset (concat (map children ns)))"
  by (simp only: push_child_def concat_map_update add_child_simps)

lemma tree_ok_single: "tree_ok [new_node 1 f]"
  by (simp add: tree_ok_def)

lemma image_shift: "(\<lambda>i. i + k) ` {1..m} = {k + 1..k + m}" for k m :: int
  using image_add_atLeastAtMost'[of k 1 m] by (simp add: add.commute)

text \<open>A tree hung under a node of another one, with its ids moved up.\<close>

lemma tree_ok_graft:
  assumes "tree_ok ns" "tree_ok ms" "h < length ns"
  shows "tree_ok (push_child h (int (length ns) + 1) (ns @ map (shift_node (int (length ns))) ms))"
    (is "tree_ok (push_child h ?c (ns @ ?ms))")
proof -
  let ?k = "int (length ns)"
  have h: "h < length (ns @ ?ms)" using assms(3) by simp
  note ns = assms(1)[unfolded tree_ok_def] and ms = assms(2)[unfolded tree_ok_def]
  have ids: "map nid (push_child h ?c (ns @ ?ms)) = map nid ns @ map (\<lambda>i. i + ?k) (map nid ms)"
    using h by (simp add: comp_def)
  have shifted: "set (map (\<lambda>i. i + ?k) (map nid ms)) = {?k + 1..?k + int (length ms)}"
    using ms image_shift[of ?k "int (length ms)"] by (metis (no_types, lifting) list.set_map)
  have "distinct (map (\<lambda>i. i + ?k) (map nid ms))"
    using ms by (simp only: distinct_map) (simp add: inj_on_def)
  then have "distinct (map nid (push_child h ?c (ns @ ?ms)))"
    unfolding ids using ns shifted by (simp only: distinct_append) auto
  moreover have "set (map nid (push_child h ?c (ns @ ?ms))) = {1..int (length ns + length ms)}"
    unfolding ids set_append shifted using ns by auto
  moreover have "nid (hd (push_child h ?c (ns @ ?ms))) = 1" "push_child h ?c (ns @ ?ms) \<noteq> []"
  proof -
    show ne: "push_child h ?c (ns @ ?ms) \<noteq> []" using h by (metis length_push_child list.size(3) not_less0)
    have "nid (hd (push_child h ?c (ns @ ?ms))) = hd (map nid (push_child h ?c (ns @ ?ms)))"
      using ne by (simp add: hd_map)
    then show "nid (hd (push_child h ?c (ns @ ?ms))) = 1" unfolding ids using ns by (simp add: hd_append hd_map)
  qed
  moreover have "\<forall>n\<in>set (push_child h ?c (ns @ ?ms)). \<forall>c\<in>set (children n). nid n < c"
  proof -
    have base: "\<forall>n\<in>set (ns @ ?ms). \<forall>c\<in>set (children n). nid n < c" using ns ms by auto
    have "nid (ns ! h) \<in> {1..?k}" using ns assms(3) by (metis list.set_map nth_map nth_mem length_map)
    then have "\<forall>c\<in>set (children (add_child ?c ((ns @ ?ms) ! h))). nid ((ns @ ?ms) ! h) < c"
      using base assms(3) by (auto simp: nth_append)
    then show ?thesis using base unfolding push_child_def by (auto dest!: set_update_subset_insert[THEN subsetD])
  qed
  moreover have "mset (concat (map children (push_child h ?c (ns @ ?ms)))) =
      mset (map nid (tl (push_child h ?c (ns @ ?ms))))"
  proof -
    have tails: "map nid (tl (push_child h ?c (ns @ ?ms))) =
        map nid (tl ns) @ (1 + ?k) # map (\<lambda>i. i + ?k) (map nid (tl ms))"
    proof -
      have "map nid (tl (push_child h ?c (ns @ ?ms))) = tl (map nid ns @ map (\<lambda>i. i + ?k) (map nid ms))"
        by (simp only: map_tl ids)
      moreover have "ns \<noteq> []" using ns by blast
      moreover have "ms \<noteq> []" "nid (hd ms) = 1" using ms by blast+
      ultimately show ?thesis by (cases ns; cases ms) simp_all
    qed
    have "concat (map children ?ms) = map (\<lambda>i. i + ?k) (concat (map children ms))"
      by (simp add: map_concat comp_def)
    then have new: "mset (concat (map children ?ms)) = mset (map (\<lambda>i. i + ?k) (map nid (tl ms)))"
      using ms by (metis mset_map)
    have old: "mset (concat (map children ns)) = mset (map nid (tl ns))" using ns by blast
    show ?thesis
      unfolding mset_push_child[OF h] tails map_append concat_append mset_append new old mset.simps
      by (simp only: add.commute[of 1 ?k] union_mset_add_mset_right)
  qed
  ultimately show ?thesis by (simp add: tree_ok_def)
qed

lemma tree_ok_attach:
  assumes "tree_ok ns" "h < length ns"
  shows "tree_ok (push_child h (int (length ns) + 1) (ns @ [new_node (int (length ns) + 1) f]))"
  using tree_ok_graft[OF assms(1) tree_ok_single assms(2), of f]
  by (simp add: shift_node_def new_node_def add.commute)

lemma sample_profile_ok: "profile_ok sample_profile"
proof -
  have "{1..2::int} = {1, 2}" by auto
  then show ?thesis by (simp add: profile_ok_def tree_ok_def sample_profile_def)
qed

section \<open>Looking up nodes and parents\<close>

lemma tree_okD:
  assumes "tree_ok ns"
  shows "ns \<noteq> []" "nid (hd ns) = 1" "distinct (map nid ns)" "set (map nid ns) = {1..int (length ns)}"
    "n \<in> set ns \<Longrightarrow> c \<in> set (children n) \<Longrightarrow> nid n < c"
    "mset (concat (map children ns)) = mset (map nid (tl ns))"
  using assms unfolding tree_ok_def by blast+

lemma tree_ok_ids: "tree_ok ns \<Longrightarrow> n \<in> set ns \<Longrightarrow> 1 \<le> nid n \<and> nid n \<le> int (length ns)"
  using tree_okD(4)[of ns] by (metis atLeastAtMost_iff image_eqI list.set_map)

lemma tree_ok_child:
  assumes "tree_ok ns" "n \<in> set ns" "c \<in> set (children n)"
  shows "1 < c" "c \<le> int (length ns)" "c \<in> set (map nid ns)"
proof -
  show "1 < c" using tree_okD(5)[OF assms(1-3)] tree_ok_ids[OF assms(1,2)] by simp
  have "c \<in> set (concat (map children ns))" using assms(2,3) by auto
  then have "c \<in> set (map nid (tl ns))" using tree_okD(6)[OF assms(1)] by (metis mset_eq_setD)
  then show "c \<in> set (map nid ns)" using list.set_sel(2)[OF tree_okD(1)[OF assms(1)]] by auto
  then show "c \<le> int (length ns)" using tree_okD(4)[OF assms(1)] by simp
qed

lemma idx_of_nth:
  assumes "distinct (map nid (nodes p))" "i < length (nodes p)"
  shows "idx_of p (nid (nodes p ! i)) = i"
proof -
  let ?P = "\<lambda>n. nid n \<noteq> nid (nodes p ! i)"
  have "takeWhile ?P (nodes p) = take i (nodes p)"
  proof (rule takeWhile_eq_take_P_nth)
    fix j assume "j < i" "j < length (nodes p)"
    then show "?P (nodes p ! j)" using assms nth_eq_iff_index_eq[OF assms(1), of j i] by simp
  qed simp
  then show ?thesis using assms(2) by (simp add: idx_of_def)
qed

lemma idx_of_less: "idx_of p i < length (nodes p) \<longleftrightarrow> i \<in> set (map nid (nodes p))"
proof
  assume "idx_of p i < length (nodes p)"
  from nth_length_takeWhile[OF this[unfolded idx_of_def]] nth_mem[OF this[unfolded idx_of_def]]
  show "i \<in> set (map nid (nodes p))" by force
next
  assume "i \<in> set (map nid (nodes p))"
  moreover have "i \<in> set (map nid ns) \<Longrightarrow> length (takeWhile (\<lambda>n. nid n \<noteq> i) ns) < length ns" for ns
    by (induction ns) auto
  ultimately show "idx_of p i < length (nodes p)" by (simp only: idx_of_def)
qed

lemma nid_idx_of: "i \<in> set (map nid (nodes p)) \<Longrightarrow> nid (nodes p ! idx_of p i) = i"
  using nth_length_takeWhile[of "\<lambda>n. nid n \<noteq> i" "nodes p"] idx_of_less[of p i] by (simp add: idx_of_def)

lemma idx_of_inj:
  "i \<in> set (map nid (nodes p)) \<Longrightarrow> j \<in> set (map nid (nodes p)) \<Longrightarrow> idx_of p i = idx_of p j \<longleftrightarrow> i = j"
  by (metis nid_idx_of)

definition edges :: "profile_node list \<Rightarrow> (int \<times> int) list" where
  "edges ns = concat (map (\<lambda>n. map (Pair (nid n)) (children n)) ns)"

definition set_parent :: "profile_data \<Rightarrow> int \<times> int \<Rightarrow> int list \<Rightarrow> int list" where
  "set_parent p e par = (let cidx = idx_of p (snd e) in if cidx < length par then par[cidx := fst e] else par)"

lemma parents_edges: "parents p = fold (set_parent p) (edges (nodes p)) (replicate (length (nodes p)) 0)"
proof -
  have inner: "(\<lambda>c par. let cidx = idx_of p c in if cidx < length par then par[cidx := q] else par) =
      (\<lambda>c. set_parent p (q, c))" for q
    by (intro ext) (simp only: set_parent_def fst_conv snd_conv)
  have "fold (\<lambda>n par. fold (\<lambda>c. set_parent p (nid n, c)) (children n) par) ns par = fold (set_parent p) (edges ns) par"
    for ns par
    by (induction ns arbitrary: par) (simp_all add: edges_def fold_map comp_def)
  then show ?thesis unfolding parents_def inner .
qed

lemma snd_edges: "map snd (edges ns) = concat (map children ns)"
  by (simp add: edges_def map_concat comp_def)

lemma edges_iff: "(q, c) \<in> set (edges ns) \<longleftrightarrow> (\<exists>n\<in>set ns. nid n = q \<and> c \<in> set (children n))"
  by (auto simp: edges_def)

lemma length_set_parents [simp]: "length (fold (set_parent p) es par) = length par"
  by (induction es arbitrary: par) (simp_all add: set_parent_def Let_def)

lemma set_parents_other:
  assumes "c \<notin> set (map snd es)" "c \<in> set (map nid (nodes p))" "set (map snd es) \<subseteq> set (map nid (nodes p))"
  shows "fold (set_parent p) es par ! idx_of p c = par ! idx_of p c"
  using assms(1,3)
proof (induction es arbitrary: par)
  case (Cons e es)
  then have "idx_of p c \<noteq> idx_of p (snd e)" using assms(2) by (subst idx_of_inj) auto
  then show ?case using Cons by (auto simp: set_parent_def Let_def)
qed simp

lemma set_parents_edge:
  assumes "(q, c) \<in> set es" "distinct (map snd es)" "set (map snd es) \<subseteq> set (map nid (nodes p))"
    and "length par = length (nodes p)"
  shows "fold (set_parent p) es par ! idx_of p c = q"
  using assms
proof (induction es arbitrary: par)
  case (Cons e es)
  have c: "c \<in> set (map nid (nodes p))" using Cons.prems(1,3) by force
  show ?case
  proof (cases "(q, c) = e")
    case True
    then have "c \<notin> set (map snd es)" using Cons.prems(2) by (cases e) auto
    moreover have "set (map snd es) \<subseteq> set (map nid (nodes p))" using Cons.prems(3) by simp
    moreover have "set_parent p e par ! idx_of p c = q"
      using True[symmetric] c Cons.prems(4) idx_of_less[of p c] by (simp add: set_parent_def)
    ultimately show ?thesis using set_parents_other[OF _ c, of es "set_parent p e par"] by simp
  next
    case False
    have "length (set_parent p e par) = length (nodes p)" using Cons.prems(4) by (simp add: set_parent_def Let_def)
    then show ?thesis
      using Cons.IH[of "set_parent p e par"] Cons.prems False by (auto simp: image_iff)
  qed
qed simp

lemma edges_tree:
  assumes "tree_ok ns"
  shows "distinct (map snd (edges ns))" "set (map snd (edges ns)) = set (map nid ns) - {1}"
proof -
  have ns: "ns = hd ns # tl ns" using tree_okD(1)[OF assms] by simp
  have dist: "distinct (1 # map nid (tl ns))"
    using tree_okD(2,3)[OF assms] ns by (metis list.simps(9))
  have eq: "mset (map snd (edges ns)) = mset (map nid (tl ns))" using tree_okD(6)[OF assms] by (simp only: snd_edges)
  then show "distinct (map snd (edges ns))" using dist by (metis distinct.simps(2) mset_eq_imp_distinct_iff)
  have "set (map snd (edges ns)) = set (map nid (tl ns))" using eq by (rule mset_eq_setD)
  moreover have "set (map nid ns) = insert 1 (set (map nid (tl ns)))"
    using ns tree_okD(2)[OF assms] by (metis list.set(2) list.simps(9))
  ultimately show "set (map snd (edges ns)) = set (map nid ns) - {1}" using dist by auto
qed

lemma parents_tree:
  assumes "tree_ok (nodes p)"
  shows "(q, c) \<in> set (edges (nodes p)) \<Longrightarrow> parents p ! idx_of p c = q" "parents p ! idx_of p 1 = 0"
    "length (parents p) = length (nodes p)"
proof -
  note e = edges_tree[OF assms]
  show "(q, c) \<in> set (edges (nodes p)) \<Longrightarrow> parents p ! idx_of p c = q"
    unfolding parents_edges using e by (intro set_parents_edge) auto
  have one: "1 \<in> set (map nid (nodes p))"
    using tree_okD(1,4)[OF assms] by (cases "nodes p") auto
  then have "idx_of p 1 < length (nodes p)" by (simp only: idx_of_less)
  moreover have "1 \<notin> set (map snd (edges (nodes p)))" "set (map snd (edges (nodes p))) \<subseteq> set (map nid (nodes p))"
    unfolding e(2) by blast+
  ultimately show "parents p ! idx_of p 1 = 0"
    unfolding parents_edges using set_parents_other[OF _ one] by (metis nth_replicate)
  show "length (parents p) = length (nodes p)" by (simp add: parents_edges)
qed

section \<open>Stacks of a tree\<close>

text \<open>The frames from a node to the root, as the edges of the tree give them.\<close>

inductive path :: "profile_node list \<Rightarrow> int \<Rightarrow> call_frame list \<Rightarrow> bool" for ns where
  path_root: "ns \<noteq> [] \<Longrightarrow> path ns 1 [frame (hd ns)]"
| path_step: "path ns q fs \<Longrightarrow> (q, nid m) \<in> set (edges ns) \<Longrightarrow> m \<in> set ns \<Longrightarrow> path ns (nid m) (frame m # fs)"

text \<open>The frames the report's walk passes.\<close>

definition stack_of :: "profile_data \<Rightarrow> int \<Rightarrow> call_frame list option" where
  "stack_of p cur =
     map_option (map (\<lambda>i. frame (nodes p ! i))) (walk p (parents p) (Suc (length (nodes p))) cur)"

lemma edges_less:
  assumes "tree_ok ns" "(q, c) \<in> set (edges ns)"
  shows "1 \<le> q" "q < c" "c \<le> int (length ns)"
  using assms tree_okD(5)[OF assms(1)] tree_ok_ids[OF assms(1)] tree_ok_child[OF assms(1)]
  by (auto simp: edges_iff)

lemma edges_append [simp]: "edges (xs @ ys) = edges xs @ edges ys"
  by (simp add: edges_def)

lemma edges_shift: "edges (map (shift_node k) ns) = map (\<lambda>(q, c). (q + k, c + k)) (edges ns)"
  by (induction ns) (simp_all add: edges_def comp_def)

lemma edges_update:
  "i < length ns \<Longrightarrow> set (edges (ns[i := add_child c (ns ! i)])) = insert (nid (ns ! i), c) (set (edges ns))"
proof (induction ns arbitrary: i)
  case (Cons n ns)
  then show ?case by (cases i) (auto simp: edges_def)
qed simp

lemma edges_push_child:
  "i < length ns \<Longrightarrow> set (edges (push_child i c ns)) = insert (nid (ns ! i), c) (set (edges ns))"
  by (simp only: push_child_def edges_update)

lemma walk_path:
  assumes "tree_ok (nodes p)" "path (nodes p) c fs" "nat c < fuel"
  shows "map_option (map (\<lambda>i. frame (nodes p ! i))) (walk p (parents p) fuel c) = Some fs"
  using assms(2,3)
proof (induction arbitrary: fuel)
  case path_root
  then have f': "fuel = Suc (Suc (fuel - 2))" by simp
  have zero: "idx_of p 1 = 0"
    using idx_of_nth[of p 0] tree_okD(1-3)[OF assms(1)] by (simp add: hd_conv_nth)
  then have "parents p ! 0 = 0" using parents_tree(2)[OF assms(1)] by simp
  then show ?case using path_root.hyps by (subst f') (simp add: zero hd_conv_nth Let_def)
next
  case (path_step q fs m)
  then obtain f' where f': "fuel = Suc f'" by (cases fuel) simp_all
  note less = edges_less[OF assms(1) path_step.hyps(2)]
  have ids: "nid m \<in> set (map nid (nodes p))" using path_step.hyps(3) by simp
  have "idx_of p (nid m) < length (nodes p)" using ids by (simp only: idx_of_less)
  moreover have "nodes p ! idx_of p (nid m) = m"
    using idx_of_nth[OF tree_okD(3)[OF assms(1)]] path_step.hyps(3) by (metis in_set_conv_nth)
  moreover have "parents p ! idx_of p (nid m) = q" by (rule parents_tree(1)[OF assms(1) path_step.hyps(2)])
  moreover have "map_option (map (\<lambda>i. frame (nodes p ! i))) (walk p (parents p) f' q) = Some fs"
    using less path_step.prems f' by (intro path_step.IH) simp
  ultimately show ?case using f' less by (auto simp: Let_def)
qed

lemma path_ids:
  assumes "tree_ok ns" "path ns c fs"
  shows "1 \<le> c" "c \<le> int (length ns)"
proof -
  have "1 \<le> c \<and> c \<le> int (length ns)"
    using assms(2)
  proof cases
    case path_root
    then show ?thesis by (cases ns) simp_all
  next
    case (path_step q fs m)
    then show ?thesis using tree_ok_ids[OF assms(1)] by blast
  qed
  then show "1 \<le> c" "c \<le> int (length ns)" by blast+
qed

lemma stack_of_path: "tree_ok (nodes p) \<Longrightarrow> path (nodes p) c fs \<Longrightarrow> stack_of p c = Some fs"
  unfolding stack_of_def using path_ids(2)[of "nodes p" c fs] by (intro walk_path) (simp_all add: nat_le_iff less_Suc_eq_le)

lemma path_exists:
  assumes "tree_ok ns" "1 \<le> c" "c \<le> int (length ns)"
  shows "\<exists>fs. path ns c fs"
  using assms(2,3)
proof (induction "nat c" arbitrary: c rule: less_induct)
  case less
  show ?case
  proof (cases "c = 1")
    case True
    then show ?thesis using path_root[OF tree_okD(1)[OF assms(1)]] by blast
  next
    case False
    have "c \<in> set (map nid ns)" using less.prems tree_okD(4)[OF assms(1)] by simp
    then have "c \<in> set (map snd (edges ns))" using False edges_tree(2)[OF assms(1)] by simp
    then obtain q where q: "(q, c) \<in> set (edges ns)" by auto
    note l = edges_less[OF assms(1) q]
    then have "nat q < nat c" "1 \<le> q" "q \<le> int (length ns)" by auto
    then obtain fs where "path ns q fs" using less.hyps by blast
    moreover obtain m where "m \<in> set ns" "nid m = c" using \<open>c \<in> set (map nid ns)\<close> by auto
    ultimately show ?thesis using path_step q by metis
  qed
qed

text \<open>A path stays a path when the tree grows, and when the tree becomes a subtree.\<close>

lemma path_grow:
  assumes "path ns c fs" "set (edges ns) \<subseteq> set (edges ms)"
    and "\<And>n. n \<in> set ns \<Longrightarrow> \<exists>m\<in>set ms. nid m = nid n \<and> frame m = frame n"
    and "ms \<noteq> []" "frame (hd ms) = frame (hd ns)"
  shows "path ms c fs"
  using assms(1)
proof induction
  case path_root
  then show ?case using path.path_root[OF assms(4)] assms(5) by simp
next
  case (path_step q fs m)
  then show ?case using path.path_step[of ms q fs] assms(2,3) by (metis subsetD)
qed

lemma path_graft:
  assumes "path ms c fs" "(h, 1 + k) \<in> set (edges G)" "path G h base"
    and "\<And>q c. (q, c) \<in> set (edges ms) \<Longrightarrow> (q + k, c + k) \<in> set (edges G)"
    and "\<And>n. n \<in> set ms \<Longrightarrow> \<exists>m\<in>set G. nid m = nid n + k \<and> frame m = frame n"
    and "nid (hd ms) = 1"
  shows "path G (c + k) (fs @ base)"
  using assms(1)
proof induction
  case path_root
  then obtain m where "m \<in> set G" "nid m = 1 + k" "frame m = frame (hd ms)"
    using assms(5)[of "hd ms"] assms(6) by auto
  then show ?case using path.path_step[OF assms(3), of m] assms(2) by simp
next
  case (path_step q fs m)
  obtain m' where m': "m' \<in> set G" "nid m' = nid m + k" "frame m' = frame m"
    using assms(5) path_step.hyps(3) by blast
  have "(q + k, nid m') \<in> set (edges G)" using assms(4)[OF path_step.hyps(2)] m'(2) by simp
  then show ?case using path.path_step[OF path_step.IH _ m'(1)] m' by simp
qed

lemma push_child_frames:
  assumes "i < length xs" "n \<in> set xs"
  shows "\<exists>m\<in>set (push_child i c xs). nid m = nid n \<and> frame m = frame n"
proof -
  obtain j where "j < length xs" "n = xs ! j" using assms(2) by (metis in_set_conv_nth)
  then show ?thesis using nth_push_child[of j xs i c] nth_mem[of j "push_child i c xs"]
    by (metis add_child_simps(1,2) length_push_child)
qed

lemma hd_push_child: "xs \<noteq> [] \<Longrightarrow> frame (hd (push_child i c xs)) = frame (hd xs)"
  by (cases xs; cases i) (simp_all add: push_child_def)

text \<open>Both at once for \<open>tree_ok_graft\<close>.\<close>

lemma graft_paths:
  assumes "tree_ok ns" "tree_ok ms" "h < length ns"
  defines "G \<equiv> push_child h (int (length ns) + 1) (ns @ map (shift_node (int (length ns))) ms)"
  shows "path ns c fs \<Longrightarrow> path G c fs"
    and "path ms d gs \<Longrightarrow> path ns (nid (ns ! h)) base \<Longrightarrow> path G (d + int (length ns)) (gs @ base)"
proof -
  let ?k = "int (length ns)" and ?X = "ns @ map (shift_node (int (length ns))) ms"
  have h: "h < length ?X" using assms(3) by simp
  have ne: "ns \<noteq> []" using tree_okD(1)[OF assms(1)] .
  have G: "set (edges G) = insert (nid (ns ! h), ?k + 1) (set (edges ?X))"
    unfolding G_def edges_push_child[OF h] using assms(3) by (simp add: nth_append)
  have nodes: "n \<in> set ?X \<Longrightarrow> \<exists>m\<in>set G. nid m = nid n \<and> frame m = frame n" for n
    unfolding G_def by (rule push_child_frames[OF h])
  have G_ne: "G \<noteq> []" unfolding G_def using h by (metis length_push_child list.size(3) not_less0)
  have G_hd: "frame (hd G) = frame (hd ns)" unfolding G_def using ne by (subst hd_push_child) simp_all
  have old: "path G c fs" if "path ns c fs" for c fs
    by (rule path_grow[OF that]) (use G nodes G_ne G_hd in auto)
  then show "path ns c fs \<Longrightarrow> path G c fs" .
  assume gs: "path ms d gs" "path ns (nid (ns ! h)) base"
  show "path G (d + ?k) (gs @ base)"
  proof (rule path_graft[OF gs(1) _ old[OF gs(2)]])
    show "(nid (ns ! h), 1 + ?k) \<in> set (edges G)" using G by (simp add: add.commute)
    show "nid (hd ms) = 1" by (rule tree_okD(2)[OF assms(2)])
    show "(q + ?k, c + ?k) \<in> set (edges G)" if "(q, c) \<in> set (edges ms)" for q c
      using that G by (force simp: edges_shift)
    show "\<exists>m\<in>set G. nid m = nid n + ?k \<and> frame m = frame n" if "n \<in> set ms" for n
      using that nodes[of "shift_node ?k n"] by simp
  qed
qed

lemma attach_paths:
  fixes f :: call_frame
  assumes "tree_ok ns" "h < length ns"
  defines "G \<equiv> push_child h (int (length ns) + 1) (ns @ [new_node (int (length ns) + 1) f])"
  shows "path ns c fs \<Longrightarrow> path G c fs"
    and "path ns (nid (ns ! h)) base \<Longrightarrow> path G (int (length ns) + 1) (f # base)"
proof -
  have eq: "[new_node (int (length ns) + 1) f] = map (shift_node (int (length ns))) [new_node 1 f]"
    by (simp add: shift_node_def new_node_def add.commute)
  show "path ns c fs \<Longrightarrow> path G c fs"
    unfolding G_def eq by (rule graft_paths(1)[OF assms(1) tree_ok_single assms(2)])
  assume "path ns (nid (ns ! h)) base"
  from graft_paths(2)[OF assms(1) tree_ok_single assms(2) _ this, of f 1 "[f]"] path_root[of "[new_node 1 f]"]
  show "path G (int (length ns) + 1) (f # base)" unfolding G_def eq by (simp add: add.commute)
qed

end
