(* ===== verification/Cpu_Merge.thy ===== *)
theory Cpu_Merge
  imports Cpu_Profile_Correct
begin

text \<open>
  The profile the native sampler builds and the profile a merge produces: both are trees, the stack read
  back from a sample is the captured one, and nothing is lost in the merge.
\<close>

section \<open>The native sampler\<close>

text \<open>What two frames must share to become one node.\<close>

definition frame_label :: "call_frame \<Rightarrow> bytes" where
  "frame_label f = function_name f @ [124] @ script_url f"

definition path_labels :: "profile_node list \<Rightarrow> int \<Rightarrow> bytes list \<Rightarrow> bool" where
  "path_labels ns c ls \<longleftrightarrow> (\<exists>fs. path ns c fs \<and> map frame_label fs = ls)"

definition grows :: "profile_node list \<Rightarrow> profile_node list \<Rightarrow> bool" where
  "grows ns ms \<longleftrightarrow> length ns \<le> length ms \<and> (\<forall>c fs. path ns c fs \<longrightarrow> path ms c fs)"

lemma grows_refl [intro!, simp]: "grows ns ns"
  by (simp add: grows_def)

lemma grows_trans [trans]: "grows ns ms \<Longrightarrow> grows ms os \<Longrightarrow> grows ns os"
  by (auto simp: grows_def)

lemma grows_labels: "grows ns ms \<Longrightarrow> path_labels ns c ls \<Longrightarrow> path_labels ms c ls"
  by (auto simp: grows_def path_labels_def)

lemma no_bar_print_int: "124 \<notin> set (print_int i)"
proof -
  have "124 \<notin> set (digits n)" for n
    using digits_ok(2)[of n] by (auto simp: list_all_iff is_digit_def word_le_nat_alt)
  then show ?thesis by (simp add: print_int_def)
qed

lemma child_key_label: "child_key q f = print_int q @ 124 # frame_label f"
  by (simp add: child_key_def frame_label_def)

lemma digits_inj: "digits m = digits n \<Longrightarrow> m = n"
  by (metis digits_ok(3))

lemma child_key_inj:
  assumes "child_key q f = child_key r g" "0 \<le> q" "0 \<le> r"
  shows "q = r" "frame_label f = frame_label g"
proof -
  have "print_int q = print_int r"
    using assms(1) no_bar_print_int before_append unfolding child_key_label by metis
  then have "nat q = nat r" using assms(2,3) by (intro digits_inj) (simp add: print_int_def)
  then show "q = r" using assms(2,3) by simp
  show "frame_label f = frame_label g"
    using assms(1) no_bar_print_int after_append unfolding child_key_label by metis
qed

definition builder_ok :: "('pc \<Rightarrow> call_frame) \<Rightarrow> 'pc builder \<Rightarrow> bool" where
  "builder_ok res b \<longleftrightarrow>
     tree_ok (nodes (tree b)) \<and> map nid (nodes (tree b)) = [1..int (length (nodes (tree b)))] \<and>
     (\<forall>k c. child_index b k = Some c \<longrightarrow> (\<exists>q n. k = child_key q (frame n) \<and>
        n \<in> set (nodes (tree b)) \<and> nid n = c \<and> (q, c) \<in> set (edges (nodes (tree b))))) \<and>
     (\<forall>pc cf. sym_cache b pc = Some cf \<longrightarrow> cf = res pc)"

lemma cached_frame_res:
  assumes "builder_ok res b"
  shows "fst (cached_frame res pc b) = res pc" "builder_ok res (snd (cached_frame res pc b))"
    "tree (snd (cached_frame res pc b)) = tree b"
proof -
  have hit: "sym_cache b pc = Some cf \<Longrightarrow> cf = res pc" for cf using assms by (simp add: builder_ok_def)
  then show "fst (cached_frame res pc b) = res pc" by (auto simp: cached_frame_def split: option.split)
  show "builder_ok res (snd (cached_frame res pc b))"
    using assms by (auto simp: cached_frame_def builder_ok_def split: option.split)
  show "tree (snd (cached_frame res pc b)) = tree b"
    by (auto simp: cached_frame_def split: option.split)
qed

lemma nth_of_ids:
  assumes "map nid ns = [1..int (length ns)]" "i < length ns"
  shows "nid (ns ! i) = int i + 1"
proof -
  have "nid (ns ! i) = map nid ns ! i" using assms(2) by simp
  also have "\<dots> = 1 + int i" unfolding assms(1) using assms(2) by (intro nth_upto) simp
  finally show ?thesis by simp
qed

lemma get_child_ok:
  assumes b: "builder_ok res b" and ls: "path_labels (nodes (tree b)) q ls" and g: "get_child q f b = (c, b')"
  shows "builder_ok res b'" "grows (nodes (tree b)) (nodes (tree b'))"
    "path_labels (nodes (tree b')) c (frame_label f # ls)" "tree b' = (tree b)\<lparr>nodes := nodes (tree b')\<rparr>"
proof -
  let ?ns = "nodes (tree b)" and ?k = "child_key q f"
  have ok: "tree_ok ?ns" and ids: "map nid ?ns = [1..int (length ?ns)]"
    and idx: "\<And>k c. child_index b k = Some c \<Longrightarrow> \<exists>q n. k = child_key q (frame n) \<and>
        n \<in> set ?ns \<and> nid n = c \<and> (q, c) \<in> set (edges ?ns)"
    and cache: "\<And>pc cf. sym_cache b pc = Some cf \<Longrightarrow> cf = res pc"
    using b unfolding builder_ok_def by blast+
  obtain fs where fs: "path ?ns q fs" "map frame_label fs = ls" using ls unfolding path_labels_def by blast
  note q = path_ids[OF ok fs(1)]
  have "builder_ok res b' \<and> grows ?ns (nodes (tree b')) \<and> path_labels (nodes (tree b')) c (frame_label f # ls) \<and>
      tree b' = (tree b)\<lparr>nodes := nodes (tree b')\<rparr>"
  proof (cases "child_index b ?k")
    case (Some d)
    then have b': "c = d" "b' = b" using g by (simp_all add: get_child_def)
    obtain r n where r: "?k = child_key r (frame n)" "n \<in> set ?ns" "nid n = c" "(r, c) \<in> set (edges ?ns)"
      using idx[OF Some] b'(1) by blast
    have same: "q = r" "frame_label f = frame_label (frame n)"
      using child_key_inj[OF r(1)] q(1) edges_less(1)[OF ok r(4)] by auto
    have "path ?ns c (frame n # fs)" using path_step[OF fs(1), of n] r same by simp
    then show ?thesis
      using b' b same(2) fs(2) by (auto simp: path_labels_def intro!: exI[of _ "frame n # fs"])
  next
    case None
    let ?c = "int (length ?ns) + 1"
    let ?ms = "push_child (nat (q - 1)) ?c (?ns @ [new_node ?c f])"
    have b': "c = ?c" "b' = b\<lparr>tree := (tree b)\<lparr>nodes := ?ms\<rparr>, child_index := (child_index b)(?k \<mapsto> ?c)\<rparr>"
      using g None by (auto simp: get_child_def Let_def)
    have h: "nat (q - 1) < length ?ns" using q by linarith
    have "nid (?ns ! nat (q - 1)) = q" using nth_of_ids[OF ids h] q by simp
    note par = this
    have edges: "set (edges ?ms) = insert (q, ?c) (set (edges ?ns))"
      using h par by (simp add: edges_push_child nth_append) (simp add: edges_def)
    have ids': "map nid ?ms = [1..int (length ?ms)]"
    proof -
      have "map nid ?ms = [1..int (length ?ns)] @ [?c]" using h by (simp add: ids)
      also have "\<dots> = [1..?c]" using upto_rec2[of 1 ?c] by simp
      finally show ?thesis by (simp add: add.commute)
    qed
    have keep: "n \<in> set ?ns \<Longrightarrow> \<exists>m\<in>set ?ms. nid m = nid n \<and> frame m = frame n" for n
      using h by (intro push_child_frames) simp_all
    have new: "\<exists>m\<in>set ?ms. nid m = ?c \<and> frame m = f"
      using push_child_frames[of "nat (q - 1)" "?ns @ [new_node ?c f]" "new_node ?c f" ?c] h by simp
    have idx': "\<exists>r n. k = child_key r (frame n) \<and> n \<in> set ?ms \<and> nid n = d \<and> (r, d) \<in> set (edges ?ms)"
      if "((child_index b)(?k \<mapsto> ?c)) k = Some d" for k d
    proof (cases "k = ?k")
      case True
      then show ?thesis using that new edges by auto
    next
      case False
      then obtain r n where r: "k = child_key r (frame n)" "n \<in> set ?ns" "nid n = d" "(r, d) \<in> set (edges ?ns)"
        using idx[of k d] \<open>_ = Some d\<close> by auto
      then obtain m where "m \<in> set ?ms" "nid m = nid n" "frame m = frame n" using keep by blast
      then show ?thesis using r edges by (intro exI[of _ r] exI[of _ m]) simp
    qed
    have "builder_ok res b'"
      unfolding builder_ok_def b'(2) using tree_ok_attach[OF ok h] ids' idx' cache by simp
    moreover have "grows ?ns ?ms" using attach_paths(1)[OF ok h] by (simp add: grows_def)
    moreover have "path ?ms ?c (f # fs)" using attach_paths(2)[OF ok h] fs(1) par by simp
    ultimately show ?thesis
      using fs(2) unfolding b' by (auto simp: path_labels_def intro!: exI[of _ "f # fs"])
  qed
  then show "builder_ok res b'" "grows ?ns (nodes (tree b'))"
    "path_labels (nodes (tree b')) c (frame_label f # ls)" "tree b' = (tree b)\<lparr>nodes := nodes (tree b')\<rparr>"
    by blast+
qed

lemma nodes_only_trans:
  "q = p\<lparr>nodes := nodes q\<rparr> \<Longrightarrow> r = q\<lparr>nodes := nodes r\<rparr> \<Longrightarrow> r = p\<lparr>nodes := nodes r\<rparr>"
  for p q r :: profile_data
  by (cases p; cases q; cases r) simp

lemma add_path_ok:
  assumes "builder_ok res b" "path_labels (nodes (tree b)) cur ls" "add_path res cur pcs b = (c, b')"
  shows "builder_ok res b' \<and> grows (nodes (tree b)) (nodes (tree b')) \<and>
    path_labels (nodes (tree b')) c (rev (map (\<lambda>pc. frame_label (res pc)) pcs) @ ls) \<and>
    tree b' = (tree b)\<lparr>nodes := nodes (tree b')\<rparr>"
  using assms
proof (induction res cur pcs b arbitrary: ls rule: add_path.induct)
  case (2 res cur pc pcs b)
  note cached = cached_frame_res[OF "2.prems"(1), of pc]
  obtain b1 where b1: "cached_frame res pc b = (res pc, b1)" using cached(1) by (metis prod.collapse)
  obtain d b2 where b2: "get_child cur (res pc) b1 = (d, b2)" by fastforce
  have "builder_ok res b1" "nodes (tree b1) = nodes (tree b)" "tree b1 = tree b" using cached b1 by simp_all
  note got = get_child_ok[OF this(1) _ b2, unfolded this(2), OF "2.prems"(2)] and t = this(3)
  have "add_path res d pcs b2 = (c, b')" using "2.prems"(3) by (simp add: b1 b2)
  from "2.IH"[OF b1[symmetric] refl b2[symmetric] refl got(1,3) this] show ?case
    using got(2) nodes_only_trans[OF got(4)[unfolded t]] by (auto intro: grows_trans)
qed auto

text \<open>Hit counts play no part in the shape of a tree.\<close>

lemma bump_hit_simps [simp]:
  "length (bump_hit i ns) = length ns" "map nid (bump_hit i ns) = map nid ns"
  "map frame (bump_hit i ns) = map frame ns" "map children (bump_hit i ns) = map children ns"
proof -
  have "map g (bump_hit i ns) = map g ns" if "\<And>n h. g (n\<lparr>hit_count := h\<rparr>) = g n" for g :: "profile_node \<Rightarrow> 'x"
    by (cases "i < length ns") (simp_all add: bump_hit_def map_update that list_update_same_conv list_update_beyond)
  note g = this
  show "map nid (bump_hit i ns) = map nid ns" "map frame (bump_hit i ns) = map frame ns"
    "map children (bump_hit i ns) = map children ns" by (rule g; simp)+
qed (simp add: bump_hit_def)

lemma bump_hit_nth:
  "j < length ns \<Longrightarrow> nid (bump_hit i ns ! j) = nid (ns ! j) \<and> frame (bump_hit i ns ! j) = frame (ns ! j) \<and>
    children (bump_hit i ns ! j) = children (ns ! j)"
  by (cases "j = i") (simp_all add: bump_hit_def)

lemma bump_hit_in: "n \<in> set ns \<Longrightarrow> \<exists>m\<in>set (bump_hit i ns). nid m = nid n \<and> frame m = frame n \<and> children m = children n"
  using bump_hit_nth[of _ ns i] by (metis bump_hit_simps(1) in_set_conv_nth)

lemma bump_hit_out: "m \<in> set (bump_hit i ns) \<Longrightarrow> \<exists>n\<in>set ns. nid n = nid m \<and> frame n = frame m \<and> children n = children m"
  using bump_hit_nth[of _ ns i] by (metis bump_hit_simps(1) in_set_conv_nth)

lemma edges_bump_hit [simp]: "set (edges (bump_hit i ns)) = set (edges ns)"
  using bump_hit_in[of _ ns i] bump_hit_out[of _ i ns] by (fastforce simp: edges_iff)

lemma bump_hit_ok:
  assumes "builder_ok res b"
  shows "builder_ok res (b\<lparr>tree := p\<lparr>nodes := bump_hit i (nodes (tree b))\<rparr>\<rparr>)"
    "grows (nodes (tree b)) (bump_hit i (nodes (tree b)))"
proof -
  let ?ns = "nodes (tree b)"
  have ok: "tree_ok ?ns" using assms by (simp add: builder_ok_def)
  have ne: "bump_hit i ?ns \<noteq> []" using tree_okD(1)[OF ok] by (metis bump_hit_simps(1) length_0_conv)
  have hd: "nid (hd (bump_hit i ?ns)) = nid (hd ?ns)" "frame (hd (bump_hit i ?ns)) = frame (hd ?ns)"
    using ne tree_okD(1)[OF ok] bump_hit_nth[of 0 ?ns i] by (simp_all add: hd_conv_nth)
  have "map nid (tl (bump_hit i ?ns)) = map nid (tl ?ns)" by (simp only: map_tl bump_hit_simps)
  moreover have "\<forall>n\<in>set (bump_hit i ?ns). \<forall>c\<in>set (children n). nid n < c"
    using bump_hit_out[of _ i ?ns] tree_okD(5)[OF ok] by metis
  ultimately have "tree_ok (bump_hit i ?ns)"
    using tree_okD(2-4,6)[OF ok] ne hd unfolding tree_ok_def by simp
  moreover have "\<exists>q n. k = child_key q (frame n) \<and> n \<in> set (bump_hit i ?ns) \<and> nid n = c \<and> (q, c) \<in> set (edges ?ns)"
    if "child_index b k = Some c" for k c
    using assms that bump_hit_in[of _ ?ns i] unfolding builder_ok_def by metis
  ultimately show "builder_ok res (b\<lparr>tree := p\<lparr>nodes := bump_hit i ?ns\<rparr>\<rparr>)"
    using assms by (auto simp: builder_ok_def)
  have "path (bump_hit i ?ns) c fs" if "path ?ns c fs" for c fs
    using that bump_hit_in[of _ ?ns i] ne hd(2) by (elim path_grow) (simp_all, metis)
  then show "grows ?ns (bump_hit i ?ns)" by (simp add: grows_def)
qed

definition slot_labels :: "('pc \<Rightarrow> call_frame) \<Rightarrow> 'pc slot \<Rightarrow> bytes list" where
  "slot_labels res slot =
     map (\<lambda>pc. frame_label (res pc)) (drop handler_skip (snd slot)) @
     [frame_label (named_frame (ascii ''(native root)''))]"

definition kept_slots :: "'pc slot list \<Rightarrow> 'pc slot list" where
  "kept_slots slots = filter (\<lambda>slot. handler_skip < length (snd slot)) slots"

definition builder_holds :: "('pc \<Rightarrow> call_frame) \<Rightarrow> int \<Rightarrow> 'pc slot list \<Rightarrow> 'pc builder \<Rightarrow> bool" where
  "builder_holds res period slots b \<longleftrightarrow>
     builder_ok res b \<and> path_labels (nodes (tree b)) 1 [frame_label (named_frame (ascii ''(native root)''))] \<and>
     list_all2 (\<lambda>c slot. path_labels (nodes (tree b)) c (slot_labels res slot)) (samples (tree b)) slots \<and>
     time_deltas (tree b) = replicate (length slots) period \<and> sample_period_us (tree b) = period"

lemma add_slot_holds:
  assumes "builder_holds res period slots b"
  shows "builder_holds res period (slots @ kept_slots [slot]) (add_slot res (i, slot) b)"
proof (cases "length (snd slot) \<le> handler_skip")
  case True
  then show ?thesis using assms by (cases slot) (simp add: add_slot_def kept_slots_def)
next
  case False
  obtain t pcs where slot: "slot = (t, pcs)" by fastforce
  note b = assms[unfolded builder_holds_def]
  obtain c b1 where b1: "add_path res 1 (rev (drop handler_skip pcs)) b = (c, b1)" by fastforce
  from b add_path_ok[OF _ _ b1] have a: "builder_ok res b1" "grows (nodes (tree b)) (nodes (tree b1))"
    "path_labels (nodes (tree b1)) c (slot_labels res slot)" "tree b1 = (tree b)\<lparr>nodes := nodes (tree b1)\<rparr>"
    by (fastforce simp: slot_labels_def slot rev_map)+
  let ?b = "add_slot res (i, slot) b"
  let ?ns = "bump_hit (nat (c - 1)) (nodes (tree b1))"
  have keep: "samples (tree b1) = samples (tree b)" "time_deltas (tree b1) = time_deltas (tree b)"
    "sample_period_us (tree b1) = sample_period_us (tree b)"
    by (subst a(4), simp)+
  have res: "tree ?b = (tree b1)\<lparr>nodes := ?ns, samples := samples (tree b) @ [c],
      time_deltas := time_deltas (tree b) @ [period],
      start_time := (if i = 0 then int t else start_time (tree b1)), end_time := int t\<rparr>"
    "?b = b1\<lparr>tree := (tree ?b)\<lparr>nodes := ?ns\<rparr>\<rparr>"
    using False b keep by (simp_all add: add_slot_def slot b1 Let_def)
  have "builder_ok res ?b" by (subst res(2)) (rule bump_hit_ok(1)[OF a(1)])
  moreover have g: "grows (nodes (tree b)) (nodes (tree ?b))" "grows (nodes (tree b1)) (nodes (tree ?b))"
    using bump_hit_ok(2)[OF a(1)] a(2) grows_trans by (auto simp: res(1))
  moreover have "list_all2 (\<lambda>c slot. path_labels (nodes (tree ?b)) c (slot_labels res slot)) (samples (tree b)) slots"
    using b by (auto intro: list_all2_mono grows_labels[OF g(1)])
  ultimately show ?thesis
    using False b a(3) grows_labels res(1) keep
    by (auto simp: builder_holds_def kept_slots_def replicate_append_same intro!: list_all2_appendI)
qed

lemma add_slots_hold:
  assumes "builder_holds res period done b"
  shows "builder_holds res period (done @ kept_slots slots) (fold (add_slot res) (enumerate i slots) b)"
  using assms
proof (induction slots arbitrary: "done" b i)
  case Nil
  then show ?case by (simp add: kept_slots_def)
next
  case (Cons slot slots)
  have "kept_slots (slot # slots) = kept_slots [slot] @ kept_slots slots" by (simp add: kept_slots_def)
  then show ?case using Cons.IH[OF add_slot_holds[OF Cons.prems, of slot i], of "Suc i"] by simp
qed

lemma builder_holds_init:
  "builder_holds res (sample_period_us (native_root dropped hz)) []
     \<lparr>tree = native_root dropped hz, child_index = Map.empty, sym_cache = Map.empty\<rparr>"
  using path_root[of "[new_node 1 (named_frame (ascii ''(native root)''))]"]
  by (auto simp: builder_holds_def builder_ok_def native_root_def empty_profile_def tree_ok_single path_labels_def)

lemma build_native_holds:
  "\<exists>b. tree b = build_native res dropped hz slots \<and>
     builder_holds res (sample_period_us (native_root dropped hz)) (kept_slots slots) b"
  using add_slots_hold[OF builder_holds_init, of res dropped hz slots 0] unfolding build_native_def by auto

lemma native_samples:
  "list_all2 (\<lambda>c slot. path_labels (nodes (build_native res dropped hz slots)) c (slot_labels res slot))
     (samples (build_native res dropped hz slots)) (kept_slots slots)"
  "tree_ok (nodes (build_native res dropped hz slots))"
  "time_deltas (build_native res dropped hz slots) =
     replicate (length (kept_slots slots)) (sample_period_us (build_native res dropped hz slots))"
  using build_native_holds[of res dropped hz slots] by (auto simp: builder_holds_def builder_ok_def)

lemma native_profile_ok: "profile_ok (build_native res dropped hz slots)"
proof -
  note n = native_samples[of res dropped hz slots]
  have "1 \<le> c \<and> c \<le> int (length (nodes (build_native res dropped hz slots)))"
    if "c \<in> set (samples (build_native res dropped hz slots))" for c
    using that n(1) path_ids[OF n(2)] unfolding path_labels_def list_all2_conv_all_nth in_set_conv_nth by metis
  then show ?thesis using n(2) by (auto simp: profile_ok_def)
qed

text \<open>C13: The native profile is a tree, and the stack read back from each recorded sample consists of the captured
  frames without the two of the signal handler, innermost first, and the root; frames count by name and
  image. Slots with no other frames give no sample.\<close>

theorem native_stacks_recovered:
  "let p = build_native (resolve symbol hex) dropped hz slots in
     profile_ok p \<and>
     map (\<lambda>s. map_option (map frame_label) (stack_of p s)) (samples p) =
       map (\<lambda>slot. Some (slot_labels (resolve symbol hex) slot)) (kept_slots slots) \<and>
     time_deltas p = replicate (length (kept_slots slots)) (sample_period_us p)"
proof -
  let ?p = "build_native (resolve symbol hex) dropped hz slots"
  note n = native_samples[of "resolve symbol hex" dropped hz slots]
  have "map_option (map frame_label) (stack_of ?p c) = Some ls" if "path_labels (nodes ?p) c ls" for c ls
    using that stack_of_path[OF n(2)] by (auto simp: path_labels_def)
  then have "list_all2 (\<lambda>s slot. map_option (map frame_label) (stack_of ?p s) =
      Some (slot_labels (resolve symbol hex) slot)) (samples ?p) (kept_slots slots)"
    using n(1) by (auto intro: list_all2_mono)
  then have "map (\<lambda>s. map_option (map frame_label) (stack_of ?p s)) (samples ?p) =
      map (\<lambda>slot. Some (slot_labels (resolve symbol hex) slot)) (kept_slots slots)"
    by (simp add: list_eq_iff_nth_eq list_all2_conv_all_nth)
  then show ?thesis using native_profile_ok n(3) by (simp only: Let_def simp_thms)
qed

section \<open>The merge\<close>

text \<open>A side of the merge is a tree, or the empty profile of a side that was not recorded.\<close>

definition mergeable :: "profile_data \<Rightarrow> bool" where
  "mergeable p \<longleftrightarrow> profile_ok p \<or> nodes p = [] \<and> samples p = []"

definition flat_period :: "profile_data \<Rightarrow> int" where
  "flat_period p = (if sample_period_us p > 0 then sample_period_us p else 1000)"

lemma hits_push_child [simp]: "i < length ns \<Longrightarrow> map hit_count (push_child i c ns) = map hit_count ns"
  by (simp add: push_child_def map_update list_update_same_conv)

text \<open>The nodes after the header of a subtree is appended.\<close>

definition with_header :: "bytes \<Rightarrow> profile_node list \<Rightarrow> profile_node list" where
  "with_header label ns =
     push_child 0 (int (length ns) + 1) (ns @ [new_node (int (length ns) + 1) (named_frame label)])"

lemma with_header_simps [simp]: "length (with_header label ns) = Suc (length ns)"
  by (simp add: with_header_def)

lemma with_header_ok:
  assumes "tree_ok ns"
  shows "tree_ok (with_header label ns)" "map hit_count (with_header label ns) = map hit_count ns @ [0]"
    "frame (hd (with_header label ns)) = frame (hd ns)" "path ns c fs \<Longrightarrow> path (with_header label ns) c fs"
    "nid (with_header label ns ! length ns) = int (length ns) + 1"
    "path (with_header label ns) (int (length ns) + 1) [named_frame label, frame (hd ns)]"
proof -
  have ne: "0 < length ns" "ns \<noteq> []" "ns ! 0 = hd ns" using tree_okD(1)[OF assms] by (auto simp: hd_conv_nth)
  show "tree_ok (with_header label ns)" unfolding with_header_def by (rule tree_ok_attach[OF assms ne(1)])
  show "map hit_count (with_header label ns) = map hit_count ns @ [0]" by (simp add: with_header_def)
  show "frame (hd (with_header label ns)) = frame (hd ns)"
    unfolding with_header_def using ne by (subst hd_push_child) simp_all
  show "path ns c fs \<Longrightarrow> path (with_header label ns) c fs"
    unfolding with_header_def by (rule attach_paths(1)[OF assms ne(1)])
  show "nid (with_header label ns ! length ns) = int (length ns) + 1"
    using ne by (simp add: with_header_def nth_push_child)
  have "path ns (nid (ns ! 0)) [frame (hd ns)]" using path_root[OF ne(2)] ne(3) tree_okD(2)[OF assms] by simp
  then show "path (with_header label ns) (int (length ns) + 1) [named_frame label, frame (hd ns)]"
    unfolding with_header_def by (rule attach_paths(2)[OF assms ne(1)])
qed

lemma append_subtree_empty:
  "nodes src = [] \<Longrightarrow> nodes (append_subtree src label out) = with_header label (nodes out)"
  by (simp add: append_subtree_def with_header_def Let_def)

lemma append_subtree_graft:
  assumes "tree_ok (nodes src)"
  shows "nodes (append_subtree src label out) =
    push_child (length (nodes out)) (int (length (with_header label (nodes out))) + 1)
      (with_header label (nodes out) @ map (shift_node (int (length (with_header label (nodes out))))) (nodes src))"
  using tree_okD(1,2)[OF assms]
  by (simp add: append_subtree_def with_header_def shift_node_def [abs_def] Let_def add.commute)

lemma append_subtree_graft_nodes:
  fixes label :: bytes
  assumes out: "tree_ok (nodes out)" and src: "tree_ok (nodes src)"
  defines "ms \<equiv> nodes (append_subtree src label out)"
  shows "tree_ok ms" "map hit_count ms = map hit_count (nodes out) @ 0 # map hit_count (nodes src)"
    "frame (hd ms) = frame (hd (nodes out))" "path (nodes out) c fs \<Longrightarrow> path ms c fs"
    "path (nodes src) d gs \<Longrightarrow>
      path ms (d + (int (length (nodes out)) + 1)) (gs @ [named_frame label, frame (hd (nodes out))])"
proof -
  let ?ns = "nodes out"
  note hs = with_header_ok[OF out, where label = label]
  have last: "length ?ns < length (with_header label ?ns)" by simp
  note ms = ms_def append_subtree_graft[OF src]
  have k: "int (length (with_header label ?ns)) = int (length ?ns) + 1" by simp
  show "tree_ok ms" unfolding ms by (rule tree_ok_graft[OF hs(1) src last])
  show "map hit_count ms = map hit_count ?ns @ 0 # map hit_count (nodes src)"
    unfolding ms using hs(2) by (simp add: comp_def)
  have "with_header label ?ns \<noteq> []" using last by (metis list.size(3) not_less_zero)
  then show "frame (hd ms) = frame (hd ?ns)"
    unfolding ms using hs(3) by (subst hd_push_child) (simp_all add: hd_append)
  show "path ?ns c fs \<Longrightarrow> path ms c fs" unfolding ms by (rule graft_paths(1)[OF hs(1) src last hs(4)])
  show "path (nodes src) d gs \<Longrightarrow> path ms (d + (int (length ?ns) + 1)) (gs @ [named_frame label, frame (hd ?ns)])"
    unfolding ms k[symmetric] by (rule graft_paths(2)[OF hs(1) src last]) (use hs(5,6) in simp_all)
qed

lemma append_subtree_nodes:
  fixes label :: bytes
  assumes out: "tree_ok (nodes out)" and src: "nodes src = [] \<or> tree_ok (nodes src)"
  defines "ms \<equiv> nodes (append_subtree src label out)"
  shows "tree_ok ms" "map hit_count ms = map hit_count (nodes out) @ 0 # map hit_count (nodes src)"
    "frame (hd ms) = frame (hd (nodes out))" "path (nodes out) c fs \<Longrightarrow> path ms c fs"
    "path (nodes src) d gs \<Longrightarrow>
      path ms (d + (int (length (nodes out)) + 1)) (gs @ [named_frame label, frame (hd (nodes out))])"
proof -
  let ?P = "tree_ok ms \<and> map hit_count ms = map hit_count (nodes out) @ 0 # map hit_count (nodes src) \<and>
    frame (hd ms) = frame (hd (nodes out)) \<and> (path (nodes out) c fs \<longrightarrow> path ms c fs) \<and>
    (path (nodes src) d gs \<longrightarrow>
      path ms (d + (int (length (nodes out)) + 1)) (gs @ [named_frame label, frame (hd (nodes out))]))"
  have ?P using src
  proof
    assume "nodes src = []"
    moreover have "\<not> path [] d gs" by (auto elim: path.cases simp: edges_def)
    ultimately show ?P unfolding ms_def using with_header_ok[OF out, where label = label] by (simp add: append_subtree_empty)
  next
    assume "tree_ok (nodes src)"
    from append_subtree_graft_nodes[OF out this, where label = label] show ?P unfolding ms_def by blast
  qed
  then show "tree_ok ms" "map hit_count ms = map hit_count (nodes out) @ 0 # map hit_count (nodes src)"
    "frame (hd ms) = frame (hd (nodes out))" "path (nodes out) c fs \<Longrightarrow> path ms c fs"
    "path (nodes src) d gs \<Longrightarrow>
      path ms (d + (int (length (nodes out)) + 1)) (gs @ [named_frame label, frame (hd (nodes out))])" by blast+
qed

lemma append_subtree_samples:
  assumes "mergeable src"
  shows "samples (append_subtree src label out) =
      samples out @ map (\<lambda>i. i + (int (length (nodes out)) + 1)) (samples src)"
    "time_deltas (append_subtree src label out) =
      time_deltas out @ replicate (length (samples src)) (flat_period src)"
  using assms tree_okD(1)
  by (auto simp: mergeable_def profile_ok_def append_subtree_def Let_def flat_period_def map_replicate_const)

lemma merge_shape:
  fixes js native :: profile_data
  defines "out0 \<equiv> empty_profile\<lparr>nodes := [new_node 1 (named_frame (ascii ''(root)''))]\<rparr>"
  defines "out1 \<equiv> append_subtree js (ascii ''(js)'') out0"
  defines "out2 \<equiv> append_subtree native (ascii ''(native)'') out1"
  shows "nodes (merge_profiles js native) = nodes out2" "samples (merge_profiles js native) = samples out2"
    "time_deltas (merge_profiles js native) = time_deltas out2" "start_time (merge_profiles js native) = 0"
    "end_time (merge_profiles js native) = sum_list (time_deltas out2)"
  by (simp_all add: merge_profiles_def Let_def out0_def out1_def out2_def fold_plus_sum_list_rev)

lemma mergeableD:
  assumes "mergeable p"
  shows "nodes p = [] \<or> tree_ok (nodes p)" "nodes p = [] \<Longrightarrow> samples p = []"
    "s \<in> set (samples p) \<Longrightarrow> \<exists>fs. path (nodes p) s fs \<and> stack_of p s = Some fs"
proof -
  show "nodes p = [] \<or> tree_ok (nodes p)" "nodes p = [] \<Longrightarrow> samples p = []"
    using assms tree_okD(1) by (auto simp: mergeable_def profile_ok_def)
  assume "s \<in> set (samples p)"
  then have "tree_ok (nodes p)" "1 \<le> s" "s \<le> int (length (nodes p))"
    using assms by (auto simp: mergeable_def profile_ok_def)
  then show "\<exists>fs. path (nodes p) s fs \<and> stack_of p s = Some fs" using path_exists stack_of_path by blast
qed

lemma moved_stack:
  assumes "mergeable src" "tree_ok (nodes m)" "s \<in> set (samples src)"
    and "\<And>d gs. path (nodes src) d gs \<Longrightarrow> path (nodes m) (d + k) (gs @ base)"
  shows "stack_of m (s + k) = map_option (\<lambda>fs. fs @ base) (stack_of src s)"
    "s + k \<in> {1..int (length (nodes m))}"
proof -
  obtain fs where fs: "path (nodes src) s fs" "stack_of src s = Some fs" using mergeableD(3)[OF assms(1,3)] by blast
  have p: "path (nodes m) (s + k) (fs @ base)" by (rule assms(4)[OF fs(1)])
  show "stack_of m (s + k) = map_option (\<lambda>fs. fs @ base) (stack_of src s)"
    using stack_of_path[OF assms(2) p] fs(2) by simp
  show "s + k \<in> {1..int (length (nodes m))}" using path_ids[OF assms(2) p] by simp
qed

text \<open>C14: A merge of two profiles, each a tree or absent, is a tree again. Every sample of either side is in it, in
  order, with the stack it had and below it the header of its side and the root; hit counts are kept, every
  sample weighs its side's period, and the time line ends at the sum of the weights.\<close>

theorem merge_keeps_stacks:
  assumes "mergeable js" "mergeable native"
  shows "let m = merge_profiles js native in
     profile_ok m \<and>
     map hit_count (nodes m) = [0, 0] @ map hit_count (nodes js) @ [0] @ map hit_count (nodes native) \<and>
     map (stack_of m) (samples m) =
       map (\<lambda>s. map_option (\<lambda>fs. fs @ [named_frame (ascii ''(js)''), named_frame (ascii ''(root)'')]) (stack_of js s))
         (samples js) @
       map (\<lambda>s. map_option (\<lambda>fs. fs @ [named_frame (ascii ''(native)''), named_frame (ascii ''(root)'')])
         (stack_of native s)) (samples native) \<and>
     time_deltas m = replicate (length (samples js)) (flat_period js) @
       replicate (length (samples native)) (flat_period native) \<and>
     end_time m - start_time m = sum_list (time_deltas m)"
proof -
  let ?root = "named_frame (ascii ''(root)'')"
  define out0 where "out0 = empty_profile\<lparr>nodes := [new_node 1 ?root]\<rparr>"
  define out1 where "out1 = append_subtree js (ascii ''(js)'') out0"
  define m where "m = merge_profiles js native"
  note js = mergeableD[OF assms(1)] and nat = mergeableD[OF assms(2)]
  have o0: "tree_ok (nodes out0)" "samples out0 = []" "time_deltas out0 = []" "hd (nodes out0) = new_node 1 ?root"
    by (simp_all add: out0_def empty_profile_def tree_ok_single)
  note t1 = append_subtree_nodes[OF o0(1) js(1), where label = "ascii ''(js)''", folded out1_def]
  note t2 = append_subtree_nodes[OF t1(1) nat(1), where label = "ascii ''(native)''"]
  note s1 = append_subtree_samples[where src = js and out = out0 and label = "ascii ''(js)''", OF assms(1), folded out1_def]
  note s2 = append_subtree_samples[where src = native and out = out1 and label = "ascii ''(native)''", OF assms(2)]
  note sh = merge_shape[of js native, folded out0_def, folded out1_def, folded m_def]
  have m: "tree_ok (nodes m)" unfolding sh(1) by (rule t2(1))
  note js_stack = moved_stack[OF assms(1) m, where k = "int (length (nodes out0)) + 1"
      and base = "[named_frame (ascii ''(js)''), ?root]"]
  note nat_stack = moved_stack[OF assms(2) m, where k = "int (length (nodes out1)) + 1"
      and base = "[named_frame (ascii ''(native)''), ?root]"]
  have js_path: "path (nodes js) d gs \<Longrightarrow>
      path (nodes m) (d + (int (length (nodes out0)) + 1)) (gs @ [named_frame (ascii ''(js)''), ?root])" for d gs
    unfolding sh(1) using t2(4)[OF t1(5)] o0(4) by simp
  have nat_path: "path (nodes native) d gs \<Longrightarrow>
      path (nodes m) (d + (int (length (nodes out1)) + 1)) (gs @ [named_frame (ascii ''(native)''), ?root])" for d gs
    unfolding sh(1) using t2(5) t1(3) o0(4) by simp
  have samples: "samples m = map (\<lambda>i. i + (int (length (nodes out0)) + 1)) (samples js) @
      map (\<lambda>i. i + (int (length (nodes out1)) + 1)) (samples native)"
    unfolding sh(2) s2(1) s1(1) o0(2) by simp
  have "set (samples m) \<subseteq> {1..int (length (nodes m))}"
    using js_stack(2)[OF _ js_path] nat_stack(2)[OF _ nat_path] unfolding samples by auto
  then have "profile_ok m" using m by (simp add: profile_ok_def)
  moreover have "map hit_count (nodes m) = [0, 0] @ map hit_count (nodes js) @ [0] @ map hit_count (nodes native)"
    unfolding sh(1) t2(2) t1(2) by (simp add: out0_def)
  moreover have "time_deltas m = replicate (length (samples js)) (flat_period js) @
       replicate (length (samples native)) (flat_period native)"
    unfolding sh(3) s2(2) s1(2) o0(3) by simp
  moreover have "end_time m - start_time m = sum_list (time_deltas m)" unfolding sh(3-5) by simp
  ultimately show ?thesis
    unfolding m_def[symmetric] Let_def using js_stack(1)[OF _ js_path] nat_stack(1)[OF _ nat_path] by (simp add: samples)
qed

text \<open>A sample of three frames under the two of the handler, merged with the example.\<close>

definition sample_native :: profile_data where
  "sample_native = build_native (resolve (\<lambda>pc. ([97 + of_nat pc], [108])) (\<lambda>_. [])) 1 500 [(40, [9, 8, 2, 1, 0::nat])]"

lemma sample_slots_kept: "length (kept_slots [(40, [9, 8, 2, 1, 0::nat])]) = 1"
  by (simp add: kept_slots_def handler_skip_def)

theorem merge_keeps_stacks_witness:
  "profile_ok (merge_profiles sample_profile sample_native) \<and>
   time_deltas (merge_profiles sample_profile sample_native) = [1000, 1000, flat_period sample_native] \<and>
   take 4 (map hit_count (nodes (merge_profiles sample_profile sample_native))) = [0, 0, 0, 2]"
proof -
  have "mergeable sample_profile" "mergeable sample_native"
    unfolding mergeable_def sample_native_def using sample_profile_ok native_profile_ok by blast+
  note m = merge_keeps_stacks[OF this, unfolded Let_def]
  have "map hit_count (nodes sample_profile) = [0, 2]"
    "replicate (length (samples sample_profile)) (flat_period sample_profile) = [1000, 1000]"
    by (simp_all add: sample_profile_def flat_period_def numeral_2_eq_2)
  moreover have "length (samples sample_native) = 1"
    unfolding sample_native_def using list_all2_lengthD[OF native_samples(1)]
    by (metis (no_types, lifting) sample_slots_kept)
  ultimately show ?thesis using m by simp
qed

end
