(* ===== verification/Cpu_Time.thy ===== *)
theory Cpu_Time
  imports Cpu_Profile_Correct
begin

text \<open>
  The time a report gives to the nodes of a tree: the post-order of the work list, the subtree totals computed
  along it, and their equality with the totals counted sample by sample along the stacks.
\<close>

section \<open>The post-order\<close>

definition kids :: "profile_data \<Rightarrow> int \<Rightarrow> int list" where
  "kids p i = children (nodes p ! idx_of p i)"

definition node_ids :: "profile_data \<Rightarrow> int set" where
  "node_ids p = set (map nid (nodes p))"

lemma kids_props:
  assumes "tree_ok (nodes p)" "i \<in> node_ids p" "c \<in> set (kids p i)"
  shows "i < c" "c \<in> node_ids p" "(i, c) \<in> set (edges (nodes p))"
proof -
  have n: "nodes p ! idx_of p i \<in> set (nodes p)" "nid (nodes p ! idx_of p i) = i"
    using assms(2) idx_of_less nid_idx_of by (auto simp: node_ids_def simp del: set_map)
  show "(i, c) \<in> set (edges (nodes p))" using n assms(3) by (auto simp: edges_iff kids_def)
  then show "i < c" by (rule edges_less(2)[OF assms(1)])
  show "c \<in> node_ids p" using tree_ok_child(3)[OF assms(1) n(1)] assms(3) by (simp add: node_ids_def kids_def)
qed

lemma kids_edge:
  assumes "tree_ok (nodes p)"
  shows "(q, c) \<in> set (edges (nodes p)) \<longleftrightarrow> q \<in> node_ids p \<and> c \<in> set (kids p q)"
proof
  assume "(q, c) \<in> set (edges (nodes p))"
  then obtain n where n: "n \<in> set (nodes p)" "nid n = q" "c \<in> set (children n)" by (auto simp: edges_iff)
  then have "nodes p ! idx_of p q = n"
    using idx_of_nth[OF tree_okD(3)[OF assms]] by (metis in_set_conv_nth)
  moreover have "q \<in> node_ids p" using n(1,2) by (auto simp: node_ids_def)
  ultimately show "q \<in> node_ids p \<and> c \<in> set (kids p q)" using n(3) by (simp add: kids_def)
qed (use kids_props(3)[OF assms] in blast)

text \<open>Below an entry that waits for its children, everything above it on the stack and in the order counts.\<close>

fun stack_ok :: "profile_data \<Rightarrow> int set \<Rightarrow> (int \<times> bool) list \<Rightarrow> bool" where
  "stack_ok p A [] \<longleftrightarrow> True"
| "stack_ok p A ((i, fin) # wk) \<longleftrightarrow> (fin \<longrightarrow> set (kids p i) \<subseteq> A) \<and> stack_ok p (insert i A) wk"

lemma stack_ok_mono: "stack_ok p A wk \<Longrightarrow> A \<subseteq> B \<Longrightarrow> stack_ok p B wk"
proof (induction wk arbitrary: A B)
  case (Cons e wk)
  then show ?case by (cases e) (auto elim!: Cons.IH)
qed simp

lemma stack_ok_pending: "stack_ok p A (map (\<lambda>c. (c, False)) cs @ wk) \<longleftrightarrow> stack_ok p (set cs \<union> A) wk"
  by (induction cs arbitrary: A) simp_all

definition children_first :: "profile_data \<Rightarrow> int list \<Rightarrow> bool" where
  "children_first p ord \<longleftrightarrow> (\<forall>ys i zs. ord = ys @ i # zs \<longrightarrow> set (kids p i) \<subseteq> set ys)"

lemma children_first_Nil [simp]: "children_first p []"
  by (simp add: children_first_def)

lemma children_first_snoc: "children_first p (ord @ [i]) \<longleftrightarrow> children_first p ord \<and> set (kids p i) \<subseteq> set ord"
proof
  assume cf: "children_first p (ord @ [i])"
  then have "set (kids p i) \<subseteq> set ord" unfolding children_first_def by blast
  moreover have "set (kids p j) \<subseteq> set ys" if "ord = ys @ j # zs" for ys j zs
    using cf that unfolding children_first_def by (metis append.assoc append_Cons)
  ultimately show "children_first p ord \<and> set (kids p i) \<subseteq> set ord" by (simp add: children_first_def)
next
  assume cf: "children_first p ord \<and> set (kids p i) \<subseteq> set ord"
  show "children_first p (ord @ [i])"
    unfolding children_first_def
  proof (intro allI impI)
    fix ys j zs assume "ord @ [i] = ys @ j # zs"
    then show "set (kids p j) \<subseteq> set ys"
      using cf by (cases zs rule: rev_cases) (auto simp: children_first_def)
  qed
qed

definition open_ids :: "(int \<times> bool) list \<Rightarrow> int list" where
  "open_ids wk = map fst (filter snd wk)"

lemma open_ids_simps [simp]:
  "open_ids [] = []" "open_ids ((i, True) # wk) = i # open_ids wk" "open_ids ((i, False) # wk) = open_ids wk"
  "open_ids (map (\<lambda>c. (c, False)) cs @ wk) = open_ids wk"
  by (simp_all add: open_ids_def)

fun dfs_inv :: "profile_data \<Rightarrow> dfs_state \<Rightarrow> bool" where
  "dfs_inv p (vis, wk, ord) \<longleftrightarrow>
     fst ` set wk \<subseteq> node_ids p \<and> sorted_wrt (\<lambda>x y. snd y \<longrightarrow> fst y < fst x) wk \<and>
     stack_ok p (set ord) wk \<and> set vis = idx_of p ` set (ord @ open_ids wk) \<and>
     distinct (ord @ open_ids wk) \<and> set (ord @ open_ids wk) \<subseteq> node_ids p \<and>
     children_first p ord \<and> 1 \<in> set ord \<union> fst ` set wk"

lemma idx_of_ids: "i \<in> node_ids p \<Longrightarrow> idx_of p i < length (nodes p)"
  unfolding node_ids_def by (simp only: idx_of_less)

lemma vis_iff:
  assumes "i \<in> node_ids p" "set xs \<subseteq> node_ids p"
  shows "idx_of p i \<in> idx_of p ` set xs \<longleftrightarrow> i \<in> set xs"
  using assms idx_of_inj[of i p] unfolding node_ids_def by blast

lemma dfs_step_inv:
  assumes t: "tree_ok (nodes p)" and inv: "dfs_inv p (vis, (i, fin) # wk, ord)"
  shows "dfs_inv p (dfs_step p (vis, (i, fin) # wk, ord))"
proof -
  have i: "i \<in> node_ids p" using inv by simp
  note idx = idx_of_ids[OF i]
  consider (close) "fin" | (seen) "\<not> fin" "idx_of p i \<in> set vis" | (fresh) "\<not> fin" "idx_of p i \<notin> set vis" by blast
  then show ?thesis
  proof cases
    case close
    then show ?thesis using inv idx by (auto simp: children_first_snoc)
  next
    case seen
    have "set (ord @ open_ids wk) \<subseteq> node_ids p" using inv seen(1) by simp
    then have "i \<in> set (ord @ open_ids wk)" using vis_iff[OF i] inv seen by (cases fin) auto
    moreover have "i \<notin> set (open_ids wk)" using inv by (auto simp: open_ids_def)
    ultimately have "i \<in> set ord" by simp
    then have "stack_ok p (set ord) wk" using inv by (simp add: insert_absorb)
    then show ?thesis using inv idx seen \<open>i \<in> set ord\<close> by auto
  next
    case fresh
    let ?new = "map (\<lambda>c. (c, False)) (rev (kids p i)) @ (i, True) # wk"
    have step: "dfs_step p (vis, (i, fin) # wk, ord) = (idx_of p i # vis, ?new, ord)"
      using fresh idx by (simp add: kids_def rev_map Let_def)
    have "set (ord @ open_ids wk) \<subseteq> node_ids p" "set vis = idx_of p ` set (ord @ open_ids wk)" using inv fresh(1) by simp_all
    then have "i \<notin> set (ord @ open_ids wk)" using vis_iff[OF i] fresh(2) by auto
    moreover have "fst ` set ?new \<subseteq> node_ids p" using inv kids_props(2)[OF t i] by auto
    moreover have "sorted_wrt (\<lambda>x y. snd y \<longrightarrow> fst y < fst x) ?new"
    proof -
      have "sorted_wrt (\<lambda>x y. snd y \<longrightarrow> fst y < fst x) (map (\<lambda>c. (c, False)) cs)" for cs :: "int list"
        by (induction cs) auto
      then show ?thesis using inv kids_props(1)[OF t i] by (fastforce simp: sorted_wrt_append)
    qed
    moreover have "stack_ok p (set ord) ?new"
      unfolding stack_ok_pending using inv by (auto elim: stack_ok_mono)
    ultimately show ?thesis unfolding step using inv fresh(1) by auto
  qed
qed

lemma dfs_result:
  assumes "tree_ok (nodes p)"
  shows "dfs_inv p s \<Longrightarrow> \<exists>vis. dfs_inv p (vis, [], dfs p s)"
proof (induction "dfs_measure p s" arbitrary: s rule: less_induct)
  case less
  obtain vis wk ord where s: "s = (vis, wk, ord)" by (cases s)
  show ?case
  proof (cases wk)
    case Nil
    then have "dfs p s = ord" by (subst dfs.simps) (simp add: s)
    then show ?thesis using less.prems unfolding s Nil by (intro exI[of _ vis]) simp
  next
    case (Cons e wk')
    obtain i fin where e: "e = (i, fin)" by fastforce
    have "dfs p s = dfs p (dfs_step p s)" using Cons by (subst dfs.simps) (simp add: s)
    moreover have "dfs_measure p (dfs_step p s) < dfs_measure p s"
      unfolding s using Cons by (intro dfs_step_decreases) simp
    moreover have "dfs_inv p (dfs_step p s)"
      using dfs_step_inv[OF assms, of vis i fin wk' ord] less.prems by (simp only: s Cons e)
    ultimately show ?thesis using less.hyps by simp
  qed
qed

lemma one_in_ids: "tree_ok (nodes p) \<Longrightarrow> 1 \<in> node_ids p"
  unfolding node_ids_def using tree_okD(1,4)[of "nodes p"] by (cases "nodes p") auto

lemma post_order_tree:
  assumes "tree_ok (nodes p)"
  shows "distinct (post_order p)" "set (post_order p) = node_ids p" "children_first p (post_order p)"
proof -
  have "post_order p = dfs p ([], [(1, False)], [])"
    using tree_okD(1,2)[OF assms] by (simp add: post_order_def)
  moreover have "dfs_inv p ([], [(1, False)], [])" using one_in_ids[OF assms] by simp
  ultimately obtain vis where inv: "dfs_inv p (vis, [], post_order p)" using dfs_result[OF assms] by metis
  show "distinct (post_order p)" "children_first p (post_order p)" using inv by simp_all
  have sub: "set (post_order p) \<subseteq> node_ids p" and one: "1 \<in> set (post_order p)" using inv by simp_all
  have closed: "c \<in> set (post_order p)" if "i \<in> set (post_order p)" "c \<in> set (kids p i)" for i c
    using inv that split_list[of i "post_order p"] by (fastforce simp: children_first_def)
  have "i \<in> node_ids p \<Longrightarrow> i \<in> set (post_order p)" for i
  proof (induction "nat i" arbitrary: i rule: less_induct)
    case less
    show ?case
    proof (cases "i = 1")
      case False
      then have "i \<in> set (map snd (edges (nodes p)))"
        using less.prems edges_tree(2)[OF assms] by (simp add: node_ids_def)
      then obtain q where q: "(q, i) \<in> set (edges (nodes p))" by auto
      then have "q \<in> set (post_order p)"
        using less.hyps[of q] edges_less[OF assms q] kids_edge[OF assms] by auto
      then show ?thesis using closed q kids_edge[OF assms] by blast
    qed (use one in simp)
  qed
  then show "set (post_order p) = node_ids p" using sub by blast
qed

section \<open>Totals along the post-order\<close>

definition total_step :: "profile_data \<Rightarrow> int \<Rightarrow> int list \<Rightarrow> int list" where
  "total_step p i tot =
     (let idx = idx_of p i
      in if idx \<ge> length (nodes p) then tot
         else tot[idx := node_total p tot (self_us_by_node p ! idx) idx])"

lemma total_us_by_node_steps:
  "total_us_by_node p = fold (total_step p) (post_order p) (replicate (length (nodes p)) 0)"
  by (simp add: total_us_by_node_def total_step_def [abs_def])

lemma node_total_sum:
  assumes "length tot = length (nodes p)" "set (kids p i) \<subseteq> node_ids p"
  shows "node_total p tot self (idx_of p i) = self + (\<Sum>c\<leftarrow>kids p i. tot ! idx_of p c)"
proof -
  have "fold (\<lambda>c t. let cidx = idx_of p c in if cidx < length tot then t + tot ! cidx else t) cs self =
      self + (\<Sum>c\<leftarrow>cs. tot ! idx_of p c)" if "set cs \<subseteq> node_ids p" for cs
    using that assms(1) idx_of_ids[of _ p] by (induction cs arbitrary: self) (simp_all add: Let_def)
  then show ?thesis using assms(2) by (simp add: node_total_def kids_def)
qed

definition total_eq :: "profile_data \<Rightarrow> int list \<Rightarrow> int \<Rightarrow> bool" where
  "total_eq p tot i \<longleftrightarrow>
     tot ! idx_of p i = self_us_by_node p ! idx_of p i + (\<Sum>c\<leftarrow>kids p i. tot ! idx_of p c)"

lemma total_steps:
  assumes "tree_ok (nodes p)"
  shows "distinct ord \<Longrightarrow> set ord \<subseteq> node_ids p \<Longrightarrow> children_first p ord \<Longrightarrow> length tot = length (nodes p) \<Longrightarrow>
    \<forall>i\<in>set ord. total_eq p (fold (total_step p) ord tot) i"
proof (induction ord rule: rev_induct)
  case (snoc i ord)
  let ?t = "fold (total_step p) ord tot"
  have len: "length (fold (total_step p) ord tot) = length tot" for ord tot
    by (induction ord arbitrary: tot) (simp_all add: total_step_def Let_def)
  have i: "i \<in> node_ids p" "i \<notin> set ord" and cf: "children_first p ord" "set (kids p i) \<subseteq> set ord"
    using snoc.prems(1-3) by (simp_all add: children_first_snoc)
  have ids: "set ord \<subseteq> node_ids p" using snoc.prems(2) by simp
  have step: "fold (total_step p) (ord @ [i]) tot =
      ?t[idx_of p i := self_us_by_node p ! idx_of p i + (\<Sum>c\<leftarrow>kids p i. ?t ! idx_of p c)]"
    using node_total_sum[of ?t p i] idx_of_ids[OF i(1)] cf(2) ids snoc.prems(4) len
    by (simp add: total_step_def subset_trans Let_def)
  have other: "fold (total_step p) (ord @ [i]) tot ! idx_of p j = ?t ! idx_of p j" if "j \<in> set ord" for j
  proof -
    have "idx_of p j \<noteq> idx_of p i"
      using idx_of_inj[of j p i] that i ids unfolding node_ids_def by blast
    then show ?thesis unfolding step by simp
  qed
  have below: "(\<Sum>c\<leftarrow>kids p j. fold (total_step p) (ord @ [i]) tot ! idx_of p c) = (\<Sum>c\<leftarrow>kids p j. ?t ! idx_of p c)"
    if "set (kids p j) \<subseteq> set ord" for j
    using that other by (intro arg_cong[of _ _ sum_list] map_cong) auto
  have "total_eq p (fold (total_step p) (ord @ [i]) tot) j" if "j \<in> set ord" for j
  proof -
    have "set (kids p j) \<subseteq> set ord"
      using cf(1) split_list[OF that] by (fastforce simp: children_first_def)
    then show ?thesis
      using snoc.IH[OF _ ids cf(1) snoc.prems(4)] snoc.prems(1) that below other[OF that] by (simp add: total_eq_def)
  qed
  moreover have "total_eq p (fold (total_step p) (ord @ [i]) tot) i"
    unfolding total_eq_def below[OF cf(2)] using idx_of_ids[OF i(1)] snoc.prems(4) len by (simp add: step del: fold_append)
  ultimately show ?case by (simp del: fold_append)
qed simp

lemma total_us_eq:
  assumes "tree_ok (nodes p)" "i \<in> node_ids p"
  shows "total_us_by_node p ! idx_of p i =
    self_us_by_node p ! idx_of p i + (\<Sum>c\<leftarrow>kids p i. total_us_by_node p ! idx_of p c)"
  using total_steps[OF assms(1) post_order_tree(1)[OF assms(1)]] post_order_tree(2,3)[OF assms(1)] assms(2)
  unfolding total_us_by_node_steps total_eq_def by simp

section \<open>Time counted along the stacks\<close>

text \<open>The indices a walk from an id passes, and the time of the samples whose walk passes an index.\<close>

definition passes :: "profile_data \<Rightarrow> int \<Rightarrow> nat list" where
  "passes p s = (case walk p (parents p) (Suc (length (nodes p))) s of Some idxs \<Rightarrow> idxs | None \<Rightarrow> [])"

definition stack_time :: "profile_data \<Rightarrow> nat \<Rightarrow> int" where
  "stack_time p i =
     (\<Sum>j\<leftarrow>[0..<length (samples p)]. if i \<in> set (passes p (samples p ! j)) then self_delta p j else 0)"

lemma walk_fuel: "walk p par f c = Some xs \<Longrightarrow> f \<le> g \<Longrightarrow> walk p par g c = Some xs"
proof (induction f arbitrary: c xs g)
  case (Suc f)
  obtain g' where g: "g = Suc g'" "f \<le> g'" using Suc.prems(2) by (cases g) auto
  let ?idx = "idx_of p c"
  consider "c \<le> 0 \<or> ?idx \<ge> length (nodes p)" | "\<not> c \<le> 0" "\<not> ?idx \<ge> length (nodes p)" "par ! ?idx = c"
    | (more) "\<not> c \<le> 0" "\<not> ?idx \<ge> length (nodes p)" "par ! ?idx \<noteq> c" by blast
  then show ?case
  proof cases
    case more
    then obtain ys where "walk p par f (par ! ?idx) = Some ys" "xs = ?idx # ys"
      using Suc.prems(1) by (auto simp: Let_def)
    then show ?thesis using more g Suc.IH[of "par ! ?idx" ys g'] by (simp add: Let_def)
  qed (use Suc.prems(1) g in \<open>auto simp: Let_def split: if_splits\<close>)
qed simp

text \<open>Walks end: every step goes to a smaller id.\<close>

lemma walk_ends:
  assumes "tree_ok (nodes p)" "i \<in> node_ids p" "nat i < f"
  shows "walk p (parents p) f i \<noteq> None"
proof -
  have "1 \<le> i" "i \<le> int (length (nodes p))"
    using assms(2) tree_okD(4)[OF assms(1)] by (auto simp: node_ids_def simp del: set_map)
  then obtain fs where "path (nodes p) i fs" using path_exists[OF assms(1)] by blast
  from walk_path[OF assms(1) this assms(3)] show ?thesis by auto
qed

lemma passes_walk:
  assumes "tree_ok (nodes p)" "i \<in> node_ids p" "nat i < f" "f \<le> Suc (length (nodes p))"
  shows "walk p (parents p) f i = Some (passes p i)"
  using walk_ends[OF assms(1-3)] walk_fuel[OF _ assms(4)] unfolding passes_def by fastforce

lemma ids_range: "tree_ok (nodes p) \<Longrightarrow> i \<in> node_ids p \<Longrightarrow> 1 \<le> i \<and> nat i \<le> length (nodes p)"
  using tree_okD(4)[of "nodes p"] by (auto simp: node_ids_def simp del: set_map)

lemma passes_root: "tree_ok (nodes p) \<Longrightarrow> passes p 1 = [idx_of p 1]"
proof -
  assume t: "tree_ok (nodes p)"
  have "walk p (parents p) (Suc (length (nodes p))) 1 = Some (passes p 1)"
    using one_in_ids[OF t] ids_range[OF t one_in_ids[OF t]] by (intro passes_walk[OF t]) auto
  moreover have "walk p (parents p) (Suc (length (nodes p))) 1 = Some [idx_of p 1]"
    using idx_of_ids[OF one_in_ids[OF t]] parents_tree(2)[OF t] by (cases "length (nodes p)") (auto simp: Let_def)
  ultimately show ?thesis by simp
qed

lemma passes_step:
  assumes t: "tree_ok (nodes p)" and e: "(q, s) \<in> set (edges (nodes p))"
  shows "passes p s = idx_of p s # passes p q"
proof -
  have q: "q \<in> node_ids p" "s \<in> node_ids p" using e kids_edge[OF t] kids_props(2)[OF t] by blast+
  note less = edges_less[OF t e] and r = ids_range[OF t q(1)] ids_range[OF t q(2)]
  have "walk p (parents p) (Suc (length (nodes p))) s = Some (passes p s)"
    using r by (intro passes_walk[OF t q(2)]) auto
  moreover have "walk p (parents p) (length (nodes p)) q = Some (passes p q)"
    using r less by (intro passes_walk[OF t q(1)]) auto
  ultimately show ?thesis using idx_of_ids[OF q(2)] parents_tree(1)[OF t e] less by (simp add: Let_def)
qed

text \<open>Rule induction over the ids of a tree, from the root down.\<close>

lemma tree_induct [consumes 2, case_names root step]:
  assumes "tree_ok (nodes p)" "s \<in> node_ids p"
    and "P 1" "\<And>q s. (q, s) \<in> set (edges (nodes p)) \<Longrightarrow> P q \<Longrightarrow> P s"
  shows "P s"
proof -
  obtain fs where "path (nodes p) s fs"
    using path_exists[OF assms(1), of s] ids_range[OF assms(1,2)] by (auto simp: nat_le_iff)
  then show ?thesis
  proof induction
    case (path_step q fs m)
    show ?case by (rule assms(4)[OF path_step.hyps(2) path_step.IH])
  qed (rule assms(3))
qed

lemma sum_one_at: "distinct cs \<Longrightarrow> (\<Sum>c\<leftarrow>cs. if c = s then 1 else (0::int)) = (if s \<in> set cs then 1 else 0)"
  by (induction cs) auto

lemma kids_distinct:
  assumes "tree_ok (nodes p)" "i \<in> node_ids p"
  shows "distinct (kids p i)"
proof -
  have "nodes p ! idx_of p i \<in> set (nodes p)" using idx_of_ids[OF assms(2)] by simp
  then obtain xs ys where "nodes p = xs @ nodes p ! idx_of p i # ys" by (metis split_list)
  then have "map snd (edges (nodes p)) = concat (map children xs) @ kids p i @ concat (map children ys)"
    unfolding snd_edges kids_def by (metis (no_types, lifting) concat.simps(2) concat_append list.simps(9) map_append)
  then show ?thesis using edges_tree(1)[OF assms(1)] by simp
qed

text \<open>A stack that passes a node ends there or passes exactly one of its children.\<close>

lemma passes_split:
  assumes t: "tree_ok (nodes p)" and i: "i \<in> node_ids p" and s: "s \<in> node_ids p"
  shows "(if idx_of p i \<in> set (passes p s) then 1 else 0) =
    (if s = i then 1 else 0) + (\<Sum>c\<leftarrow>kids p i. if idx_of p c \<in> set (passes p s) then 1 else (0::int))"
  using t s
proof (induction rule: tree_induct)
  case root
  have "idx_of p c \<noteq> idx_of p 1" if "c \<in> set (kids p i)" for c
    using kids_props[OF t i that] one_in_ids[OF t] ids_range[OF t i] idx_of_inj[of c p 1] by (auto simp: node_ids_def)
  then have "(\<Sum>c\<leftarrow>kids p i. if idx_of p c \<in> set (passes p 1) then 1 else 0) = (\<Sum>c\<leftarrow>kids p i. (0::int))"
    by (intro arg_cong[of _ _ sum_list] map_cong) (simp_all add: passes_root[OF t])
  then show ?case using one_in_ids[OF t] i idx_of_inj[of i p 1] by (auto simp: passes_root[OF t] node_ids_def)
next
  case (step q s)
  have q: "q \<in> node_ids p" "s \<in> node_ids p" "s \<in> set (kids p q)"
    using step(1) kids_edge[OF t] kids_props(2)[OF t] by blast+
  have eq: "idx_of p c = idx_of p s \<longleftrightarrow> c = s" if "c \<in> node_ids p" for c
    using that q(2) idx_of_inj[of c p s] by (simp only: node_ids_def)
  have fresh: "idx_of p s \<notin> set (passes p q)"
  proof -
    have "\<forall>x\<in>set (passes p q). \<exists>j\<in>node_ids p. j \<le> q \<and> x = idx_of p j"
      using t q(1)
    proof (induction rule: tree_induct)
      case (step r j)
      have "r < j" "j \<in> node_ids p" using edges_less[OF t step(1)] step(1) kids_edge[OF t] kids_props(2)[OF t] by blast+
      moreover have "\<forall>x\<in>set (passes p r). \<exists>k\<in>node_ids p. k \<le> j \<and> x = idx_of p k"
        using step(2) \<open>r < j\<close> by (meson less_imp_le order_trans)
      ultimately show ?case unfolding passes_step[OF t step(1)] by simp (metis order_refl)
    qed (use one_in_ids[OF t] passes_root[OF t] in auto)
    then show ?thesis using edges_less(2)[OF t step(1)] eq by fastforce
  qed
  have "(\<Sum>c\<leftarrow>kids p i. if idx_of p c \<in> set (passes p s) then 1 else (0::int)) =
      (\<Sum>c\<leftarrow>kids p i. (if c = s then 1 else 0) + (if idx_of p c \<in> set (passes p q) then 1 else 0))"
    using kids_props(2)[OF t i] eq fresh
    by (intro arg_cong[of _ _ sum_list] map_cong) (auto simp: passes_step[OF t step(1)])
  also have "\<dots> = (if s \<in> set (kids p i) then 1 else 0) +
      (\<Sum>c\<leftarrow>kids p i. if idx_of p c \<in> set (passes p q) then 1 else 0)"
    by (simp only: sum_list_addf sum_one_at[OF kids_distinct[OF t i]])
  also have "s \<in> set (kids p i) \<longleftrightarrow> q = i"
    using parents_tree(1)[OF t step(1)] parents_tree(1)[OF t, of i s] kids_edge[OF t] i q by auto
  finally have "(\<Sum>c\<leftarrow>kids p i. if idx_of p c \<in> set (passes p s) then 1 else (0::int)) =
      (if q = i then 1 else 0) + (\<Sum>c\<leftarrow>kids p i. if idx_of p c \<in> set (passes p q) then 1 else 0)" .
  moreover have "(if idx_of p i \<in> set (passes p s) then 1 else (0::int)) =
      (if s = i then 1 else 0) + (if idx_of p i \<in> set (passes p q) then 1 else 0)"
    unfolding passes_step[OF t step(1)] using fresh eq[OF i] by (cases "s = i") auto
  ultimately show ?case using step(2) by linarith
qed

section \<open>The two totals agree\<close>

lemma self_us_steps:
  assumes "length self = n"
  shows "length (fold (\<lambda>j self. let idx = f j in if idx < length self then self[idx := self ! idx + d j] else self) js self) = n"
    "i < n \<Longrightarrow>
      fold (\<lambda>j self. let idx = f j in if idx < length self then self[idx := self ! idx + d j] else self) js self ! i =
      self ! i + (\<Sum>j\<leftarrow>js. if f j = i then d j else (0::int))"
  using assms by (induction js arbitrary: self) (auto simp: Let_def nth_list_update)

lemma length_self_us [simp]: "length (self_us_by_node p) = length (nodes p)"
  unfolding self_us_by_node_def by (rule self_us_steps) simp

lemma self_us_nth:
  "i < length (nodes p) \<Longrightarrow> self_us_by_node p ! i =
    (\<Sum>j\<leftarrow>[0..<length (samples p)]. if idx_of p (samples p ! j) = i then self_delta p j else 0)"
  unfolding self_us_by_node_def
  using self_us_steps(2)[of "replicate (length (nodes p)) 0" "length (nodes p)" i "\<lambda>j. idx_of p (samples p ! j)"
      "self_delta p" "[0..<length (samples p)]"] by simp

lemma length_total_us [simp]: "length (total_us_by_node p) = length (nodes p)"
proof -
  have "length (fold (total_step p) ord tot) = length tot" for ord tot
    by (induction ord arbitrary: tot) (simp_all add: total_step_def Let_def)
  then show ?thesis by (simp add: total_us_by_node_steps)
qed

lemma sum_list_swap: "(\<Sum>j\<leftarrow>js. \<Sum>c\<leftarrow>cs. f j c) = (\<Sum>c\<leftarrow>cs. \<Sum>j\<leftarrow>js. f j c :: int)"
  by (induction js) (simp_all add: sum_list_addf)

lemma sample_ids: "profile_ok p \<Longrightarrow> j < length (samples p) \<Longrightarrow> samples p ! j \<in> node_ids p"
  unfolding profile_ok_def node_ids_def using tree_okD(4)[of "nodes p"] nth_mem[of j "samples p"] by blast

lemma stack_time_eq:
  assumes p: "profile_ok p" and i: "i \<in> node_ids p"
  shows "stack_time p (idx_of p i) = self_us_by_node p ! idx_of p i + (\<Sum>c\<leftarrow>kids p i. stack_time p (idx_of p c))"
proof -
  let ?js = "[0..<length (samples p)]"
  have t: "tree_ok (nodes p)" using p by (simp add: profile_ok_def)
  have one: "(if idx_of p i \<in> set (passes p (samples p ! j)) then self_delta p j else 0) =
      (if idx_of p (samples p ! j) = idx_of p i then self_delta p j else 0) +
      (\<Sum>c\<leftarrow>kids p i. if idx_of p c \<in> set (passes p (samples p ! j)) then self_delta p j else 0)"
    if "j < length (samples p)" for j
  proof -
    have s: "samples p ! j \<in> node_ids p" by (rule sample_ids[OF p that])
    have mult: "(if b then self_delta p j else 0) = self_delta p j * (if b then 1 else 0)" for b by simp
    have eq: "idx_of p (samples p ! j) = idx_of p i \<longleftrightarrow> samples p ! j = i"
      using idx_of_inj[of "samples p ! j" p i] s i by (simp only: node_ids_def)
    show ?thesis
      unfolding mult eq sum_list_const_mult passes_split[OF t i s] by (simp only: distrib_left)
  qed
  have "stack_time p (idx_of p i) =
      (\<Sum>j\<leftarrow>?js. (if idx_of p (samples p ! j) = idx_of p i then self_delta p j else 0) +
        (\<Sum>c\<leftarrow>kids p i. if idx_of p c \<in> set (passes p (samples p ! j)) then self_delta p j else 0))"
    unfolding stack_time_def using one by (intro arg_cong[of _ _ sum_list] map_cong) simp_all
  then show ?thesis
    unfolding sum_list_addf sum_list_swap[of _ "kids p i"] self_us_nth[OF idx_of_ids[OF i]] stack_time_def .
qed

lemma totals_agree:
  assumes "profile_ok p"
  shows "i \<in> node_ids p \<Longrightarrow> total_us_by_node p ! idx_of p i = stack_time p (idx_of p i)"
proof (induction "length (nodes p) - nat i" arbitrary: i rule: less_induct)
  case less
  have t: "tree_ok (nodes p)" using assms by (simp add: profile_ok_def)
  have "total_us_by_node p ! idx_of p c = stack_time p (idx_of p c)" if "c \<in> set (kids p i)" for c
    using kids_props[OF t less.prems that] ids_range[OF t, of c] ids_range[OF t less.prems] by (intro less.hyps) auto
  then have "(\<Sum>c\<leftarrow>kids p i. total_us_by_node p ! idx_of p c) = (\<Sum>c\<leftarrow>kids p i. stack_time p (idx_of p c))"
    by (intro arg_cong[of _ _ sum_list] map_cong) simp_all
  then show ?case by (simp only: total_us_eq[OF t less.prems] stack_time_eq[OF assms less.prems])
qed

lemma sum_list_add_at: "i < length xs \<Longrightarrow> sum_list (xs[i := xs ! i + d]) = sum_list xs + d" for xs :: "int list"
proof (induction xs arbitrary: i)
  case (Cons x xs)
  then show ?case by (cases i) simp_all
qed simp

lemma total_us_samples:
  assumes "profile_ok p"
  shows "total_us p = (\<Sum>j\<leftarrow>[0..<length (samples p)]. self_delta p j)"
proof -
  let ?f = "\<lambda>j self. let idx = idx_of p (samples p ! j)
         in if idx < length self then self[idx := self ! idx + self_delta p j] else self"
  have "sum_list (fold ?f js self) = sum_list self + (\<Sum>j\<leftarrow>js. self_delta p j)"
    if "length self = length (nodes p)" "\<forall>j\<in>set js. j < length (samples p)" for js self
    using that
  proof (induction js arbitrary: self)
    case (Cons j js)
    have "idx_of p (samples p ! j) < length self"
      using idx_of_ids[OF sample_ids[OF assms, of j]] Cons.prems by simp
    then show ?case using Cons.IH[of "?f j self"] Cons.prems
      by (simp add: Let_def sum_list_add_at)
  qed simp
  from this[of "replicate (length (nodes p)) 0" "[0..<length (samples p)]"]
  have "sum_list (self_us_by_node p) = (\<Sum>j\<leftarrow>[0..<length (samples p)]. self_delta p j)"
    by (simp add: self_us_by_node_def sum_list_replicate)
  then show ?thesis by (simp add: total_us_def fold_plus_sum_list_rev)
qed

lemma root_passed:
  assumes "tree_ok (nodes p)" "s \<in> node_ids p"
  shows "0 \<in> set (passes p s)"
  using assms
proof (induction rule: tree_induct)
  case root
  have "idx_of p 1 = 0"
    using idx_of_nth[of p 0] tree_okD(1-3)[OF assms(1)] by (simp add: hd_conv_nth)
  then show ?case by (simp add: passes_root[OF assms(1)])
next
  case (step q s)
  then show ?case by (simp add: passes_step[OF assms(1)])
qed

text \<open>C9: In a profile that is a tree, the time the report computes for a subtree in its post-order is the time of
  the samples whose stack passes the node, as its walk over the stacks counts it; the time of the root is the
  whole accounted time.\<close>

theorem subtree_time_counts_stacks:
  assumes "profile_ok p"
  shows "total_us_by_node p = map (stack_time p) [0..<length (nodes p)] \<and> total_us_by_node p ! 0 = total_us p"
proof -
  have t: "tree_ok (nodes p)" using assms by (simp add: profile_ok_def)
  have at: "total_us_by_node p ! i = stack_time p i" if "i < length (nodes p)" for i
    using totals_agree[OF assms, of "nid (nodes p ! i)"] idx_of_nth[OF tree_okD(3)[OF t] that] that
    by (simp add: node_ids_def)
  then have "total_us_by_node p = map (stack_time p) [0..<length (nodes p)]"
    by (intro nth_equalityI) simp_all
  moreover have "stack_time p 0 = total_us p"
    unfolding stack_time_def total_us_samples[OF assms] using root_passed[OF t sample_ids[OF assms]]
    by (intro arg_cong[of _ _ sum_list] map_cong) simp_all
  moreover have "0 < length (nodes p)" using tree_okD(1)[OF t] by simp
  ultimately show ?thesis using at by simp
qed

theorem subtree_time_counts_stacks_witness:
  "total_us_by_node sample_profile = map (stack_time sample_profile) [0..<2] \<and>
   total_us_by_node sample_profile ! 0 = 2000"
proof -
  have "total_us sample_profile = 2000" by code_simp
  moreover have "length (nodes sample_profile) = 2" by (simp add: sample_profile_def)
  ultimately show ?thesis using subtree_time_counts_stacks[OF sample_profile_ok] by metis
qed

end
