(* ===== verification/Cpu_Rows.thy ===== *)
theory Cpu_Rows
  imports Cpu_Time
begin

text \<open>
  The rows of the report: the total of a function is the time of the samples whose stack names it, each
  counted once, and a row that is too long loses its end.
\<close>

section \<open>Totals of functions\<close>

abbreviation total_at :: "(key_t \<Rightarrow> agg option) \<Rightarrow> key_t \<Rightarrow> int" where
  "total_at m k \<equiv> agg_total_us (agg_at m k)"

definition stack_keys :: "profile_data \<Rightarrow> nat list \<Rightarrow> key_t set" where
  "stack_keys p idxs = (\<lambda>i. node_key (nodes p ! i)) ` set idxs"

definition key_time :: "profile_data \<Rightarrow> nat list \<Rightarrow> key_t \<Rightarrow> int" where
  "key_time p js k =
     (\<Sum>j\<leftarrow>js. if k \<in> stack_keys p (passes p (samples p ! j)) then sample_period p j else 0)"

lemma agg_at_upd: "agg_at (m(k \<mapsto> a)) l = (if l = k then a else agg_at m l)"
  by (simp add: agg_at_def)

lemma note_line_total [simp]: "agg_total_us (note_line ln a) = agg_total_us a"
  by (simp add: note_line_def)

lemma add_self_total: "total_at (add_self ns m) k = total_at m k"
  by (cases ns) (simp add: add_self_def Let_def agg_at_upd)

lemma self_rows_total: "total_at (self_rows p) k = 0"
proof -
  have "total_at (fold add_self xs m) k = total_at m k" for xs m
    by (induction xs arbitrary: m) (simp_all add: add_self_total)
  moreover have "total_at Map.empty k = 0" by (simp add: agg_at_def new_agg_def)
  ultimately show ?thesis by (simp only: self_rows_def)
qed

text \<open>A key that was seen is not counted again.\<close>

lemma count_keys_total:
  "total_at (snd (fold (count_key period) ks (seen, m))) k =
    total_at m k + (if k \<in> set ks - set seen then period else 0)"
proof (induction ks arbitrary: seen m)
  case (Cons l ks)
  show ?case
  proof (cases "l \<in> set seen")
    case True
    then show ?thesis using Cons.IH[of seen m] by (auto simp: count_key_def)
  next
    case False
    define m1 where "m1 = m(l \<mapsto> (agg_at m l)\<lparr>agg_total_us := total_at m l + period\<rparr>)"
    have "fold (count_key period) (l # ks) (seen, m) = fold (count_key period) ks (l # seen, m1)"
      using False by (simp add: count_key_def m1_def)
    moreover have "total_at m1 k = total_at m k + (if k = l then period else 0)" by (simp add: m1_def agg_at_upd)
    ultimately show ?thesis using Cons.IH[of "l # seen" m1] False by (simp only:) auto
  qed
qed simp

lemma count_stack_total:
  "total_at (count_stack p period idxs m) k = total_at m k + (if k \<in> stack_keys p idxs then period else 0)"
  by (simp add: count_stack_def count_keys_total stack_keys_def image_iff)

lemma total_rows_loop_total:
  assumes p: "profile_ok p" and f: "length (nodes p) < fuel"
  shows "\<forall>j\<in>set js. j < length (samples p) \<Longrightarrow>
    \<exists>m'. total_rows_loop p fuel js m = Some m' \<and> (\<forall>k. total_at m' k = total_at m k + key_time p js k)"
proof (induction js arbitrary: m)
  case (Cons j js)
  have t: "tree_ok (nodes p)" using p by (simp add: profile_ok_def)
  have s: "samples p ! j \<in> node_ids p" using sample_ids[OF p] Cons.prems by simp
  have "walk p (parents p) (Suc (length (nodes p))) (samples p ! j) = Some (passes p (samples p ! j))"
    using ids_range[OF t s] by (intro passes_walk[OF t s]) auto
  then have "walk p (parents p) fuel (samples p ! j) = Some (passes p (samples p ! j))"
    by (rule walk_fuel) (use f in simp)
  note w = this
  define m1 where "m1 = count_stack p (sample_period p j) (passes p (samples p ! j)) m"
  obtain m' where m': "total_rows_loop p fuel js m1 = Some m'"
      "\<And>k. total_at m' k = total_at m1 k + key_time p js k"
    using Cons.IH[of m1] Cons.prems by auto
  have "total_rows_loop p fuel (j # js) m = Some m'" using w m'(1) by (simp add: m1_def)
  moreover have "total_at m' k = total_at m k + key_time p (j # js) k" for k
    unfolding m'(2) by (simp add: m1_def count_stack_total key_time_def)
  ultimately show ?case by blast
qed (simp add: key_time_def)

text \<open>In a profile that is a tree, the walks of the report end, and the total of a function and script is the time
  of the samples whose stack has a frame of it, however often, so recursion is not counted twice.\<close>

theorem rows_count_stacks:
  assumes "profile_ok p" "length (nodes p) < fuel"
  shows "\<exists>m. total_rows p fuel = Some m \<and> (\<forall>k. total_at m k = key_time p [0..<length (samples p)] k)"
  using total_rows_loop_total[OF assms, of "[0..<length (samples p)]" "self_rows p"]
  by (simp add: total_rows_def self_rows_total)

theorem rows_count_stacks_witness:
  "\<exists>m. total_rows sample_profile 5 = Some m \<and> (\<forall>k. total_at m k = key_time sample_profile [0..<2] k)"
proof -
  have "length (nodes sample_profile) < 5" "length (samples sample_profile) = 2" by (simp_all add: sample_profile_def)
  then show ?thesis using rows_count_stacks[OF sample_profile_ok] by metis
qed

section \<open>Long rows\<close>

lemma md_escape_no_newline: "10 \<notin> set (md_escape s)"
  by (auto simp: md_escape_def)

lemma c_str_subset: "set (c_str s) \<subseteq> set s"
  by (auto simp: c_str_def dest: set_takeWhileD)

text \<open>A row for a name of 1023 bytes or more is cut before its line ends, so the next row of the table joins it.\<close>

theorem long_name_cuts_row:
  assumes "1023 \<le> length (c_str (md_escape (agg_function r)))"
    and "\<And>t. 10 \<notin> set (format_us t)" "\<And>t u. 10 \<notin> set (format_pct t u)"
  shows "10 \<notin> set (row_text format_us format_pct acc rank r)"
proof -
  let ?fn = "c_str (md_escape (agg_function r))"
  define pre where "pre = [124, 32] @ digits rank @ cell_sep @ format_us (self_us r) @ cell_sep @
       format_pct (self_us r) acc @ cell_sep @ format_us (agg_total_us r) @ cell_sep @
       format_pct (agg_total_us r) acc @ cell_sep @ [96]"
  have "agg_function r \<noteq> []" using assms(1) by (auto simp: md_escape_def c_str_def)
  then obtain rest where "row_text format_us format_pct acc rank r = take 1023 ((pre @ ?fn) @ rest)"
    by (simp add: row_text_def pre_def)
  also have "take 1023 ((pre @ ?fn) @ rest) = take 1023 (pre @ ?fn)" using assms(1) by simp
  finally have "set (row_text format_us format_pct acc rank r) \<subseteq> set (pre @ ?fn)"
    using set_take_subset by metis
  moreover have "10 \<notin> set pre" using assms(2,3) digits_no_newline by (simp add: pre_def cell_sep_def)
  moreover have "10 \<notin> set ?fn" using md_escape_no_newline c_str_subset by blast
  ultimately show ?thesis by auto
qed

theorem long_name_cuts_row_witness:
  "10 \<notin> set (row_text (\<lambda>_. []) (\<lambda>_ _. []) 1 1 (new_agg\<lparr>agg_function := replicate 1100 97\<rparr>))"
proof (rule long_name_cuts_row)
  have "md_escape (replicate n 97) = replicate n 97" "c_str (replicate n 97) = replicate n 97" for n
    by (induction n) (simp_all add: md_escape_def c_str_def)
  then show "1023 \<le> length (c_str (md_escape (agg_function (new_agg\<lparr>agg_function := replicate 1100 97\<rparr>))))"
    by (simp add: new_agg_def)
qed simp_all

end
