(* ===== verification/Cpu_Json.thy ===== *)
theory Cpu_Json
  imports Cpu_Profile
begin

text \<open>
  Profiles as JSON, \<^verbatim>\<open>parse_v8_profile\<close> and \<^verbatim>\<open>serialize_cpuprofile\<close> of
  \<^verbatim>\<open>src/runner/cpu_profile_merge.cpp\<close>, and the repair of the text V8 emits. The JSON library is a
  parameter: \<open>json_parse\<close> from text to a value and \<open>dump\<close> back. A number with a fraction is known by its
  truncated value. Conversions to \<^verbatim>\<open>int\<close> and \<^verbatim>\<open>i64\<close> keep the low bits, as the casts of the library do; an
  exception of the library is \<open>None\<close>.
\<close>

section \<open>Repairing the text\<close>

definition is_escape :: "u8 \<Rightarrow> bool" where
  "is_escape n \<longleftrightarrow> n \<in> set [34, 92, 47, 98, 102, 110, 114, 116, 117]"

text \<open>The loop; the flag is \<^verbatim>\<open>in_string\<close>.\<close>

fun sanitize_loop :: "bool \<Rightarrow> bytes \<Rightarrow> bytes" where
  "sanitize_loop q [] = []"
| "sanitize_loop q (c # s) =
     (if c = 34 then c # sanitize_loop (\<not> q) s
      else if \<not> q then c # sanitize_loop q s
      else if c = 92 then
        (case s of
           [] \<Rightarrow> [c]
         | n # s' \<Rightarrow> if is_escape n then c # n # sanitize_loop q s' else c # 92 # sanitize_loop q s)
      else c # sanitize_loop q s)"

definition sanitize_v8_json :: "bytes \<Rightarrow> bytes" where
  "sanitize_v8_json src = sanitize_loop False src"

text \<open>A text whose strings use only the escapes of JSON; a string may end the text unfinished.\<close>

fun escapes_ok :: "bool \<Rightarrow> bytes \<Rightarrow> bool" where
  "escapes_ok q [] \<longleftrightarrow> True"
| "escapes_ok q (c # s) \<longleftrightarrow>
     (if c = 34 then escapes_ok (\<not> q) s
      else if q \<and> c = 92 then (case s of [] \<Rightarrow> True | n # s' \<Rightarrow> is_escape n \<and> escapes_ok q s')
      else escapes_ok q s)"

section \<open>JSON values\<close>

datatype jvalue =
  JNull | JBool bool | JInt int | JReal int | JStr bytes | JArr "jvalue list" | JObj "(bytes \<times> jvalue) list"

definition cast_i32 :: "int \<Rightarrow> int" where
  "cast_i32 x = (x + 2 ^ 31) mod 2 ^ 32 - 2 ^ 31"

definition cast_i64 :: "int \<Rightarrow> int" where
  "cast_i64 x = (x + 2 ^ 63) mod 2 ^ 64 - 2 ^ 63"

fun jfind :: "jvalue \<Rightarrow> bytes \<Rightarrow> jvalue option" where
  "jfind (JObj kvs) k = map_of kvs k"
| "jfind _ k = None"

text \<open>What a range \<^verbatim>\<open>for\<close> over a value visits.\<close>

fun jelems :: "jvalue \<Rightarrow> jvalue list" where
  "jelems (JArr xs) = xs"
| "jelems (JObj kvs) = map snd kvs"
| "jelems JNull = []"
| "jelems v = [v]"

definition read_int :: "jvalue \<Rightarrow> bytes \<Rightarrow> int \<Rightarrow> int" where
  "read_int j key defv =
     (case jfind j key of
        Some (JInt x) \<Rightarrow> cast_i32 x
      | Some (JReal x) \<Rightarrow> cast_i32 x
      | _ \<Rightarrow> defv)"

definition read_i64 :: "jvalue \<Rightarrow> bytes \<Rightarrow> int \<Rightarrow> int" where
  "read_i64 j key defv =
     (case jfind j key of
        Some (JInt x) \<Rightarrow> cast_i64 x
      | Some (JReal x) \<Rightarrow> cast_i64 x
      | _ \<Rightarrow> defv)"

definition read_str :: "jvalue \<Rightarrow> bytes \<Rightarrow> bytes" where
  "read_str j key = (case jfind j key of Some (JStr s) \<Rightarrow> s | _ \<Rightarrow> [])"

text \<open>\<^verbatim>\<open>get<int>()\<close> also accepts a Boolean, \<^verbatim>\<open>get<i64>()\<close> does not.\<close>

fun get_int :: "jvalue \<Rightarrow> int option" where
  "get_int (JInt x) = Some (cast_i32 x)"
| "get_int (JReal x) = Some (cast_i32 x)"
| "get_int (JBool b) = Some (if b then 1 else 0)"
| "get_int _ = None"

fun get_i64 :: "jvalue \<Rightarrow> int option" where
  "get_i64 (JInt x) = Some (cast_i64 x)"
| "get_i64 (JReal x) = Some (cast_i64 x)"
| "get_i64 _ = None"

text \<open>All or nothing, as an exception in the loop leaves nothing.\<close>

fun get_each :: "('a \<Rightarrow> 'b option) \<Rightarrow> 'a list \<Rightarrow> 'b list option" where
  "get_each g [] = Some []"
| "get_each g (x # xs) =
     (case g x of
        None \<Rightarrow> None
      | Some y \<Rightarrow> map_option (Cons y) (get_each g xs))"

text \<open>\<^verbatim>\<open>std::stoi\<close>: spaces, a sign, digits, and then anything; no digits or a value out of range throw.\<close>

definition is_space :: "u8 \<Rightarrow> bool" where
  "is_space c \<longleftrightarrow> c = 32 \<or> 9 \<le> c \<and> c \<le> 13"

definition stoi :: "bytes \<Rightarrow> int option" where
  "stoi s =
     (let s = dropWhile is_space s;
          neg = (s \<noteq> [] \<and> hd s = 45);
          s = (if s \<noteq> [] \<and> (hd s = 45 \<or> hd s = 43) then tl s else s);
          ds = takeWhile is_digit s;
          v = (if neg then - int (digits_value ds) else int (digits_value ds))
      in if ds = [] \<or> v < - (2 ^ 31) \<or> v \<ge> 2 ^ 31 then None else Some v)"

section \<open>Reading a profile\<close>

definition read_script_id :: "jvalue \<Rightarrow> int" where
  "read_script_id cf =
     (case jfind cf (ascii ''scriptId'') of
        Some (JStr s) \<Rightarrow> (case stoi s of Some v \<Rightarrow> v | None \<Rightarrow> 0)
      | Some (JInt x) \<Rightarrow> cast_i32 x
      | Some (JReal x) \<Rightarrow> cast_i32 x
      | _ \<Rightarrow> 0)"

definition read_frame :: "jvalue \<Rightarrow> call_frame" where
  "read_frame cf =
     \<lparr>function_name = read_str cf (ascii ''functionName''), script_url = read_str cf (ascii ''url''),
      script_id = read_script_id cf, line_number = read_int cf (ascii ''lineNumber'') (-1),
      column_number = read_int cf (ascii ''columnNumber'') (-1)\<rparr>"

definition read_children :: "jvalue \<Rightarrow> int list option" where
  "read_children jn =
     (case jfind jn (ascii ''children'') of Some (JArr cs) \<Rightarrow> get_each get_int cs | _ \<Rightarrow> Some [])"

definition read_node :: "jvalue \<Rightarrow> profile_node option" where
  "read_node jn =
     map_option (\<lambda>cs. \<lparr>nid = read_int jn (ascii ''id'') 0,
         frame = (case jfind jn (ascii ''callFrame'') of Some cf \<Rightarrow> read_frame cf | None \<Rightarrow> named_frame []),
         hit_count = nat (read_int jn (ascii ''hitCount'') 0 mod 2 ^ 32), children = cs\<rparr>)
       (read_children jn)"

definition read_profile :: "jvalue \<Rightarrow> profile_data option" where
  "read_profile j =
     (case jfind j (ascii ''nodes'') of
        None \<Rightarrow> None
      | Some jnodes \<Rightarrow>
          (case get_each read_node (jelems jnodes) of
             None \<Rightarrow> None
           | Some ns \<Rightarrow>
               (case (case jfind j (ascii ''samples'') of Some (JArr xs) \<Rightarrow> get_each get_int xs | _ \<Rightarrow> Some []) of
                  None \<Rightarrow> None
                | Some ss \<Rightarrow>
                    (case (case jfind j (ascii ''timeDeltas'') of Some (JArr xs) \<Rightarrow> get_each get_i64 xs | _ \<Rightarrow> Some []) of
                       None \<Rightarrow> None
                     | Some ds \<Rightarrow>
                         Some \<lparr>nodes = ns, samples = ss, time_deltas = ds,
                           start_time = read_i64 j (ascii ''startTime'') 0, end_time = read_i64 j (ascii ''endTime'') 0,
                           dropped_samples = 0, sample_period_us = mean_delta ds\<rparr>))))"

definition parse_v8_profile :: "(bytes \<Rightarrow> jvalue option) \<Rightarrow> bytes \<Rightarrow> profile_data option" where
  "parse_v8_profile json_parse jstr =
     (case json_parse (sanitize_v8_json jstr) of None \<Rightarrow> None | Some j \<Rightarrow> read_profile j)"

section \<open>Writing a profile\<close>

definition frame_json :: "call_frame \<Rightarrow> jvalue" where
  "frame_json f = JObj
     [(ascii ''functionName'', JStr (function_name f)), (ascii ''scriptId'', JStr (print_int (script_id f))),
      (ascii ''url'', JStr (script_url f)), (ascii ''lineNumber'', JInt (line_number f)),
      (ascii ''columnNumber'', JInt (column_number f))]"

definition node_json :: "profile_node \<Rightarrow> jvalue" where
  "node_json n = JObj
     [(ascii ''id'', JInt (nid n)), (ascii ''callFrame'', frame_json (frame n)),
      (ascii ''hitCount'', JInt (int (hit_count n))), (ascii ''children'', JArr (map JInt (children n)))]"

definition profile_json :: "profile_data \<Rightarrow> jvalue" where
  "profile_json p = JObj
     [(ascii ''nodes'', JArr (map node_json (nodes p))), (ascii ''samples'', JArr (map JInt (samples p))),
      (ascii ''timeDeltas'', JArr (map JInt (time_deltas p))), (ascii ''startTime'', JInt (start_time p)),
      (ascii ''endTime'', JInt (end_time p))]"

definition serialize_cpuprofile :: "(jvalue \<Rightarrow> bytes) \<Rightarrow> profile_data \<Rightarrow> bytes" where
  "serialize_cpuprofile dump p = dump (profile_json p)"

section \<open>Facts\<close>

lemma sanitize_ok: "escapes_ok q s \<Longrightarrow> sanitize_loop q s = s"
proof (induction "length s" arbitrary: q s rule: less_induct)
  case less
  show ?case
  proof (cases s)
    case (Cons c t)
    consider "c = 34" | "c \<noteq> 34" "\<not> q" | "c \<noteq> 34" "q" "c \<noteq> 92" | "c = 92" "q" "t = []"
      | n u where "c = 92" "q" "t = n # u" by (cases t) auto
    then show ?thesis by cases (use less Cons in simp_all)
  qed simp
qed

lemma sanitized_escapes: "escapes_ok q (sanitize_loop q s)"
proof (induction q s rule: sanitize_loop.induct)
  case (2 q c s)
  have "is_escape 92" by (simp add: is_escape_def)
  then show ?case using 2 by (auto split: list.split)
qed simp

lemma cast_i32_id [codec_simps]: "- (2 ^ 31) \<le> x \<Longrightarrow> x < 2 ^ 31 \<Longrightarrow> cast_i32 x = x"
  by (simp add: cast_i32_def)

lemma cast_i64_id [codec_simps]: "- (2 ^ 63) \<le> x \<Longrightarrow> x < 2 ^ 63 \<Longrightarrow> cast_i64 x = x"
  by (simp add: cast_i64_def)

lemma stoi_print_int [codec_simps]:
  assumes "- (2 ^ 31) \<le> x" "x < 2 ^ 31"
  shows "stoi (print_int x) = Some x"
proof -
  have ds: "digits n \<noteq> []" "takeWhile is_digit (digits n) = digits n" "digits_value (digits n) = n"
    "hd (digits n) \<noteq> 45 \<and> hd (digits n) \<noteq> 43 \<and> \<not> is_space (hd (digits n))" for n
  proof -
    show "digits n \<noteq> []" "digits_value (digits n) = n" by (rule digits_ok)+
    show "takeWhile is_digit (digits n) = digits n" using digits_ok(2)[of n] by (simp add: takeWhile_eq_all_conv list_all_iff)
    have "is_digit (hd (digits n))" using digits_ok(1,2)[of n] by (simp add: list_all_iff)
    then show "hd (digits n) \<noteq> 45 \<and> hd (digits n) \<noteq> 43 \<and> \<not> is_space (hd (digits n))"
      by (auto simp: is_digit_def is_space_def word_le_nat_alt)
  qed
  have minus: "\<not> is_space 45" by (simp add: is_space_def word_le_nat_alt)
  have "dropWhile is_space (print_int x) = print_int x"
    using ds(1,4) minus by (subst dropWhile_eq_self_iff) (auto simp: print_int_def)
  then have s: "dropWhile is_space (print_int x) = print_int x" .
  show ?thesis
    using assms unfolding stoi_def s by (cases "x < 0") (simp_all add: print_int_def ds)
qed

lemma get_each_map: "(\<And>x. x \<in> set xs \<Longrightarrow> g (f x) = Some (h x)) \<Longrightarrow> get_each g (map f xs) = Some (map h xs)"
  by (induction xs) simp_all

text \<open>Every field at its width.\<close>

definition in_i32 :: "int \<Rightarrow> bool" where
  "in_i32 x \<longleftrightarrow> - (2 ^ 31) \<le> x \<and> x < 2 ^ 31"

definition in_i64 :: "int \<Rightarrow> bool" where
  "in_i64 x \<longleftrightarrow> - (2 ^ 63) \<le> x \<and> x < 2 ^ 63"

definition node_fits :: "profile_node \<Rightarrow> bool" where
  "node_fits n \<longleftrightarrow> in_i32 (nid n) \<and> hit_count n < 2 ^ 32 \<and> list_all in_i32 (children n) \<and>
     in_i32 (script_id (frame n)) \<and> in_i32 (line_number (frame n)) \<and> in_i32 (column_number (frame n))"

definition profile_fits :: "profile_data \<Rightarrow> bool" where
  "profile_fits p \<longleftrightarrow> list_all node_fits (nodes p) \<and> list_all in_i32 (samples p) \<and> list_all in_i64 (time_deltas p) \<and>
     in_i64 (start_time p) \<and> in_i64 (end_time p)"

lemma get_ints: "list_all in_i32 xs \<Longrightarrow> get_each get_int (map JInt xs) = Some xs"
  using get_each_map[of xs get_int JInt "\<lambda>x. x"] by (simp add: list_all_iff in_i32_def cast_i32_id)

lemma get_i64s: "list_all in_i64 xs \<Longrightarrow> get_each get_i64 (map JInt xs) = Some xs"
  using get_each_map[of xs get_i64 JInt "\<lambda>x. x"] by (simp add: list_all_iff in_i64_def cast_i64_id)

lemma read_frame_json:
  "in_i32 (script_id f) \<Longrightarrow> in_i32 (line_number f) \<Longrightarrow> in_i32 (column_number f) \<Longrightarrow> read_frame (frame_json f) = f"
  by (simp add: read_frame_def frame_json_def read_str_def read_int_def read_script_id_def in_i32_def codec_simps)

lemma cast_u32: "h < 2 ^ 32 \<Longrightarrow> nat (cast_i32 (int h) mod 2 ^ 32) = h"
proof -
  assume "h < 2 ^ 32"
  have "cast_i32 (int h) mod 2 ^ 32 = (int h + 2 ^ 31 - 2 ^ 31) mod 2 ^ 32"
    unfolding cast_i32_def by (simp only: mod_diff_left_eq)
  also have "\<dots> = int h" using \<open>h < 2 ^ 32\<close> by simp
  finally show ?thesis by simp
qed

lemma read_node_json:
  assumes "node_fits n"
  shows "read_node (node_json n) = Some n"
proof -
  have "read_children (node_json n) = Some (children n)"
    using assms by (simp add: read_children_def node_json_def node_fits_def get_ints)
  moreover have "read_int (node_json n) (ascii ''id'') 0 = nid n"
    using assms by (simp add: read_int_def node_json_def node_fits_def in_i32_def cast_i32_id)
  moreover have "nat (read_int (node_json n) (ascii ''hitCount'') 0 mod 2 ^ 32) = hit_count n"
    using assms cast_u32[of "hit_count n"] by (simp add: read_int_def node_json_def node_fits_def)
  moreover have "jfind (node_json n) (ascii ''callFrame'') = Some (frame_json (frame n))"
    by (simp add: node_json_def)
  ultimately show ?thesis using assms by (simp add: read_node_def read_frame_json node_fits_def)
qed

lemma read_profile_json:
  assumes "profile_fits p"
  shows "read_profile (profile_json p) =
    Some (p\<lparr>dropped_samples := 0, sample_period_us := mean_delta (time_deltas p)\<rparr>)"
proof -
  have "get_each read_node (map node_json (nodes p)) = Some (nodes p)"
    using assms get_each_map[of "nodes p" read_node node_json "\<lambda>n. n"]
    by (simp add: profile_fits_def list_all_iff read_node_json)
  moreover have "jfind (profile_json p) (ascii ''nodes'') = Some (JArr (map node_json (nodes p)))"
    "jfind (profile_json p) (ascii ''samples'') = Some (JArr (map JInt (samples p)))"
    "jfind (profile_json p) (ascii ''timeDeltas'') = Some (JArr (map JInt (time_deltas p)))"
    by (simp_all add: profile_json_def)
  moreover have "read_i64 (profile_json p) (ascii ''startTime'') 0 = start_time p"
    "read_i64 (profile_json p) (ascii ''endTime'') 0 = end_time p"
    using assms by (simp_all add: read_i64_def profile_json_def profile_fits_def in_i64_def cast_i64_id)
  ultimately show ?thesis
    using assms by (simp add: read_profile_def profile_fits_def get_ints get_i64s)
qed

text \<open>C21: A written profile reads back, but for the drop count, which is not written, and the period, which becomes the
  mean of the positive deltas, for every JSON library that parses what it dumps and dumps no escapes but those of
  JSON. On any text the repair yields a text with such escapes only, and it leaves those texts alone.\<close>

theorem cpuprofile_round_trip:
  assumes "profile_fits p"
    and "json_parse (dump (profile_json p)) = Some (profile_json p)" and "escapes_ok False (dump (profile_json p))"
  shows "parse_v8_profile json_parse (serialize_cpuprofile dump p) =
      Some (p\<lparr>dropped_samples := 0, sample_period_us := mean_delta (time_deltas p)\<rparr>) \<and>
    escapes_ok False (sanitize_v8_json txt) \<and> sanitize_v8_json (sanitize_v8_json txt) = sanitize_v8_json txt"
proof -
  have "sanitize_v8_json (dump (profile_json p)) = dump (profile_json p)"
    using assms(3) by (simp add: sanitize_v8_json_def sanitize_ok)
  then have "parse_v8_profile json_parse (serialize_cpuprofile dump p) =
      Some (p\<lparr>dropped_samples := 0, sample_period_us := mean_delta (time_deltas p)\<rparr>)"
    using assms(2) read_profile_json[OF assms(1)] by (simp add: parse_v8_profile_def serialize_cpuprofile_def)
  moreover have "escapes_ok False (sanitize_v8_json txt)"
    unfolding sanitize_v8_json_def by (rule sanitized_escapes)
  ultimately show ?thesis by (simp add: sanitize_v8_json_def sanitize_ok)
qed

lemma sample_profile_fits: "profile_fits sample_profile"
  by (simp add: sample_profile_def profile_fits_def node_fits_def in_i32_def in_i64_def named_frame_def)

theorem cpuprofile_round_trip_witness:
  "parse_v8_profile (\<lambda>s. if s = [123, 125] then Some (profile_json sample_profile) else None)
     (serialize_cpuprofile (\<lambda>_. [123, 125]) sample_profile) = Some sample_profile"
proof -
  let ?parse = "\<lambda>s. if s = [123, 125] then Some (profile_json sample_profile) else None"
  have "mean_delta (time_deltas sample_profile) = 1000" by (simp add: sample_profile_def mean_delta_def)
  then have "sample_profile\<lparr>dropped_samples := 0, sample_period_us := mean_delta (time_deltas sample_profile)\<rparr> = sample_profile"
    by (simp add: sample_profile_def)
  then show ?thesis
    using cpuprofile_round_trip[of sample_profile ?parse "\<lambda>_. [123, 125]"] sample_profile_fits by simp
qed

end
