(* ===== verification/Spec2Isabelle.thy ===== *)
theory Spec2Isabelle
  imports Text_Lines Bsdiff Bundle_Loader Cookie_Correct Source_Map_Cache Cdp_Correct Glyph_Correct
    Capabilities_Correct Isolate_Correct Jar_Correct Timer_Log
    Single_Instance Cpu_Merge Cpu_Rows Cpu_Json
begin

text \<open>
  \<^bold>\<open>FXE: a verification library for the core of the runtime.\<close>

  FXE is a desktop application runtime in C++ around the V8 engine and a WebGPU renderer. Applications
  arrive as a binary with an archive appended (\<^verbatim>\<open>src/runtime\<close>), run JavaScript bindings
  (\<^verbatim>\<open>src/js\<close>), talk HTTP (\<^verbatim>\<open>src/net\<close>), edit and draw text (\<^verbatim>\<open>src/core\<close>, \<^verbatim>\<open>src/font\<close>) and are debugged
  over a WebSocket (\<^verbatim>\<open>src/debug\<close>). The library models the parts that carry the program's own logic
  and data formats. Every file named below is relative to the repository root.

  \<^bold>\<open>Shared theories.\<close> \<^verbatim>\<open>Prelude\<close>: machine integers (\<open>u8\<close> to \<open>u64\<close> as words; where the code computes with
  sizes, naturals with \<open>wrap32\<close>, \<open>wrap64\<close>, \<open>sub64\<close> written out), little-endian integers, the
  half-interval search, and the locale \<open>prefix_codec\<close>, the contract between a writer and a reader of a
  byte stream, interpreted for CBOR keys, 64-bit fields of the archive and VLQ numbers.
  \<^verbatim>\<open>Ascii\<close>: byte strings and the \<^verbatim>\<open>std::string\<close> operations of the parsers.

  \<^bold>\<open>Text.\<close> \<^verbatim>\<open>Utf\<close> models the transcoding in \<^verbatim>\<open>src/core/text_document.cpp\<close>: decoding inverts encoding, lone
  surrogates included. \<^verbatim>\<open>Text_Document\<close> models the piece table of the same file; its state is a record
  with the source's fields. Every edit refines a splice of the text, keeps the invariant (piece bounds,
  cumulative lengths and newline counts), slices refine the text, and an ordered batch equals the
  simultaneous replacement. \<^verbatim>\<open>Text_Lines\<close>: line index and literal search are exact. The locale
  \<open>editable_text\<close> states the contract of an editable text and is interpreted on the piece table.

  \<^bold>\<open>Formats.\<close> \<^verbatim>\<open>Cbor\<close> models \<^verbatim>\<open>src/runtime/cbor.cpp\<close>: round trip to the normal form, totality of the decoder
  on every input, well-formedness of everything it accepts. \<^verbatim>\<open>Bsdiff\<close> models
  \<^verbatim>\<open>src/runtime/bsdiff_apply.cpp\<close>: a patch built from entries yields what they describe; reads stay in
  bounds unless the header lengths wrap, and a wrapping header is shown to read outside.

  \<^bold>\<open>Archive and loader.\<close> \<^verbatim>\<open>Fxa_Archive\<close> models \<^verbatim>\<open>src/runtime/fxa_archive.cpp\<close> (packing, signing, opening,
  reading) on top of \<^verbatim>\<open>Cbor\<close>; \<^verbatim>\<open>Fxa_Correct\<close> shows that opening a packed binary returns the packed files,
  that a verified signature covers manifest and payload, and that index entries and regions stay in
  bounds. Signature, hash, compression and file system are parameters. \<^verbatim>\<open>Bundle_Loader\<close> models
  \<^verbatim>\<open>src/runtime/bundle_loader.cpp\<close> as a state machine over the archive: in a release build only signed and
  verified bundles are mounted, the font choice is optimal, cached font bytes agree with the archive.

  \<^bold>\<open>Cookies.\<close> \<^verbatim>\<open>Cookie_Jar\<close> models \<^verbatim>\<open>src/net/cookie_jar.cpp\<close> with the clock as an argument and the disk as a map;
  \<^verbatim>\<open>Cookie_Correct\<close> shows that requests carry exactly the cookies in scope, that storing a cookie refines
  a map update, the invariant of every reachable jar, and the round trip through the file.

  \<^bold>\<open>Source maps.\<close> \<^verbatim>\<open>Source_Map\<close> models \<^verbatim>\<open>src/js/source_map.cpp\<close> with the JSON parser and
  \<^verbatim>\<open>weakly_canonical\<close> as parameters and signed overflow as the outcome \<open>Overflowed\<close>. \<^verbatim>\<open>Source_Map_Correct\<close>
  has a reference encoder, the round trip of the mappings and what a lookup returns;
  \<^verbatim>\<open>Source_Map_Cache\<close> has the idempotence of path normalisation, the locale \<open>weak_canonical\<close> for what the
  component relies on of the file system, interpreted on the lexical normal form, and the
  invariant of the cache in every reachable state.

  \<^bold>\<open>Debug server.\<close> \<^verbatim>\<open>Cdp_Ws\<close> models \<^verbatim>\<open>src/debug/cdp_ws.cpp\<close>: HTTP requests, handshake, frames and the
  reader; a socket is a record of the chunks that arrive and the results of \<^verbatim>\<open>send\<close>.
  \<^verbatim>\<open>Cdp_Correct\<close>: frames round trip, the reader does not depend on how bytes are cut into chunks,
  fragmented messages arrive whole with every ping answered, requests are parsed back.

  \<^bold>\<open>Glyphs.\<close> \<^verbatim>\<open>Atlas\<close> models \<^verbatim>\<open>src/font/atlas.cpp\<close>, \<^verbatim>\<open>Glyph_Cache\<close> models \<^verbatim>\<open>src/font/glyph_cache.cpp\<close> on top of it, with a
  font backend as a record of its methods. \<^verbatim>\<open>Atlas_Correct\<close>: reservations end, bitmaps never overlap
  and read back unchanged across growth. \<^verbatim>\<open>Glyph_Correct\<close>: lookups end, counters, recency list and
  budgets agree, and every glyph that is handed out can be drawn from its page; it also shows why a
  rebuild can fail, after which glyphs keep stale positions.

  \<^bold>\<open>Capabilities.\<close> \<^verbatim>\<open>Capabilities\<close> models \<^verbatim>\<open>src/runtime/capabilities.cpp\<close> and the socket guard of
  \<^verbatim>\<open>src/runtime/v8/fxe_native.cpp\<close> that asks it, with the file system's canonical path as a parameter. The
  locale \<open>keyed_table\<close> is the contract of a table of policies by window; its interpretation gives that after
  any history the queries answer like the most permissive of the policies in force.
  \<^verbatim>\<open>Capabilities_Correct\<close>: which URLs, sockets and paths are admitted, how WebAuthn policies merge, that
  answers do not depend on the order of the hash map; and where the checks are weaker than their
  documentation: prefixes without a boundary, URLs without a scheme.

  \<^bold>\<open>Runtimes of windows.\<close> \<^verbatim>\<open>Isolate_Coordinator\<close> models \<^verbatim>\<open>src/js/isolate_coordinator.cpp\<close> as a step relation:
  runtime threads with their mutex, condition variable and queue, and any number of clients that spawn, post
  and stop, interleaved between synchronisation points. \<^verbatim>\<open>Isolate_Invariants\<close> has the locale
  \<open>coordinator_invariant\<close>, interpreted for eight invariants of the reachable states; \<^verbatim>\<open>Isolate_Correct\<close> shows
  order and completeness of the tasks, that posted work wakes its thread and that a stopped thread drains
  its queue, and two runs that the code allows: a stop that is never noticed, and a post that touches a
  destroyed runtime.

  \<^bold>\<open>Timers.\<close> \<^verbatim>\<open>Timers\<close> models \<^verbatim>\<open>src/js/bind_timers.cpp\<close>: timers, animation frames and what the event loop does
  with them. A JavaScript callback is a tree of calls to these functions, so that it ends, and may do anything
  with the results; clock and engine are parameters, and \<open>pick\<close> says which of several smallest nodes the
  priority queue has on top. \<^verbatim>\<open>Timers_Correct\<close>: in every history of programs, drains and frames in which no timer
  callback throws, active timers have one node in the heap and the loop sleeps until the next deadline; and
  cancelling a frame from an earlier callback of the same drain has no effect. \<^verbatim>\<open>Timer_Log\<close> records the calls
  and clears of a history in order, those in the middle of a drain included: a drain calls exactly the due
  timers not cleared before their turn, a timer is not called after a clear, and an exception strands the
  timers that were due with it, which stay active and are never called again.

  \<^bold>\<open>Single instance.\<close> \<^verbatim>\<open>Single_Instance\<close> models \<^verbatim>\<open>src/os/single_instance.cpp\<close>: the handoff message round trips
  and no cut-off message is accepted; launches, URLs and files are delivered once and in order, whenever the
  callbacks are installed.

  \<^bold>\<open>WebAuthn.\<close> \<^verbatim>\<open>Webauthn\<close> and \<^verbatim>\<open>Webauthn_Device\<close> model \<^verbatim>\<open>src/webauthn\<close> (\<^verbatim>\<open>auth_data.cpp\<close>, \<^verbatim>\<open>attestation.cpp\<close>,
  \<^verbatim>\<open>client_data.cpp\<close>, \<^verbatim>\<open>rp_id.cpp\<close>, \<^verbatim>\<open>options.cpp\<close>, \<^verbatim>\<open>virtual_authenticator.cpp\<close>) on top of \<^verbatim>\<open>Cbor\<close>; the
  cryptographic library and its random generator are a record of functions, with what they promise in
  \<open>platform_sizes\<close> and \<open>platform_signs\<close>. \<^verbatim>\<open>Cbor_Prefix\<close>: no proper prefix of an encoding is accepted, which the
  prefix search of the parser rests on. \<^verbatim>\<open>Webauthn_Correct\<close>: round trips of authenticator data, keys and
  attestation objects. \<^verbatim>\<open>Webauthn_Ops\<close>: what a registration attests, what an assertion signs, scopes and
  counts, and that a registered credential can be used and verifies. \<^verbatim>\<open>Credential_Jar\<close> models
  \<^verbatim>\<open>credential_jar.cpp\<close> on SQLite as a parameter; \<^verbatim>\<open>Jar_Correct\<close>: every reachable authenticator is well formed,
  and reopening the database restores it.

  \<^bold>\<open>CPU profiles.\<close> \<^verbatim>\<open>Cpu_Profile\<close> models the tree that the native sampler builds
  (\<^verbatim>\<open>src/runner/cpu_profile_native.cpp\<close>), the merge with the profile of V8 and the time per node; \<^verbatim>\<open>Cpu_Report\<close> the
  rows, stacks and table lines of the report, \<^verbatim>\<open>Cpu_Json\<close> the profile as JSON, with the JSON library as a
  parameter (all \<^verbatim>\<open>src/runner/cpu_profile_merge.cpp\<close>). \<^verbatim>\<open>Cpu_Profile_Correct\<close>: trees, and a walk over parents
  that ends and finds the path to the root. \<^verbatim>\<open>Cpu_Merge\<close>: captured stacks are read back from the native profile
  and survive the merge. \<^verbatim>\<open>Cpu_Time\<close>: the totals of the post-order are those counted along the stacks; the
  search ends for every profile. \<^verbatim>\<open>Cpu_Rows\<close>: the total of a function counts each sample once, and a row with a long
  name loses its end. \<^verbatim>\<open>Cpu_Json\<close>: profiles round trip. Walks of the report run on fuel; the number
  of nodes is enough for a tree.

  \<^bold>\<open>Loops and bounds.\<close> Loops that consume input are total functions with a size measure. The loops of the
  atlas and the glyph cache may diverge in general (a doubling can wrap to zero), so they are
  partial functions with \<open>None\<close> for divergence, and the theorems show a result under the stated size
  bounds (pages below \<open>2^31\<close> pixels a side). The CBOR decoder recurses on a depth limit of the source, so it
  needs no fuel; an allocation limit is its parameter.

  \<^bold>\<open>Not modelled.\<close> The V8 host and bindings, window and platform layers, GPU code, font backends and
  shaping, image and audio decoding are calls into engines and operating system interfaces. TLS, HTTP/2
  and compression are third-party libraries behind wrappers. Of WebAuthn, the backends of the operating
  systems, the debug handlers and the bindings are left out, and so is opening the database; of CPU profiles,
  the signal handler of the sampler and the number formats of the report. The layout solver and the packaging
  tool remain.
\<close>

end
